(* ===== verification/Prelude.thy ===== *)
theory Prelude
  imports Main "HOL-Library.Word" "HOL-Library.Multiset"
begin

text \<open>
  What the components share: the names of the machine types, the clock, the generic lemmas on
  lists, maps and words, reachability of a step relation with the \<open>invariant_system\<close> locale
  that lifts a one-step invariant to every reachable state, and the two interface locales
  several components provide: \<open>places\<close> (a bounded number of places taken and given back) and
  \<open>wire_code\<close> (a value written as a number and read back).
\<close>

named_theorems step_defs \<open>definitions of the operations of a component\<close>
named_theorems inv_defs \<open>definitions of invariants and well-formedness predicates\<close>

section \<open>Machine types and the clock\<close>

text \<open>
  A \<open>u64\<close> is a 64-bit word and its sums wrap. An \<open>Instant\<close> is a reading of the process's own
  monotonic clock and a \<open>Duration\<close> a number of nanoseconds; both are natural numbers, so
  \<open>Duration::saturating_sub\<close> is subtraction on \<open>nat\<close>. Identifiers the source keeps in a
  \<open>u128\<close> (Journeys, queues, claim tokens) are compared and never computed with.
\<close>

type_synonym u64 = "64 word"
type_synonym instant = nat
type_synonym duration = nat
type_synonym ident = nat

definition u64_saturating_sub :: "u64 \<Rightarrow> u64 \<Rightarrow> u64" where
  "u64_saturating_sub a b = (if a < b then 0 else a - b)"

definition u64_saturating_add :: "u64 \<Rightarrow> u64 \<Rightarrow> u64" where
  "u64_saturating_add a b = (if unat a + unat b < 2 ^ 64 then a + b else - 1)"

lemma unat_u64_saturating_sub [simp]: "unat (u64_saturating_sub a b) = unat a - unat b"
  by (auto simp: u64_saturating_sub_def word_less_nat_alt unat_sub_if')

lemma unat_u64_saturating_add:
  "unat (u64_saturating_add a b) = min (unat a + unat b) (2 ^ 64 - 1)"
  by (auto simp: u64_saturating_add_def unat_word_ariths min_def unsigned_minus_1_eq_mask
      mask_eq_exp_minus_1)

lemma unat_min_word: "unat (min a b) = min (unat a) (unat b)"
  for a b :: "'a::len word"
  by (auto simp: min_def word_le_nat_alt)

lemma unat_max_word: "unat (max a b) = max (unat a) (unat b)"
  for a b :: "'a::len word"
  by (auto simp: max_def word_le_nat_alt)

lemma unat_add_no_wrap:
  "unat (a + b) = unat a + unat b" if "unat a + unat b < 2 ^ 64" for a b :: u64
  using that by (simp add: unat_word_ariths)

lemma unat_u64_less: "unat w < 18446744073709551616" for w :: u64
  using unsigned_less [of w, where ?'a = nat] by simp

lemmas word_nat = word_less_nat_alt word_le_nat_alt unat_min_word unat_max_word

section \<open>Lists\<close>

lemma sum_list_update_nat:
  "sum_list (xs[i := v]) + xs ! i = sum_list xs + v" if "i < length xs" for v :: nat
  using that
proof (induction xs arbitrary: i)
  case (Cons x xs)
  then show ?case by (cases i) auto
qed simp

lemma sum_list_drop_nth:
  "sum_list (take i xs @ drop (Suc i) xs) + xs ! i = sum_list xs"
  if "i < length xs" for xs :: "nat list"
  using that by (subst (3) id_take_nth_drop [OF that]) simp

lemma nth_le_sum_list: "i < length xs \<Longrightarrow> xs ! i \<le> sum_list xs" for xs :: "nat list"
  using sum_list_drop_nth by fastforce

lemma length_filter_update:
  "length (filter P (xs[i := v])) + (if P (xs ! i) then 1 else 0)
     = length (filter P xs) + (if P v then 1 else 0)" if "i < length xs"
  using that
proof (induction xs arbitrary: i)
  case (Cons x xs)
  then show ?case by (cases i) auto
qed simp

lemma mset_concat_map_update:
  "mset (concat (map f (xs[i := v]))) + mset (f (xs ! i)) = mset (concat (map f xs)) + mset (f v)"
  if "i < length xs"
  using that
proof (induction xs arbitrary: i)
  case (Cons x xs)
  then show ?case by (cases i) (auto simp: ac_simps)
qed simp

lemma sum_list_map_update:
  "sum_list (map f (xs[i := v])) + f (xs ! i) = sum_list (map f xs) + f v" if "i < length xs"
  for f :: "'a \<Rightarrow> nat"
  using sum_list_update_nat [of i "map f xs" "f v"] that by (simp add: map_update)

lemma map_zip_fst: "length xs = length ys \<Longrightarrow> map (\<lambda>x. f (fst x)) (zip xs ys) = map f xs"
  by (induction rule: list_induct2) auto

definition push_new :: "'a \<Rightarrow> 'a list \<Rightarrow> 'a list" where
  "push_new x xs = (if x \<in> set xs then xs else xs @ [x])"

lemma set_push_new [simp]: "set (push_new x xs) = insert x (set xs)"
  by (auto simp: push_new_def)

lemma distinct_push_new [simp]: "distinct (push_new x xs) = distinct xs"
  by (auto simp: push_new_def)

lemma set_fold_push_new [simp]: "set (fold push_new ys xs) = set ys \<union> set xs"
  by (induction ys arbitrary: xs) auto

lemma distinct_fold_push_new [simp]: "distinct (fold push_new ys xs) = distinct xs"
  by (induction ys arbitrary: xs) auto

section \<open>Decimal numbers as text\<close>

text \<open>What \<open>format!\<close> and \<open>to_string\<close> write for an unsigned number.\<close>

definition digit_char :: "nat \<Rightarrow> char" where
  "digit_char d = char_of (48 + d)"

fun decimal :: "nat \<Rightarrow> string" where
  "decimal n = (if n < 10 then [digit_char n] else decimal (n div 10) @ [digit_char (n mod 10)])"

declare decimal.simps [simp del]

definition digit_val :: "char \<Rightarrow> nat" where
  "digit_val c = of_char c - 48"

definition read_decimal :: "string \<Rightarrow> nat" where
  "read_decimal cs = foldl (\<lambda>n c. 10 * n + digit_val c) 0 cs"

lemma digit_val_char: "d < 10 \<Longrightarrow> digit_val (digit_char d) = d"
  by (simp add: digit_val_def digit_char_def)

lemma read_decimal_decimal: "read_decimal (decimal n) = n"
proof (induction n rule: decimal.induct)
  case (1 n)
  then show ?case
    by (auto simp: decimal.simps [of n] read_decimal_def digit_val_char)
qed

lemma decimal_inject [simp]: "decimal m = decimal n \<longleftrightarrow> m = n"
  by (metis read_decimal_decimal)

lemma digit_char_range: "d < 10 \<Longrightarrow> digit_char d \<noteq> c" if "of_char c < (48 :: nat) \<or> 57 < (of_char c :: nat)"
  using that by (auto simp: digit_char_def)

lemma decimal_chars:
  "c \<notin> set (decimal n)" if "of_char c < (48 :: nat) \<or> 57 < (of_char c :: nat)"
proof (induction n rule: decimal.induct)
  case (1 n)
  have "digit_char d \<noteq> c" if "d < 10" for d
    using digit_char_range \<open>of_char c < 48 \<or> 57 < of_char c\<close> that by blast
  from this [of n] this [of "n mod 10"] 1 show ?case
    by (auto simp: decimal.simps [of n])
qed

lemma append_sep_inject:
  "xs @ c # ys = xs' @ c # ys' \<longleftrightarrow> xs = xs' \<and> ys = ys'" if "c \<notin> set xs" "c \<notin> set xs'"
  using that by (auto simp: append_eq_append_conv2 append_eq_Cons_conv Cons_eq_append_conv)

section \<open>Reachable states\<close>

inductive reach :: "('s \<Rightarrow> bool) \<Rightarrow> ('s \<Rightarrow> 's \<Rightarrow> bool) \<Rightarrow> 's \<Rightarrow> bool"
  for init step where
  reach_init: "init s \<Longrightarrow> reach init step s"
| reach_step: "reach init step s \<Longrightarrow> step s t \<Longrightarrow> reach init step t"

text \<open>The contract of a component with state: its invariant holds at the start and every step
  keeps it.\<close>

locale invariant_system =
  fixes init :: "'s \<Rightarrow> bool"
    and step :: "'s \<Rightarrow> 's \<Rightarrow> bool"
    and inv :: "'s \<Rightarrow> bool"
  assumes init_inv: "init s \<Longrightarrow> inv s"
    and step_inv: "inv s \<Longrightarrow> step s t \<Longrightarrow> inv t"
begin

lemma reach_inv: "reach init step s \<Longrightarrow> inv s"
  by (induction rule: reach.induct) (auto intro: init_inv step_inv)

lemma steps_inv: "step\<^sup>*\<^sup>* s t \<Longrightarrow> inv s \<Longrightarrow> inv t"
  by (induction rule: rtranclp_induct) (auto intro: step_inv)

end

section \<open>Bounded places\<close>

text \<open>
  The contract of a component that lends a bounded number of places: what it lends is within
  its room, and what is given back is room again. A carry budget, a byte budget and the Send
  pool's admission each provide it.
\<close>

locale places =
  fixes ok :: "'s \<Rightarrow> bool"
    and cap :: "'s \<Rightarrow> nat"
    and used :: "'s \<Rightarrow> nat"
    and lend :: "nat \<Rightarrow> 's \<Rightarrow> nat \<times> 's"
    and give_back :: "nat \<Rightarrow> 's \<Rightarrow> 's"
  assumes used_cap: "ok s \<Longrightarrow> used s \<le> cap s"
    and lend_keeps: "ok s \<Longrightarrow> lend n s = (k, s') \<Longrightarrow>
      ok s' \<and> cap s' = cap s \<and> used s' = used s + k \<and> k \<le> n"
    and lend_most: "ok s \<Longrightarrow> lend n s = (k, s') \<Longrightarrow> k = n \<or> used s' = cap s"
    and give_keeps: "ok s \<Longrightarrow> k \<le> used s \<Longrightarrow>
      ok (give_back k s) \<and> cap (give_back k s) = cap s \<and> used (give_back k s) = used s - k"
begin

lemma lend_exact:
  assumes "ok s" and "lend n s = (k, s')"
  shows "k = min n (cap s - used s)"
proof -
  have "used s' \<le> cap s" using lend_keeps [OF assms] used_cap [of s'] by auto
  with lend_keeps [OF assms] lend_most [OF assms] show ?thesis by auto
qed

lemma lend_give:
  assumes "ok s" and "lend n s = (k, s')"
  shows "ok (give_back k s') \<and> used (give_back k s') = used s \<and> cap (give_back k s') = cap s"
  using lend_keeps [OF assms] give_keeps [of s' k] by auto

text \<open>Takers one after the other never hold more than the most together.\<close>

lemma lend_all_bounded:
  assumes "ok s"
    and "fold (\<lambda>n (ks, s). case lend n s of (k, s') \<Rightarrow> (k # ks, s')) ns ([], s) = (ks, t)"
  shows "ok t \<and> cap t = cap s \<and> used t = used s + sum_list ks \<and> used s + sum_list ks \<le> cap s"
proof -
  let ?f = "\<lambda>n (ks, s). case lend n s of (k, s') \<Rightarrow> (k # ks, s')"
  have "ok s1 \<Longrightarrow> fold ?f ns (ks1, s1) = (ks2, t) \<Longrightarrow>
      ok t \<and> cap t = cap s1 \<and> used t + sum_list ks1 = used s1 + sum_list ks2" for ks1 s1 ks2
  proof (induction ns arbitrary: ks1 s1)
    case (Cons n ns)
    obtain k s' where l: "lend n s1 = (k, s')" by fastforce
    from lend_keeps [OF Cons.prems(1) l] have k: "ok s'" "cap s' = cap s1" "used s' = used s1 + k"
      by auto
    from Cons.prems(2) l have "fold ?f ns (k # ks1, s') = (ks2, t)" by simp
    from Cons.IH [OF k(1) this] k show ?case by auto
  qed auto
  from this [OF assms] used_cap [of t] show ?thesis by auto
qed

end

section \<open>Wire codes\<close>

text \<open>The contract of an enumeration that crosses a boundary as a number or a word.\<close>

locale wire_code =
  fixes encode :: "'a \<Rightarrow> 'c"
    and decode :: "'c \<Rightarrow> 'a option"
  assumes decode_encode: "decode (encode x) = Some x"
    and encode_decode: "decode c = Some x \<Longrightarrow> encode x = c"
begin

lemma encode_inj: "encode x = encode y \<longleftrightarrow> x = y"
  by (metis decode_encode option.inject)

lemma decode_iff: "decode c = Some x \<longleftrightarrow> c = encode x"
  using decode_encode encode_decode by blast

lemma decode_none_iff: "decode c = None \<longleftrightarrow> c \<notin> range encode"
  using decode_iff by (metis not_Some_eq rangeE rangeI)

end

end
