(* ===== verification/Audit_Chain.thy ===== *)
theory Audit_Chain
  imports Prelude
begin

text \<open>
  \<open>src/ledger/audit_chain.rs\<close>: a writer's audit chain read from Xmip Storage and walked. What Xmip Storage answers to each read, the digest
  over a record and its Streams, and the walk of the links are their libraries', arguments.
\<close>

section \<open>The chain read\<close>

record ('d, 'sr) kept_audit =
  ka_id :: ident
  ka_streams :: "ident list"
  ka_position :: nat
  ka_previous :: 'd
  ka_digest :: 'd
  ka_rest :: 'sr

record 'd chain_link =
  cl_record :: ident
  cl_position :: nat
  cl_previous :: 'd
  cl_digest :: 'd
  cl_computed :: 'd

text \<open>What copying a body came to: its bytes whole, not the bytes kept, or Xmip Storage not answering.\<close>

datatype 'e body_read = BodyWhole | BodyOther | BodyUnanswered 'e

record ('d, 'sr, 'sm, 'e) chain_storage =
  cs_query :: "string \<Rightarrow> 'e + ident list"
  cs_read_kept :: "ident \<Rightarrow> 'e + ('d, 'sr) kept_audit option"
  cs_read_stream :: "ident \<Rightarrow> ident \<Rightarrow> 'e + 'sm option"
  cs_body :: "('d, 'sr) kept_audit \<Rightarrow> 'e body_read"

text \<open>The rows of a record's Streams, those it lacks left out.\<close>

fun chain_streams :: "('d, 'sr, 'sm, 'e) chain_storage \<Rightarrow> ident \<Rightarrow> ident list \<Rightarrow> 'e + 'sm list" where
  "chain_streams cs i [] = Inr []"
| "chain_streams cs i (stream # rest) =
     (case cs_read_stream cs i stream of
        Inl e \<Rightarrow> Inl e
      | Inr row \<Rightarrow>
         (case chain_streams cs i rest of
            Inl e \<Rightarrow> Inl e
          | Inr rows \<Rightarrow> Inr ((case row of None \<Rightarrow> [] | Some r \<Rightarrow> [r]) @ rows)))"

text \<open>One record's link: none where its index entry stands and its record is gone.\<close>

definition chain_link_of ::
  "(('d, 'sr) kept_audit \<Rightarrow> 'sm list \<Rightarrow> 'd) \<Rightarrow> 'd \<Rightarrow> ('d, 'sr, 'sm, 'e) chain_storage \<Rightarrow> ident \<Rightarrow> 'e + 'd chain_link option" where
  "chain_link_of chain_digest first_digest cs i =
     (case cs_read_kept cs i of
        Inl e \<Rightarrow> Inl e
      | Inr None \<Rightarrow> Inr None
      | Inr (Some kept) \<Rightarrow>
         (case chain_streams cs (ka_id kept) (ka_streams kept) of
            Inl e \<Rightarrow> Inl e
          | Inr rows \<Rightarrow>
             (case cs_body cs kept of
                BodyUnanswered e \<Rightarrow> Inl e
              | body \<Rightarrow> Inr (Some \<lparr>cl_record = ka_id kept, cl_position = ka_position kept, cl_previous = ka_previous kept,
                  cl_digest = ka_digest kept, cl_computed = (if body = BodyWhole then chain_digest kept rows else first_digest)\<rparr>))))"

fun chain_links ::
  "(('d, 'sr) kept_audit \<Rightarrow> 'sm list \<Rightarrow> 'd) \<Rightarrow> 'd \<Rightarrow> ('d, 'sr, 'sm, 'e) chain_storage \<Rightarrow> ident list \<Rightarrow> 'e + 'd chain_link list" where
  "chain_links chain_digest first_digest cs [] = Inr []"
| "chain_links chain_digest first_digest cs (i # rest) =
     (case chain_link_of chain_digest first_digest cs i of
        Inl e \<Rightarrow> Inl e
      | Inr link \<Rightarrow>
         (case chain_links chain_digest first_digest cs rest of
            Inl e \<Rightarrow> Inl e
          | Inr links \<Rightarrow> Inr ((case link of None \<Rightarrow> [] | Some l \<Rightarrow> [l]) @ links)))"

definition verify_audit_chain ::
  "(('d, 'sr) kept_audit \<Rightarrow> 'sm list \<Rightarrow> 'd) \<Rightarrow> 'd \<Rightarrow> (string \<Rightarrow> 'd chain_link list \<Rightarrow> 'v) \<Rightarrow> ('d, 'sr, 'sm, 'e) chain_storage \<Rightarrow> string \<Rightarrow> 'e + 'v" where
  "verify_audit_chain chain_digest first_digest walk cs writer =
     (case cs_query cs writer of
        Inl e \<Rightarrow> Inl e
      | Inr ids \<Rightarrow>
         (case chain_links chain_digest first_digest cs ids of
            Inl e \<Rightarrow> Inl e
          | Inr links \<Rightarrow> Inr (walk writer links)))"

section \<open>An outage is no verdict\<close>

text \<open>Whether Xmip Storage answers every read of a record.\<close>

definition record_answered :: "('d, 'sr, 'sm, 'e) chain_storage \<Rightarrow> ident \<Rightarrow> bool" where
  "record_answered cs i \<longleftrightarrow>
     (case cs_read_kept cs i of
        Inl _ \<Rightarrow> False
      | Inr None \<Rightarrow> True
      | Inr (Some kept) \<Rightarrow> list_all (\<lambda>stream. \<not> isl (cs_read_stream cs (ka_id kept) stream)) (ka_streams kept) \<and>
          (case cs_body cs kept of BodyUnanswered _ \<Rightarrow> False | _ \<Rightarrow> True))"

lemma streams_answered: "isl (chain_streams cs i streams) \<longleftrightarrow> \<not> list_all (\<lambda>stream. \<not> isl (cs_read_stream cs i stream)) streams"
  by (induction streams) (auto split: sum.splits)

lemma link_answered: "isl (chain_link_of chain_digest first_digest cs i) \<longleftrightarrow> \<not> record_answered cs i"
proof (cases "cs_read_kept cs i")
  case (Inr read)
  show ?thesis
  proof (cases read)
    case (Some kept)
    show ?thesis using Inr Some streams_answered [of cs "ka_id kept" "ka_streams kept"]
      by (cases "chain_streams cs (ka_id kept) (ka_streams kept)"; cases "cs_body cs kept") (simp_all add: chain_link_of_def record_answered_def)
  qed (simp add: Inr chain_link_of_def record_answered_def)
qed (simp add: chain_link_of_def record_answered_def)

lemma links_answered: "isl (chain_links chain_digest first_digest cs ids) \<longleftrightarrow> \<not> list_all (record_answered cs) ids"
proof (induction ids)
  case (Cons i ids)
  then show ?case using link_answered [of chain_digest first_digest cs i] by (auto split: sum.splits)
qed simp

lemma links_all:
  "chain_links chain_digest first_digest cs ids = Inr links \<Longrightarrow>
     links = List.map_filter (\<lambda>i. projr (chain_link_of chain_digest first_digest cs i)) ids"
  by (induction ids arbitrary: links) (auto simp: map_filter_simps split: sum.splits option.splits)

text \<open>An outage of Xmip Storage is never a verdict, and a verdict is over the whole chain: the walk is of one link for each record that
  stands, in the order of the index, exactly where every read of every record was answered; a body that is not the bytes kept is evidence,
  its link's digest unmatched, and no outage.\<close>

theorem outage_is_no_verdict:
  assumes "cs_query cs writer = Inr ids"
  shows "verify_audit_chain chain_digest first_digest walk cs writer = Inr verdict \<longleftrightarrow>
    list_all (record_answered cs) ids \<and>
    verdict = walk writer (List.map_filter (\<lambda>i. projr (chain_link_of chain_digest first_digest cs i)) ids)"
  using assms links_answered [of chain_digest first_digest cs ids] links_all [of chain_digest first_digest cs ids]
  by (auto simp: verify_audit_chain_def split: sum.splits)

end
