(* ===== verification/Pool.thy ===== *)
theory Pool
  imports Prelude
begin

text \<open>
  \<open>src/pool.rs\<close>: the dynamic, bounded pool of threads. \<open>pool_state\<close> is the state under the
  pool's lock; \<open>pool_run\<close>, \<open>serve_look\<close>, \<open>serve_wake\<close> and \<open>pool_drop\<close> are its critical
  sections, each atomic under that lock: what \<open>Pool::run\<close> does, what a thread decides with the
  lock held (take a piece, rest, or end), what it decides as its rest ends, and the close. The
  system \<open>pool_sys\<close> adds every thread's phase and what became of every piece.
\<close>

section \<open>The pool's state and its critical sections\<close>

record 'w pool_state =
  queued :: "'w list"
  threads :: nat
  waiting :: nat
  closed :: bool

definition pool_new :: "'w pool_state" where [step_defs]:
  "pool_new = \<lparr>queued = [], threads = 1, waiting = 0, closed = False\<rparr>"

text \<open>\<open>Pool::run\<close>: whether a thread is started, and the state it leaves.\<close>

definition pool_run :: "nat \<Rightarrow> 'w \<Rightarrow> 'w pool_state \<Rightarrow> bool \<times> 'w pool_state" where [step_defs]:
  "pool_run most work s =
     (let s = s\<lparr>queued := queued s @ [work]\<rparr>;
          start = (waiting s < length (queued s) \<and> threads s < most)
      in (start, if start then s\<lparr>threads := threads s + 1\<rparr> else s))"

definition pool_drop :: "'w pool_state \<Rightarrow> 'w pool_state" where [step_defs]:
  "pool_drop s = s\<lparr>closed := True\<rparr>"

datatype 'w serve_next = Takes 'w | Ends | Rests

text \<open>One turn of \<open>serve\<close>'s loop with the lock held: a piece popped, the end where the pool is
  closed and drained, else the rest.\<close>

definition serve_look :: "'w pool_state \<Rightarrow> 'w serve_next \<times> 'w pool_state" where [step_defs]:
  "serve_look s =
     (case queued s of
        work # rest \<Rightarrow> (Takes work, s\<lparr>queued := rest\<rparr>)
      | [] \<Rightarrow> if closed s then (Ends, s\<lparr>threads := threads s - 1\<rparr>)
              else (Rests, s\<lparr>waiting := waiting s + 1\<rparr>))"

text \<open>A rest ended, the lock held again: the thread ends where its idle time passed with nothing
  queued and another thread left, else looks again.\<close>

definition serve_wake :: "bool \<Rightarrow> 'w pool_state \<Rightarrow> 'w serve_next \<times> 'w pool_state" where [step_defs]:
  "serve_wake timed_out s =
     (let s = s\<lparr>waiting := waiting s - 1\<rparr> in
      if timed_out \<and> queued s = [] \<and> 1 < threads s then (Ends, s\<lparr>threads := threads s - 1\<rparr>)
      else serve_look s)"

section \<open>The threads\<close>

datatype 'w phase = Looking | Working 'w | Resting | Gone

record 'w pool_sys =
  pool :: "'w pool_state"
  limit :: nat
  phases :: "'w phase list"
  submitted :: "'w list"
  started :: "'w list"
  finished :: "'w list"

fun phase_of :: "'w serve_next \<Rightarrow> 'w phase" where
  "phase_of (Takes w) = Working w"
| "phase_of Ends = Gone"
| "phase_of Rests = Resting"

fun taken_of :: "'w serve_next \<Rightarrow> 'w list" where
  "taken_of (Takes w) = [w]"
| "taken_of _ = []"

fun in_hand :: "'w phase \<Rightarrow> 'w list" where
  "in_hand (Working w) = [w]"
| "in_hand _ = []"

text \<open>What one thread does by itself: a look, a rest ended, or its piece ended \<^emph>\<open>however it
  ended\<close> (a panic is caught, and the thread takes the next).\<close>

inductive worker_step :: "'w pool_sys \<Rightarrow> 'w pool_sys \<Rightarrow> bool" where
  looks: "i < length (phases s) \<Longrightarrow> phases s ! i = Looking \<Longrightarrow> serve_look (pool s) = (d, p) \<Longrightarrow>
    worker_step s (s\<lparr>pool := p, phases := (phases s)[i := phase_of d],
      started := started s @ taken_of d\<rparr>)"
| wakes: "i < length (phases s) \<Longrightarrow> phases s ! i = Resting \<Longrightarrow>
    serve_wake timed_out (pool s) = (d, p) \<Longrightarrow>
    worker_step s (s\<lparr>pool := p, phases := (phases s)[i := phase_of d],
      started := started s @ taken_of d\<rparr>)"
| ends_piece: "i < length (phases s) \<Longrightarrow> phases s ! i = Working w \<Longrightarrow>
    worker_step s (s\<lparr>phases := (phases s)[i := Looking], finished := finished s @ [w]\<rparr>)"

inductive pool_step :: "'w pool_sys \<Rightarrow> 'w pool_sys \<Rightarrow> bool" where
  worker: "worker_step s t \<Longrightarrow> pool_step s t"
| runs: "\<not> closed (pool s) \<Longrightarrow> pool_run (limit s) w (pool s) = (start, p) \<Longrightarrow>
    pool_step s (s\<lparr>pool := p, phases := phases s @ (if start then [Looking] else []),
      submitted := submitted s @ [w]\<rparr>)"
| closes: "pool_step s (s\<lparr>pool := pool_drop (pool s)\<rparr>)"

text \<open>\<open>Pool::new\<close>: one thread started, and at least one allowed.\<close>

definition pool_start :: "nat \<Rightarrow> 'w pool_sys \<Rightarrow> bool" where
  "pool_start most s \<longleftrightarrow> s = \<lparr>pool = pool_new, limit = max most 1, phases = [Looking],
     submitted = [], started = [], finished = []\<rparr>"

section \<open>The invariant\<close>

definition counted_inv :: "'w pool_sys \<Rightarrow> bool" where [inv_defs]:
  "counted_inv s \<longleftrightarrow>
     threads (pool s) = length (filter (\<lambda>p. p \<noteq> Gone) (phases s)) \<and>
     waiting (pool s) = length (filter (\<lambda>p. p = Resting) (phases s)) \<and>
     threads (pool s) \<le> limit s"

definition served_inv :: "'w pool_sys \<Rightarrow> bool" where [inv_defs]:
  "served_inv s \<longleftrightarrow> (closed (pool s) \<and> queued (pool s) = [] \<or> 1 \<le> threads (pool s))"

definition pieces_inv :: "'w pool_sys \<Rightarrow> bool" where [inv_defs]:
  "pieces_inv s \<longleftrightarrow> submitted s = started s @ queued (pool s) \<and>
     mset (started s) = mset (finished s) + mset (concat (map in_hand (phases s)))"

definition pool_inv :: "nat \<Rightarrow> 'w pool_sys \<Rightarrow> bool" where
  "pool_inv most s \<longleftrightarrow> limit s = max most 1 \<and> counted_inv s \<and> served_inv s \<and> pieces_inv s"

text \<open>What every decision keeps of the counts and of the queue.\<close>

lemma look_counts:
  assumes "serve_look s = (d, p)" and "1 \<le> threads s"
  shows "threads p + (if d = Ends then 1 else 0) = threads s"
    and "waiting p = waiting s + (if d = Rests then 1 else 0)"
    and "closed p = closed s" and "queued s = taken_of d @ queued p"
    and "d = Ends \<Longrightarrow> closed s \<and> queued p = []"
  using assms by (auto simp: step_defs split: list.splits if_splits)

lemma wake_counts:
  assumes "serve_wake timed_out s = (d, p)" and "1 \<le> threads s" and "1 \<le> waiting s"
  shows "threads p + (if d = Ends then 1 else 0) = threads s"
    and "waiting p + 1 = waiting s + (if d = Rests then 1 else 0)"
    and "closed p = closed s" and "queued s = taken_of d @ queued p"
    and "d = Ends \<Longrightarrow> closed s \<and> queued p = [] \<or> 1 \<le> threads p"
  using assms by (auto simp: step_defs Let_def split: list.splits if_splits)

lemma phase_of_simps [simp]:
  "phase_of d = Gone \<longleftrightarrow> d = Ends" "phase_of d = Resting \<longleftrightarrow> d = Rests"
  "in_hand (phase_of d) = taken_of d"
  by (cases d; simp)+

lemma alive_counted:
  "counted_inv s \<Longrightarrow> i < length (phases s) \<Longrightarrow> phases s ! i \<noteq> Gone \<Longrightarrow> 1 \<le> threads (pool s)"
  "counted_inv s \<Longrightarrow> i < length (phases s) \<Longrightarrow> phases s ! i = Resting \<Longrightarrow> 1 \<le> waiting (pool s)"
  by (force simp: inv_defs Suc_le_eq filter_empty_conv dest: nth_mem)+

lemma worker_keeps:
  assumes "worker_step s t" and "pool_inv most s"
  shows "pool_inv most t"
  using assms(1)
proof (cases rule: worker_step.cases)
  case (looks i d p)
  then have t: "1 \<le> threads (pool s)" using assms(2) alive_counted(1) [of s i] by (simp add: pool_inv_def)
  have u: "length (filter P ((phases s)[i := phase_of d])) + (if P Looking then 1 else 0)
      = length (filter P (phases s)) + (if P (phase_of d) then 1 else 0)" for P
    using looks length_filter_update [of i "phases s" P "phase_of d"] by simp
  show ?thesis
    using looks assms(2) look_counts [OF looks(4) t] u [of "\<lambda>p. p \<noteq> Gone"] u [of "\<lambda>p. p = Resting"]
      mset_concat_map_update [of i "phases s" in_hand "phase_of d"]
    by (auto simp: pool_inv_def inv_defs split: if_splits)
next
  case (wakes i timed_out d p)
  then have t: "1 \<le> threads (pool s)" "1 \<le> waiting (pool s)"
    using assms(2) alive_counted [of s i] by (simp_all add: pool_inv_def)
  have u: "length (filter P ((phases s)[i := phase_of d])) + (if P Resting then 1 else 0)
      = length (filter P (phases s)) + (if P (phase_of d) then 1 else 0)" for P
    using wakes length_filter_update [of i "phases s" P "phase_of d"] by simp
  show ?thesis
    using wakes assms(2) wake_counts [OF wakes(4) t] u [of "\<lambda>p. p \<noteq> Gone"]
      u [of "\<lambda>p. p = Resting"] mset_concat_map_update [of i "phases s" in_hand "phase_of d"]
    by (auto simp: pool_inv_def inv_defs split: if_splits)
next
  case (ends_piece i w)
  have u: "length (filter P ((phases s)[i := Looking])) + (if P (Working w) then 1 else 0)
      = length (filter P (phases s)) + (if P Looking then 1 else 0)" for P
    using ends_piece length_filter_update [of i "phases s" P Looking] by simp
  show ?thesis
    using ends_piece assms(2) u [of "\<lambda>p. p \<noteq> Gone"] u [of "\<lambda>p. p = Resting"]
      mset_concat_map_update [of i "phases s" in_hand Looking]
    by (auto simp: pool_inv_def inv_defs)
qed

interpretation pools: invariant_system "pool_start most" pool_step "pool_inv most" for most
proof
  show "pool_start most s \<Longrightarrow> pool_inv most s" for s :: "'w pool_sys"
    by (auto simp: pool_start_def pool_inv_def inv_defs step_defs)
next
  fix s t :: "'w pool_sys"
  assume inv: "pool_inv most s" and "pool_step s t"
  from this(2) show "pool_inv most t"
  proof (cases rule: pool_step.cases)
    case worker
    then show ?thesis using inv by (rule worker_keeps)
  next
    case (runs w start p)
    then show ?thesis using inv
      by (auto simp: pool_inv_def inv_defs step_defs Let_def split: if_splits)
  next
    case closes
    then show ?thesis using inv by (auto simp: pool_inv_def inv_defs step_defs)
  qed
qed

section \<open>Draining\<close>

text \<open>What a closed pool has left to do: every thread step makes it smaller.\<close>

fun phase_left :: "'w phase \<Rightarrow> nat" where
  "phase_left Looking = 1"
| "phase_left (Working w) = 2"
| "phase_left Resting = 2"
| "phase_left Gone = 0"

definition pool_left :: "'w pool_sys \<Rightarrow> nat" where
  "pool_left s = 3 * length (queued (pool s)) + sum_list (map phase_left (phases s))"

lemma closed_look_left:
  "serve_look s = (d, p) \<Longrightarrow> closed s \<Longrightarrow>
     3 * length (queued p) + phase_left (phase_of d) < 3 * length (queued s) + 1"
  by (auto simp: step_defs split: list.splits if_splits)

lemma closed_wake_left:
  "serve_wake timed_out s = (d, p) \<Longrightarrow> closed s \<Longrightarrow>
     3 * length (queued p) + phase_left (phase_of d) < 3 * length (queued s) + 2"
  by (auto simp: step_defs Let_def split: list.splits if_splits)

lemma closed_worker_left:
  assumes "worker_step s t" and "closed (pool s)"
  shows "pool_left t < pool_left s"
  using assms(1)
proof (cases rule: worker_step.cases)
  case (looks i d p)
  then show ?thesis
    using sum_list_map_update [of i "phases s" phase_left "phase_of d"]
      closed_look_left [OF looks(4) assms(2)] by (simp add: pool_left_def)
next
  case (wakes i timed_out d p)
  then show ?thesis
    using sum_list_map_update [of i "phases s" phase_left "phase_of d"]
      closed_wake_left [OF wakes(4) assms(2)] by (simp add: pool_left_def)
next
  case (ends_piece i w)
  then show ?thesis
    using sum_list_map_update [of i "phases s" phase_left Looking] by (simp add: pool_left_def)
qed

lemma alive_can_step:
  assumes "p \<in> set (phases s)" and "p \<noteq> Gone"
  shows "\<exists>t. worker_step s t"
proof -
  from assms(1) obtain i where i: "i < length (phases s)" "phases s ! i = p"
    by (auto simp: in_set_conv_nth)
  show ?thesis
  proof (cases p)
    case Looking
    then show ?thesis using i worker_step.looks [of i s] by (metis surj_pair)
  next
    case (Working w)
    then show ?thesis using i worker_step.ends_piece [of i s] by blast
  next
    case Resting
    then show ?thesis using i worker_step.wakes [of i s False] by (metis surj_pair)
  next
    case Gone
    then show ?thesis using assms(2) by simp
  qed
qed

lemma stuck_all_gone:
  assumes "\<nexists>t. worker_step s t"
  shows "concat (map in_hand (phases s)) = []" and "filter (\<lambda>p. p \<noteq> Gone) (phases s) = []"
  using assms alive_can_step [of _ s] by (force simp: filter_empty_conv)+

text \<open>A pool of one thread at its start, with one piece queued, and closed: the runs the witnesses
  below apply the properties at.\<close>

abbreviation pool_at :: "nat pool_state \<Rightarrow> nat list \<Rightarrow> nat pool_sys" where
  "pool_at p ws \<equiv> \<lparr>pool = p, limit = 1, phases = [Looking], submitted = ws, started = [], finished = []\<rparr>"

lemma pool_at_start: "reach (pool_start 1) pool_step (pool_at pool_new [])"
  by (rule reach_init) (simp add: pool_start_def)

lemma pool_at_queued: "reach (pool_start 1) pool_step (pool_at (pool_new\<lparr>queued := [7]\<rparr>) [7])"
proof -
  have "pool_step (pool_at pool_new []) (pool_at (pool_new\<lparr>queued := [7]\<rparr>) [7])"
    using pool_step.runs [of "pool_at pool_new []" 7 False "pool_new\<lparr>queued := [7]\<rparr>"]
    by (simp add: step_defs)
  with pool_at_start show ?thesis by (rule reach_step)
qed

lemma pool_at_closed: "reach (pool_start 1) pool_step (pool_at (pool_drop pool_new) [])"
  using reach_step [OF pool_at_start pool_step.closes] by simp

section \<open>Properties\<close>

text \<open>A pool's count of its threads is the threads it has, on every interleaving; never more
  than its most, and never none while it is open.\<close>

theorem pool_bounded:
  assumes "reach (pool_start most) pool_step s"
  shows "threads (pool s) = length (filter (\<lambda>p. p \<noteq> Gone) (phases s)) \<and>
    threads (pool s) \<le> max most 1 \<and> (\<not> closed (pool s) \<longrightarrow> 1 \<le> threads (pool s))"
  using pools.reach_inv [OF assms] by (auto simp: pool_inv_def inv_defs)

theorem pool_bounded_witness:
  "threads (pool (pool_at pool_new [])) \<le> max 1 1"
  using pool_bounded [OF pool_at_start] by blast

text \<open>C15: the pieces handed to a pool start in the order they were handed over, and each that
  started is either still being worked, on one thread, or ended once: none is lost, none runs
  twice, a piece that panics among them.\<close>

theorem pool_runs_each_once:
  assumes "reach (pool_start most) pool_step s"
  shows "submitted s = started s @ queued (pool s) \<and>
    mset (submitted s) =
      mset (finished s) + mset (concat (map in_hand (phases s))) + mset (queued (pool s))"
  using pools.reach_inv [OF assms] by (auto simp: pool_inv_def inv_defs)

theorem pool_runs_each_once_witness:
  "mset [7 :: nat] = mset (finished (pool_at (pool_new\<lparr>queued := [7]\<rparr>) [7])) + mset [7]"
  using pool_runs_each_once [OF pool_at_queued] by simp

text \<open>A closed pool drains: every step of a thread leaves less to do, and where no thread can
  step any more, every piece handed over has ended. So work queued is never stranded.\<close>

theorem pool_drains:
  assumes "reach (pool_start most) pool_step s" and "closed (pool s)"
  shows "(\<forall>t. worker_step s t \<longrightarrow> pool_left t < pool_left s) \<and>
    ((\<nexists>t. worker_step s t) \<longrightarrow> mset (finished s) = mset (submitted s))"
  using pools.reach_inv [OF assms(1)] closed_worker_left [OF _ assms(2)] stuck_all_gone [of s]
  by (auto simp: pool_inv_def inv_defs)

theorem pool_drains_witness:
  "\<exists>t. worker_step (pool_at (pool_drop pool_new) []) t \<and>
     pool_left t < pool_left (pool_at (pool_drop pool_new) [])"
  using pool_drains [OF pool_at_closed] alive_can_step [of Looking "pool_at (pool_drop pool_new) []"]
  by (auto simp: step_defs)

text \<open>While pieces are queued, some thread can step: nothing waits with no thread to take it,
  in an open pool or a closed one.\<close>

theorem pool_never_strands:
  assumes "reach (pool_start most) pool_step s" and "queued (pool s) \<noteq> []"
  shows "\<exists>t. worker_step s t"
proof -
  from pools.reach_inv [OF assms(1)] assms(2)
  have "filter (\<lambda>p. p \<noteq> Gone) (phases s) \<noteq> []" by (auto simp: pool_inv_def inv_defs)
  with stuck_all_gone(2) show ?thesis by blast
qed

theorem pool_never_strands_witness:
  "\<exists>t. worker_step (pool_at (pool_new\<lparr>queued := [7]\<rparr>) [7]) t"
  using pool_never_strands [OF pool_at_queued] by simp

end
