(* ===== verification/Ledger_Stream.thy ===== *)
theory Ledger_Stream
  imports Prelude
begin

text \<open>
  \<open>src/ledger.rs\<close>: a Stream written into the Ledger a chunk at a time. What is read of a Stream is its
  bytes and what reading past them answers, its end or a fault; Xmip Storage refuses a write or takes
  it. The chunk's number is a 32-bit word and the length a 64-bit word, as the code has them; the
  digest is the storage library's, an argument. The loop is shown equal to a reference that cuts the
  bytes into pieces and asks for one write each.
\<close>

section \<open>What is written\<close>

definition segments :: nat where "segments = 44"

definition chunk_size :: "nat \<Rightarrow> nat" where "chunk_size tcp_segment = segments * tcp_segment"

record stream_chunk =
  sk_stream :: ident
  sk_index :: "32 word"
  sk_bytes :: string

record stream_record =
  sd_stream :: ident
  sd_length :: "64 word"
  sd_chunks :: "32 word"
  sd_digest :: string

datatype stream_write = WriteChunk stream_chunk | WriteStream stream_chunk stream_record

record kept =
  kp_stream :: ident
  kp_length :: "64 word"
  kp_chunks :: "32 word"

record 'd stream_digest =
  dg_default :: 'd
  dg_update :: "'d \<Rightarrow> string \<Rightarrow> 'd"
  dg_finish :: "'d \<Rightarrow> string"

text \<open>A reader: the bytes it gives yet, and the fault it ends by, where it does.\<close>

record reader =
  rd_bytes :: string
  rd_fault :: "string option"

datatype stream_error = Unread string | Refused ident string

section \<open>The loop\<close>

definition fill :: "reader \<Rightarrow> nat \<Rightarrow> stream_error + string \<times> reader" where
  "fill rd chunk =
     (if chunk \<le> length (rd_bytes rd)
      then Inr (take chunk (rd_bytes rd), rd\<lparr>rd_bytes := drop chunk (rd_bytes rd)\<rparr>)
      else case rd_fault rd of
             None \<Rightarrow> Inr (rd_bytes rd, rd\<lparr>rd_bytes := []\<rparr>)
           | Some why \<Rightarrow> Inl (Unread why))"

text \<open>The chunk read ahead, to know whether there is more.\<close>

definition read_ahead :: "nat \<Rightarrow> string \<Rightarrow> reader \<Rightarrow> stream_error + string option \<times> reader" where
  "read_ahead chunk pending rd =
     (if length pending < chunk then Inr (None, rd)
      else case fill rd chunk of
             Inl e \<Rightarrow> Inl e
           | Inr (next, rd') \<Rightarrow> Inr (if next = [] then None else Some next, rd'))"

lemma read_ahead_fewer:
  "read_ahead chunk pending rd = Inr (Some next, rd') \<Longrightarrow> length (rd_bytes rd') < length (rd_bytes rd)"
  by (cases chunk) (auto simp: read_ahead_def fill_def split: if_splits option.splits)

function write_loop ::
  "'d stream_digest \<Rightarrow> (stream_write \<Rightarrow> string option) \<Rightarrow> nat \<Rightarrow> reader \<Rightarrow> string \<Rightarrow> kept \<Rightarrow> 'd \<Rightarrow>
     stream_write list \<times> (stream_error + kept)" where
  "write_loop dg refuses chunk rd pending kept d =
     (case read_ahead chunk pending rd of
        Inl e \<Rightarrow> ([], Inl e)
      | Inr (next, rd') \<Rightarrow>
         let written = \<lparr>sk_stream = kp_stream kept, sk_index = kp_chunks kept, sk_bytes = pending\<rparr>;
             kept' = kept\<lparr>kp_length := kp_length kept + of_nat (length pending), kp_chunks := kp_chunks kept + 1\<rparr>;
             d' = dg_update dg d pending in
         case next of
           None \<Rightarrow>
             let w = WriteStream written \<lparr>sd_stream = kp_stream kept, sd_length = kp_length kept',
                       sd_chunks = kp_chunks kept', sd_digest = dg_finish dg d'\<rparr> in
             ([w], case refuses w of Some why \<Rightarrow> Inl (Refused (kp_stream kept) why) | None \<Rightarrow> Inr kept')
         | Some next \<Rightarrow>
             (case refuses (WriteChunk written) of
                Some why \<Rightarrow> ([WriteChunk written], Inl (Refused (kp_stream kept) why))
              | None \<Rightarrow> (case write_loop dg refuses chunk rd' next kept' d' of
                          (ws, r) \<Rightarrow> (WriteChunk written # ws, r))))"
  by pat_completeness auto

termination
  by (relation "measure (\<lambda>(dg, refuses, chunk, rd, pending, kept, d). length (rd_bytes rd))")
    (auto dest: read_ahead_fewer)

declare write_loop.simps [simp del]

definition write_stream ::
  "'d stream_digest \<Rightarrow> (stream_write \<Rightarrow> string option) \<Rightarrow> ident \<Rightarrow> reader \<Rightarrow> nat \<Rightarrow> stream_write list \<times> (stream_error + kept)" where
  "write_stream dg refuses stream rd chunk =
     (let chunk = max chunk 1 in
      case fill rd chunk of
        Inl e \<Rightarrow> ([], Inl e)
      | Inr (pending, rd') \<Rightarrow>
          write_loop dg refuses chunk rd' pending \<lparr>kp_stream = stream, kp_length = 0, kp_chunks = 0\<rparr> (dg_default dg))"

section \<open>The reference\<close>

text \<open>The bytes cut into pieces, the last of them the shorter; the empty Stream is one empty piece.\<close>

function pieces :: "nat \<Rightarrow> string \<Rightarrow> string list" where
  "pieces n bs = (if n = 0 \<or> length bs \<le> n then [bs] else take n bs # pieces n (drop n bs))"
  by pat_completeness auto
termination by (relation "measure (\<lambda>(n, bs). length bs)") auto

declare pieces.simps [simp del]

definition numbered :: "ident \<Rightarrow> nat \<Rightarrow> string list \<Rightarrow> stream_chunk list" where
  "numbered stream k ps = map (\<lambda>(i, p). \<lparr>sk_stream = stream, sk_index = of_nat i, sk_bytes = p\<rparr>) (enumerate k ps)"

text \<open>What is asked to be written of a Stream whose bytes are \<open>bs\<close>, \<open>k\<close> chunks of \<open>l\<close> bytes and the
  digest \<open>d\<close> gone before.\<close>

definition writes_from :: "'d stream_digest \<Rightarrow> ident \<Rightarrow> nat \<Rightarrow> nat \<Rightarrow> 'd \<Rightarrow> string list \<Rightarrow> stream_write list" where
  "writes_from dg stream k l d ps =
     map WriteChunk (numbered stream k (butlast ps)) @
     [WriteStream \<lparr>sk_stream = stream, sk_index = of_nat (k + length ps - 1), sk_bytes = last ps\<rparr>
        \<lparr>sd_stream = stream, sd_length = of_nat (l + length (concat ps)), sd_chunks = of_nat (k + length ps),
         sd_digest = dg_finish dg (foldl (dg_update dg) d ps)\<rparr>]"

text \<open>Each write asked in turn until one is refused, and what all of them come to.\<close>

fun ask_each ::
  "(stream_write \<Rightarrow> string option) \<Rightarrow> ident \<Rightarrow> stream_error + kept \<Rightarrow> stream_write list \<Rightarrow> stream_write list \<times> (stream_error + kept)" where
  "ask_each refuses stream r [] = ([], r)"
| "ask_each refuses stream r (w # ws) =
     (case refuses w of
        Some why \<Rightarrow> ([w], Inl (Refused stream why))
      | None \<Rightarrow> (case ask_each refuses stream r ws of (out, r') \<Rightarrow> (w # out, r')))"

lemma pieces_short [simp]: "length bs \<le> n \<Longrightarrow> pieces n bs = [bs]"
  by (subst pieces.simps) simp

lemma pieces_long: "0 < n \<Longrightarrow> n < length bs \<Longrightarrow> pieces n bs = take n bs # pieces n (drop n bs)"
  by (subst pieces.simps) simp

lemma pieces_nonempty [simp]: "pieces n bs \<noteq> []"
  by (subst pieces.simps) simp

lemma concat_pieces [simp]: "concat (pieces n bs) = bs"
proof (induction n bs rule: pieces.induct)
  case (1 n bs)
  then show ?case by (subst pieces.simps) simp
qed

lemma pieces_full:
  assumes "0 < n"
  shows "(\<forall>p \<in> set (butlast (pieces n bs)). length p = n) \<and> length (last (pieces n bs)) \<le> n \<and>
    (bs \<noteq> [] \<longrightarrow> last (pieces n bs) \<noteq> [])"
  using assms
proof (induction n bs rule: pieces.induct)
  case (1 n bs)
  show ?case
  proof (cases "length bs \<le> n")
    case False
    define ps where "ps = pieces n (drop n bs)"
    have long: "pieces n bs = take n bs # ps" using 1(2) False by (simp add: pieces_long ps_def)
    have "\<not> (n = 0 \<or> length bs \<le> n)" using 1(2) False by simp
    note ih = 1(1) [OF this 1(2), folded ps_def]
    have "ps \<noteq> []" "drop n bs \<noteq> []" using False by (simp_all add: ps_def)
    then have "butlast (pieces n bs) = take n bs # butlast ps" "last (pieces n bs) = last ps"
      by (simp_all only: long butlast.simps last.simps if_False)
    with ih \<open>drop n bs \<noteq> []\<close> False show ?thesis by simp
  qed auto
qed

section \<open>The loop is the reference\<close>

lemma writes_from_one [simp]:
  "writes_from dg stream k l d [p] =
     [WriteStream \<lparr>sk_stream = stream, sk_index = of_nat k, sk_bytes = p\<rparr>
        \<lparr>sd_stream = stream, sd_length = of_nat (l + length p), sd_chunks = of_nat (k + 1),
         sd_digest = dg_finish dg (dg_update dg d p)\<rparr>]"
  by (simp add: writes_from_def numbered_def)

lemma writes_from_Cons:
  "ps \<noteq> [] \<Longrightarrow> writes_from dg stream k l d (p # ps) =
     WriteChunk \<lparr>sk_stream = stream, sk_index = of_nat k, sk_bytes = p\<rparr> #
       writes_from dg stream (k + 1) (l + length p) (dg_update dg d p) ps"
  by (simp add: writes_from_def numbered_def add.assoc)

lemma fill_ends: "length (rd_bytes rd) < chunk \<Longrightarrow> rd_fault rd = None \<Longrightarrow> fill rd chunk = Inr (rd_bytes rd, rd\<lparr>rd_bytes := []\<rparr>)"
  by (simp add: fill_def)

lemma write_loop_reference:
  assumes "0 < chunk" and "rd_fault rd = None"
    and "length pending = chunk \<or> length pending < chunk \<and> rd_bytes rd = []"
  shows "write_loop dg refuses chunk rd pending \<lparr>kp_stream = stream, kp_length = of_nat l, kp_chunks = of_nat k\<rparr> d =
    (let ps = pieces chunk (pending @ rd_bytes rd) in
     ask_each refuses stream
       (Inr \<lparr>kp_stream = stream, kp_length = of_nat (l + length (pending @ rd_bytes rd)), kp_chunks = of_nat (k + length ps)\<rparr>)
       (writes_from dg stream k l d ps))"
  using assms
proof (induction "length (rd_bytes rd)" arbitrary: rd pending k l d rule: less_induct)
  case less
  show ?case
  proof (cases "rd_bytes rd = []")
    case True
    then have "read_ahead chunk pending rd = Inr (None, rd)"
      using less.prems by (auto simp: read_ahead_def fill_def)
    moreover have "pieces chunk (pending @ rd_bytes rd) = [pending]" using True less.prems(3) by auto
    ultimately show ?thesis
      using True by (subst write_loop.simps) (simp add: Let_def add_ac split: option.split)
  next
    case False
    let ?next = "take chunk (rd_bytes rd)" and ?rd = "rd\<lparr>rd_bytes := drop chunk (rd_bytes rd)\<rparr>"
    have p: "length pending = chunk" using less.prems(3) False by simp
    have ahead: "read_ahead chunk pending rd = Inr (Some ?next, ?rd)"
      using less.prems(1,2) False p by (auto simp: read_ahead_def fill_def)
    have "length ?next = chunk \<or> length ?next < chunk \<and> rd_bytes ?rd = []" by auto
    note rec = less.hyps [OF _ less.prems(1) _ this, of "l + length pending" "k + 1" "dg_update dg d pending"]
    have "pieces chunk (pending @ rd_bytes rd) = pending # pieces chunk (rd_bytes rd)"
      using pieces_long [of chunk "pending @ rd_bytes rd"] less.prems(1) False p by simp
    then show ?thesis
      using rec less.prems(1,2) False p ahead
      by (subst write_loop.simps) (simp add: writes_from_Cons Let_def add_ac split: option.split)
  qed
qed

lemma write_loop_fault:
  assumes "0 < chunk" and "rd_fault rd = Some why" and "length pending = chunk"
  shows "write_loop dg refuses chunk rd pending \<lparr>kp_stream = stream, kp_length = of_nat l, kp_chunks = of_nat k\<rparr> d =
    ask_each refuses stream (Inl (Unread why))
      (map WriteChunk (numbered stream k (take (length (rd_bytes rd) div chunk) (pieces chunk (pending @ rd_bytes rd)))))"
  using assms
proof (induction "length (rd_bytes rd)" arbitrary: rd pending k l d rule: less_induct)
  case less
  show ?case
  proof (cases "length (rd_bytes rd) < chunk")
    case True
    then have "read_ahead chunk pending rd = Inl (Unread why)" using less.prems by (simp add: read_ahead_def fill_def)
    then show ?thesis using True by (subst write_loop.simps) (simp add: numbered_def)
  next
    case False
    let ?next = "take chunk (rd_bytes rd)" and ?rd = "rd\<lparr>rd_bytes := drop chunk (rd_bytes rd)\<rparr>"
    have ahead: "read_ahead chunk pending rd = Inr (Some ?next, ?rd)"
      using less.prems False by (auto simp: read_ahead_def fill_def)
    have "length ?next = chunk" using False by simp
    note rec = less.hyps [OF _ less.prems(1) _ this, of ?rd "l + length pending" "k + 1" "dg_update dg d pending"]
    have "rd_bytes rd \<noteq> []" using False less.prems(1) by auto
    then have "pieces chunk (pending @ rd_bytes rd) = pending # pieces chunk (rd_bytes rd)"
      using pieces_long [of chunk "pending @ rd_bytes rd"] less.prems by simp
    moreover have "length (rd_bytes rd) div chunk = Suc ((length (rd_bytes rd) - chunk) div chunk)"
      using False less.prems(1) by (simp add: le_div_geq)
    ultimately show ?thesis
      using rec less.prems False ahead
      by (subst write_loop.simps) (simp add: numbered_def Let_def add_ac split: option.split)
  qed
qed

text \<open>The reference, whole: the pieces numbered and asked in turn, the last with the Stream's record; of
  a Stream that could not be read, the pieces before the last read whole.\<close>

definition stream_reference ::
  "'d stream_digest \<Rightarrow> (stream_write \<Rightarrow> string option) \<Rightarrow> ident \<Rightarrow> reader \<Rightarrow> nat \<Rightarrow> stream_write list \<times> (stream_error + kept)" where
  "stream_reference dg refuses stream rd chunk =
     (let bs = rd_bytes rd; ps = pieces chunk bs; n = length ps in
      case rd_fault rd of
        None \<Rightarrow> ask_each refuses stream (Inr \<lparr>kp_stream = stream, kp_length = of_nat (length bs), kp_chunks = of_nat n\<rparr>)
          (map WriteChunk (numbered stream 0 (butlast ps)) @
           [WriteStream \<lparr>sk_stream = stream, sk_index = of_nat (n - 1), sk_bytes = last ps\<rparr>
              \<lparr>sd_stream = stream, sd_length = of_nat (length bs), sd_chunks = of_nat n,
               sd_digest = dg_finish dg (dg_update dg (dg_default dg) bs)\<rparr>])
      | Some why \<Rightarrow> ask_each refuses stream (Inl (Unread why))
          (map WriteChunk (numbered stream 0 (take (length bs div chunk - 1) ps))))"

definition digest_streams :: "'d stream_digest \<Rightarrow> bool" where
  "digest_streams dg \<longleftrightarrow> (\<forall>d a b. dg_update dg (dg_update dg d a) b = dg_update dg d (a @ b))"

lemma digest_concat:
  "digest_streams dg \<Longrightarrow> ps \<noteq> [] \<Longrightarrow> foldl (dg_update dg) d ps = dg_update dg d (concat ps)"
proof (induction ps rule: rev_induct)
  case (snoc p ps)
  then show ?case by (cases "ps = []") (auto simp: digest_streams_def)
qed simp

lemma ask_each_kept:
  "ask_each refuses stream r ws = (out, Inr k) \<Longrightarrow> r = Inr k \<and> out = ws \<and> list_all (\<lambda>w. refuses w = None) ws"
  by (induction ws arbitrary: out) (auto split: option.splits prod.splits)

fun written_bytes :: "stream_write \<Rightarrow> string" where
  "written_bytes (WriteChunk c) = sk_bytes c"
| "written_bytes (WriteStream c _) = sk_bytes c"

lemma written_numbered: "concat (map (written_bytes \<circ> WriteChunk) (numbered stream k ps)) = concat ps"
  by (induction ps arbitrary: k) (auto simp: numbered_def)

lemma write_stream_reference:
  assumes "digest_streams dg"
  shows "write_stream dg refuses stream rd chunk = stream_reference dg refuses stream rd (max chunk 1)"
proof -
  define n where "n = max chunk 1"
  have n: "0 < n" and mx: "max chunk (Suc 0) = n" by (simp_all add: n_def)
  show ?thesis
  proof (cases "rd_fault rd")
    case None
    let ?p = "take n (rd_bytes rd)" and ?rd = "rd\<lparr>rd_bytes := drop n (rd_bytes rd)\<rparr>"
    have f: "fill rd n = Inr (?p, ?rd)" using None by (simp add: fill_def)
    have "length ?p = n \<or> length ?p < n \<and> rd_bytes ?rd = []" by auto
    from write_loop_reference [OF n _ this, of dg refuses stream 0 0] None f digest_concat [OF assms, of "pieces n (rd_bytes rd)"]
    show ?thesis by (simp add: write_stream_def stream_reference_def mx writes_from_def Let_def)
  next
    case (Some why)
    show ?thesis
    proof (cases "n \<le> length (rd_bytes rd)")
      case True
      have "length (rd_bytes rd) div n - 1 = (length (rd_bytes rd) - n) div n" using True n by (simp add: le_div_geq)
      with write_loop_fault [OF n, of "rd\<lparr>rd_bytes := drop n (rd_bytes rd)\<rparr>" why "take n (rd_bytes rd)" dg refuses stream 0 0] Some True
      show ?thesis by (simp add: write_stream_def stream_reference_def mx fill_def Let_def)
    next
      case False
      with Some show ?thesis
        by (simp add: write_stream_def stream_reference_def mx fill_def Let_def numbered_def)
    qed
  qed
qed

lemma written_whole:
  assumes "digest_streams dg" and "write_stream dg refuses stream rd chunk = (ws, Inr k)"
  shows "list_all (\<lambda>w. refuses w = None) ws \<and> concat (map written_bytes ws) = rd_bytes rd \<and>
    k = \<lparr>kp_stream = stream, kp_length = of_nat (length (rd_bytes rd)), kp_chunks = of_nat (length ws)\<rparr>"
proof (intro conjI)
  note w = assms(2) [unfolded write_stream_reference [OF assms(1)] stream_reference_def]
  define ps where "ps = pieces (max chunk 1) (rd_bytes rd)"
  have f: "rd_fault rd = None" using w by (auto simp: Let_def dest: ask_each_kept split: option.splits)
  from w f obtain x c where
    k: "Inr \<lparr>kp_stream = stream, kp_length = of_nat (length (rd_bytes rd)), kp_chunks = of_nat (length ps)\<rparr> = (Inr k :: stream_error + kept)"
    and ws: "ws = map WriteChunk (numbered stream 0 (butlast ps)) @ [WriteStream c x]" "sk_bytes c = last ps"
    and taken: "list_all (\<lambda>w. refuses w = None) ws"
    by (auto simp: Let_def ps_def dest!: ask_each_kept)
  have ps: "ps \<noteq> []" by (simp add: ps_def)
  have "concat (map written_bytes ws) = concat (butlast ps @ [last ps])"
    using ws written_numbered [of stream 0 "butlast ps"] by simp
  then show "concat (map written_bytes ws) = rd_bytes rd" using ps by (simp add: ps_def del: concat_append)
  show "list_all (\<lambda>w. refuses w = None) ws" by (rule taken)
  have "length ws = length ps" using ws ps by (simp add: numbered_def)
  with k show "k = \<lparr>kp_stream = stream, kp_length = of_nat (length (rd_bytes rd)), kp_chunks = of_nat (length ws)\<rparr>" by simp
qed

text \<open>C25: writing a Stream is the reference on every branch: its bytes cut into pieces of the chunk's size,
  all but the last full, one write each in order, the last with the record of the whole length, the
  number of chunks and the digest of all the bytes; a refused write or a fault in the reading ends
  it there. It is reported kept only where every write was taken and what was written is the bytes.\<close>

theorem write_stream_equals_reference:
  assumes "digest_streams dg"
  shows "write_stream dg refuses stream rd chunk = stream_reference dg refuses stream rd (max chunk 1) \<and>
    (\<forall>p \<in> set (butlast (pieces (max chunk 1) (rd_bytes rd))). length p = max chunk 1) \<and>
    length (last (pieces (max chunk 1) (rd_bytes rd))) \<le> max chunk 1 \<and>
    (\<forall>ws k. write_stream dg refuses stream rd chunk = (ws, Inr k) \<longrightarrow>
       list_all (\<lambda>w. refuses w = None) ws \<and> concat (map written_bytes ws) = rd_bytes rd \<and>
       k = \<lparr>kp_stream = stream, kp_length = of_nat (length (rd_bytes rd)), kp_chunks = of_nat (length ws)\<rparr>)"
  using write_stream_reference [OF assms] pieces_full [of "max chunk 1" "rd_bytes rd"] written_whole [OF assms]
  by (intro conjI allI impI) simp_all

definition text_digest :: "string stream_digest" where
  "text_digest = \<lparr>dg_default = [], dg_update = (@), dg_finish = id\<rparr>"

theorem write_stream_equals_reference_witness:
  "\<exists>ws. write_stream text_digest (\<lambda>_. None) 3 \<lparr>rd_bytes = ''abcde'', rd_fault = None\<rparr> 2 =
       (ws, Inr \<lparr>kp_stream = 3, kp_length = 5, kp_chunks = 3\<rparr>) \<and>
     map written_bytes ws = [''ab'', ''cd'', ''e''] \<and> concat (map written_bytes ws) = ''abcde''"
proof -
  let ?w = "write_stream text_digest (\<lambda>_. None) 3 \<lparr>rd_bytes = ''abcde'', rd_fault = None\<rparr> 2"
  obtain ws r where w: "?w = (ws, r)" by fastforce
  have d: "digest_streams text_digest" by (simp add: digest_streams_def text_digest_def)
  have "snd ?w = Inr \<lparr>kp_stream = 3, kp_length = 5, kp_chunks = 3\<rparr>" and ws: "map written_bytes (fst ?w) = [''ab'', ''cd'', ''e'']"
    by code_simp+
  then have "r = Inr \<lparr>kp_stream = 3, kp_length = 5, kp_chunks = 3\<rparr>" using w by simp
  with w have k: "?w = (ws, Inr \<lparr>kp_stream = 3, kp_length = 5, kp_chunks = 3\<rparr>)" by simp
  with write_stream_equals_reference [OF d, of "\<lambda>_. None" 3 "\<lparr>rd_bytes = ''abcde'', rd_fault = None\<rparr>" 2]
  have c: "concat (map written_bytes ws) = ''abcde''" by (simp only: prod.inject simp_thms reader.simps)
  have m: "map written_bytes ws = [''ab'', ''cd'', ''e'']" using ws w by simp
  show ?thesis by (rule exI [of _ ws]) (intro conjI k m c)
qed

end
