(* ===== verification/Correlation.thy ===== *)
theory Correlation
  imports Prelude
begin

text \<open>
  \<open>src/work_step/keys.rs\<close> and the points of \<open>src/sequence.rs\<close>: a Correlation's keys read of a
  Journey and its Message and written out in full, and the queue a key has at a point. A
  Journey is what the runtime reads and writes of it (the \<open>journey\<close> crate's type); the queue's
  identifier is the name-based identifier \<open>named\<close> of its text, a function of the storage crate
  and therefore an argument.
\<close>

section \<open>What a Journey carries\<close>

record received =
  rec_location :: string
  rec_port :: string
  rec_origin :: ident
  rec_sequences :: "ident list"
  rec_skips :: bool

record sequenced =
  seq_queue :: ident
  seq_skips :: bool

record group_delivery =
  grp_name :: string
  grp_delivery :: ident
  grp_queue :: "ident option"
  grp_skips :: bool
  grp_members :: "ident list"

datatype journey_state = Active | JWaiting | Recovering | Completed | Failed | Dismissed

record attempts =
  at_location :: nat
  at_tries :: nat

record journey =
  journey_id :: ident
  j_received :: "received option"
  j_sequences :: "sequenced list"
  j_group :: "group_delivery option"
  j_send_port :: "string option"
  j_work_process :: "string option"
  j_subscription :: "string option"
  j_previous :: "ident option"
  j_state :: journey_state
  j_attempts :: attempts
  j_messages :: "ident list"
  j_entries :: "(string \<times> string) list"

type_synonym promoted = "string \<rightharpoonup> string"

text \<open>A Journey just opened, with nothing on it: what the concrete runs start from.\<close>

abbreviation bare_journey :: journey where
  "bare_journey \<equiv> \<lparr>journey_id = 1, j_received = None, j_sequences = [], j_group = None,
     j_send_port = None, j_work_process = None, j_subscription = None, j_previous = None,
     j_state = Active, j_attempts = \<lparr>at_location = 0, at_tries = 0\<rparr>, j_messages = [], j_entries = []\<rparr>"

section \<open>Keys\<close>

datatype journey_value = Origin | Subscription | Previous

datatype key_word = ReceiveLocationKey | ReceivePortKey | WorkProcessKey | SendPortGroupKey
  | SendPortKey | ContextKey string | JourneyKey journey_value

record resolved_set =
  set_name :: string
  set_keys :: "key_word list"

datatype key_error = NoKey string | NoKeyWord string string | Lacks key_word string

text \<open>\<open>ResolvedSet::read\<close>: the key words are read by \<open>KeyWord::read\<close> of the configuration crate,
  an argument.\<close>

fun read_keys :: "(string \<Rightarrow> string + key_word) \<Rightarrow> string \<Rightarrow> string list \<Rightarrow> key_error + key_word list" where
  "read_keys read_word name [] = Inr []"
| "read_keys read_word name (k # ks) =
     (case read_word k of
        Inl why \<Rightarrow> Inl (NoKeyWord name why)
      | Inr w \<Rightarrow> (case read_keys read_word name ks of Inl e \<Rightarrow> Inl e | Inr ws \<Rightarrow> Inr (w # ws)))"

definition read_set :: "(string \<Rightarrow> string + key_word) \<Rightarrow> string \<Rightarrow> string list \<Rightarrow> key_error + resolved_set" where
  "read_set read_word name keys =
     (if keys = [] then Inl (NoKey name)
      else case read_keys read_word name keys of
             Inl e \<Rightarrow> Inl e
           | Inr ws \<Rightarrow> Inr \<lparr>set_name = name, set_keys = ws\<rparr>)"

fun journey_value_of :: "journey \<Rightarrow> journey_value \<Rightarrow> string option" where
  "journey_value_of j Origin = map_option (\<lambda>r. decimal (rec_origin r)) (j_received j)"
| "journey_value_of j Subscription = j_subscription j"
| "journey_value_of j Previous = map_option decimal (j_previous j)"

fun key_value :: "journey \<Rightarrow> promoted \<Rightarrow> string \<Rightarrow> key_word \<Rightarrow> string option" where
  "key_value j promoted work_process ReceiveLocationKey = map_option rec_location (j_received j)"
| "key_value j promoted work_process ReceivePortKey = map_option rec_port (j_received j)"
| "key_value j promoted work_process WorkProcessKey = Some work_process"
| "key_value j promoted work_process SendPortGroupKey = map_option grp_name (j_group j)"
| "key_value j promoted work_process SendPortKey = j_send_port j"
| "key_value j promoted work_process (ContextKey name) = promoted name"
| "key_value j promoted work_process (JourneyKey v) = journey_value_of j v"

text \<open>One value as \<open>text\<close> writes it: its length, a colon, the value, a semicolon.\<close>

definition value_text :: "string \<Rightarrow> string" where
  "value_text v = decimal (length v) @ '':'' @ v @ '';''"

text \<open>\<open>ResolvedSet::text\<close>, key by key, stopping at the first part that is lacking.\<close>

fun keys_text :: "string \<Rightarrow> (key_word \<Rightarrow> string option) \<Rightarrow> key_word list \<Rightarrow> key_error + string" where
  "keys_text name val [] = Inr ''''"
| "keys_text name val (k # ks) =
     (case val k of
        None \<Rightarrow> Inl (Lacks k name)
      | Some v \<Rightarrow> (case keys_text name val ks of Inl e \<Rightarrow> Inl e | Inr t \<Rightarrow> Inr (value_text v @ t)))"

definition set_text :: "resolved_set \<Rightarrow> journey \<Rightarrow> promoted \<Rightarrow> string \<Rightarrow> key_error + string" where
  "set_text st j promoted work_process =
     keys_text (set_name st) (key_value j promoted work_process) (set_keys st)"

section \<open>Points\<close>

datatype point_kind = ReceiveLocation | ReceivePort | WorkProcess | SendPortGroup | SendPort | SendLocation

fun point_word :: "point_kind \<Rightarrow> string" where
  "point_word ReceiveLocation = ''receive-location''"
| "point_word ReceivePort = ''receive-port''"
| "point_word WorkProcess = ''work-process''"
| "point_word SendPortGroup = ''send-port-group''"
| "point_word SendPort = ''send-port''"
| "point_word SendLocation = ''send-location''"

definition end_to_end :: "point_kind \<Rightarrow> bool" where
  "end_to_end kind \<longleftrightarrow> (case kind of ReceiveLocation \<Rightarrow> True | ReceivePort \<Rightarrow> True | _ \<Rightarrow> False)"

datatype on_failure = Block | Skip

record point =
  pt_kind :: point_kind
  pt_name :: string
  pt_set :: resolved_set
  pt_on_failure :: on_failure

definition point_receive_location :: "string \<Rightarrow> point" where
  "point_receive_location name =
     \<lparr>pt_kind = ReceiveLocation, pt_name = name,
      pt_set = \<lparr>set_name = name, set_keys = [ReceiveLocationKey]\<rparr>, pt_on_failure = Block\<rparr>"

definition queue_text :: "point \<Rightarrow> string \<Rightarrow> string \<Rightarrow> string" where
  "queue_text p cluster key =
     cluster @ ''/sequence/'' @ point_word (pt_kind p) @ ''/'' @ pt_name p @ ''/''
       @ set_name (pt_set p) @ ''/'' @ key"

definition point_queue :: "(string \<Rightarrow> ident) \<Rightarrow> point \<Rightarrow> string \<Rightarrow> string \<Rightarrow> ident \<times> string" where
  "point_queue named p cluster key = (let text = queue_text p cluster key in (named text, text))"

text \<open>A \<open>Hold\<close> of the storage crate: a place in a queue, whose it is and what is kept beside it.\<close>

record hold =
  h_queue :: ident
  h_journey :: ident
  h_body :: string

definition point_at :: "point \<Rightarrow> journey \<Rightarrow> string" where
  "point_at p j =
     (if pt_kind p = WorkProcess then pt_name p
      else case j_work_process j of None \<Rightarrow> '''' | Some w \<Rightarrow> w)"

definition point_place ::
    "(string \<Rightarrow> ident) \<Rightarrow> point \<Rightarrow> string \<Rightarrow> ident \<Rightarrow> journey \<Rightarrow> promoted \<Rightarrow> key_error + hold" where
  "point_place named p cluster member j promoted =
     (case set_text (pt_set p) j promoted (point_at p j) of
        Inl e \<Rightarrow> Inl e
      | Inr key \<Rightarrow> (case point_queue named p cluster key of
          (queue, text) \<Rightarrow> Inr \<lparr>h_queue = queue, h_journey = member, h_body = text\<rparr>))"

section \<open>Written keys are told apart\<close>

lemma value_text_inject:
  "value_text v @ rest = value_text v' @ rest' \<longleftrightarrow> v = v' \<and> rest = rest'"
proof -
  have "CHR '':'' \<notin> set (decimal n)" for n by (rule decimal_chars) simp
  then show ?thesis by (auto simp: value_text_def append_sep_inject)
qed

lemma keys_text_inject:
  "keys_text n val ks = Inr t \<Longrightarrow> keys_text n' val' ks' = Inr t' \<Longrightarrow> length ks = length ks' \<Longrightarrow>
     t = t' \<longleftrightarrow> map val ks = map val' ks'"
proof (induction ks arbitrary: ks' t t')
  case (Cons k ks)
  then obtain k' ks1 where ks': "ks' = k' # ks1" by (cases ks') auto
  from Cons.prems(1) obtain v t1 where v: "val k = Some v" "keys_text n val ks = Inr t1"
      "t = value_text v @ t1"
    by (auto split: option.splits sum.splits)
  from Cons.prems(2) ks' obtain v' t1' where v': "val' k' = Some v'" "keys_text n' val' ks1 = Inr t1'"
      "t' = value_text v' @ t1'"
    by (auto split: option.splits sum.splits)
  from Cons.IH [OF v(2) v'(2)] Cons.prems(3) ks' v v' show ?case
    by (simp add: value_text_inject)
qed simp

lemma keys_text_lacks: "keys_text name val ks = Inl e \<longleftrightarrow>
  (\<exists>i < length ks. val (ks ! i) = None \<and> (\<forall>j < i. val (ks ! j) \<noteq> None) \<and> e = Lacks (ks ! i) name)"
proof (induction ks)
  case (Cons k ks)
  show ?case
  proof (cases "val k")
    case None
    then show ?thesis by (auto simp: nth_Cons' intro!: exI [of _ 0])
  next
    case (Some v)
    then have "keys_text name val (k # ks) = Inl e \<longleftrightarrow> keys_text name val ks = Inl e"
      by (auto split: sum.splits)
    also have "\<dots> \<longleftrightarrow> (\<exists>i < length ks. val (ks ! i) = None \<and> (\<forall>j < i. val (ks ! j) \<noteq> None) \<and>
        e = Lacks (ks ! i) name)" by (rule Cons.IH)
    also have "\<dots> \<longleftrightarrow> (\<exists>i < length (k # ks). val ((k # ks) ! i) = None \<and>
        (\<forall>j < i. val ((k # ks) ! j) \<noteq> None) \<and> e = Lacks ((k # ks) ! i) name)"
      using Some by (simp add: Ex_less_Suc2 All_less_Suc2)
    finally show ?thesis .
  qed
qed simp

interpretation point_words: wire_code point_word
  "\<lambda>w. find (\<lambda>k. point_word k = w)
     [ReceiveLocation, ReceivePort, WorkProcess, SendPortGroup, SendPort, SendLocation]"
proof
  show "find (\<lambda>k. point_word k = point_word x)
     [ReceiveLocation, ReceivePort, WorkProcess, SendPortGroup, SendPort, SendLocation] = Some x" for x
    by (cases x) auto
qed (auto split: if_splits)

lemma no_slash_word: "CHR ''/'' \<notin> set (point_word k)"
  by (cases k) auto

lemma queue_text_inject:
  assumes "CHR ''/'' \<notin> set (pt_name p)" "CHR ''/'' \<notin> set (pt_name p')"
    and "CHR ''/'' \<notin> set (set_name (pt_set p))" "CHR ''/'' \<notin> set (set_name (pt_set p'))"
  shows "queue_text p cluster key = queue_text p' cluster key' \<longleftrightarrow>
    pt_kind p = pt_kind p' \<and> pt_name p = pt_name p' \<and> set_name (pt_set p) = set_name (pt_set p')
    \<and> key = key'"
  using assms no_slash_word [of "pt_kind p"] no_slash_word [of "pt_kind p'"]
  by (simp add: queue_text_def append_sep_inject point_words.encode_inj)

section \<open>Properties\<close>

text \<open>Two Messages have the same written key in a Correlation exactly where every key part has
  the same value: each value carries its length, so no two tuples of values write the same text,
  whatever characters they hold.\<close>

theorem set_text_injective:
  assumes "set_text st j promoted w = Inr t" and "set_text st j' promoted' w' = Inr t'"
  shows "t = t' \<longleftrightarrow>
    map (key_value j promoted w) (set_keys st) = map (key_value j' promoted' w') (set_keys st)"
  using assms by (simp add: set_text_def keys_text_inject)

theorem set_text_injective_witness:
  "''1:a;3:;1:;'' \<noteq> ''4:a;3:;0:;''"
proof -
  let ?st = "\<lparr>set_name = ''s'', set_keys = [ContextKey ''x'', ContextKey ''y'']\<rparr>"
  let ?m = "[''x'' \<mapsto> ''a'', ''y'' \<mapsto> '';1:'']" and ?m' = "[''x'' \<mapsto> ''a;3:'', ''y'' \<mapsto> '''']"
  have "set_text ?st bare_journey ?m '''' = Inr ''1:a;3:;1:;''"
    and "set_text ?st bare_journey ?m' '''' = Inr ''4:a;3:;0:;''"
    by code_simp+
  from set_text_injective [OF this] show ?thesis by simp
qed

text \<open>A key that cannot be written says the first part the Message lacks, by its Correlation,
  and a Message that carries every part always has a key.\<close>

theorem set_text_lacks:
  "set_text st j promoted w = Inl e \<longleftrightarrow>
    (\<exists>i < length (set_keys st). key_value j promoted w (set_keys st ! i) = None
      \<and> (\<forall>k < i. key_value j promoted w (set_keys st ! k) \<noteq> None)
      \<and> e = Lacks (set_keys st ! i) (set_name st))"
  unfolding set_text_def by (rule keys_text_lacks)

text \<open>At points whose names hold no slash, the text a sequence is kept by tells the point's
  kind, its name, its Correlation and the key apart: equal keys at one point share a sequence,
  different keys or points never do, whatever their name-based identifiers come to.\<close>

theorem point_queue_told_apart:
  assumes "\<forall>p \<in> {p1, p2}. CHR ''/'' \<notin> set (pt_name p) \<and> CHR ''/'' \<notin> set (set_name (pt_set p))"
  shows "snd (point_queue named p1 cluster key1) = snd (point_queue named p2 cluster key2) \<longleftrightarrow>
    pt_kind p1 = pt_kind p2 \<and> pt_name p1 = pt_name p2 \<and>
    set_name (pt_set p1) = set_name (pt_set p2) \<and> key1 = key2"
  using assms queue_text_inject [of p1 p2 cluster key1 key2] by (simp add: point_queue_def Let_def)

theorem point_queue_told_apart_witness:
  "snd (point_queue length (point_receive_location ''in'') ''c'' ''2:in;'') \<noteq>
   snd (point_queue length (point_receive_location ''in2'') ''c'' ''2:in;'')"
  using point_queue_told_apart
    [of "point_receive_location ''in''" "point_receive_location ''in2''" length "''c''" "''2:in;''" "''2:in;''"]
  by (simp add: point_receive_location_def)

text \<open>A Receive Location that names no Correlation gives every Stream received there one and
  the same sequence, so it takes one Stream at a time.\<close>

theorem receive_location_one_sequence:
  assumes "j_received j = Some r" and "j_received j' = Some r'"
    and "rec_location r = name" and "rec_location r' = name"
  shows "map_sum id h_queue (point_place named (point_receive_location name) cluster m j promoted)
    = map_sum id h_queue (point_place named (point_receive_location name) cluster m' j' promoted')"
  using assms
  by (simp add: point_place_def point_receive_location_def set_text_def point_queue_def queue_text_def
      Let_def)

theorem receive_location_one_sequence_witness:
  "map_sum id h_queue (point_place length (point_receive_location ''in'') ''c'' 1
      (bare_journey\<lparr>j_received := Some \<lparr>rec_location = ''in'', rec_port = ''p'', rec_origin = 1,
        rec_sequences = [], rec_skips = False\<rparr>\<rparr>) Map.empty)
    = map_sum id h_queue (point_place length (point_receive_location ''in'') ''c'' 2
      (bare_journey\<lparr>j_received := Some \<lparr>rec_location = ''in'', rec_port = ''q'', rec_origin = 2,
        rec_sequences = [], rec_skips = True\<rparr>\<rparr>) Map.empty)"
  by (rule receive_location_one_sequence, simp, simp, simp, simp)

end
