(* ===== verification/Sending.thy ===== *)
theory Sending
  imports Correlation
begin

text \<open>
  \<open>src/sending.rs\<close>: a node's Send Locations, its Send Ports with their policy and its Send Port
  Groups, and where a destination routing matched is sent. A Send Location is its name and what
  its transport declares of a delivery (whether it holds it back until the Message is durable);
  the transport itself is the environment of a departure.
\<close>

datatype subscriber = ToSendPort string | ToSendGroup string | ToWorkProcess string

fun sub_name :: "subscriber \<Rightarrow> string" where
  "sub_name (ToSendPort n) = n"
| "sub_name (ToSendGroup n) = n"
| "sub_name (ToWorkProcess n) = n"

record sending =
  loc_name :: string
  loc_holds_back :: bool

record retry =
  rt_attempts :: nat
  rt_backoff :: string

record designed_send_port =
  dp_name :: string
  dp_send_locations :: "string list"
  dp_retry :: "retry option"
  dp_failover :: "string option"

record send_port_group =
  sg_name :: string
  sg_send_ports :: "string list"

record port =
  po_name :: string
  po_locations :: "sending list"
  po_policy :: "designed_send_port option"
  po_points :: "point list"

record sends =
  sn_locations :: "sending list"
  sn_groups :: "send_port_group list"
  sn_ports :: "designed_send_port list"
  sn_points :: "point list"

datatype destination = Ports "port list" | Process | Nowhere

section \<open>A Send Port's policy\<close>

definition u32_max :: nat where "u32_max = 4294967295"

definition port_tries :: "port \<Rightarrow> nat" where
  "port_tries p =
     (case Option.bind (po_policy p) dp_retry of
        None \<Rightarrow> 1
      | Some r \<Rightarrow> min (rt_attempts r + 1) u32_max)"

text \<open>The backoff's text is read by the settings crate, an argument.\<close>

definition port_backoff :: "(string \<Rightarrow> duration option) \<Rightarrow> port \<Rightarrow> duration" where
  "port_backoff read_duration p =
     (case Option.bind (Option.bind (po_policy p) dp_retry) (\<lambda>r. read_duration (rt_backoff r)) of
        None \<Rightarrow> 0
      | Some d \<Rightarrow> d)"

definition port_fails_over :: "port \<Rightarrow> bool" where
  "port_fails_over p \<longleftrightarrow> Option.bind (po_policy p) dp_failover = Some ''next''"

section \<open>Where a destination is sent\<close>

definition sends_location :: "sends \<Rightarrow> string \<Rightarrow> sending option" where
  "sends_location s name = find (\<lambda>l. loc_name l = name) (sn_locations s)"

text \<open>The Send Locations a Send Port names, in order: its policy's, or the one named as it.\<close>

definition port_named :: "sends \<Rightarrow> string \<Rightarrow> string list" where
  "port_named s name =
     (case find (\<lambda>p. dp_name p = name) (sn_ports s) of
        Some policy \<Rightarrow> if dp_send_locations policy \<noteq> [] then dp_send_locations policy else [name]
      | None \<Rightarrow> [name])"

definition sends_port :: "sends \<Rightarrow> string \<Rightarrow> port" where
  "sends_port s name =
     (let named = port_named s name in
      \<lparr>po_name = name,
       po_locations = List.map_filter (sends_location s) named,
       po_policy = find (\<lambda>p. dp_name p = name) (sn_ports s),
       po_points = filter (\<lambda>point.
         case pt_kind point of
           SendPort \<Rightarrow> pt_name point = name
         | SendLocation \<Rightarrow> pt_name point \<in> set named
         | _ \<Rightarrow> False) (sn_points s)\<rparr>)"

fun sends_to :: "sends \<Rightarrow> subscriber \<Rightarrow> destination" where
  "sends_to s (ToSendPort port) = Ports [sends_port s port]"
| "sends_to s (ToSendGroup grp) =
     (case find (\<lambda>g. sg_name g = grp) (sn_groups s) of
        None \<Rightarrow> Nowhere
      | Some g \<Rightarrow> Ports (map (sends_port s) (sg_send_ports g)))"
| "sends_to s (ToWorkProcess _) = Process"

definition sends_serves :: "sends \<Rightarrow> subscriber \<Rightarrow> bool" where
  "sends_serves s to =
     (case sends_to s to of
        Ports ports \<Rightarrow> ports \<noteq> [] \<and> (\<forall>p \<in> set ports. po_locations p \<noteq> [])
      | Process \<Rightarrow> False
      | Nowhere \<Rightarrow> False)"

text \<open>Whether a Send Port's design names the Send Location \<open>name\<close>.\<close>

definition location_named :: "sends \<Rightarrow> string \<Rightarrow> bool" where
  "location_named s name \<longleftrightarrow> (\<exists>p \<in> set (sn_ports s). name \<in> set (dp_send_locations p))"

definition served_names :: "sends \<Rightarrow> string list" where
  "served_names s =
     fold (\<lambda>l names. if loc_name l \<notin> set names \<and> \<not> location_named s (loc_name l)
                     then names @ [loc_name l] else names)
       (sn_locations s) (map dp_name (sn_ports s))"

definition sends_served :: "sends \<Rightarrow> subscriber list" where
  "sends_served s = filter (sends_serves s) (map ToSendPort (served_names s))"

text \<open>The queue of what is bound for a destination: the identifier of
  \<open>cluster/kind/name\<close>, the kind's word the route crate's.\<close>

definition send_queue :: "(string \<Rightarrow> ident) \<Rightarrow> (subscriber \<Rightarrow> string) \<Rightarrow> string \<Rightarrow> subscriber \<Rightarrow> ident" where
  "send_queue named kind cluster to = named (cluster @ ''/'' @ kind to @ ''/'' @ sub_name to)"

text \<open>\<open>send_step::sequential\<close>.\<close>

definition sequential :: "sends \<Rightarrow> subscriber \<Rightarrow> bool" where
  "sequential s to =
     (case sends_to s to of
        Ports ports \<Rightarrow> \<exists>p \<in> set ports. po_points p \<noteq> []
      | Process \<Rightarrow> False
      | Nowhere \<Rightarrow> False)"

text \<open>\<open>send_step::pass::blocks\<close>.\<close>

definition send_blocks :: "sends \<Rightarrow> subscriber \<Rightarrow> bool" where
  "send_blocks s to =
     (case sends_to s to of
        Ports ports \<Rightarrow> \<exists>p \<in> set ports. \<exists>point \<in> set (po_points p). pt_on_failure point = Block
      | Process \<Rightarrow> False
      | Nowhere \<Rightarrow> False)"

section \<open>Lemmas\<close>

lemma port_tries_bounds: "1 \<le> port_tries p" "port_tries p \<le> u32_max"
  by (auto simp: port_tries_def u32_max_def split: option.splits)

lemma port_name [simp]: "po_name (sends_port s n) = n"
  by (simp add: sends_port_def Let_def)

lemma served_names_fold:
  "set (fold (\<lambda>l names. if loc_name l \<notin> set names \<and> \<not> location_named s (loc_name l)
              then names @ [loc_name l] else names) ls ns)
   = set ns \<union> {n \<in> loc_name ` set ls. \<not> location_named s n}"
  by (induction ls arbitrary: ns) auto

lemma set_served_names:
  "n \<in> set (served_names s) \<longleftrightarrow> n \<in> dp_name ` set (sn_ports s) \<or>
     (n \<in> loc_name ` set (sn_locations s) \<and> \<not> location_named s n)"
  by (auto simp: served_names_def served_names_fold)

lemma port_locations_set:
  "l \<in> set (po_locations (sends_port s n)) \<longleftrightarrow>
     (\<exists>m \<in> set (port_named s n). sends_location s m = Some l)"
  by (force simp: sends_port_def Let_def List.map_filter_def image_iff)

lemma serves_port: "sends_serves s (ToSendPort n) \<longleftrightarrow> po_locations (sends_port s n) \<noteq> []"
  by (simp add: sends_serves_def)

lemma sends_location_name: "sends_location s n = Some l \<Longrightarrow> loc_name l = n \<and> l \<in> set (sn_locations s)"
  by (auto simp: sends_location_def find_Some_iff)


lemma sends_location_found: "(\<exists>l. sends_location s n = Some l) \<longleftrightarrow> n \<in> loc_name ` set (sn_locations s)"
  using find_None_iff [of "\<lambda>l. loc_name l = n" "sn_locations s"]
  by (auto simp: sends_location_def)

text \<open>A node serves exactly the Send Ports its Applications declare and the Send Locations no Send
  Port names, of those the ones at least one of whose Send Locations it has; never a Send Port
  Group and never a Work Process.\<close>

theorem sends_served_iff:
  "to \<in> set (sends_served s) \<longleftrightarrow>
     (\<exists>n. to = ToSendPort n \<and>
        (n \<in> dp_name ` set (sn_ports s) \<or> n \<in> loc_name ` set (sn_locations s) \<and> \<not> location_named s n) \<and>
        (\<exists>m \<in> set (port_named s n). m \<in> loc_name ` set (sn_locations s)))"
proof -
  have "po_locations (sends_port s n) \<noteq> [] \<longleftrightarrow> (\<exists>m \<in> set (port_named s n). m \<in> loc_name ` set (sn_locations s))" for n
    using port_locations_set [of _ s n] sends_location_found [of s]
    by (metis list.set_intros(1) list.exhaust empty_iff list.set(1))
  note here = this
  have "to \<in> set (sends_served s) \<longleftrightarrow>
      (\<exists>n. to = ToSendPort n \<and> n \<in> set (served_names s) \<and> sends_serves s (ToSendPort n))"
    by (auto simp: sends_served_def)
  then show ?thesis unfolding set_served_names serves_port here .
qed

end
