(* ===== verification/Sequence.thy ===== *)
theory Sequence
  imports Sending
begin

text \<open>
  \<open>src/sequence.rs\<close>, \<open>src/sequence/group.rs\<close> and \<open>src/sequence/late.rs\<close>: the sequences that let
  work through a point one at a time per key. The Ledger behind Xmip Storage answers through
  two functions of a tick, \<open>read_held\<close> (a page of a queue) and \<open>hand_on\<close> (a write under a
  claim), since its answers may change from one asking to the next; what this process has
  seen head a sequence, \<open>Headed\<close>, is a set of places threaded through every asking.
\<close>

section \<open>What the Ledger answers\<close>

record page =
  pg_held :: "hold list"
  pg_count :: nat

record claim =
  cl_journey :: ident
  cl_holder :: string
  cl_token :: ident
  cl_fence :: nat

record hand_on =
  ho_claim :: claim
  ho_result :: journey
  ho_leaves :: "ident list"
  ho_queued :: "hold list"
  ho_requeued :: "ident list"
  ho_failed :: "(ident \<times> string) option"
  ho_cleared :: "ident list"
  ho_waits :: "(ident \<times> duration) option"
  ho_kept_for :: "nat option"

datatype seq_error = KeyError key_error | StorageError string | PromoteError string

type_synonym headed = "(ident \<times> ident) set"

record ledger =
  lg_read_held :: "nat \<Rightarrow> ident \<Rightarrow> string + page"
  lg_hand_on :: "nat \<Rightarrow> hand_on \<Rightarrow> string + bool"

section \<open>Taking places\<close>

text \<open>\<open>received\<close>: the places a Stream's origin takes in its end-to-end sequences.\<close>

fun received_places ::
    "(string \<Rightarrow> ident) \<Rightarrow> string \<Rightarrow> ident \<Rightarrow> journey \<Rightarrow> promoted \<Rightarrow> point list \<Rightarrow> key_error + hold list" where
  "received_places named cluster origin probe promoted [] = Inr []"
| "received_places named cluster origin probe promoted (p # ps) =
     (case point_place named p cluster origin probe promoted of
        Inl e \<Rightarrow> Inl e
      | Inr place \<Rightarrow> (case received_places named cluster origin probe promoted ps of
          Inl e \<Rightarrow> Inl e | Inr pls \<Rightarrow> Inr (place # pls)))"

definition received_of ::
    "(string \<Rightarrow> ident) \<Rightarrow> string \<Rightarrow> string \<Rightarrow> string \<Rightarrow> point list \<Rightarrow> string + promoted \<Rightarrow> ident
      \<Rightarrow> seq_error + received \<times> hold list" where
  "received_of named cluster location port points promote origin =
     (let received = \<lparr>rec_location = location, rec_port = port, rec_origin = origin,
            rec_sequences = [], rec_skips = (\<exists>p \<in> set points. pt_on_failure p = Skip)\<rparr> in
      case promote of
        Inl why \<Rightarrow> Inl (PromoteError why)
      | Inr promoted \<Rightarrow>
         (case received_places named cluster origin
                 (bare_journey\<lparr>journey_id := 0, j_received := Some received\<rparr>) promoted points of
            Inl e \<Rightarrow> Inl (KeyError e)
          | Inr pls \<Rightarrow> Inr (received\<lparr>rec_sequences := map h_queue pls\<rparr>, pls)))"

text \<open>\<open>placed\<close>: the places a Message takes at its points, its Journey told each.\<close>

fun placed :: "(string \<Rightarrow> ident) \<Rightarrow> string \<Rightarrow> point list \<Rightarrow> journey \<Rightarrow> promoted \<Rightarrow> key_error + journey \<times> hold list" where
  "placed named cluster [] j promoted = Inr (j, [])"
| "placed named cluster (p # ps) j promoted =
     (case point_place named p cluster (journey_id j) j promoted of
        Inl e \<Rightarrow> Inl e
      | Inr place \<Rightarrow>
         (case placed named cluster ps
                 (j\<lparr>j_sequences := j_sequences j
                     @ [\<lparr>seq_queue = h_queue place, seq_skips = (pt_on_failure p = Skip)\<rparr>]\<rparr>) promoted of
            Inl e \<Rightarrow> Inl e
          | Inr (j', pls) \<Rightarrow> Inr (j', place # pls)))"

definition points_of :: "sends \<Rightarrow> subscriber \<Rightarrow> point list" where
  "points_of s to =
     (case to of
        ToWorkProcess name \<Rightarrow> filter (\<lambda>p. pt_kind p = WorkProcess \<and> pt_name p = name) (sn_points s)
      | _ \<Rightarrow> (case sends_to s to of
                Ports ports \<Rightarrow> concat (map po_points ports)
              | Process \<Rightarrow> []
              | Nowhere \<Rightarrow> []))"

section \<open>A Send Port Group's deliveries\<close>

record opened =
  op_journey :: journey
  op_subscription :: string
  op_to :: subscriber
  op_group :: "string option"

definition group_point :: "sends \<Rightarrow> string \<Rightarrow> point option" where
  "group_point s name = find (\<lambda>p. pt_kind p = SendPortGroup \<and> pt_name p = name) (sn_points s)"

text \<open>Whether \<open>other\<close> is of the same delivery as \<open>one\<close>: one Subscription's, through one Group.\<close>

definition same_delivery :: "opened \<Rightarrow> opened \<Rightarrow> bool" where
  "same_delivery one other \<longleftrightarrow> op_subscription other = op_subscription one \<and> op_group other = op_group one"

definition told :: "group_delivery \<Rightarrow> opened \<Rightarrow> opened" where
  "told d o1 = o1\<lparr>op_journey := (op_journey o1)\<lparr>j_group := Some d\<rparr>\<rparr>"

definition delivery_of :: "point \<Rightarrow> ident \<Rightarrow> opened list \<Rightarrow> group_delivery" where
  "delivery_of p i run = \<lparr>grp_name = pt_name p, grp_delivery = i, grp_queue = None,
     grp_skips = (pt_on_failure p = Skip), grp_members = map (\<lambda>m. journey_id (op_journey m)) run\<rparr>"

text \<open>\<open>delivered\<close>: the run from each first Journey to the first of another delivery told its
  delivery, the identifiers minted in turn by \<open>ids\<close>.\<close>

function delivered :: "sends \<Rightarrow> (nat \<Rightarrow> ident) \<Rightarrow> nat \<Rightarrow> opened list \<Rightarrow> opened list \<times> nat" where
  "delivered s ids n [] = ([], n)"
| "delivered s ids n (one # rest) =
     (let run = one # takeWhile (same_delivery one) rest;
          after = dropWhile (same_delivery one) rest in
      case Option.bind (op_group one) (group_point s) of
        None \<Rightarrow> (case delivered s ids n after of (os, n') \<Rightarrow> (run @ os, n'))
      | Some p \<Rightarrow> (case delivered s ids (n + 1) after of
          (os, n') \<Rightarrow> (map (told (delivery_of p (ids n) run)) run @ os, n')))"
  by pat_completeness auto
termination
  by (relation "measure (\<lambda>(s, ids, n, os). length os)")
    (auto simp: length_dropWhile_le le_imp_less_Suc)

definition group_placed ::
    "(string \<Rightarrow> ident) \<Rightarrow> string \<Rightarrow> sends \<Rightarrow> journey \<Rightarrow> promoted \<Rightarrow> key_error + journey \<times> hold option" where
  "group_placed named cluster s j promoted =
     (case j_group j of
        None \<Rightarrow> Inr (j, None)
      | Some g \<Rightarrow>
         if grp_queue g \<noteq> None then Inr (j, None)
         else case group_point s (grp_name g) of
                None \<Rightarrow> Inr (j, None)
              | Some p \<Rightarrow>
                 (case point_place named p cluster (grp_delivery g) j promoted of
                    Inl e \<Rightarrow> Inl e
                  | Inr place \<Rightarrow>
                      Inr (j\<lparr>j_group := Some (g\<lparr>grp_queue := Some (h_queue place)\<rparr>)\<rparr>, Some place)))"

definition waits_for_group :: "sends \<Rightarrow> journey \<Rightarrow> bool" where
  "waits_for_group s j =
     (case j_group j of
        None \<Rightarrow> False
      | Some g \<Rightarrow> grp_queue g = None \<and> group_point s (grp_name g) \<noteq> None)"

fun grouped :: "sends \<Rightarrow> subscriber \<Rightarrow> bool" where
  "grouped s (ToSendPort port) \<longleftrightarrow>
     (\<exists>g \<in> set (sn_groups s). port \<in> set (sg_send_ports g) \<and> group_point s (sg_name g) \<noteq> None)"
| "grouped s _ \<longleftrightarrow> False"

text \<open>\<open>places\<close>: what the Journeys a write opens take at once.\<close>

fun places_of :: "(string \<Rightarrow> ident) \<Rightarrow> string \<Rightarrow> sends \<Rightarrow> promoted \<Rightarrow> opened list \<Rightarrow> key_error + opened list \<times> hold list" where
  "places_of named cluster s promoted [] = Inr ([], [])"
| "places_of named cluster s promoted (one # rest) =
     (case group_placed named cluster s (op_journey one) promoted of
        Inl e \<Rightarrow> Inl e
      | Inr (j, g) \<Rightarrow>
         (case placed named cluster (points_of s (op_to one)) j promoted of
            Inl e \<Rightarrow> Inl e
          | Inr (j', hs) \<Rightarrow>
             (case places_of named cluster s promoted rest of
                Inl e \<Rightarrow> Inl e
              | Inr (os, hs') \<Rightarrow>
                  Inr (one\<lparr>op_journey := j'\<rparr> # os, (case g of None \<Rightarrow> [] | Some h \<Rightarrow> [h]) @ hs @ hs'))))"

section \<open>Heading a sequence\<close>

definition remembered :: nat where "remembered = 65536"

definition headed_remember :: "ident \<times> ident \<Rightarrow> headed \<Rightarrow> headed" where
  "headed_remember place known = insert place (if remembered \<le> card known then {} else known)"

definition heads :: "(ident \<Rightarrow> string + page) \<Rightarrow> headed \<Rightarrow> ident \<Rightarrow> ident \<Rightarrow> (string + bool) \<times> headed" where
  "heads read_held known queue member =
     (if (queue, member) \<in> known then (Inr True, known)
      else case read_held queue of
             Inl why \<Rightarrow> (Inl why, known)
           | Inr page \<Rightarrow>
              (case pg_held page of
                 h # _ \<Rightarrow> if h_journey h = member then (Inr True, headed_remember (queue, member) known)
                          else (Inr False, known)
               | [] \<Rightarrow> (Inr (pg_count page = 0), known)))"

text \<open>Every queue of a list asked in turn, up to the first not headed: the loops of
  \<open>stream_heads\<close> and of \<open>send_step::pass::heads\<close>.\<close>

fun all_head :: "(ident \<Rightarrow> string + page) \<Rightarrow> ident \<Rightarrow> ident list \<Rightarrow> headed \<Rightarrow> (string + bool) \<times> headed" where
  "all_head read_held member [] known = (Inr True, known)"
| "all_head read_held member (q # qs) known =
     (case heads read_held known q member of
        (Inr True, known) \<Rightarrow> all_head read_held member qs known
      | (Inr False, known) \<Rightarrow> (Inr False, known)
      | (Inl why, known) \<Rightarrow> (Inl why, known))"

definition stream_heads :: "(ident \<Rightarrow> string + page) \<Rightarrow> journey \<Rightarrow> headed \<Rightarrow> (string + bool) \<times> headed" where
  "stream_heads read_held j known =
     (case j_received j of
        None \<Rightarrow> (Inr True, known)
      | Some r \<Rightarrow> all_head read_held (rec_origin r) (rec_sequences r) known)"

definition group_heads :: "(ident \<Rightarrow> string + page) \<Rightarrow> journey \<Rightarrow> headed \<Rightarrow> (string + bool) \<times> headed" where
  "group_heads read_held j known =
     (case Option.bind (j_group j) (\<lambda>g. map_option (\<lambda>q. (q, grp_delivery g)) (grp_queue g)) of
        Some (queue, delivery) \<Rightarrow> heads read_held known queue delivery
      | None \<Rightarrow> (Inr True, known))"

section \<open>Places taken late\<close>

datatype placing = Behind | Placed | Lost

definition waits_for_places :: "sends \<Rightarrow> journey \<Rightarrow> subscriber \<Rightarrow> bool" where
  "waits_for_places s j to \<longleftrightarrow> waits_for_group s j \<or> (j_sequences j = [] \<and> points_of s to \<noteq> [])"

definition late_places ::
    "(string \<Rightarrow> ident) \<Rightarrow> string \<Rightarrow> sends \<Rightarrow> journey \<Rightarrow> subscriber \<Rightarrow> promoted \<Rightarrow> key_error + journey \<times> hold list" where
  "late_places named cluster s j to promoted =
     (case group_placed named cluster s j promoted of
        Inl e \<Rightarrow> Inl e
      | Inr (j', Some place) \<Rightarrow> Inr (j', [place])
      | Inr (j', None) \<Rightarrow> placed named cluster (points_of s to) j' promoted)"

definition late_hand_on :: "claim \<Rightarrow> duration \<Rightarrow> journey \<Rightarrow> hold list \<Rightarrow> hand_on" where
  "late_hand_on claim lease j queued =
     \<lparr>ho_claim = claim, ho_result = j, ho_leaves = [], ho_queued = queued, ho_requeued = [],
      ho_failed = None, ho_cleared = [], ho_waits = None, ho_kept_for = Some (min lease (2 ^ 64 - 1))\<rparr>"

definition take_late ::
    "(string \<Rightarrow> ident) \<Rightarrow> string \<Rightarrow> sends \<Rightarrow> string + promoted \<Rightarrow> (hand_on \<Rightarrow> string + bool)
      \<Rightarrow> claim \<Rightarrow> duration \<Rightarrow> journey \<Rightarrow> subscriber \<Rightarrow> (seq_error + bool) \<times> journey" where
  "take_late named cluster s promote write claim lease j to =
     (if \<not> waits_for_places s j to then (Inr True, j)
      else case promote of
        Inl why \<Rightarrow> (Inl (PromoteError why), j)
      | Inr promoted \<Rightarrow>
         (case late_places named cluster s j to promoted of
            Inl e \<Rightarrow> (Inl (KeyError e), j)
          | Inr (told_j, queued) \<Rightarrow>
             (case write (late_hand_on claim lease told_j queued) of
                Inl why \<Rightarrow> (Inl (StorageError why), j)
              | Inr taken \<Rightarrow> (Inr taken, if taken then told_j else j))))"


lemma point_place_member: "point_place named p cluster m j promoted = Inr h \<Longrightarrow> h_journey h = m"
  by (auto simp: point_place_def split: sum.splits prod.splits)

lemma group_placed_some:
  "group_placed named cluster s j promoted = Inr (j', Some h) \<Longrightarrow>
     waits_for_group s j \<and> \<not> waits_for_group s j' \<and> j_sequences j' = j_sequences j \<and>
     journey_id j' = journey_id j \<and>
     (\<exists>g. j_group j = Some g \<and> j_group j' = Some (g\<lparr>grp_queue := Some (h_queue h)\<rparr>) \<and> h_journey h = grp_delivery g)"
  by (auto simp: group_placed_def waits_for_group_def dest: point_place_member
      split: option.splits if_splits sum.splits)

lemma group_placed_none:
  "group_placed named cluster s j promoted = Inr (j', None) \<longleftrightarrow> \<not> waits_for_group s j \<and> j' = j"
  by (auto simp: group_placed_def waits_for_group_def split: option.splits if_splits sum.splits)

lemma placed_told:
  "placed named cluster ps j promoted = Inr (j', hs) \<Longrightarrow>
     j' = j\<lparr>j_sequences := j_sequences j @
       map (\<lambda>(h, p). \<lparr>seq_queue = h_queue h, seq_skips = (pt_on_failure p = Skip)\<rparr>) (zip hs ps)\<rparr>
     \<and> length hs = length ps \<and> (\<forall>h \<in> set hs. h_journey h = journey_id j)"
proof (induction ps arbitrary: j j' hs)
  case (Cons p ps)
  from Cons.prems obtain h hs' where *: "point_place named p cluster (journey_id j) j promoted = Inr h"
    "hs = h # hs'"
    "placed named cluster ps (j\<lparr>j_sequences := j_sequences j
        @ [\<lparr>seq_queue = h_queue h, seq_skips = (pt_on_failure p = Skip)\<rparr>]\<rparr>) promoted = Inr (j', hs')"
    by (auto split: sum.splits)
  from Cons.IH [OF *(3)] *(1,2) show ?case by (auto dest: point_place_member)
qed auto

definition places_waited :: "sends \<Rightarrow> journey \<Rightarrow> nat" where
  "places_waited s j = (if waits_for_group s j then 2 else 0) + (if j_sequences j = [] then 1 else 0)"

lemma late_places_fewer:
  assumes "late_places named cluster s j to promoted = Inr (j', hs)" "waits_for_places s j to"
  shows "places_waited s j' < places_waited s j"
proof -
  obtain j1 g where g: "group_placed named cluster s j promoted = Inr (j1, g)"
    using assms(1) by (auto simp: late_places_def split: sum.splits)
  show ?thesis
  proof (cases g)
    case (Some h)
    with g assms(1) have "j' = j1" by (simp add: late_places_def)
    with group_placed_some [of named cluster s j promoted j1 h] g Some show ?thesis
      by (auto simp: places_waited_def)
  next
    case None
    with g have j1: "\<not> waits_for_group s j" "j1 = j" by (simp_all add: group_placed_none)
    with assms(2) have p: "j_sequences j = []" "points_of s to \<noteq> []"
      by (auto simp: waits_for_places_def)
    from assms(1) g None j1 have "placed named cluster (points_of s to) j promoted = Inr (j', hs)"
      by (simp add: late_places_def)
    from placed_told [OF this] p j1 show ?thesis
      by (cases hs; cases "points_of s to") (auto simp: places_waited_def waits_for_group_def)
  qed
qed

lemma take_late_fewer:
  "take_late named cluster s promote write claim lease j to = (Inr True, j') \<Longrightarrow> waits_for_places s j to \<Longrightarrow>
   places_waited s j' < places_waited s j"
  by (auto simp: take_late_def split: sum.splits if_splits dest: late_places_fewer)

text \<open>\<open>heading\<close>'s loop: the Group's place first, the rest once the delivery heads its Group's sequence.\<close>

function (sequential) heading_loop ::
    "(string \<Rightarrow> ident) \<Rightarrow> string \<Rightarrow> sends \<Rightarrow> string + promoted \<Rightarrow> ledger \<Rightarrow> claim \<Rightarrow> duration \<Rightarrow> subscriber
      \<Rightarrow> journey \<Rightarrow> headed \<Rightarrow> nat \<Rightarrow> (seq_error + placing) \<times> journey \<times> headed" where
  "heading_loop named cluster s promote lg claim lease to j known t =
     (case group_heads (lg_read_held lg t) j known of
        (Inl why, known) \<Rightarrow> (Inl (StorageError why), j, known)
      | (Inr False, known) \<Rightarrow> (Inr Behind, j, known)
      | (Inr True, known) \<Rightarrow>
          if \<not> waits_for_places s j to then (Inr Placed, j, known)
          else case take_late named cluster s promote (lg_hand_on lg t) claim lease j to of
                 (Inl e, j) \<Rightarrow> (Inl e, j, known)
               | (Inr False, j) \<Rightarrow> (Inr Lost, j, known)
               | (Inr True, j) \<Rightarrow>
                   heading_loop named cluster s promote lg claim lease to j known (t + 1))"
  by pat_completeness auto
termination
  by (relation "measure (\<lambda>(named, cluster, s, promote, lg, claim, lease, to, j, known, t). places_waited s j)")
    (auto dest: take_late_fewer [OF sym])

declare heading_loop.simps [simp del]

definition heading ::
    "(string \<Rightarrow> ident) \<Rightarrow> string \<Rightarrow> sends \<Rightarrow> string + promoted \<Rightarrow> ledger \<Rightarrow> claim \<Rightarrow> duration \<Rightarrow> subscriber
      \<Rightarrow> journey \<Rightarrow> headed \<Rightarrow> (seq_error + placing) \<times> journey \<times> headed" where
  "heading named cluster s promote lg claim lease to j known =
     (case stream_heads (lg_read_held lg 0) j known of
        (Inl why, known) \<Rightarrow> (Inl (StorageError why), j, known)
      | (Inr False, known) \<Rightarrow> (Inr Behind, j, known)
      | (Inr True, known) \<Rightarrow> heading_loop named cluster s promote lg claim lease to j known 1)"

section \<open>One at a time\<close>

text \<open>The Ledger's queues as its writes leave them, which places were ever taken, and what this
  process remembers. A place is taken at the end of its queue, once; it is let go wherever it
  stands. A page shows the first place, or nothing while the queue is written; a count of zero
  is an empty queue.\<close>

record seq_system =
  sq_queues :: "ident \<Rightarrow> ident list"
  sq_taken :: "(ident \<times> ident) set"
  sq_known :: headed

definition honest_page :: "page \<Rightarrow> ident list \<Rightarrow> bool" where
  "honest_page page q \<longleftrightarrow>
     (case pg_held page of [] \<Rightarrow> True | h # _ \<Rightarrow> q \<noteq> [] \<and> h_journey h = hd q) \<and>
     (pg_count page = 0 \<longleftrightarrow> q = [])"

inductive seq_step :: "seq_system \<Rightarrow> seq_system \<Rightarrow> bool" where
  seq_take: "(q, m) \<notin> sq_taken s \<Longrightarrow>
    seq_step s (s\<lparr>sq_queues := (sq_queues s)(q := sq_queues s q @ [m]),
                  sq_taken := insert (q, m) (sq_taken s)\<rparr>)"
| seq_leave: "seq_step s (s\<lparr>sq_queues := (sq_queues s)(q := remove1 m (sq_queues s q))\<rparr>)"
| seq_ask: "honest_page page (sq_queues s q) \<Longrightarrow>
    heads (\<lambda>_. Inr page) (sq_known s) q m = (answer, known) \<Longrightarrow> m \<in> set (sq_queues s q) \<Longrightarrow>
    seq_step s (s\<lparr>sq_known := known\<rparr>)"

definition seq_start :: "seq_system \<Rightarrow> bool" where
  "seq_start s \<longleftrightarrow> sq_queues s = (\<lambda>_. []) \<and> sq_known s = {}"

definition seq_inv :: "seq_system \<Rightarrow> bool" where
  "seq_inv s \<longleftrightarrow> (\<forall>q. distinct (sq_queues s q)) \<and>
     (\<forall>q. \<forall>m \<in> set (sq_queues s q). (q, m) \<in> sq_taken s) \<and>
     sq_known s \<subseteq> sq_taken s \<and>
     (\<forall>q m. (q, m) \<in> sq_known s \<longrightarrow> m \<in> set (sq_queues s q) \<longrightarrow> hd (sq_queues s q) = m)"

lemma heads_true:
  assumes "heads (\<lambda>_. Inr page) known q m = (Inr True, known')" "honest_page page queue" "m \<in> set queue"
    "(q, m) \<in> known \<longrightarrow> hd queue = m"
  shows "hd queue = m"
  using assms by (auto simp: heads_def honest_page_def split: if_splits list.splits)

lemma heads_known:
  assumes "heads (\<lambda>_. Inr page) known q m = (answer, known')" "honest_page page queue"
  shows "known' \<subseteq> insert (q, m) known \<and> ((q, m) \<in> known' \<longrightarrow> (q, m) \<in> known \<or> queue \<noteq> [] \<and> hd queue = m)"
  using assms by (auto simp: heads_def honest_page_def headed_remember_def split: if_splits list.splits)

lemma hd_remove1: "distinct q \<Longrightarrow> x \<in> set (remove1 m q) \<Longrightarrow> hd q = x \<Longrightarrow> hd (remove1 m q) = x"
  by (cases q) auto

lemma seq_step_inv: "seq_inv s \<Longrightarrow> seq_step s t \<Longrightarrow> seq_inv t"
proof (erule seq_step.cases, goal_cases)
  case (1 q m s')
  then have "(q, m) \<notin> sq_known s" by (auto simp: seq_inv_def)
  with 1 show ?case by (auto simp: seq_inv_def hd_append)
next
  case (2 s' q m)
  then have "\<And>x. x \<in> set (remove1 m (sq_queues s q)) \<Longrightarrow> (q, x) \<in> sq_known s \<Longrightarrow>
      hd (remove1 m (sq_queues s q)) = x"
    by (metis (no_types, lifting) hd_remove1 notin_set_remove1 seq_inv_def)
  moreover have "\<And>x. x \<in> set (remove1 m (sq_queues s q)) \<Longrightarrow> (q, x) \<in> sq_taken s"
    using 2 by (auto simp: seq_inv_def dest: notin_set_remove1)
  ultimately show ?case using 2 by (auto simp: seq_inv_def)
next
  case (3 page s' q m answer known)
  from heads_known [OF 3(5) 3(4)] 3 show ?case by (fastforce simp: seq_inv_def)
qed

interpretation sequences: invariant_system seq_start seq_step seq_inv
proof
  show "seq_start s \<Longrightarrow> seq_inv s" for s by (simp add: seq_start_def seq_inv_def)
qed (rule seq_step_inv)

text \<open>C8: one at a time. However places were taken and let go and whatever was asked before, a member
  holding a place in a sequence is let through where a page shows a place exactly when it
  holds the first place, and is never let through otherwise; so no two members holding places
  in one sequence are let through at once.\<close>

theorem heads_exactly_first:
  assumes "reach seq_start seq_step s" and "honest_page page (sq_queues s q)" and "m \<in> set (sq_queues s q)"
  shows "(fst (heads (\<lambda>_. Inr page) (sq_known s) q m) = Inr True \<longrightarrow> m = hd (sq_queues s q)) \<and>
    (pg_held page \<noteq> [] \<longrightarrow>
      fst (heads (\<lambda>_. Inr page) (sq_known s) q m) = Inr (m = hd (sq_queues s q)))"
proof -
  from sequences.reach_inv [OF assms(1)]
  have "(q, m) \<in> sq_known s \<longrightarrow> hd (sq_queues s q) = m"
    using assms(3) by (auto simp: seq_inv_def)
  with assms(2,3) show ?thesis
    by (auto simp: heads_def honest_page_def split: list.splits if_splits)
qed

text \<open>The Stream 7 took its place before the Stream 8; asked, the Stream 7 was seen to head.\<close>

definition two_streams :: seq_system where
  "two_streams = \<lparr>sq_queues = (\<lambda>_. [])(1 := [7, 8]), sq_taken = {(1, 7), (1, 8)}, sq_known = {(1, 7)}\<rparr>"

abbreviation first_page :: page where
  "first_page \<equiv> \<lparr>pg_held = [\<lparr>h_queue = 1, h_journey = 7, h_body = ''''\<rparr>], pg_count = 2\<rparr>"

lemma two_streams_reached: "reach seq_start seq_step two_streams"
proof -
  let ?s0 = "\<lparr>sq_queues = (\<lambda>_. []), sq_taken = {}, sq_known = {}\<rparr> :: seq_system"
  let ?s1 = "\<lparr>sq_queues = (\<lambda>_. [])(1 := [7]), sq_taken = {(1, 7)}, sq_known = {}\<rparr> :: seq_system"
  let ?s2 = "\<lparr>sq_queues = (\<lambda>_. [])(1 := [7, 8]), sq_taken = {(1, 7), (1, 8)}, sq_known = {}\<rparr> :: seq_system"
  have "reach seq_start seq_step ?s0" by (rule reach_init) (simp add: seq_start_def)
  moreover have "seq_step ?s0 ?s1" using seq_take [of 1 7 ?s0] by simp
  moreover have "seq_step ?s1 ?s2" using seq_take [of 1 8 ?s1] by (simp add: insert_commute)
  moreover have "seq_step ?s2 two_streams"
    using seq_ask [of first_page ?s2 1 7 "Inr True" "{(1, 7)}"]
    by (simp add: honest_page_def heads_def headed_remember_def remembered_def two_streams_def)
  ultimately show ?thesis by (metis reach_step)
qed

theorem heads_exactly_first_witness:
  "fst (heads (\<lambda>_. Inr first_page) (sq_known two_streams) 1 8) = Inr False \<and>
   fst (heads (\<lambda>_. Inr first_page) (sq_known two_streams) 1 7) = Inr True"
  using heads_exactly_first [OF two_streams_reached, of first_page 1 7]
    heads_exactly_first [OF two_streams_reached, of first_page 1 8]
  by (simp add: honest_page_def two_streams_def)

section \<open>Places are taken in path order\<close>

lemma stream_heads_all:
  "all_head read m qs known = (Inr True, known') \<Longrightarrow>
   \<forall>q \<in> set qs. \<exists>known1 known2. heads read known1 q m = (Inr True, known2)"
  by (induction qs arbitrary: known) (auto split: prod.splits sum.splits bool.splits)

lemma late_places_group:
  assumes "late_places named cluster s j to promoted = Inr (j', hs)" "waits_for_group s j"
  shows "\<exists>h g. hs = [h] \<and> j_group j = Some g \<and> h_journey h = grp_delivery g \<and>
    j_group j' = Some (g\<lparr>grp_queue := Some (h_queue h)\<rparr>) \<and> j_sequences j' = j_sequences j"
proof -
  obtain h where "group_placed named cluster s j promoted = Inr (j', Some h)" "hs = [h]"
    using assms by (auto simp: late_places_def group_placed_none split: sum.splits option.splits)
  with group_placed_some [OF this(1)] show ?thesis by auto
qed

lemma late_places_points:
  assumes "late_places named cluster s j to promoted = Inr (j', hs)" "\<not> waits_for_group s j"
  shows "j_group j' = j_group j \<and> length hs = length (points_of s to) \<and>
    (\<forall>h \<in> set hs. h_journey h = journey_id j) \<and>
    map seq_queue (j_sequences j') = map seq_queue (j_sequences j) @ map h_queue hs"
proof -
  have "placed named cluster (points_of s to) j promoted = Inr (j', hs)"
    using assms group_placed_none [of named cluster s j promoted j] by (simp add: late_places_def)
  from placed_told [OF this] show ?thesis
    by (auto simp: case_prod_unfold comp_def map_zip_fst)
qed

lemma take_late_taken:
  assumes "take_late named cluster s promote write claim lease j to = (Inr True, j')" "waits_for_places s j to"
  obtains promoted hs where "late_places named cluster s j to promoted = Inr (j', hs)"
    "write (late_hand_on claim lease j' hs) = Inr True"
  using assms by (auto simp: take_late_def split: sum.splits if_splits)

text \<open>\<open>take_late\<close> in one write takes the Send Port Group's place alone, for the delivery, where the
  Journey has not taken that yet, and otherwise one place for every point of its destination;
  the Journey written beside the places names exactly their queues. Where it is not written --
  a key lacking, Xmip Storage refusing, the claim another's -- the Journey is as it was.\<close>

theorem take_late_writes:
  assumes "take_late named cluster s promote write claim lease j to = (r, j')"
    and "waits_for_places s j to"
  shows "(r \<noteq> Inr True \<longrightarrow> j' = j) \<and>
    (r = Inr True \<longrightarrow> (\<exists>hs. write (late_hand_on claim lease j' hs) = Inr True \<and>
      (if waits_for_group s j
       then \<exists>h g. hs = [h] \<and> j_group j = Some g \<and> h_journey h = grp_delivery g \<and>
          j_group j' = Some (g\<lparr>grp_queue := Some (h_queue h)\<rparr>) \<and> j_sequences j' = j_sequences j
       else length hs = length (points_of s to) \<and> list_all (\<lambda>h. h_journey h = journey_id j) hs \<and>
          map seq_queue (j_sequences j') = map h_queue hs)))"
proof -
  have "j' = j" if "r \<noteq> Inr True"
    using that assms by (auto simp: take_late_def split: sum.splits if_splits)
  moreover
  { assume "r = Inr True"
    with assms obtain promoted hs where l: "late_places named cluster s j to promoted = Inr (j', hs)"
      "write (late_hand_on claim lease j' hs) = Inr True" using take_late_taken by blast
    moreover have "waits_for_group s j \<or> j_sequences j = []"
      using assms(2) by (auto simp: waits_for_places_def)
    moreover note late_places_group [OF l(1)] late_places_points [OF l(1)]
    ultimately have "\<exists>hs. write (late_hand_on claim lease j' hs) = Inr True \<and>
      (if waits_for_group s j
       then \<exists>h g. hs = [h] \<and> j_group j = Some g \<and> h_journey h = grp_delivery g \<and>
          j_group j' = Some (g\<lparr>grp_queue := Some (h_queue h)\<rparr>) \<and> j_sequences j' = j_sequences j
       else length hs = length (points_of s to) \<and> list_all (\<lambda>h. h_journey h = journey_id j) hs \<and>
          map seq_queue (j_sequences j') = map h_queue hs)"
      by (auto simp: list_all_iff) }
  ultimately show ?thesis by blast
qed

lemma group_heads_group: "j_group j' = j_group j \<Longrightarrow> group_heads read j' known = group_heads read j known"
  by (simp add: group_heads_def)

lemma heading_loop_settled:
  assumes "heading_loop named cluster s promote lg claim lease to j known t = (r, j', known')"
    and "\<not> waits_for_places s j to"
  shows "j' = j"
  using assms by (auto simp: heading_loop.simps [of _ _ _ _ _ _ _ _ j] split: prod.splits sum.splits bool.splits)

lemma heading_loop_order:
  assumes "heading_loop named cluster s promote lg claim lease to j known t = (r, j', known')"
  shows "(r = Inr Placed \<longrightarrow> \<not> waits_for_places s j' to) \<and>
    (j_sequences j' \<noteq> j_sequences j \<longrightarrow>
      (\<exists>t k k'. group_heads (lg_read_held lg t) j' k = (Inr True, k')))"
  using assms
proof (induction named cluster s promote lg claim lease to j known t arbitrary: r j' known'
    rule: heading_loop.induct)
  case (1 named cluster s promote lg claim lease to j known t)
  show ?case
  proof (cases "fst (group_heads (lg_read_held lg t) j known) = Inr True \<and> waits_for_places s j to
      \<and> fst (take_late named cluster s promote (lg_hand_on lg t) claim lease j to) = Inr True")
    case True
    then obtain k j1 where k: "group_heads (lg_read_held lg t) j known = (Inr True, k)"
      and w: "waits_for_places s j to"
      and l: "take_late named cluster s promote (lg_hand_on lg t) claim lease j to = (Inr True, j1)"
      by (metis prod.collapse)
    from "1.prems" k w l have rec:
      "heading_loop named cluster s promote lg claim lease to j1 k (t + 1) = (r, j', known')"
      by (simp add: heading_loop.simps [of _ _ _ _ _ _ _ _ j])
    note IH = "1.IH" [OF k [symmetric] refl refl _ l [symmetric] refl refl rec]
    obtain promoted hs where lp: "late_places named cluster s j to promoted = Inr (j1, hs)"
      using take_late_taken [OF l w] by blast
    show ?thesis
    proof (cases "waits_for_group s j")
      case True
      with late_places_group [OF lp] IH w show ?thesis by auto
    next
      case False
      with late_places_points [OF lp False] have g: "j_group j1 = j_group j" by simp
      have "\<not> waits_for_places s j1 to"
        using late_places_fewer [OF lp w] False g
        by (auto simp: places_waited_def waits_for_places_def waits_for_group_def split: if_splits)
      with heading_loop_settled [OF rec] have "j' = j1" by simp
      with g k group_heads_group IH w show ?thesis by metis
    qed
  next
    case False
    with "1.prems" show ?thesis
      by (auto simp: heading_loop.simps [of _ _ _ _ _ _ _ _ j] take_late_def
          split: prod.splits sum.splits bool.splits if_splits)
  qed
qed


text \<open>\<open>heading\<close> always comes to an answer. It answers that a Message is placed only when it waits
  for no place any more; it takes no place before its Stream was seen to head its end-to-end
  sequences, and none at its Send Port before its delivery, where it is a Send Port Group's
  member, was seen to head the Group's.\<close>

theorem heading_in_order:
  assumes "heading named cluster s promote lg claim lease to j known = (r, j', known')"
  shows "(r = Inr Placed \<longrightarrow> \<not> waits_for_places s j' to) \<and>
    (j' \<noteq> j \<longrightarrow> fst (stream_heads (lg_read_held lg 0) j known) = Inr True) \<and>
    (j_sequences j' \<noteq> j_sequences j \<longrightarrow>
      (\<exists>t k k'. group_heads (lg_read_held lg t) j' k = (Inr True, k')))"
  using assms heading_loop_order
  by (auto simp: heading_def split: prod.splits sum.splits bool.splits)

text \<open>A Message of a Send Port Group that names a Correlation, bound for a Send Port that names one
  too, its Stream under no sequence: its Group's place is taken, then its Send Port's.\<close>

definition by_customer :: resolved_set where
  "by_customer = \<lparr>set_name = ''by'', set_keys = [ContextKey ''customer'']\<rparr>"

definition grouped_sends :: sends where
  "grouped_sends = \<lparr>sn_locations = [], sn_groups = [], sn_ports = [],
     sn_points = [\<lparr>pt_kind = SendPort, pt_name = ''out'', pt_set = by_customer, pt_on_failure = Skip\<rparr>,
                  \<lparr>pt_kind = SendPortGroup, pt_name = ''all'', pt_set = by_customer, pt_on_failure = Block\<rparr>]\<rparr>"

definition grouped_journey :: journey where
  "grouped_journey = bare_journey\<lparr>j_group := Some \<lparr>grp_name = ''all'', grp_delivery = 5, grp_queue = None,
     grp_skips = False, grp_members = [1]\<rparr>\<rparr>"

definition open_ledger :: ledger where
  "open_ledger = \<lparr>lg_read_held = (\<lambda>_ _. Inr \<lparr>pg_held = [], pg_count = 0\<rparr>), lg_hand_on = (\<lambda>_ _. Inr True)\<rparr>"

abbreviation own_claim :: claim where
  "own_claim \<equiv> \<lparr>cl_journey = 1, cl_holder = ''n1'', cl_token = 9, cl_fence = 1\<rparr>"

theorem take_late_writes_witness:
  "waits_for_group grouped_sends grouped_journey \<and>
   (\<exists>j' (h :: hold) g. take_late length ''c'' grouped_sends (Inr [''customer'' \<mapsto> ''x'']) (\<lambda>_. Inr True) own_claim 30
       grouped_journey (ToSendPort ''out'') = (Inr True, j') \<and>
     j_group grouped_journey = Some g \<and> h_journey h = grp_delivery g \<and>
     j_group j' = Some (g\<lparr>grp_queue := Some (h_queue h)\<rparr>))"
proof -
  have w: "waits_for_group grouped_sends grouped_journey"
    "waits_for_places grouped_sends grouped_journey (ToSendPort ''out'')" by code_simp+
  obtain r j' where t: "take_late length ''c'' grouped_sends (Inr [''customer'' \<mapsto> ''x'']) (\<lambda>_. Inr True)
      own_claim 30 grouped_journey (ToSendPort ''out'') = (r, j')" by fastforce
  have "\<not> isl (late_places length ''c'' grouped_sends grouped_journey (ToSendPort ''out'') [''customer'' \<mapsto> ''x''])"
    by code_simp
  with t w have "r = Inr True" by (auto simp: take_late_def split: sum.splits)
  moreover from this obtain h :: hold and g where "j_group grouped_journey = Some g" "h_journey h = grp_delivery g"
      "j_group j' = Some (g\<lparr>grp_queue := Some (h_queue h)\<rparr>)"
    using take_late_writes [OF t w(2)] unfolding if_P [OF w(1)] by blast
  ultimately show ?thesis using w(1) t by blast
qed

theorem heading_in_order_witness:
  "\<exists>j' known'. heading length ''c'' grouped_sends (Inr [''customer'' \<mapsto> ''x'']) open_ledger own_claim 30
       (ToSendPort ''out'') grouped_journey {} = (Inr Placed, j', known') \<and>
     \<not> waits_for_places grouped_sends j' (ToSendPort ''out'')"
proof -
  obtain r j' known' where h: "heading length ''c'' grouped_sends (Inr [''customer'' \<mapsto> ''x'']) open_ledger
      own_claim 30 (ToSendPort ''out'') grouped_journey {} = (r, j', known')" by (metis prod_cases3)
  have "fst (heading length ''c'' grouped_sends (Inr [''customer'' \<mapsto> ''x'']) open_ledger own_claim 30
      (ToSendPort ''out'') grouped_journey {}) = Inr Placed"
    by code_simp
  with h heading_in_order [OF h] show ?thesis by auto
qed

section \<open>Deliveries\<close>

abbreviation correlated :: "sends \<Rightarrow> opened \<Rightarrow> bool" where
  "correlated s o1 \<equiv> Option.bind (op_group o1) (group_point s) \<noteq> None"

abbreviation told_group :: "opened \<Rightarrow> group_delivery option" where
  "told_group o1 \<equiv> j_group (op_journey o1)"

lemma told_sel [simp]: "told_group (told d o1) = Some d"
  by (simp add: told_def)

definition told_apart :: "sends \<Rightarrow> opened \<times> opened \<Rightarrow> opened \<times> opened \<Rightarrow> bool" where
  "told_apart s = (\<lambda>(a, a') (b, b'). correlated s a \<longrightarrow> correlated s b \<longrightarrow>
     (map_option grp_delivery (told_group a') = map_option grp_delivery (told_group b')) = same_delivery a b)"

text \<open>What a Journey of \<open>os\<close> is told: nothing where it is opened through no Group naming a Correlation,
  else its delivery, minted from \<open>n\<close> on, itself among the members.\<close>

definition told_right :: "sends \<Rightarrow> (nat \<Rightarrow> ident) \<Rightarrow> nat \<Rightarrow> opened list \<Rightarrow> opened \<Rightarrow> opened \<Rightarrow> bool" where
  "told_right s ids n os a a' \<longleftrightarrow>
     (if correlated s a
      then \<exists>k p ms. n \<le> k \<and> Option.bind (op_group a) (group_point s) = Some p \<and>
             a' = told (delivery_of p (ids k) ms) a \<and> a \<in> set ms \<and> set ms \<subseteq> {b \<in> set os. same_delivery a b}
      else a' = a)"

lemma told_right_mono: "told_right s ids n os a a' \<Longrightarrow> m \<le> n \<Longrightarrow> set os \<subseteq> set os' \<Longrightarrow> told_right s ids m os' a a'"
  unfolding told_right_def by (auto split: if_splits) (blast intro: order_trans)

lemma same_delivery_trans:
  "same_delivery a b \<Longrightarrow> same_delivery a c \<longleftrightarrow> same_delivery b c"
  "same_delivery a b \<Longrightarrow> Option.bind (op_group b) f = Option.bind (op_group a) f"
  "same_delivery a a" "same_delivery a b \<Longrightarrow> same_delivery b a"
  by (auto simp: same_delivery_def)

lemma delivered_each:
  "delivered s ids n os = (os', n') \<Longrightarrow> list_all2 (told_right s ids n os) os os'"
proof (induction s ids n os arbitrary: os' n' rule: delivered.induct)
  case (2 s ids n one rest)
  define run where "run = one # takeWhile (same_delivery one) rest"
  define after where "after = dropWhile (same_delivery one) rest"
  have split: "one # rest = run @ after" by (simp add: run_def after_def)
  have run: "same_delivery one a" if "a \<in> set run" for a
    using that by (auto simp: run_def same_delivery_trans(3) dest: set_takeWhileD)
  have sub: "set after \<subseteq> set (one # rest)" "set run \<subseteq> set (one # rest)" unfolding split by auto
  show ?case
  proof (cases "Option.bind (op_group one) (group_point s)")
    case None
    obtain os1 n1 where d: "delivered s ids n after = (os1, n1)" by fastforce
    from 2(1) [OF run_def after_def None d] have "list_all2 (told_right s ids n after) after os1" .
    then have rest: "list_all2 (told_right s ids n (one # rest)) after os1"
      by (rule list_all2_mono) (rule told_right_mono [OF _ _ sub(1)], auto)
    have "list_all2 (told_right s ids n (one # rest)) run run"
      using same_delivery_trans(2) [OF run, of _ "group_point s"] None
      by (auto simp: list_all2_same told_right_def)
    from list_all2_appendI [OF this rest]
    have "list_all2 (told_right s ids n (one # rest)) (one # rest) (run @ os1)" by (simp only: split)
    moreover have "os' = run @ os1" using "2.prems" d None by (simp add: Let_def run_def after_def)
    ultimately show ?thesis by simp
  next
    case (Some p)
    obtain os1 n1 where d: "delivered s ids (n + 1) after = (os1, n1)" by fastforce
    from 2(2) [OF run_def after_def Some d] have "list_all2 (told_right s ids (n + 1) after) after os1" .
    then have rest: "list_all2 (told_right s ids n (one # rest)) after os1"
      by (rule list_all2_mono) (rule told_right_mono [OF _ _ sub(1)], auto)
    have "told_right s ids n (one # rest) a (told (delivery_of p (ids n) run) a)" if "a \<in> set run" for a
    proof -
      have "Option.bind (op_group a) (group_point s) = Some p"
        using same_delivery_trans(2) [OF run [OF that], of "group_point s"] Some by simp
      moreover have "set run \<subseteq> {b \<in> set (one # rest). same_delivery a b}"
        using sub(2) run same_delivery_trans(1) [OF run [OF that]] by blast
      ultimately show ?thesis unfolding told_right_def using that by auto
    qed
    then have "list_all2 (told_right s ids n (one # rest)) run (map (told (delivery_of p (ids n) run)) run)"
      by (simp add: list_all2_map2 list_all2_same)
    from list_all2_appendI [OF this rest]
    have "list_all2 (told_right s ids n (one # rest)) (one # rest)
        (map (told (delivery_of p (ids n) run)) run @ os1)" by (simp only: split)
    moreover have "os' = map (told (delivery_of p (ids n) run)) run @ os1"
      using "2.prems" d Some by (simp add: Let_def run_def after_def)
    ultimately show ?thesis by simp
  qed
qed simp

lemma told_right_delivery:
  assumes "told_right s ids n os a a'" "correlated s a"
  obtains k where "n \<le> k" "map_option grp_delivery (told_group a') = Some (ids k)"
  using assms by (auto simp: told_right_def delivery_of_def split: if_splits)

lemma successively_same:
  "(\<And>a b. a \<in> set xs \<Longrightarrow> b \<in> set xs \<Longrightarrow> P a b) \<Longrightarrow> successively P xs"
  by (induction xs rule: induct_list012) auto

lemma delivered_apart:
  assumes "delivered s ids n os = (os', n')" "inj ids"
  shows "successively (told_apart s) (zip os os')"
  using assms
proof (induction s ids n os arbitrary: os' n' rule: delivered.induct)
  case (2 s ids n one rest)
  define run where "run = one # takeWhile (same_delivery one) rest"
  define after where "after = dropWhile (same_delivery one) rest"
  have split: "one # rest = run @ after" by (simp add: run_def after_def)
  have run: "same_delivery one a" if "a \<in> set run" for a
    using that by (auto simp: run_def same_delivery_trans(3) dest: set_takeWhileD)
  have bind: "Option.bind (op_group a) (group_point s) = Option.bind (op_group one) (group_point s)"
    if "a \<in> set run" for a using same_delivery_trans(2) [OF run [OF that]] .
  have hd_after: "\<not> same_delivery a (hd after)" if "after \<noteq> []" "a \<in> set run" for a
    using hd_dropWhile [of "same_delivery one" rest] that same_delivery_trans(1) [OF run [OF that(2)]]
    by (auto simp: after_def)
  show ?case
  proof (cases "Option.bind (op_group one) (group_point s)")
    case None
    obtain os1 n1 where d: "delivered s ids n after = (os1, n1)" by fastforce
    note l = list_all2_lengthD [OF delivered_each [OF d]]
    have "successively (told_apart s) (zip after os1)"
      using 2(1) [OF run_def after_def None d "2.prems"(2)] .
    moreover have "successively (told_apart s) (zip run run)"
      using bind None by (intro successively_same) (auto simp: told_apart_def dest!: set_zip_leftD)
    moreover have "told_apart s (last (zip run run)) b" for b
    proof -
      have "run \<noteq> []" by (simp add: run_def)
      with bind [of "last run"] None show ?thesis by (cases b) (simp add: told_apart_def last_zip)
    qed
    ultimately have "successively (told_apart s) (zip (run @ after) (run @ os1))"
      by (simp add: successively_append_iff)
    moreover have "os' = run @ os1" using "2.prems" d None by (simp add: Let_def run_def after_def)
    ultimately show ?thesis by (simp only: split)
  next
    case (Some p)
    let ?t = "told (delivery_of p (ids n) run)"
    obtain os1 n1 where d: "delivered s ids (n + 1) after = (os1, n1)" by fastforce
    note all = delivered_each [OF d]
    have "successively (told_apart s) (zip after os1)"
      using 2(2) [OF run_def after_def Some d "2.prems"(2)] .
    moreover have "successively (told_apart s) (zip run (map ?t run))"
    proof (intro successively_same)
      fix x y assume "x \<in> set (zip run (map ?t run))" "y \<in> set (zip run (map ?t run))"
      then obtain a b where [simp]: "x = (a, ?t a)" "y = (b, ?t b)" and ab: "a \<in> set run" "b \<in> set run"
        by (auto simp: zip_map2 zip_same_conv_map)
      have "same_delivery a b" using same_delivery_trans(1) [OF run [OF ab(1)]] run [OF ab(2)] by blast
      then show "told_apart s x y" by (simp add: told_apart_def)
    qed
    moreover have "told_apart s (last (zip run (map ?t run))) (hd (zip after os1))" if "zip after os1 \<noteq> []"
    proof -
      from that obtain b bs b' bs' where b: "after = b # bs" "os1 = b' # bs'"
        by (cases after; cases os1) auto
      with all have "told_right s ids (n + 1) after b b'" by simp
      moreover have "\<not> same_delivery (last run) b" using hd_after b by (simp add: run_def)
      ultimately show ?thesis
        using "2.prems"(2) b
        by (auto simp: told_apart_def run_def last_zip last_map delivery_of_def inj_eq
            elim!: told_right_delivery)
    qed
    ultimately have "successively (told_apart s) (zip (run @ after) (map ?t run @ os1))"
      by (auto simp: successively_append_iff)
    moreover have "os' = map ?t run @ os1"
      using "2.prems" d Some by (simp add: Let_def run_def after_def)
    ultimately show ?thesis by (simp only: split)
  qed
qed simp

text \<open>Each Journey opened through a Send Port Group that names a Correlation is told its delivery,
  itself among the members and every member opened by its own Subscription through its own
  Group; any other Journey is left as it was. Neighbours are told the same delivery exactly
  where one Subscription opened them through one Group.\<close>

theorem delivered_once_each:
  assumes "delivered s ids n os = (os', n')" and "inj ids"
  shows "list_all2 (told_right s ids n os) os os' \<and> successively (told_apart s) (zip os os')"
  using delivered_each [OF assms(1)] delivered_apart [OF assms] by blast

definition two_deliveries :: "opened list" where
  "two_deliveries = (let o1 = \<lparr>op_journey = bare_journey, op_subscription = ''s1'',
       op_to = ToSendPort ''out'', op_group = Some ''all''\<rparr> in
     [o1, o1\<lparr>op_journey := bare_journey\<lparr>journey_id := 2\<rparr>\<rparr>, o1\<lparr>op_subscription := ''s2''\<rparr>])"

theorem delivered_once_each_witness:
  "map (\<lambda>o1. map_option grp_delivery (told_group o1)) (fst (delivered grouped_sends (\<lambda>n. n) 10 two_deliveries))
     = [Some 10, Some 10, Some 11]
   \<and> successively (told_apart grouped_sends) (zip two_deliveries (fst (delivered grouped_sends (\<lambda>n. n) 10 two_deliveries)))"
proof
  show "map (\<lambda>o1. map_option grp_delivery (told_group o1)) (fst (delivered grouped_sends (\<lambda>n. n) 10 two_deliveries))
     = [Some 10, Some 10, Some 11]" by code_simp
qed (use delivered_once_each [OF surjective_pairing, of "\<lambda>n. n" grouped_sends 10 two_deliveries] in simp)

end
