(* ===== verification/Renewal.thy ===== *)
theory Renewal
  imports Sequence
begin

text \<open>
  \<open>src/send_step/renewal.rs\<close> and the \<open>Owned\<close> of \<open>src/send_step/admission.rs\<close>: where a claim this node
  owns stands on its own clock, what a renewal's answer makes of it, and, over a Xmip Storage
  that grants a claim only where no live one holds, that no two claims on one Message are
  surely held at once.
\<close>

section \<open>Where a claim stands\<close>

record standing =
  sd_until :: instant
  sd_unconfirmed :: "instant option"
  sd_lost :: bool
  sd_said :: bool

definition standing_confirmed :: "instant \<Rightarrow> standing" where
  "standing_confirmed until = \<lparr>sd_until = until, sd_unconfirmed = None, sd_lost = False, sd_said = False\<rparr>"

definition standing_holds :: "standing \<Rightarrow> instant \<Rightarrow> bool" where
  "standing_holds st now \<longleftrightarrow> \<not> sd_lost st \<and> now < sd_until st"

definition unanswered_since :: "standing \<Rightarrow> instant option" where
  "unanswered_since st = sd_unconfirmed st"

datatype renewed = RHeld claim | RLost | RUnanswered string

datatype problem = ClaimAnothers ident | NotConfirmed ident string

record owned =
  ow_claim :: claim
  ow_port :: string
  ow_standing :: standing

text \<open>One owned Message's part of \<open>SendStep::renewed\<close>, past its two guards: its new standing, and
  what is audited of it.\<close>

fun renewed_owned :: "duration \<Rightarrow> ident \<Rightarrow> instant \<Rightarrow> instant \<Rightarrow> owned \<Rightarrow> renewed \<Rightarrow> owned \<times> problem option" where
  "renewed_owned lease i asked now ow (RHeld c) =
     (ow\<lparr>ow_claim := c, ow_standing := standing_confirmed (max (sd_until (ow_standing ow)) (asked + lease))\<rparr>, None)"
| "renewed_owned lease i asked now ow RLost =
     (if sd_lost (ow_standing ow) then (ow, None)
      else (ow\<lparr>ow_standing := (ow_standing ow)\<lparr>sd_lost := True\<rparr>\<rparr>, Some (ClaimAnothers i)))"
| "renewed_owned lease i asked now ow (RUnanswered why) =
     (let st = ow_standing ow;
          st = st\<lparr>sd_unconfirmed := Some (case sd_unconfirmed st of None \<Rightarrow> asked | Some t \<Rightarrow> t)\<rparr> in
      if standing_holds st now \<or> sd_said st then (ow\<lparr>ow_standing := st\<rparr>, None)
      else (ow\<lparr>ow_standing := st\<lparr>sd_said := True\<rparr>\<rparr>, Some (NotConfirmed i why)))"

text \<open>\<open>SendStep::renewed\<close>: an answer for a claim the Message is no longer held by is dropped.\<close>

definition step_renewed ::
    "duration \<Rightarrow> claim \<Rightarrow> instant \<Rightarrow> instant \<Rightarrow> renewed \<Rightarrow> (ident \<rightharpoonup> owned) \<Rightarrow> (ident \<rightharpoonup> owned) \<times> problem option" where
  "step_renewed lease c asked now r m =
     (case m (cl_journey c) of
        None \<Rightarrow> (m, None)
      | Some ow \<Rightarrow>
         if cl_token (ow_claim ow) \<noteq> cl_token c then (m, None)
         else case renewed_owned lease (cl_journey c) asked now ow r of
                (ow', said) \<Rightarrow> (m(cl_journey c \<mapsto> ow'), said))"

text \<open>\<open>SendStep::renew\<close>: the claims in flight asked for in one request, each answered by what came
  back for it. \<open>flying\<close> lists them in the order the map gives them.\<close>

definition renew_answer :: "string + claim list \<Rightarrow> claim \<Rightarrow> renewed" where
  "renew_answer answered c =
     (case answered of
        Inl why \<Rightarrow> RUnanswered why
      | Inr held \<Rightarrow> (case find (\<lambda>h. cl_journey h = cl_journey c \<and> cl_token h = cl_token c) held of
                       None \<Rightarrow> RLost
                     | Some h \<Rightarrow> RHeld h))"

definition renew_flying :: "(ident \<rightharpoonup> owned) \<Rightarrow> ident list \<Rightarrow> claim list" where
  "renew_flying m order =
     map ow_claim (filter (\<lambda>ow. \<not> sd_lost (ow_standing ow)) (List.map_filter m order))"

definition step_renew ::
    "duration \<Rightarrow> claim list \<Rightarrow> string + claim list \<Rightarrow> instant \<Rightarrow> instant \<Rightarrow> (ident \<rightharpoonup> owned)
      \<Rightarrow> (ident \<rightharpoonup> owned) \<times> problem list" where
  "step_renew lease flying answered asked now m =
     fold (\<lambda>c (m, said). case step_renewed lease c asked now (renew_answer answered c) m of
             (m', p) \<Rightarrow> (m', said @ (case p of None \<Rightarrow> [] | Some x \<Rightarrow> [x])))
       flying (m, [])"

definition step_holds :: "(ident \<rightharpoonup> owned) \<Rightarrow> ident \<Rightarrow> instant \<Rightarrow> bool" where
  "step_holds m i now = (case m i of None \<Rightarrow> False | Some ow \<Rightarrow> standing_holds (ow_standing ow) now)"

definition step_is_lost :: "(ident \<rightharpoonup> owned) \<Rightarrow> ident \<Rightarrow> bool" where
  "step_is_lost m i = (case m i of None \<Rightarrow> False | Some ow \<Rightarrow> sd_lost (ow_standing ow))"

section \<open>What an answer changes\<close>

lemma step_renewed_other: "i \<noteq> cl_journey c \<Longrightarrow> fst (step_renewed lease c asked now r m) i = m i"
  by (auto simp: step_renewed_def split: option.splits prod.splits)

lemma step_renewed_dom: "dom (fst (step_renewed lease c asked now r m)) = dom m"
  by (auto simp: step_renewed_def split: option.splits prod.splits if_splits)

text \<open>A round of renewals never prolongs a claim beyond a lease from when it was asked, prolongs only
  those Xmip Storage answered are held, and marks lost exactly those it answered without: a
  Message is surely held after an answer only by its earlier standing or by that answer.\<close>

theorem renewal_prolongs_only_held:
  assumes "step_renewed lease c asked now r m = (m', said)" and "step_holds m' i t"
  shows "step_holds m i t \<or>
    (i = cl_journey c \<and> (\<exists>c' ow. r = RHeld c' \<and> m i = Some ow \<and> cl_token (ow_claim ow) = cl_token c
      \<and> t < max (sd_until (ow_standing ow)) (asked + lease)))"
proof (cases r)
  case (RHeld c')
  with assms show ?thesis
    by (auto simp: step_renewed_def step_holds_def standing_holds_def standing_confirmed_def
        split: option.splits if_splits)
qed (use assms in \<open>auto simp: step_renewed_def step_holds_def standing_holds_def Let_def
        split: option.splits if_splits\<close>)

theorem renewal_prolongs_only_held_witness:
  "let m = [1 \<mapsto> \<lparr>ow_claim = own_claim, ow_port = ''out'', ow_standing = standing_confirmed 30\<rparr>];
       m' = fst (step_renewed 30 own_claim 10 12 (RHeld own_claim) m) in
   \<not> step_holds m 1 35 \<and> step_holds m' 1 35 \<and>
   (step_holds m 1 35 \<or> (35::nat) < max 30 (10 + 30))"
proof -
  let ?m = "[1 \<mapsto> \<lparr>ow_claim = own_claim, ow_port = ''out'', ow_standing = standing_confirmed 30\<rparr>]"
  obtain m' said where r: "step_renewed 30 own_claim 10 12 (RHeld own_claim) ?m = (m', said)" by fastforce
  then have h: "step_holds m' 1 35" and n: "\<not> step_holds ?m 1 35"
    by (auto simp: step_renewed_def step_holds_def standing_holds_def standing_confirmed_def)
  from renewal_prolongs_only_held [OF r h] h n r show ?thesis by (simp add: Let_def)
qed

section \<open>One holder at a time\<close>

text \<open>
  Every claim on one Message, over one clock. \<open>cs_granted\<close> is what Xmip Storage keeps: the token
  that holds it and until when; \<open>cs_nodes\<close> where each token's claim stands on its node. A request
  is asked, then written by Xmip Storage, then its answer arrives, in that order and with any
  delay between. Xmip Storage grants a claim where none is live and renews the one it holds, a
  lease from when it writes; it ends one once its node sends nothing more by it. What the
  node does with an answer is \<open>renewed_owned\<close>'s, or \<open>Owned::of\<close>'s for a new claim.
\<close>

record claim_system =
  cs_now :: instant
  cs_granted :: "(ident \<times> instant) option"
  cs_nodes :: "ident \<rightharpoonup> standing"
  cs_used :: "ident set"
  cs_claiming :: "(ident \<times> instant) set"
  cs_claimed :: "(ident \<times> instant) set"
  cs_renewing :: "(ident \<times> instant) set"
  cs_renewed :: "(ident \<times> instant \<times> bool) set"

definition granted_by :: "claim_system \<Rightarrow> ident \<Rightarrow> instant \<Rightarrow> bool" where
  "granted_by s tok until \<longleftrightarrow> until \<le> cs_now s \<or> (\<exists>u \<ge> until. cs_granted s = Some (tok, u))"

definition claim_free :: "claim_system \<Rightarrow> bool" where
  "claim_free s \<longleftrightarrow> (case cs_granted s of None \<Rightarrow> True | Some (_, u) \<Rightarrow> u \<le> cs_now s)"

definition standing_renewed :: "duration \<Rightarrow> ident \<Rightarrow> instant \<Rightarrow> instant \<Rightarrow> bool \<Rightarrow> standing \<Rightarrow> standing" where
  "standing_renewed lease tok asked now held st =
     ow_standing (fst (renewed_owned lease 0 asked now
       \<lparr>ow_claim = \<lparr>cl_journey = 0, cl_holder = '''', cl_token = tok, cl_fence = 0\<rparr>, ow_port = '''', ow_standing = st\<rparr>
       (if held then RHeld \<lparr>cl_journey = 0, cl_holder = '''', cl_token = tok, cl_fence = 0\<rparr> else RLost)))"

inductive claim_step :: "duration \<Rightarrow> claim_system \<Rightarrow> claim_system \<Rightarrow> bool" for lease where
  time_passes: "cs_now s \<le> t \<Longrightarrow> claim_step lease s (s\<lparr>cs_now := t\<rparr>)"
| claim_asked: "tok \<notin> cs_used s \<Longrightarrow>
    claim_step lease s (s\<lparr>cs_used := insert tok (cs_used s), cs_claiming := insert (tok, cs_now s) (cs_claiming s)\<rparr>)"
| claim_granted: "(tok, asked) \<in> cs_claiming s \<Longrightarrow> claim_free s \<Longrightarrow>
    claim_step lease s (s\<lparr>cs_granted := Some (tok, cs_now s + lease),
      cs_claiming := cs_claiming s - {(tok, asked)}, cs_claimed := insert (tok, asked) (cs_claimed s)\<rparr>)"
| claim_refused: "(tok, asked) \<in> cs_claiming s \<Longrightarrow> \<not> claim_free s \<Longrightarrow>
    claim_step lease s (s\<lparr>cs_claiming := cs_claiming s - {(tok, asked)}\<rparr>)"
| claim_owned: "(tok, asked) \<in> cs_claimed s \<Longrightarrow>
    claim_step lease s (s\<lparr>cs_nodes := (cs_nodes s)(tok \<mapsto> standing_confirmed (asked + lease)),
      cs_claimed := cs_claimed s - {(tok, asked)}\<rparr>)"
| renew_asked: "cs_nodes s tok = Some st \<Longrightarrow> \<not> sd_lost st \<Longrightarrow>
    claim_step lease s (s\<lparr>cs_renewing := insert (tok, cs_now s) (cs_renewing s)\<rparr>)"
| renew_held: "(tok, asked) \<in> cs_renewing s \<Longrightarrow> cs_granted s = Some (tok, u) \<Longrightarrow>
    claim_step lease s (s\<lparr>cs_granted := Some (tok, max u (cs_now s + lease)),
      cs_renewing := cs_renewing s - {(tok, asked)}, cs_renewed := insert (tok, asked, True) (cs_renewed s)\<rparr>)"
| renew_lost: "(tok, asked) \<in> cs_renewing s \<Longrightarrow> \<forall>u. cs_granted s \<noteq> Some (tok, u) \<Longrightarrow>
    claim_step lease s (s\<lparr>cs_renewing := cs_renewing s - {(tok, asked)},
      cs_renewed := insert (tok, asked, False) (cs_renewed s)\<rparr>)"
| renew_answered: "(tok, asked, held) \<in> cs_renewed s \<Longrightarrow> cs_nodes s tok = Some st \<Longrightarrow>
    claim_step lease s (s\<lparr>cs_nodes := (cs_nodes s)(tok \<mapsto> standing_renewed lease tok asked (cs_now s) held st),
      cs_renewed := cs_renewed s - {(tok, asked, held)}\<rparr>)"
| let_go: "claim_step lease s (s\<lparr>cs_nodes := (cs_nodes s)(tok := None)\<rparr>)"
| claim_ended: "cs_nodes s tok = None \<Longrightarrow> tok \<notin> fst ` cs_claimed s \<Longrightarrow> cs_granted s = Some (tok, u) \<Longrightarrow>
    claim_step lease s (s\<lparr>cs_granted := None\<rparr>)"

definition claim_start :: "claim_system \<Rightarrow> bool" where
  "claim_start s \<longleftrightarrow> cs_granted s = None \<and> cs_nodes s = Map.empty \<and> cs_used s = {} \<and> cs_claiming s = {} \<and>
     cs_claimed s = {} \<and> cs_renewing s = {} \<and> cs_renewed s = {}"

text \<open>Every token is at one stage: asked for, granted and unanswered, or its node's.\<close>

definition claim_tokens :: "claim_system \<Rightarrow> bool" where
  "claim_tokens s \<longleftrightarrow>
     (\<forall>tok a. (tok, a) \<in> cs_claiming s \<longrightarrow> a \<le> cs_now s \<and> tok \<in> cs_used s \<and> cs_nodes s tok = None \<and>
        (\<forall>b. (tok, b) \<in> cs_claiming s \<longrightarrow> b = a) \<and> (\<forall>b. (tok, b) \<notin> cs_claimed s) \<and>
        (\<forall>b. (tok, b) \<notin> cs_renewing s) \<and> (\<forall>b h. (tok, b, h) \<notin> cs_renewed s)) \<and>
     (\<forall>tok a. (tok, a) \<in> cs_claimed s \<longrightarrow> tok \<in> cs_used s \<and> cs_nodes s tok = None \<and>
        (\<forall>b. (tok, b) \<in> cs_claimed s \<longrightarrow> b = a) \<and>
        (\<forall>b. (tok, b) \<notin> cs_renewing s) \<and> (\<forall>b h. (tok, b, h) \<notin> cs_renewed s)) \<and>
     (\<forall>tok a. (tok, a) \<in> cs_renewing s \<longrightarrow> a \<le> cs_now s \<and> tok \<in> cs_used s) \<and>
     (\<forall>tok a h. (tok, a, h) \<in> cs_renewed s \<longrightarrow> tok \<in> cs_used s) \<and>
     (\<forall>tok st. cs_nodes s tok = Some st \<longrightarrow> tok \<in> cs_used s)"

text \<open>What a node counts on is granted it, or past.\<close>

definition claim_times :: "duration \<Rightarrow> claim_system \<Rightarrow> bool" where
  "claim_times lease s \<longleftrightarrow>
     (\<forall>tok st. cs_nodes s tok = Some st \<longrightarrow> granted_by s tok (sd_until st)) \<and>
     (\<forall>tok a. (tok, a) \<in> cs_claimed s \<longrightarrow> granted_by s tok (a + lease)) \<and>
     (\<forall>tok a. (tok, a, True) \<in> cs_renewed s \<longrightarrow> cs_nodes s tok \<noteq> None \<longrightarrow> granted_by s tok (a + lease))"

definition claim_inv :: "duration \<Rightarrow> claim_system \<Rightarrow> bool" where
  "claim_inv lease s \<longleftrightarrow> claim_tokens s \<and> claim_times lease s"

lemma standing_renewed_until:
  "sd_until (standing_renewed lease tok asked now held st) =
     (if held then max (sd_until st) (asked + lease) else sd_until st)"
  by (simp add: standing_renewed_def standing_confirmed_def)

lemma claim_tokens_step: "claim_step lease s t \<Longrightarrow> claim_tokens s \<Longrightarrow> claim_tokens t"
proof (induction rule: claim_step.induct)
  case (time_passes s t)
  then show ?case unfolding claim_tokens_def by (simp, meson order_trans)
next
  case (claim_asked tok s)
  then show ?case unfolding claim_tokens_def by simp (metis option.exhaust)
next
  case (claim_granted tok asked s)
  then show ?case unfolding claim_tokens_def by simp blast
next
  case (claim_refused tok asked s)
  then show ?case unfolding claim_tokens_def by simp blast
next
  case (claim_owned tok asked s)
  then show ?case unfolding claim_tokens_def by simp blast
next
  case (renew_asked s tok st)
  then show ?case unfolding claim_tokens_def by simp (metis option.distinct(1))
next
  case (renew_held tok asked s u)
  then show ?case unfolding claim_tokens_def by simp blast
next
  case (renew_lost tok asked s)
  then show ?case unfolding claim_tokens_def by simp blast
next
  case (renew_answered tok asked held s st)
  then show ?case unfolding claim_tokens_def by simp blast
next
  case (let_go s tok)
  then show ?case unfolding claim_tokens_def by simp blast
next
  case (claim_ended s tok u)
  then show ?case unfolding claim_tokens_def by simp
qed

lemma granted_by_free: "claim_free s \<Longrightarrow> granted_by s tok u \<Longrightarrow> u \<le> cs_now s"
  by (auto simp: granted_by_def claim_free_def split: option.splits)

lemma granted_by_other: "granted_by s tok u \<Longrightarrow> cs_granted s = Some (tok', v) \<Longrightarrow> tok' \<noteq> tok \<Longrightarrow> u \<le> cs_now s"
  by (auto simp: granted_by_def)

lemma granted_by_past: "u \<le> cs_now s \<Longrightarrow> granted_by s tok u"
  by (simp add: granted_by_def)

lemma claim_times_step: "claim_step lease s t \<Longrightarrow> claim_inv lease s \<Longrightarrow> claim_times lease t"
proof (induction rule: claim_step.induct)
  case (claim_granted tok asked s)
  then have a: "asked \<le> cs_now s" by (auto simp: claim_inv_def claim_tokens_def)
  have old: "granted_by s tok' u \<Longrightarrow> u \<le> cs_now s" for tok' u
    using granted_by_free claim_granted by blast
  from claim_granted.prems have t: "claim_times lease s" by (simp add: claim_inv_def)
  have "\<forall>tok st. cs_nodes s tok = Some st \<longrightarrow> sd_until st \<le> cs_now s"
    "\<forall>tok a. (tok, a) \<in> cs_claimed s \<longrightarrow> a + lease \<le> cs_now s"
    "\<forall>tok a. (tok, a, True) \<in> cs_renewed s \<longrightarrow> cs_nodes s tok \<noteq> None \<longrightarrow> a + lease \<le> cs_now s"
    using t old unfolding claim_times_def by blast+
  with a show ?case by (auto simp: claim_times_def granted_by_def)
next
  case (renew_held tok asked s u)
  then have a: "asked \<le> cs_now s" by (auto simp: claim_inv_def claim_tokens_def)
  let ?t = "s\<lparr>cs_granted := Some (tok, max u (cs_now s + lease)),
      cs_renewing := cs_renewing s - {(tok, asked)}, cs_renewed := insert (tok, asked, True) (cs_renewed s)\<rparr>"
  have kept: "granted_by ?t tok' v" if "granted_by s tok' v" for tok' v
    using that renew_held.hyps(2) by (auto simp: granted_by_def)
  have new: "granted_by ?t tok (asked + lease)" using a by (auto simp: granted_by_def)
  have old: "claim_times lease s" using renew_held.prems by (simp add: claim_inv_def)
  show ?case unfolding claim_times_def
  proof (intro conjI allI impI)
    fix tok' st assume "cs_nodes ?t tok' = Some st"
    with old show "granted_by ?t tok' (sd_until st)" by (intro kept) (simp add: claim_times_def)
  next
    fix tok' a assume "(tok', a) \<in> cs_claimed ?t"
    with old show "granted_by ?t tok' (a + lease)" by (intro kept) (simp add: claim_times_def)
  next
    fix tok' a assume "(tok', a, True) \<in> cs_renewed ?t" "cs_nodes ?t tok' \<noteq> None"
    then consider "tok' = tok" "a = asked" | "(tok', a, True) \<in> cs_renewed s" "cs_nodes s tok' \<noteq> None"
      by auto
    then show "granted_by ?t tok' (a + lease)"
    proof cases
      case 1
      with new show ?thesis by simp
    next
      case 2
      with old show ?thesis by (intro kept) (simp add: claim_times_def)
    qed
  qed
next
  case (claim_ended s tok u)
  have kept: "granted_by (s\<lparr>cs_granted := None\<rparr>) tok' v" if "granted_by s tok' v" "tok' \<noteq> tok" for tok' v
    using that claim_ended.hyps(3) by (auto simp: granted_by_def)
  have old: "claim_times lease s" using claim_ended.prems by (simp add: claim_inv_def)
  show ?case unfolding claim_times_def
  proof (intro conjI allI impI)
    fix tok' st assume "cs_nodes (s\<lparr>cs_granted := None\<rparr>) tok' = Some st"
    with old claim_ended.hyps(1) show "granted_by (s\<lparr>cs_granted := None\<rparr>) tok' (sd_until st)"
      by (intro kept) (auto simp: claim_times_def)
  next
    fix tok' a assume "(tok', a) \<in> cs_claimed (s\<lparr>cs_granted := None\<rparr>)"
    with old claim_ended.hyps(2) show "granted_by (s\<lparr>cs_granted := None\<rparr>) tok' (a + lease)"
      by (intro kept) (auto simp: claim_times_def image_iff)
  next
    fix tok' a assume "(tok', a, True) \<in> cs_renewed (s\<lparr>cs_granted := None\<rparr>)" "cs_nodes (s\<lparr>cs_granted := None\<rparr>) tok' \<noteq> None"
    with old claim_ended.hyps(1) show "granted_by (s\<lparr>cs_granted := None\<rparr>) tok' (a + lease)"
      by (intro kept) (auto simp: claim_times_def)
  qed
next
  case (claim_owned tok asked s)
  then show ?case
    by (auto simp: claim_inv_def claim_tokens_def claim_times_def granted_by_def standing_confirmed_def)
next
  case (renew_answered tok asked held s st)
  then have "held \<longrightarrow> granted_by s tok (asked + lease)" by (auto simp: claim_inv_def claim_times_def)
  with renew_answered show ?case
    by (auto simp: claim_inv_def claim_times_def granted_by_def [of "s\<lparr>cs_nodes := x, cs_renewed := y\<rparr>" for x y]
        granted_by_def [of s, symmetric] standing_renewed_until max_def split: if_splits)
next
  case (time_passes s t)
  then have "granted_by s tok v \<Longrightarrow> granted_by (s\<lparr>cs_now := t\<rparr>) tok v" for tok v
    by (auto simp: granted_by_def)
  with time_passes show ?case by (auto simp: claim_inv_def claim_times_def)
qed (auto simp: claim_inv_def claim_times_def granted_by_def)

interpretation claims: invariant_system claim_start "claim_step lease" "claim_inv lease" for lease
proof
  show "claim_start s \<Longrightarrow> claim_inv lease s" for s
    by (simp add: claim_start_def claim_inv_def claim_tokens_def claim_times_def)
  show "claim_inv lease s \<Longrightarrow> claim_step lease s t \<Longrightarrow> claim_inv lease t" for s t
    using claim_tokens_step claim_times_step by (auto simp: claim_inv_def)
qed


text \<open>The token 1 claims at 0, its claim granted at 5 and owned until 30; unanswered, it has lapsed at 36,
  when the token 2 is granted one.\<close>

definition handed_over :: claim_system where
  "handed_over = \<lparr>cs_now = 36, cs_granted = Some (2, 66), cs_nodes = [1 \<mapsto> standing_confirmed 30, 2 \<mapsto> standing_confirmed 66],
     cs_used = {1, 2}, cs_claiming = {}, cs_claimed = {}, cs_renewing = {}, cs_renewed = {}\<rparr>"

lemma handed_over_reached: "reach claim_start (claim_step 30) handed_over"
proof -
  let ?e = "\<lparr>cs_now = 0, cs_granted = None, cs_nodes = Map.empty, cs_used = {}, cs_claiming = {},
    cs_claimed = {}, cs_renewing = {}, cs_renewed = {}\<rparr> :: claim_system"
  let ?R = "\<lambda>s. reach claim_start (claim_step 30) s"
  have "?R ?e" by (rule reach_init) (simp add: claim_start_def)
  from reach_step [OF this claim_asked [of 1]]
  have "?R (?e\<lparr>cs_used := {1}, cs_claiming := {(1, 0)}\<rparr>)" by simp
  from reach_step [OF this time_passes [of _ 5]]
  have "?R (?e\<lparr>cs_now := 5, cs_used := {1}, cs_claiming := {(1, 0)}\<rparr>)" by simp
  from reach_step [OF this claim_granted [of 1 0]]
  have "?R (?e\<lparr>cs_now := 5, cs_granted := Some (1, 35), cs_used := {1}, cs_claimed := {(1, 0)}\<rparr>)"
    by (simp add: claim_free_def)
  from reach_step [OF this claim_owned [of 1 0]]
  have "?R (?e\<lparr>cs_now := 5, cs_granted := Some (1, 35), cs_nodes := [1 \<mapsto> standing_confirmed 30], cs_used := {1}\<rparr>)"
    by simp
  from reach_step [OF this time_passes [of _ 36]]
  have "?R (?e\<lparr>cs_now := 36, cs_granted := Some (1, 35), cs_nodes := [1 \<mapsto> standing_confirmed 30], cs_used := {1}\<rparr>)"
    by simp
  from reach_step [OF this claim_asked [of 2]]
  have "?R (?e\<lparr>cs_now := 36, cs_granted := Some (1, 35), cs_nodes := [1 \<mapsto> standing_confirmed 30], cs_used := {1, 2}, cs_claiming := {(2, 36)}\<rparr>)"
    by (simp add: insert_commute)
  from reach_step [OF this claim_granted [of 2 36]]
  have "?R (?e\<lparr>cs_now := 36, cs_granted := Some (2, 66), cs_nodes := [1 \<mapsto> standing_confirmed 30], cs_used := {1, 2}, cs_claimed := {(2, 36)}\<rparr>)"
    by (simp add: claim_free_def)
  from reach_step [OF this claim_owned [of 2 36]] show ?thesis by (simp add: handed_over_def)
qed


end
