(* ===== verification/Departure.thy ===== *)
theory Departure
  imports Sending
begin

text \<open>
  \<open>src/departure.rs\<close>: one pass of a Message to its Send Port. Everything a try asks of its
  environment is a \<open>world\<close>: the claim (\<open>owned\<close>), the authorization, whether the Publication is
  kept, and the transport. Each answer may change from one asking to the next, so each is a
  function of a tick that every asking advances.
\<close>

section \<open>Departures and progress\<close>

datatype departed =
    DSent subscriber "string option" "string option"
  | NoSuchDestination subscriber
  | ProcessNotRun subscriber
  | NotPermitted subscriber string
  | DFailed subscriber bool string

fun is_sent :: "departed \<Rightarrow> bool" where
  "is_sent (DSent _ _ _) = True"
| "is_sent _ = False"

record progress =
  pr_sent :: bool
  pr_location :: nat
  pr_tries :: nat
  pr_given_up :: "string option"
  pr_fence :: nat

definition progress_of :: "attempts \<Rightarrow> progress" where
  "progress_of a = \<lparr>pr_sent = False, pr_location = at_location a, pr_tries = at_tries a,
     pr_given_up = None, pr_fence = 0\<rparr>"

definition progress_attempts :: "progress \<Rightarrow> attempts" where
  "progress_attempts p = \<lparr>at_location = min (pr_location p) u32_max, at_tries = pr_tries p\<rparr>"

definition progress_waiting :: "progress \<Rightarrow> bool" where
  "progress_waiting p \<longleftrightarrow> \<not> pr_sent p \<and> pr_given_up p = None"

section \<open>The environment of a pass\<close>

text \<open>\<open>w_permitted\<close> is \<open>None\<close> where departure's authorization allows the try, else the decision's
  words; \<open>w_kept\<close> why the Publication was not kept, where it was not; \<open>w_transport\<close> answers
  whether the transport found the claim let go of as the first byte would go, and what its send
  came to (\<open>None\<close> sent, else whether asking again may mend, and why). \<open>w_presents\<close> is the level
  and the identity the Send chain and the directory resolve to, \<open>w_shown\<close> the route crate's words
  for a destination.\<close>

record world =
  w_owned :: "nat \<Rightarrow> bool"
  w_permitted :: "string \<Rightarrow> nat \<Rightarrow> string option"
  w_kept :: "nat \<Rightarrow> string option"
  w_transport :: "string \<Rightarrow> nat \<Rightarrow> bool \<times> (bool \<times> string) option"
  w_presents :: "string \<Rightarrow> string option \<times> string option"
  w_shown :: "subscriber \<Rightarrow> string"

definition depart_one :: "world \<Rightarrow> subscriber \<Rightarrow> sending \<Rightarrow> nat \<Rightarrow> departed option" where
  "depart_one w to loc t =
     (case w_permitted w (loc_name loc) t of
        Some decision \<Rightarrow> Some (NotPermitted to decision)
      | None \<Rightarrow>
         (case (if loc_holds_back loc then None else w_kept w t) of
            Some detail \<Rightarrow> Some (DFailed to True detail)
          | None \<Rightarrow>
             if \<not> w_owned w t then None
             else case w_transport w (loc_name loc) t of
                    (let_go, sent) \<Rightarrow>
                      if let_go then None
                      else case sent of
                             None \<Rightarrow> (case w_presents w (loc_name loc) of
                               (presented_from, presented) \<Rightarrow> Some (DSent to presented_from presented))
                           | Some (retryable, detail) \<Rightarrow> Some (DFailed to retryable detail)))"

definition tried_again :: "departed \<Rightarrow> bool" where
  "tried_again d = (case d of DFailed _ retryable _ \<Rightarrow> retryable | _ \<Rightarrow> False)"

text \<open>\<open>said\<close>: departures in words, as a Journey records them.\<close>

fun said_one :: "(subscriber \<Rightarrow> string) \<Rightarrow> departed \<Rightarrow> string" where
  "said_one shown (DSent to _ _) = ''sent to '' @ shown to"
| "said_one shown (NoSuchDestination to) = ''no Send Location for '' @ shown to"
| "said_one shown (ProcessNotRun to) = shown to @ '' is run by no runtime yet''"
| "said_one shown (NotPermitted to decision) = ''not permitted to '' @ shown to @ '': '' @ decision"
| "said_one shown (DFailed to _ detail) = ''not sent to '' @ shown to @ '': '' @ detail"

fun joined :: "string list \<Rightarrow> string" where
  "joined [] = ''''"
| "joined [x] = x"
| "joined (x # xs) = x @ ''; '' @ joined xs"

definition said :: "(subscriber \<Rightarrow> string) \<Rightarrow> departed list \<Rightarrow> string" where
  "said shown ds = (if ds = [] then ''nowhere to go'' else joined (map (said_one shown) ds))"

definition no_location :: "world \<Rightarrow> subscriber \<Rightarrow> string" where
  "no_location w to = ''no Send Location for '' @ w_shown w to @ '' on this node''"

text \<open>\<open>depart_port\<close>: the active Location tried, and the next after it where the Port fails over.
  The tick advances at each of the loop's questions.\<close>

function depart_port :: "world \<Rightarrow> port \<Rightarrow> progress \<Rightarrow> nat \<Rightarrow> departed list \<times> progress" where
  "depart_port w port p t =
     (let to = ToSendPort (po_name port) in
      if \<not> w_owned w t then ([], p)
      else if length (po_locations port) \<le> pr_location p then
        ([NoSuchDestination to],
         p\<lparr>pr_given_up := Some (no_location w to)\<rparr>)
      else case depart_one w to (po_locations port ! pr_location p) (t + 1) of
        None \<Rightarrow> ([], p)
      | Some one \<Rightarrow>
          let p = p\<lparr>pr_tries := pr_tries p + 1\<rparr> in
          if is_sent one then ([one], p\<lparr>pr_sent := True\<rparr>)
          else if tried_again one \<and> pr_tries p < port_tries port then ([one], p)
          else if port_fails_over port \<and> pr_location p + 1 < length (po_locations port) then
            (case depart_port w port (p\<lparr>pr_location := pr_location p + 1, pr_tries := 0\<rparr>) (t + 2) of
               (departed, p) \<Rightarrow> (one # departed, p))
          else ([one], p\<lparr>pr_given_up := Some (said (w_shown w) [one])\<rparr>))"
  by pat_completeness auto
termination
  by (relation "measure (\<lambda>(w, port, p, t). length (po_locations port) - pr_location p)") auto

declare depart_port.simps [simp del]

definition depart_to :: "world \<Rightarrow> sends \<Rightarrow> subscriber \<Rightarrow> progress \<Rightarrow> nat \<Rightarrow> departed list \<times> progress" where
  "depart_to w s to p t =
     (if \<not> progress_waiting p then ([], p)
      else case (to, sends_to s to) of
        (ToSendPort _, Ports (port # _)) \<Rightarrow> depart_port w port p t
      | (ToSendPort _, Ports []) \<Rightarrow> ([], p)
      | (_, Process) \<Rightarrow> ([ProcessNotRun to], p)
      | _ \<Rightarrow> ([NoSuchDestination to],
              p\<lparr>pr_given_up := Some (''no Send Port Group '' @ sub_name to @ '' is declared on this node'')\<rparr>))"


section \<open>One pass\<close>

text \<open>What a pass may try before the Port's policy ends it: the tries left at the active Location
  and at those after it.\<close>

definition tries_left :: "port \<Rightarrow> progress \<Rightarrow> nat" where
  "tries_left port p = (length (po_locations port) - pr_location p) * port_tries port - pr_tries p"

definition progress_ok :: "port \<Rightarrow> progress \<Rightarrow> bool" where
  "progress_ok port p \<longleftrightarrow>
     (progress_waiting p \<longrightarrow> pr_tries p < port_tries port \<and> pr_location p < length (po_locations port))"

definition next_location :: "progress \<Rightarrow> progress" where
  "next_location p = p\<lparr>pr_location := pr_location p + 1, pr_tries := 0\<rparr>"

lemma next_location_sel [simp]:
  "pr_location (next_location p) = pr_location p + 1" "pr_tries (next_location p) = 0"
  "progress_waiting (next_location p) = progress_waiting p"
  "pr_fence (next_location p) = pr_fence p"
  by (auto simp: next_location_def progress_waiting_def)

lemma tries_left_pos: "\<lbrakk>pr_location p < length (po_locations port); pr_tries p < port_tries port\<rbrakk>
  \<Longrightarrow> 0 < tries_left port p"
  unfolding tries_left_def
  by (metis One_nat_def Suc_leI mult_le_mono1 nat_mult_1 order_less_le_trans zero_less_diff)

text \<open>The branches of a pass as a step relation: the claim gone, no Location, lost before the first
  byte, sent, left waiting, failed over, given up. \<open>depart_port\<close> takes exactly one of them.\<close>

abbreviation tried_at :: "world \<Rightarrow> port \<Rightarrow> progress \<Rightarrow> nat \<Rightarrow> departed option" where
  "tried_at w port p t \<equiv>
     depart_one w (ToSendPort (po_name port)) (po_locations port ! pr_location p) (t + 1)"

abbreviation exhausted :: "port \<Rightarrow> progress \<Rightarrow> departed \<Rightarrow> bool" where
  "exhausted port p one \<equiv> tried_again one \<longrightarrow> port_tries port \<le> pr_tries p + 1"

inductive port_pass :: "world \<Rightarrow> port \<Rightarrow> progress \<Rightarrow> nat \<Rightarrow> departed list \<Rightarrow> progress \<Rightarrow> bool"
  for w port where
  pass_gone: "\<not> w_owned w t \<Longrightarrow> port_pass w port p t [] p"
| pass_nowhere: "\<lbrakk>w_owned w t; length (po_locations port) \<le> pr_location p\<rbrakk> \<Longrightarrow>
    port_pass w port p t [NoSuchDestination (ToSendPort (po_name port))]
      (p\<lparr>pr_given_up := Some (no_location w (ToSendPort (po_name port)))\<rparr>)"
| pass_lost: "\<lbrakk>w_owned w t; pr_location p < length (po_locations port); tried_at w port p t = None\<rbrakk> \<Longrightarrow>
    port_pass w port p t [] p"
| pass_sent: "\<lbrakk>w_owned w t; pr_location p < length (po_locations port);
    tried_at w port p t = Some one; is_sent one\<rbrakk> \<Longrightarrow>
    port_pass w port p t [one] (p\<lparr>pr_tries := pr_tries p + 1, pr_sent := True\<rparr>)"
| pass_waits: "\<lbrakk>w_owned w t; pr_location p < length (po_locations port);
    tried_at w port p t = Some one; \<not> is_sent one; tried_again one;
    pr_tries p + 1 < port_tries port\<rbrakk> \<Longrightarrow>
    port_pass w port p t [one] (p\<lparr>pr_tries := pr_tries p + 1\<rparr>)"
| pass_over: "\<lbrakk>w_owned w t; pr_location p + 1 < length (po_locations port);
    tried_at w port p t = Some one; \<not> is_sent one; exhausted port p one;
    port_fails_over port; port_pass w port (next_location p) (t + 2) ds p'\<rbrakk> \<Longrightarrow>
    port_pass w port p t (one # ds) p'"
| pass_given_up: "\<lbrakk>w_owned w t; pr_location p < length (po_locations port);
    tried_at w port p t = Some one; \<not> is_sent one; exhausted port p one;
    port_fails_over port \<longrightarrow> length (po_locations port) \<le> pr_location p + 1\<rbrakk> \<Longrightarrow>
    port_pass w port p t [one]
      (p\<lparr>pr_tries := pr_tries p + 1, pr_given_up := Some (said (w_shown w) [one])\<rparr>)"

lemmas port_pass_intros = port_pass.intros [unfolded Suc_eq_plus1 [symmetric]]

inductive_cases port_pass_nil [elim]: "port_pass w port p t [] p'"

lemma next_location_alt:
  "p\<lparr>pr_tries := n, pr_location := Suc (pr_location p), pr_tries := 0\<rparr> = next_location p"
  by (cases p) (simp add: next_location_def)

lemma depart_port_pass: "depart_port w port p t = (ds, p') \<Longrightarrow> port_pass w port p t ds p'"
proof (induction w port p t arbitrary: ds p' rule: depart_port.induct)
  case (1 w port p t)
  show ?case
  proof (cases "w_owned w t \<and> pr_location p < length (po_locations port)")
    case False
    with "1.prems" show ?thesis
      by (auto simp: depart_port.simps [of w port p t] Let_def not_less
          intro: pass_gone pass_nowhere split: if_splits)
  next
    case here: True
    show ?thesis
    proof (cases "tried_at w port p t")
      case None
      with here "1.prems" show ?thesis
        by (auto simp: depart_port.simps [of w port p t] Let_def intro: pass_lost)
    next
      case (Some one)
      let ?over = "\<not> is_sent one \<and> exhausted port p one \<and> port_fails_over port \<and>
        pr_location p + 1 < length (po_locations port)"
      obtain ds1 p1 where d: "depart_port w port (next_location p) (t + 2) = (ds1, p1)" by fastforce
      show ?thesis
      proof (cases ?over)
        case True
        have "port_pass w port (next_location p) (t + 2) ds1 p1"
          using "1.IH" [OF refl _ _ Some refl, of ds1 p1] here True d
          by (simp add: next_location_def not_le not_less)
        moreover have "(ds, p') = (one # ds1, p1)"
          using here Some True d "1.prems"
          by (auto simp: depart_port.simps [of w port p t] Let_def next_location_def not_le)
        ultimately show ?thesis using here Some True by (auto intro: pass_over)
      next
        case False
        with here Some "1.prems" show ?thesis
          by (auto simp: depart_port.simps [of w port p t] Let_def not_le not_less
              intro: port_pass_intros split: if_splits)
      qed
    qed
  qed
qed

lemma tries_left_next:
  "\<lbrakk>pr_tries p < port_tries port; pr_location p + 1 < length (po_locations port)\<rbrakk>
   \<Longrightarrow> Suc (tries_left port (next_location p)) \<le> tries_left port p"
  using less_imp_Suc_add [of "pr_location p + 1" "length (po_locations port)"]
  by (auto simp: tries_left_def)

text \<open>A pass keeps the progress well formed and spends a try for every departure it makes.\<close>

lemma port_pass_spends:
  "\<lbrakk>port_pass w port p t ds p'; progress_ok port p; progress_waiting p\<rbrakk> \<Longrightarrow>
   progress_ok port p' \<and>
   length ds + (if progress_waiting p' then tries_left port p' else 0) \<le> tries_left port p"
proof (induction rule: port_pass.induct)
  case (pass_over t p one ds p')
  then have ok: "pr_tries p < port_tries port" by (simp add: progress_ok_def)
  have "progress_ok port (next_location p)"
    using pass_over.hyps port_tries_bounds(1) [of port] by (simp add: progress_ok_def)
  with pass_over tries_left_next [of p port] ok show ?case by simp
next
  case (pass_waits t p one)
  then show ?case
    using tries_left_pos [of p port] by (auto simp: progress_ok_def progress_waiting_def tries_left_def)
qed (auto simp: progress_ok_def progress_waiting_def dest: tries_left_pos)

text \<open>A Message is sent at most once in a pass, last, and then its progress says so.\<close>

lemma port_pass_sent:
  "\<lbrakk>port_pass w port p t ds p'; \<not> pr_sent p\<rbrakk> \<Longrightarrow>
   filter is_sent ds = (if pr_sent p' then [last ds] else []) \<and> (pr_sent p' \<longrightarrow> ds \<noteq> [])"
  by (induction rule: port_pass.induct) (auto simp: next_location_def)

text \<open>What a send needs: the claim held as the transport was reached, the departure authorized, the
  Publication kept where the transport holds nothing back, and the transport's own word.\<close>

definition sent_rightly :: "world \<Rightarrow> sending \<Rightarrow> nat \<Rightarrow> bool" where
  "sent_rightly w loc t \<longleftrightarrow> w_owned w t \<and> w_permitted w (loc_name loc) t = None \<and>
     (\<not> loc_holds_back loc \<longrightarrow> w_kept w t = None) \<and> w_transport w (loc_name loc) t = (False, None)"

lemma depart_one_sent:
  "depart_one w to loc t = Some (DSent to' f i) \<Longrightarrow> to' = to \<and> sent_rightly w loc t"
  by (auto simp: depart_one_def sent_rightly_def split: option.splits if_splits prod.splits)

lemma port_pass_sent_safe:
  "\<lbrakk>port_pass w port p t ds p'; DSent to f i \<in> set ds\<rbrakk> \<Longrightarrow>
   to = ToSendPort (po_name port) \<and> (\<exists>loc \<in> set (po_locations port). \<exists>t' > t. sent_rightly w loc t')"
proof (induction rule: port_pass.induct)
  case (pass_sent t p one)
  then have "tried_at w port p t = Some (DSent to f i)" by simp
  from depart_one_sent [OF this] pass_sent.hyps show ?case by (auto intro!: bexI exI [of _ "t + 1"])
next
  case (pass_over t p one ds p')
  then have "DSent to f i \<in> set ds" by auto
  with pass_over.IH show ?case by (meson less_add_same_cancel1 order_less_trans zero_less_numeral)
qed auto

definition claim_lasts :: "world \<Rightarrow> bool" where
  "claim_lasts w \<longleftrightarrow> (\<forall>t. w_owned w t) \<and> (\<forall>n t. \<not> fst (w_transport w n t))"

lemma port_pass_departs: "\<lbrakk>port_pass w port p t ds p'; claim_lasts w\<rbrakk> \<Longrightarrow> ds \<noteq> []"
  by (cases rule: port_pass.cases)
    (auto simp: claim_lasts_def depart_one_def split: option.splits if_splits prod.splits,
      (metis fst_conv)+)

section \<open>Passes one after another\<close>

text \<open>The send step makes its passes of a Message one after the other, each in its own world.\<close>

fun passes :: "sends \<Rightarrow> subscriber \<Rightarrow> (world \<times> nat) list \<Rightarrow> progress \<Rightarrow> departed list list \<times> progress" where
  "passes s to [] p = ([], p)"
| "passes s to ((w, t) # ws) p =
     (case depart_to w s to p t of
        (ds, p1) \<Rightarrow> (case passes s to ws p1 of (dss, p2) \<Rightarrow> (ds # dss, p2)))"

abbreviation fresh_progress :: "nat \<Rightarrow> progress" where
  "fresh_progress fence \<equiv> \<lparr>pr_sent = False, pr_location = 0, pr_tries = 0, pr_given_up = None, pr_fence = fence\<rparr>"

lemma depart_to_port:
  "depart_to w s (ToSendPort n) p t =
     (if progress_waiting p then depart_port w (sends_port s n) p t else ([], p))"
  by (simp add: depart_to_def)

lemma passes_done [simp]:
  "\<not> progress_waiting p \<Longrightarrow> passes s (ToSendPort n) ws p = (map (\<lambda>_. []) ws, p)"
  by (induction ws) (auto simp: depart_to_port)

lemma concat_nils [simp]: "concat (map (\<lambda>_. []) xs) = []"
  by (induction xs) auto

lemma passes_spend:
  assumes "passes s (ToSendPort n) ws p = (dss, p')" "progress_ok (sends_port s n) p" "progress_waiting p"
  shows "progress_ok (sends_port s n) p' \<and>
    length (concat dss) + (if progress_waiting p' then tries_left (sends_port s n) p' else 0)
      \<le> tries_left (sends_port s n) p"
  using assms
proof (induction ws arbitrary: p dss)
  case (Cons wt ws)
  obtain w t where [simp]: "wt = (w, t)" by fastforce
  obtain ds p1 where d: "depart_port w (sends_port s n) p t = (ds, p1)" by fastforce
  obtain dss1 p2 where r: "passes s (ToSendPort n) ws p1 = (dss1, p2)" by fastforce
  from Cons.prems d r have [simp]: "dss = ds # dss1" "p' = p2"
    by (auto simp: depart_to_port)
  note one = port_pass_spends [OF depart_port_pass [OF d] Cons.prems(2,3)]
  show ?case
  proof (cases "progress_waiting p1")
    case True
    with Cons.IH [of p1 dss1] r one show ?thesis by fastforce
  next
    case False
    with r one show ?thesis by auto
  qed
qed auto

lemma passes_sent:
  assumes "passes s (ToSendPort n) ws p = (dss, p')" "\<not> pr_sent p"
  shows "filter is_sent (concat dss) = (if pr_sent p' then [last (concat dss)] else []) \<and>
    (pr_sent p' \<longrightarrow> concat dss \<noteq> [])"
  using assms
proof (induction ws arbitrary: p dss)
  case (Cons wt ws)
  obtain w t where [simp]: "wt = (w, t)" by fastforce
  show ?case
  proof (cases "progress_waiting p")
    case False
    with Cons.prems show ?thesis by (auto simp del: passes.simps(2))
  next
    case True
    obtain ds p1 where d: "depart_port w (sends_port s n) p t = (ds, p1)" by fastforce
    obtain dss1 p2 where r: "passes s (ToSendPort n) ws p1 = (dss1, p2)" by fastforce
    from Cons.prems d r True have [simp]: "dss = ds # dss1" "p' = p2"
      by (auto simp: depart_to_port)
    note one = port_pass_sent [OF depart_port_pass [OF d] Cons.prems(2)]
    show ?thesis
    proof (cases "pr_sent p1")
      case True
      then have "\<not> progress_waiting p1" by (simp add: progress_waiting_def)
      with r one True show ?thesis by auto
    next
      case False
      with Cons.IH [of p1 dss1] r one show ?thesis by auto
    qed
  qed
qed auto

lemma passes_depart:
  assumes "passes s (ToSendPort n) ws p = (dss, p')" "progress_waiting p'"
    and "\<forall>(w, t) \<in> set ws. claim_lasts w"
  shows "progress_waiting p \<and> length ws \<le> length (concat dss)"
  using assms
proof (induction ws arbitrary: p dss)
  case (Cons wt ws)
  obtain w t where [simp]: "wt = (w, t)" by fastforce
  have wait: "progress_waiting p"
    using Cons.prems by (rule_tac ccontr) (auto simp del: passes.simps(2))
  obtain ds p1 where d: "depart_port w (sends_port s n) p t = (ds, p1)" by fastforce
  obtain dss1 p2 where r: "passes s (ToSendPort n) ws p1 = (dss1, p2)" by fastforce
  from Cons.prems d r wait have [simp]: "dss = ds # dss1" "p' = p2" by (auto simp: depart_to_port)
  have "ds \<noteq> []" using port_pass_departs [OF depart_port_pass [OF d]] Cons.prems(3) by simp
  then have "1 \<le> length ds" by (cases ds) auto
  with Cons.IH [of p1 dss1] r Cons.prems wait show ?case by auto
qed auto

lemma fresh_progress_ok:
  "sends_serves s (ToSendPort n) \<Longrightarrow> progress_ok (sends_port s n) (fresh_progress f)"
  using port_tries_bounds(1) [of "sends_port s n"] by (simp add: progress_ok_def serves_port)

lemma tries_left_fresh [simp]:
  "tries_left port (fresh_progress f) = length (po_locations port) * port_tries port"
  by (simp add: tries_left_def)




text \<open>Two Send Locations behind one Send Port that fails over, each tried twice: the first Location
  fails both its tries, the second sends.\<close>

definition sample_sends :: sends where
  "sample_sends = \<lparr>sn_locations = [\<lparr>loc_name = ''a'', loc_holds_back = False\<rparr>, \<lparr>loc_name = ''b'', loc_holds_back = True\<rparr>],
     sn_groups = [],
     sn_ports = [\<lparr>dp_name = ''out'', dp_send_locations = [''a'', ''b''],
       dp_retry = Some \<lparr>rt_attempts = 1, rt_backoff = ''5s''\<rparr>, dp_failover = Some ''next''\<rparr>],
     sn_points = []\<rparr>"

definition sample_world :: world where
  "sample_world = \<lparr>w_owned = (\<lambda>_. True), w_permitted = (\<lambda>_ _. None), w_kept = (\<lambda>_. None),
     w_transport = (\<lambda>l _. if l = ''a'' then (False, Some (True, ''refused'')) else (False, None)),
     w_presents = (\<lambda>_. (None, None)), w_shown = sub_name\<rparr>"

lemma sample_serves: "sends_serves sample_sends (ToSendPort ''out'')"
  by code_simp

lemma sample_claim_lasts: "claim_lasts sample_world"
  by (simp add: claim_lasts_def sample_world_def)

lemma sample_port:
  "length (po_locations (sends_port sample_sends ''out'')) = 2"
  "port_fails_over (sends_port sample_sends ''out'')"
  "po_locations (sends_port sample_sends ''out'') ! 0 = \<lparr>loc_name = ''a'', loc_holds_back = False\<rparr>"
  "po_locations (sends_port sample_sends ''out'') ! 1 = \<lparr>loc_name = ''b'', loc_holds_back = True\<rparr>"
  by code_simp+

lemma sample_tries: "port_tries (sends_port sample_sends ''out'') = 2"
proof -
  have "po_policy (sends_port sample_sends ''out'') = Some \<lparr>dp_name = ''out'', dp_send_locations = [''a'', ''b''],
       dp_retry = Some \<lparr>rt_attempts = 1, rt_backoff = ''5s''\<rparr>, dp_failover = Some ''next''\<rparr>"
    by code_simp
  then show ?thesis by (simp add: port_tries_def u32_max_def)
qed

lemmas sample_pass = depart_to_port depart_port.simps [where port = "sends_port sample_sends ''out''"]
  sample_port [simplified] sample_tries depart_one_def sample_world_def progress_waiting_def tried_again_def




end
