(* ===== verification/Send_State.thy ===== *)
theory Send_State
  imports Renewal Departure
begin

text \<open>
  \<open>src/send_step.rs\<close>, \<open>src/send_step/admission.rs\<close>, \<open>src/send_step/due.rs\<close> and the bookkeeping of
  \<open>src/send_step/dispatch.rs\<close> and \<open>src/send_step/figures.rs\<close>: the send step's state behind its mutex, every operation one
  critical section of it. What only measures a send (\<open>spent\<close>, \<open>own\<close>) is left out.
\<close>

section \<open>The send step\<close>

record departure =
  de_journey :: journey
  de_message :: ident
  de_facts :: string
  de_to :: subscriber
  de_queue :: ident
  de_claim :: claim
  de_progress :: progress
  de_until :: instant
  de_durable :: "ident option"

record lined_up =
  lu_holds :: "hold list"
  lu_claims :: "claim list"
  lu_claimed :: "(ident \<times> subscriber \<times> ident \<times> claim) list"
  lu_admitted :: nat
  lu_asked :: "instant option"

record send_config =
  sc_node :: string
  sc_queue :: "subscriber \<Rightarrow> ident"
  sc_lease :: duration
  sc_scan :: duration
  sc_window :: nat
  sc_most :: nat

record due =
  du_port :: string
  du_at :: "instant option"
  du_waiting :: nat
  du_noted :: "instant option"

record port_counts =
  pc_sent :: nat
  pc_failed :: nat
  pc_lost :: nat
  pc_last_failure :: "(ident \<times> string) option"
  pc_unread :: "(instant \<times> string) option"

record failed_window =
  fw_count :: nat
  fw_read_at :: "(nat \<times> nat) option"
  fw_oldest :: "(ident \<times> nat \<times> string) list"

record send_state =
  st_handed :: "departure list"
  st_due :: "ident \<rightharpoonup> due"
  st_owned :: "ident \<rightharpoonup> owned"
  st_admitted :: nat
  st_taking :: "ident set"
  st_starved :: "ident list"
  st_passed :: "ident \<rightharpoonup> (ident \<times> nat) set"
  st_ports :: "string \<rightharpoonup> bool"
  st_asked :: "ident list"
  st_figures :: "string \<rightharpoonup> port_counts"
  st_failing :: "string \<rightharpoonup> failed_window"
  st_rescan :: bool
  st_served :: "ident list"
  st_closed :: bool

definition send_new :: send_state where
  "send_new = \<lparr>st_handed = [], st_due = Map.empty, st_owned = Map.empty, st_admitted = 0, st_taking = {},
     st_starved = [], st_passed = Map.empty, st_ports = Map.empty, st_asked = [], st_figures = Map.empty,
     st_failing = Map.empty, st_rescan = False, st_served = [], st_closed = False\<rparr>"

section \<open>Admission\<close>

definition owned_of :: "departure \<Rightarrow> owned" where
  "owned_of d = \<lparr>ow_claim = de_claim d, ow_port = sub_name (de_to d),
     ow_standing = standing_confirmed (de_until d)\<rparr>"

definition places_held :: "send_state \<Rightarrow> nat" where
  "places_held st = card (dom (st_owned st)) + st_admitted st"

definition room_in :: "send_config \<Rightarrow> send_state \<Rightarrow> nat" where
  "room_in cfg st = max (sc_most cfg) 1 - places_held st"

definition send_admit :: "send_config \<Rightarrow> nat \<Rightarrow> send_state \<Rightarrow> nat \<times> send_state" where
  "send_admit cfg wanted st =
     (let admitted = min wanted (room_in cfg st) in
      (admitted, st\<lparr>st_admitted := st_admitted st + admitted\<rparr>))"

definition send_freed :: "send_state \<Rightarrow> send_state" where
  "send_freed st = st\<lparr>st_asked := fold push_new (st_starved st) (st_asked st), st_starved := []\<rparr>"

definition send_withdraw :: "nat \<Rightarrow> send_state \<Rightarrow> send_state" where
  "send_withdraw k st =
     (if k = 0 then st else send_freed (st\<lparr>st_admitted := st_admitted st - k\<rparr>))"

definition send_withdrawn :: "lined_up \<Rightarrow> send_state \<Rightarrow> send_state" where
  "send_withdrawn lined = send_withdraw (lu_admitted lined)"

text \<open>A claim as Xmip Storage holds it, by its Journey and its token.\<close>

definition claim_held :: "claim list \<Rightarrow> claim \<Rightarrow> claim option" where
  "claim_held holds c = find (\<lambda>h. cl_journey h = cl_journey c \<and> cl_token h = cl_token c) holds"

definition send_confirmed :: "claim list \<Rightarrow> lined_up \<Rightarrow> send_state \<Rightarrow> lined_up \<times> send_state" where
  "send_confirmed holds lined st =
     (let claimed = List.map_filter (\<lambda>(i, to, q, c). map_option (\<lambda>h. (i, to, q, h)) (claim_held holds c)) (lu_claimed lined);
          gone = length (lu_claimed lined) - length claimed in
      (lined\<lparr>lu_claimed := claimed,
             lu_claims := List.map_filter (claim_held holds) (lu_claims lined),
             lu_admitted := lu_admitted lined - gone\<rparr>,
       send_withdraw gone st))"

definition send_own :: "ident \<Rightarrow> owned \<Rightarrow> send_state \<Rightarrow> send_state" where
  "send_own i ow st = st\<lparr>st_admitted := st_admitted st - 1, st_taking := st_taking st - {i},
     st_owned := (st_owned st)(i \<mapsto> ow)\<rparr>"

definition send_untake :: "ident \<Rightarrow> send_state \<Rightarrow> send_state" where
  "send_untake i st =
     send_freed (if i \<in> st_taking st
                 then st\<lparr>st_taking := st_taking st - {i}, st_admitted := st_admitted st - 1\<rparr>
                 else st)"

definition send_starve :: "ident \<Rightarrow> send_state \<Rightarrow> send_state" where
  "send_starve q st = st\<lparr>st_starved := push_new q (st_starved st)\<rparr>"

section \<open>Lining up and handing\<close>

text \<open>\<open>line_up\<close>'s loop: the places left, and the token the next claim is minted with.\<close>

fun line_up_each ::
    "send_config \<Rightarrow> (subscriber \<Rightarrow> bool) \<Rightarrow> string \<Rightarrow> (nat \<Rightarrow> ident) \<Rightarrow> (journey \<times> subscriber) list \<Rightarrow> nat \<Rightarrow> nat
      \<Rightarrow> lined_up \<Rightarrow> lined_up \<times> nat" where
  "line_up_each cfg sent_here body ids [] pl n lined = (lined, n)"
| "line_up_each cfg sent_here body ids ((j, to) # rest) pl n lined =
     (let q = sc_queue cfg to;
          lined = lined\<lparr>lu_holds := lu_holds lined @ [\<lparr>h_queue = q, h_journey = journey_id j, h_body = body\<rparr>]\<rparr> in
      if 0 < pl \<and> sent_here to
      then let c = \<lparr>cl_journey = journey_id j, cl_holder = sc_node cfg, cl_token = ids n, cl_fence = 0\<rparr> in
           line_up_each cfg sent_here body ids rest (pl - 1) (n + 1)
             (lined\<lparr>lu_claims := lu_claims lined @ [c],
                    lu_claimed := lu_claimed lined @ [(journey_id j, to, q, c)]\<rparr>)
      else line_up_each cfg sent_here body ids rest pl n lined)"

definition line_up ::
    "send_config \<Rightarrow> sends \<Rightarrow> (journey \<times> subscriber) list \<Rightarrow> string \<Rightarrow> (nat \<Rightarrow> ident) \<Rightarrow> nat \<Rightarrow> instant
      \<Rightarrow> send_state \<Rightarrow> (lined_up \<times> nat) \<times> send_state" where
  "line_up cfg s departing body ids n now st =
     (let sent_here = (\<lambda>to. sends_serves s to \<and> \<not> sequential s to) in
      case send_admit cfg (length (filter (\<lambda>(_, to). sent_here to) departing)) st of
        (admitted, st) \<Rightarrow>
          (line_up_each cfg sent_here body ids departing admitted n
             \<lparr>lu_holds = [], lu_claims = [], lu_claimed = [], lu_admitted = admitted, lu_asked = Some now\<rparr>, st))"

text \<open>\<open>handed\<close>: what was claimed owned and handed to the pool; a queue holding what was not claimed
  asked for.\<close>

definition departure_of ::
    "ident \<Rightarrow> string \<Rightarrow> ident option \<Rightarrow> instant \<Rightarrow> journey \<Rightarrow> subscriber \<Rightarrow> ident \<Rightarrow> claim \<Rightarrow> departure" where
  "departure_of message facts durable until j to q c =
     \<lparr>de_journey = j, de_message = message, de_facts = facts, de_to = to, de_queue = q, de_claim = c,
      de_progress = progress_of (j_attempts j), de_until = until, de_durable = durable\<rparr>"

definition hand_claimed ::
    "journey list \<Rightarrow> ident \<Rightarrow> string \<Rightarrow> ident option \<Rightarrow> instant \<Rightarrow> ident \<times> subscriber \<times> ident \<times> claim
      \<Rightarrow> send_state \<Rightarrow> send_state" where
  "hand_claimed js message facts durable until = (\<lambda>(i, to, q, c) st.
     case find (\<lambda>j. journey_id j = i) js of
       None \<Rightarrow> st
     | Some j \<Rightarrow>
        let d = departure_of message facts durable until j to q c in
        st\<lparr>st_owned := (st_owned st)(i \<mapsto> owned_of d), st_handed := st_handed st @ [d]\<rparr>)"

definition send_handed ::
    "send_config \<Rightarrow> lined_up \<Rightarrow> journey list \<Rightarrow> ident \<Rightarrow> string \<Rightarrow> ident \<Rightarrow> instant \<Rightarrow> send_state \<Rightarrow> send_state" where
  "send_handed cfg lined js message facts durable now st =
     (let until = (case lu_asked lined of None \<Rightarrow> now | Some a \<Rightarrow> a) + sc_lease cfg;
          st = st\<lparr>st_admitted := st_admitted st - lu_admitted lined\<rparr>;
          st = fold (hand_claimed js message facts (Some durable) until) (lu_claimed lined) st in
      fold (\<lambda>h st. if st_owned st (h_journey h) = None
                   then st\<lparr>st_asked := push_new (h_queue h) (st_asked st)\<rparr> else st) (lu_holds lined) st)"

definition send_hand :: "departure \<Rightarrow> send_state \<Rightarrow> send_state" where
  "send_hand d st =
     (let st = send_own (journey_id (de_journey d)) (owned_of d) st in st\<lparr>st_handed := st_handed st @ [d]\<rparr>)"

definition send_ask :: "ident \<Rightarrow> send_state \<Rightarrow> send_state" where
  "send_ask q st = st\<lparr>st_asked := push_new q (st_asked st)\<rparr>"

definition send_rescan :: "send_state \<Rightarrow> send_state" where
  "send_rescan st = st\<lparr>st_rescan := True\<rparr>"

definition send_close :: "send_state \<Rightarrow> send_state" where
  "send_close st = st\<lparr>st_closed := True\<rparr>"


section \<open>When a queue's retry is due\<close>

definition due_of :: "string \<Rightarrow> due" where
  "due_of port = \<lparr>du_port = port, du_at = None, du_waiting = 0, du_noted = None\<rparr>"

definition earlier :: "instant option \<Rightarrow> instant \<Rightarrow> instant" where
  "earlier was t = (case was of None \<Rightarrow> t | Some w \<Rightarrow> min w t)"

definition due_wakes_at :: "instant \<Rightarrow> due \<Rightarrow> due" where
  "due_wakes_at t d = d\<lparr>du_at := Some (earlier (du_at d) t)\<rparr>"

definition due_wakes :: "instant \<Rightarrow> due \<Rightarrow> due" where
  "due_wakes t d = d\<lparr>du_at := Some (earlier (du_at d) t), du_noted := Some (earlier (du_noted d) t)\<rparr>"

definition due_note :: "instant \<Rightarrow> due \<Rightarrow> due" where
  "due_note t d = due_wakes t (d\<lparr>du_waiting := du_waiting d + 1\<rparr>)"

definition due_read_begins :: "due \<Rightarrow> due" where
  "due_read_begins d = d\<lparr>du_noted := None\<rparr>"

definition due_waited :: "due \<Rightarrow> bool \<Rightarrow> due \<Rightarrow> due" where
  "due_waited waits whole d =
     (if whole
      then case du_noted d of
             None \<Rightarrow> waits
           | Some t \<Rightarrow> waits\<lparr>du_at := Some (earlier (du_at waits) t), du_noted := Some t\<rparr>
      else case du_at waits of
             None \<Rightarrow> d
           | Some t \<Rightarrow> d\<lparr>du_at := Some (earlier (du_at d) t),
                         du_waiting := max (du_waiting d) (du_waiting waits)\<rparr>)"

text \<open>A queue's entry, made where it has none.\<close>

definition due_entry :: "string \<Rightarrow> ident \<Rightarrow> (due \<Rightarrow> due) \<Rightarrow> send_state \<Rightarrow> send_state" where
  "due_entry port q f st =
     st\<lparr>st_due := (st_due st)(q \<mapsto> f (case st_due st q of None \<Rightarrow> due_of port | Some d \<Rightarrow> d))\<rparr>"

definition send_reading :: "ident \<Rightarrow> send_state \<Rightarrow> send_state" where
  "send_reading q st = st\<lparr>st_due := (st_due st)(q := map_option due_read_begins (st_due st q))\<rparr>"

definition send_not_due :: "string \<Rightarrow> ident \<Rightarrow> instant \<Rightarrow> send_state \<Rightarrow> send_state" where
  "send_not_due port q t = due_entry port q (due_wakes t)"

definition send_waited :: "ident \<Rightarrow> due \<Rightarrow> bool \<Rightarrow> send_state \<Rightarrow> send_state" where
  "send_waited q waits whole = due_entry (du_port waits) q (due_waited waits whole)"

text \<open>\<open>order\<close> lists the queues with an entry, as the map's iteration gives them.\<close>

definition send_wakes_at :: "ident list \<Rightarrow> instant \<Rightarrow> send_state \<Rightarrow> instant" where
  "send_wakes_at order until st =
     fold min (List.map_filter (\<lambda>q. Option.bind (st_due st q) du_at) order) until"

section \<open>The dispatching's next turn, and a pass settled\<close>

definition next_ready :: "ident list \<Rightarrow> instant \<Rightarrow> instant \<Rightarrow> send_state \<Rightarrow> bool" where
  "next_ready order until now st \<longleftrightarrow> st_closed st \<or> st_rescan st \<or> st_handed st \<noteq> [] \<or> st_asked st \<noteq> [] \<or>
     send_wakes_at order until st \<le> now"

definition is_due :: "instant \<Rightarrow> send_state \<Rightarrow> ident \<Rightarrow> bool" where
  "is_due now st q = (case Option.bind (st_due st q) du_at of None \<Rightarrow> False | Some t \<Rightarrow> t \<le> now)"

definition next_take ::
    "ident list \<Rightarrow> instant \<Rightarrow> send_state \<Rightarrow> (bool \<times> departure list \<times> ident list) \<times> send_state" where
  "next_take order now st =
     (let asked = st_asked st @ (if st_rescan st then st_served st else []);
          asked' = fold push_new (filter (is_due now st) order) asked in
      ((st_closed st, st_handed st, asked'),
       st\<lparr>st_rescan := False, st_handed := [], st_asked := [],
          st_due := (\<lambda>q. if is_due now st q then map_option (\<lambda>d. d\<lparr>du_at := None\<rparr>) (st_due st q)
                         else st_due st q)\<rparr>))"

datatype ended =
    ECompleted "departed list"
  | EWaiting duration "departed list"
  | EFailed string "departed list"
  | ELost "departed list"
  | EUntried
  | EBehind
  | EUnwritten string

abbreviation no_counts :: port_counts where
  "no_counts \<equiv> \<lparr>pc_sent = 0, pc_failed = 0, pc_lost = 0, pc_last_failure = None, pc_unread = None\<rparr>"

definition counted :: "string \<Rightarrow> (port_counts \<Rightarrow> port_counts) \<Rightarrow> send_state \<Rightarrow> send_state" where
  "counted port f st =
     st\<lparr>st_figures := (st_figures st)(port \<mapsto> f (case st_figures st port of None \<Rightarrow> no_counts | Some c \<Rightarrow> c))\<rparr>"

definition let_go_of :: "ident \<Rightarrow> send_state \<Rightarrow> send_state" where
  "let_go_of i st = send_freed (st\<lparr>st_owned := (st_owned st)(i := None)\<rparr>)"

text \<open>\<open>SendStep::lost\<close>: whether it is audited now, beside the new state.\<close>

definition send_lost :: "departure \<Rightarrow> send_state \<Rightarrow> bool \<times> send_state" where
  "send_lost d st =
     (let i = journey_id (de_journey d);
          said = (case st_owned st i of
                    None \<Rightarrow> False
                  | Some ow \<Rightarrow> sd_lost (ow_standing ow) \<or> sd_said (ow_standing ow)) in
      (\<not> said, let_go_of i (counted (sub_name (de_to d)) (\<lambda>c. c\<lparr>pc_lost := pc_lost c + 1\<rparr>) st)))"

text \<open>\<open>settle\<close>: \<open>ask\<close> is what the two questions of a Message that is behind come to, and \<open>now\<close> the clock
  as its backoff is noted.\<close>

fun send_settle :: "instant \<Rightarrow> bool \<Rightarrow> departure \<Rightarrow> ended \<Rightarrow> send_state \<Rightarrow> send_state" where
  "send_settle now ask d (EWaiting after _) st =
     let_go_of (journey_id (de_journey d)) (due_entry (sub_name (de_to d)) (de_queue d) (due_note (now + after)) st)"
| "send_settle now ask d EBehind st =
     let_go_of (journey_id (de_journey d)) (if ask then send_ask (de_queue d) st else st)"
| "send_settle now ask d EUntried st = let_go_of (journey_id (de_journey d)) (send_ask (de_queue d) st)"
| "send_settle now ask d (ECompleted _) st =
     let_go_of (journey_id (de_journey d)) (counted (sub_name (de_to d)) (\<lambda>c. c\<lparr>pc_sent := pc_sent c + 1\<rparr>) st)"
| "send_settle now ask d (EFailed reason _) st =
     let_go_of (journey_id (de_journey d)) (counted (sub_name (de_to d))
       (\<lambda>c. c\<lparr>pc_failed := pc_failed c + 1, pc_last_failure := Some (journey_id (de_journey d), reason)\<rparr>) st)"
| "send_settle now ask d (ELost _) st = snd (send_lost d st)"
| "send_settle now ask d (EUnwritten _) st = let_go_of (journey_id (de_journey d)) st"

section \<open>What a scan finds known, and what the figures read\<close>

definition scan_known :: "ident \<Rightarrow> ident \<times> nat \<Rightarrow> send_state \<Rightarrow> bool" where
  "scan_known q place st \<longleftrightarrow> fst place \<in> dom (st_owned st) \<or> fst place \<in> st_taking st \<or>
     (case st_passed st q of None \<Rightarrow> False | Some ps \<Rightarrow> place \<in> ps)"

definition scan_takes :: "ident \<Rightarrow> send_state \<Rightarrow> send_state" where
  "scan_takes i st = st\<lparr>st_taking := insert i (st_taking st)\<rparr>"

definition send_passed :: "ident \<Rightarrow> ident \<times> nat \<Rightarrow> send_state \<Rightarrow> send_state" where
  "send_passed q place st =
     st\<lparr>st_passed := (st_passed st)(q \<mapsto> insert place (case st_passed st q of None \<Rightarrow> {} | Some ps \<Rightarrow> ps))\<rparr>"

definition read_whole :: "ident \<Rightarrow> (ident \<times> nat) set \<Rightarrow> send_state \<Rightarrow> send_state" where
  "read_whole q present st = st\<lparr>st_passed := (st_passed st)(q := map_option (\<lambda>ps. ps \<inter> present) (st_passed st q))\<rparr>"

definition queue_read :: "instant \<Rightarrow> string \<Rightarrow> string option \<Rightarrow> send_state \<Rightarrow> string option \<times> send_state" where
  "queue_read wall port unanswered st =
     (let c = (case st_figures st port of None \<Rightarrow> no_counts | Some c \<Rightarrow> c);
          unread = map_option (\<lambda>why. (case pc_unread c of None \<Rightarrow> wall | Some (since, _) \<Rightarrow> since, why)) unanswered in
      (if pc_unread c = None then map_option snd unread else None,
       st\<lparr>st_figures := (st_figures st)(port \<mapsto> c\<lparr>pc_unread := unread\<rparr>)\<rparr>))"

text \<open>\<open>read_failed\<close>: the two reads of Xmip Storage are arguments, \<open>None\<close> where it did not answer: the
  index's next place and count, and the page of its oldest.\<close>

definition read_failed ::
    "string \<Rightarrow> bool \<Rightarrow> (nat \<times> nat) option \<Rightarrow> (nat \<times> nat \<times> (ident \<times> nat \<times> string) list) option
      \<Rightarrow> send_state \<Rightarrow> send_state" where
  "read_failed port afresh at_now read st =
     (case at_now of
        None \<Rightarrow> st
      | Some place \<Rightarrow>
         if \<not> afresh \<and> (case st_failing st port of None \<Rightarrow> False | Some w \<Rightarrow> fw_read_at w = Some place) then st
         else case read of
                None \<Rightarrow> st
              | Some (nxt, cnt, failed) \<Rightarrow>
                  st\<lparr>st_failing := (st_failing st)(port \<mapsto>
                    \<lparr>fw_count = cnt, fw_read_at = Some (nxt, cnt), fw_oldest = failed\<rparr>)\<rparr>)"

text \<open>\<open>failed_messages\<close>: a page of a queue's index of failed Messages. An entry is its Journey, its
  place in the index, its place in the queue and why.\<close>

record failed_page =
  fp_count :: nat
  fp_messages :: "(ident \<times> nat \<times> string) list"
  fp_next :: "nat option"

definition failed_messages ::
    "(nat \<Rightarrow> nat \<Rightarrow> string + nat \<times> nat \<times> (ident \<times> nat \<times> nat \<times> string) list) \<Rightarrow> nat \<Rightarrow> nat \<Rightarrow> string + failed_page" where
  "failed_messages read from most =
     (let most = max most 1 in
      case read from most of
        Inl why \<Rightarrow> Inl why
      | Inr (nxt, cnt, failed) \<Rightarrow>
          Inr \<lparr>fp_count = cnt, fp_messages = map (\<lambda>(j, sequence, place, why). (j, place, why)) failed,
               fp_next = (if failed = [] then None
                          else let n = fst (snd (last failed)) + 1 in
                               if most \<le> length failed \<and> n < nxt then Some n else None)\<rparr>)"


section \<open>The Send pool is never overfilled\<close>

definition send_fits :: "send_config \<Rightarrow> send_state \<Rightarrow> bool" where
  "send_fits cfg st \<longleftrightarrow> finite (dom (st_owned st)) \<and> places_held st \<le> max (sc_most cfg) 1"

lemma freed_sel [simp]:
  "st_owned (send_freed st) = st_owned st" "st_admitted (send_freed st) = st_admitted st"
  "st_taking (send_freed st) = st_taking st" "st_starved (send_freed st) = []"
  "set (st_asked (send_freed st)) = set (st_starved st) \<union> set (st_asked st)"
  "st_due (send_freed st) = st_due st" "st_figures (send_freed st) = st_figures st"
  "places_held (send_freed st) = places_held st" "st_handed (send_freed st) = st_handed st"
  by (auto simp: send_freed_def places_held_def)

lemma withdraw_sel [simp]:
  "st_owned (send_withdraw k st) = st_owned st" "st_admitted (send_withdraw k st) = st_admitted st - k"
  "st_taking (send_withdraw k st) = st_taking st"
  by (auto simp: send_withdraw_def)

text \<open>Admission lends the pool's places as a budget lends its bytes.\<close>

interpretation admission: places "send_fits cfg" "\<lambda>st. max (sc_most cfg) 1 - card (dom (st_owned st))" st_admitted
  "send_admit cfg" send_withdraw for cfg
proof
  fix st :: send_state and n k st'
  show "st_admitted st \<le> max (sc_most cfg) 1 - card (dom (st_owned st))" if "send_fits cfg st"
    using that by (auto simp: send_fits_def places_held_def)
  show "send_fits cfg st' \<and> max (sc_most cfg) 1 - card (dom (st_owned st')) = max (sc_most cfg) 1 - card (dom (st_owned st)) \<and>
      st_admitted st' = st_admitted st + k \<and> k \<le> n" if "send_fits cfg st" "send_admit cfg n st = (k, st')"
    using that by (auto simp: send_admit_def Let_def send_fits_def places_held_def room_in_def)
  show "k = n \<or> st_admitted st' = max (sc_most cfg) 1 - card (dom (st_owned st))"
    if "send_fits cfg st" "send_admit cfg n st = (k, st')"
    using that by (auto simp: send_admit_def Let_def send_fits_def places_held_def room_in_def min_def split: if_splits)
  show "send_fits cfg (send_withdraw k st) \<and>
      max (sc_most cfg) 1 - card (dom (st_owned (send_withdraw k st))) = max (sc_most cfg) 1 - card (dom (st_owned st)) \<and>
      st_admitted (send_withdraw k st) = st_admitted st - k" if "send_fits cfg st" "k \<le> st_admitted st"
    using that by (auto simp: send_fits_def places_held_def)
qed

lemma card_dom_upd: "finite (dom m) \<Longrightarrow> card (dom (m(i \<mapsto> x))) \<le> Suc (card (dom m))"
  by (simp add: card_insert_le_m1 card_insert_if)

lemma card_dom_none: "finite (dom m) \<Longrightarrow> card (dom (m(i := None))) \<le> card (dom m)"
  by (rule card_mono) auto

lemma line_up_each_claimed:
  "line_up_each cfg sh body ids dep pl n lined = (lined', n') \<Longrightarrow>
     lu_admitted lined' = lu_admitted lined \<and> length (lu_claimed lined') \<le> length (lu_claimed lined) + pl"
proof (induction cfg sh body ids dep pl n lined arbitrary: lined' n' rule: line_up_each.induct)
  case (2 cfg sh body ids j to rest pl n lined)
  show ?case
  proof (cases "0 < pl \<and> sh to")
    case True
    with 2(1) [OF refl refl True refl] "2.prems" show ?thesis by (fastforce simp: Let_def)
  next
    case False
    with 2(2) [OF refl refl False] "2.prems" show ?thesis by (fastforce simp: Let_def)
  qed
qed simp

lemma hand_claimed_fold:
  assumes "finite (dom (st_owned st))"
  shows "let st' = fold (hand_claimed js m f d u) cs st in
    finite (dom (st_owned st')) \<and> card (dom (st_owned st')) \<le> card (dom (st_owned st)) + length cs \<and>
    st_admitted st' = st_admitted st \<and> st_taking st' = st_taking st"
  using assms
proof (induction cs arbitrary: st)
  case (Cons c cs)
  let ?st = "hand_claimed js m f d u c st"
  have "finite (dom (st_owned ?st)) \<and> card (dom (st_owned ?st)) \<le> Suc (card (dom (st_owned st))) \<and>
      st_admitted ?st = st_admitted st \<and> st_taking ?st = st_taking st"
    using Cons.prems by (auto simp: hand_claimed_def Let_def card_insert_if split: prod.splits option.splits)
  with Cons.IH [of ?st] show ?case by (simp add: Let_def)
qed simp

lemma ask_fold [simp]:
  "st_owned (fold (\<lambda>h st. if st_owned st (h_journey h) = None
      then st\<lparr>st_asked := push_new (h_queue h) (st_asked st)\<rparr> else st) hs st) = st_owned st"
  "st_admitted (fold (\<lambda>h st. if st_owned st (h_journey h) = None
      then st\<lparr>st_asked := push_new (h_queue h) (st_asked st)\<rparr> else st) hs st) = st_admitted st"
  "st_taking (fold (\<lambda>h st. if st_owned st (h_journey h) = None
      then st\<lparr>st_asked := push_new (h_queue h) (st_asked st)\<rparr> else st) hs st) = st_taking st"
  by (induction hs arbitrary: st) auto

record send_system =
  sy_state :: send_state
  sy_lined :: "lined_up list"
  sy_free :: nat

text \<open>\<open>sy_lined\<close> are the Publications lined up and not yet written, \<open>sy_free\<close> the places a scan or a
  pick-up was admitted and has not used yet. The operations that touch no place are \<open>quiet\<close>.\<close>

definition quiet :: "(send_state \<Rightarrow> send_state) \<Rightarrow> bool" where
  "quiet f \<longleftrightarrow> (\<exists>q port t waits whole place present wall why order now at_now read.
     f \<in> {send_starve q, send_ask q, send_rescan, send_close, send_reading q, send_not_due port q t,
          send_waited q waits whole, send_passed q place, read_whole q present, snd \<circ> queue_read wall port why,
          snd \<circ> next_take order now, read_failed port whole at_now read})"

inductive send_sys_step :: "send_config \<Rightarrow> send_system \<Rightarrow> send_system \<Rightarrow> bool" for cfg where
  sys_line_up: "line_up cfg s departing body ids n now (sy_state y) = ((lined, n'), st) \<Longrightarrow>
    send_sys_step cfg y (y\<lparr>sy_state := st, sy_lined := sy_lined y @ [lined]\<rparr>)"
| sys_withdrawn: "i < length (sy_lined y) \<Longrightarrow>
    send_sys_step cfg y (y\<lparr>sy_state := send_withdrawn (sy_lined y ! i) (sy_state y),
      sy_lined := take i (sy_lined y) @ drop (Suc i) (sy_lined y)\<rparr>)"
| sys_confirmed: "i < length (sy_lined y) \<Longrightarrow> send_confirmed hs (sy_lined y ! i) (sy_state y) = (lined, st) \<Longrightarrow>
    send_sys_step cfg y (y\<lparr>sy_state := st, sy_lined := (sy_lined y)[i := lined]\<rparr>)"
| sys_handed: "i < length (sy_lined y) \<Longrightarrow>
    send_sys_step cfg y (y\<lparr>sy_state := send_handed cfg (sy_lined y ! i) js message facts durable now (sy_state y),
      sy_lined := take i (sy_lined y) @ drop (Suc i) (sy_lined y)\<rparr>)"
| sys_admit: "send_admit cfg 1 (sy_state y) = (k, st) \<Longrightarrow>
    send_sys_step cfg y (y\<lparr>sy_state := st, sy_free := sy_free y + k\<rparr>)"
| sys_withdraw: "0 < sy_free y \<Longrightarrow>
    send_sys_step cfg y (y\<lparr>sy_state := send_withdraw 1 (sy_state y), sy_free := sy_free y - 1\<rparr>)"
| sys_takes: "0 < sy_free y \<Longrightarrow> i \<notin> st_taking (sy_state y) \<Longrightarrow>
    send_sys_step cfg y (y\<lparr>sy_state := scan_takes i (sy_state y), sy_free := sy_free y - 1\<rparr>)"
| sys_own: "i \<in> st_taking (sy_state y) \<Longrightarrow>
    send_sys_step cfg y (y\<lparr>sy_state := send_own i ow (sy_state y)\<rparr>)"
| sys_untake: "send_sys_step cfg y (y\<lparr>sy_state := send_untake i (sy_state y)\<rparr>)"
| sys_hand: "0 < sy_free y \<Longrightarrow>
    send_sys_step cfg y (y\<lparr>sy_state := send_hand d (sy_state y), sy_free := sy_free y - 1\<rparr>)"
| sys_settle: "send_sys_step cfg y (y\<lparr>sy_state := send_settle now ask d e (sy_state y)\<rparr>)"
| sys_renewed: "send_sys_step cfg y (y\<lparr>sy_state := (sy_state y)\<lparr>st_owned :=
      fst (step_renewed (sc_lease cfg) c asked now r (st_owned (sy_state y)))\<rparr>\<rparr>)"
| sys_quiet: "quiet f \<Longrightarrow> send_sys_step cfg y (y\<lparr>sy_state := f (sy_state y)\<rparr>)"

definition send_start :: "send_system \<Rightarrow> bool" where
  "send_start y \<longleftrightarrow> y = \<lparr>sy_state = send_new, sy_lined = [], sy_free = 0\<rparr>"

definition accounted :: "send_system \<Rightarrow> nat" where
  "accounted y = sum_list (map lu_admitted (sy_lined y)) + card (st_taking (sy_state y)) + sy_free y"

definition send_inv :: "send_config \<Rightarrow> send_system \<Rightarrow> bool" where
  "send_inv cfg y \<longleftrightarrow> send_fits cfg (sy_state y) \<and> finite (st_taking (sy_state y)) \<and>
     (\<forall>l \<in> set (sy_lined y). length (lu_claimed l) \<le> lu_admitted l) \<and> accounted y \<le> st_admitted (sy_state y)"


lemma settle_owned:
  "st_owned (send_settle now ask d e st) = (st_owned st)(journey_id (de_journey d) := None)"
  "st_admitted (send_settle now ask d e st) = st_admitted st"
  "st_taking (send_settle now ask d e st) = st_taking st"
  by (cases e; simp add: let_go_of_def due_entry_def counted_def send_ask_def send_lost_def Let_def)+

lemma quiet_places:
  "quiet f \<Longrightarrow> st_owned (f st) = st_owned st \<and> st_admitted (f st) = st_admitted st \<and> st_taking (f st) = st_taking st"
  by (auto simp: quiet_def send_starve_def send_ask_def send_rescan_def send_close_def send_reading_def
      send_not_due_def send_waited_def due_entry_def send_passed_def read_whole_def queue_read_def Let_def
      next_take_def read_failed_def split: option.splits if_splits)

lemma sum_list_remove:
  "i < length xs \<Longrightarrow> sum_list (map f (take i xs @ drop (Suc i) xs)) + f (xs ! i) = sum_list (map f xs)"
  for f :: "'a \<Rightarrow> nat"
  using sum_list_drop_nth [of i "map f xs"] by (simp add: take_map drop_map)

lemma send_inv_keep:
  assumes "send_inv cfg y" "dom (st_owned st) \<subseteq> dom (st_owned (sy_state y))"
    "st_admitted st = st_admitted (sy_state y)" "st_taking st = st_taking (sy_state y)"
  shows "send_inv cfg (y\<lparr>sy_state := st\<rparr>)"
  using assms card_mono [OF _ assms(2)]
  by (auto simp: send_inv_def send_fits_def accounted_def places_held_def intro: finite_subset)

lemma lined_removed:
  assumes "send_inv cfg y" "i < length (sy_lined y)" "finite (dom (st_owned st))"
    "card (dom (st_owned st)) + st_admitted st \<le> places_held (sy_state y)"
    "st_admitted st = st_admitted (sy_state y) - lu_admitted (sy_lined y ! i)" "st_taking st = st_taking (sy_state y)"
  shows "send_inv cfg (y\<lparr>sy_state := st, sy_lined := take i (sy_lined y) @ drop (Suc i) (sy_lined y)\<rparr>)"
  using assms sum_list_remove [OF assms(2), of lu_admitted]
  by (auto simp: send_inv_def send_fits_def accounted_def places_held_def dest: in_set_takeD in_set_dropD)

lemma confirmed_places:
  assumes "send_confirmed hs l st = (l', st')" "length (lu_claimed l) \<le> lu_admitted l"
  shows "st_owned st' = st_owned st \<and> st_taking st' = st_taking st \<and> length (lu_claimed l') \<le> lu_admitted l' \<and>
    lu_admitted l' \<le> lu_admitted l \<and> st_admitted st' = st_admitted st - (lu_admitted l - lu_admitted l')"
proof -
  let ?c = "List.map_filter (\<lambda>(i, to, q, c). map_option (\<lambda>h. (i, to, q, h)) (claim_held hs c)) (lu_claimed l)"
  have "length ?c \<le> length (lu_claimed l)" by (simp add: List.map_filter_def)
  with assms show ?thesis by (auto simp: send_confirmed_def Let_def)
qed

lemma send_sys_step_inv: "send_sys_step cfg y z \<Longrightarrow> send_inv cfg y \<Longrightarrow> send_inv cfg z"
proof (induction rule: send_sys_step.induct)
  case (sys_line_up s departing body ids n now y lined n' st)
  then obtain k where k: "send_admit cfg k (sy_state y) = (lu_admitted lined, st)"
    and c: "length (lu_claimed lined) \<le> lu_admitted lined"
    by (auto simp: line_up_def Let_def split: prod.splits dest!: line_up_each_claimed)
  from admission.lend_keeps [OF _ k] sys_line_up.prems
  have "send_fits cfg st" "st_admitted st = st_admitted (sy_state y) + lu_admitted lined"
    by (auto simp: send_inv_def)
  moreover have "st_taking st = st_taking (sy_state y)" using k by (auto simp: send_admit_def Let_def)
  ultimately show ?case using sys_line_up.prems c by (auto simp: send_inv_def accounted_def)
next
  case (sys_withdrawn i y)
  then show ?case
    by (intro lined_removed) (auto simp: send_withdrawn_def send_inv_def send_fits_def places_held_def)
next
  case (sys_confirmed i y hs lined st)
  let ?l = "sy_lined y ! i"
  have "length (lu_claimed ?l) \<le> lu_admitted ?l" using sys_confirmed by (simp add: send_inv_def)
  note c = confirmed_places [OF sys_confirmed.hyps(2) this]
  have "sum_list (map lu_admitted ((sy_lined y)[i := lined])) + lu_admitted ?l
      = sum_list (map lu_admitted (sy_lined y)) + lu_admitted lined"
    by (rule sum_list_map_update [OF sys_confirmed.hyps(1)])
  with c sys_confirmed.prems show ?case
    by (auto simp: send_inv_def send_fits_def accounted_def places_held_def dest!: set_update_subset_insert [THEN subsetD])
next
  case (sys_handed i y js message facts durable now)
  let ?l = "sy_lined y ! i"
  let ?st1 = "(sy_state y)\<lparr>st_admitted := st_admitted (sy_state y) - lu_admitted ?l\<rparr>"
  have f: "finite (dom (st_owned ?st1))" using sys_handed.prems by (simp add: send_inv_def send_fits_def)
  have "length (lu_claimed ?l) \<le> lu_admitted ?l" using sys_handed by (simp add: send_inv_def)
  moreover have "lu_admitted ?l \<le> st_admitted (sy_state y)"
    using sum_list_remove [OF sys_handed.hyps, of lu_admitted] sys_handed.prems by (simp add: send_inv_def accounted_def)
  moreover obtain until where until: "until = (case lu_asked ?l of None \<Rightarrow> now | Some a \<Rightarrow> a) + sc_lease cfg" by simp
  moreover note hand_claimed_fold [OF f, of js message facts "Some durable" until "lu_claimed ?l", unfolded Let_def]
  ultimately show ?case
    using sys_handed by (intro lined_removed) (auto simp: send_handed_def Let_def places_held_def)
next
  case (sys_admit y k st)
  from admission.lend_keeps [OF _ sys_admit.hyps] sys_admit.prems
  have "send_fits cfg st" "st_admitted st = st_admitted (sy_state y) + k" by (auto simp: send_inv_def)
  moreover have "st_taking st = st_taking (sy_state y)" using sys_admit.hyps by (auto simp: send_admit_def Let_def)
  ultimately show ?case using sys_admit.prems by (auto simp: send_inv_def accounted_def)
next
  case (sys_own i y ow)
  then show ?case
    using card_dom_upd [of "st_owned (sy_state y)" i ow] card_gt_0_iff [of "st_taking (sy_state y)"]
    by (auto simp: send_inv_def send_fits_def accounted_def places_held_def send_own_def)
next
  case (sys_untake y i)
  then show ?case
    using card_gt_0_iff [of "st_taking (sy_state y)"]
    by (auto simp: send_inv_def send_fits_def accounted_def places_held_def send_untake_def)
next
  case (sys_hand y d)
  then show ?case
    using card_dom_upd [of "st_owned (sy_state y)" "journey_id (de_journey d)" "owned_of d"]
      card_Diff1_le [of "st_taking (sy_state y)" "journey_id (de_journey d)"]
    by (auto simp: send_inv_def send_fits_def accounted_def places_held_def send_hand_def send_own_def Let_def)
next
  case (sys_settle y now ask d e)
  then show ?case by (intro send_inv_keep) (auto simp: settle_owned)
next
  case (sys_renewed y c asked now r)
  then show ?case by (intro send_inv_keep) (auto simp: step_renewed_dom)
next
  case (sys_quiet f y)
  then show ?case by (intro send_inv_keep) (auto simp: quiet_places)
qed (auto simp: send_inv_def send_fits_def accounted_def places_held_def scan_takes_def)

interpretation send_steps: invariant_system send_start "send_sys_step cfg" "send_inv cfg" for cfg
proof
  show "send_start y \<Longrightarrow> send_inv cfg y" for y
    by (simp add: send_start_def send_inv_def send_fits_def send_new_def accounted_def places_held_def)
qed (rule send_sys_step_inv)

text \<open>C9: however Publications, scans, pick-ups, renewals and passes interleave, the Messages this node owns
  and the places admitted for more never exceed the Send pool's most threads, one at least; and
  every place admitted to a Publication, a scan or a pick-up is still counted.\<close>

theorem send_pool_bounded:
  assumes "reach send_start (send_sys_step cfg) y"
  shows "card (dom (st_owned (sy_state y))) + st_admitted (sy_state y) \<le> max (sc_most cfg) 1 \<and>
    sum_list (map lu_admitted (sy_lined y)) + card (st_taking (sy_state y)) + sy_free y \<le> st_admitted (sy_state y)"
  using send_steps.reach_inv [OF assms]
  by (simp add: send_inv_def send_fits_def places_held_def accounted_def)

definition two_threads :: send_config where
  "two_threads = \<lparr>sc_node = ''n1'', sc_queue = (\<lambda>_. 5), sc_lease = 30, sc_scan = 1, sc_window = 100, sc_most = 2\<rparr>"

definition one_departure :: departure where
  "one_departure = departure_of 3 '''' None 30 bare_journey (ToSendPort ''out'') 5 own_claim"

text \<open>A pick-up was admitted a place and so was a scan, which takes the same Message.\<close>

definition both_admitted :: send_system where
  "both_admitted = \<lparr>sy_state = scan_takes 1 (send_new\<lparr>st_admitted := 2\<rparr>), sy_lined = [], sy_free = 1\<rparr>"

lemma both_admitted_reached: "reach send_start (send_sys_step two_threads) both_admitted"
proof -
  let ?R = "\<lambda>y. reach send_start (send_sys_step two_threads) y"
  have "?R \<lparr>sy_state = send_new, sy_lined = [], sy_free = 0\<rparr>" by (rule reach_init) (simp add: send_start_def)
  from reach_step [OF this sys_admit [of two_threads _ 1 "send_new\<lparr>st_admitted := 1\<rparr>"]]
  have "?R \<lparr>sy_state = send_new\<lparr>st_admitted := 1\<rparr>, sy_lined = [], sy_free = 1\<rparr>"
    by (simp add: send_admit_def room_in_def places_held_def send_new_def two_threads_def)
  from reach_step [OF this sys_admit [of two_threads _ 1 "send_new\<lparr>st_admitted := 2\<rparr>"]]
  have "?R \<lparr>sy_state = send_new\<lparr>st_admitted := 2\<rparr>, sy_lined = [], sy_free = 2\<rparr>"
    by (simp add: send_admit_def room_in_def places_held_def send_new_def two_threads_def numeral_2_eq_2)
  from reach_step [OF this sys_takes [of _ 1]]
  show ?thesis by (simp add: both_admitted_def send_new_def)
qed

theorem send_pool_bounded_witness:
  "reach send_start (send_sys_step two_threads) both_admitted \<and> st_admitted (sy_state both_admitted) = 2 \<and>
   card (dom (st_owned (sy_state both_admitted))) + st_admitted (sy_state both_admitted) \<le> max (sc_most two_threads) 1"
  using both_admitted_reached send_pool_bounded [OF both_admitted_reached]
  by (simp add: both_admitted_def scan_takes_def)

text \<open>C17: a place leaks. Where a pick-up hands its Message to the pool while a scan that found it in its new
  queue is still claiming it, \<open>own\<close> forgets the scan's taking, so the scan's \<open>untake\<close> gives back
  nothing: the Message settled, one place more is counted as admitted than anything holds, and
  the pool has one thread fewer from then on.\<close>

theorem hand_while_taking_leaks:
  assumes "journey_id (de_journey d) \<in> st_taking (sy_state y)" and "finite (st_taking (sy_state y))"
    and "0 < sy_free y" and "accounted y = st_admitted (sy_state y)"
    and "z = y\<lparr>sy_state := send_settle now ask d e (send_untake (journey_id (de_journey d)) (send_hand d (sy_state y))),
               sy_free := sy_free y - 1\<rparr>"
  shows "accounted z + 1 = st_admitted (sy_state z)"
proof -
  have "1 \<le> card (st_taking (sy_state y))"
    using assms(1,2) by (metis One_nat_def Suc_leI card_gt_0_iff empty_iff)
  with assms show ?thesis
    by (auto simp: accounted_def settle_owned send_untake_def send_hand_def send_own_def Let_def)
qed

theorem hand_while_taking_leaks_witness:
  "let st = send_settle 0 False one_departure (ECompleted []) (send_untake 1 (send_hand one_departure (sy_state both_admitted))) in
   st_taking st = {} \<and> dom (st_owned st) = {} \<and> st_admitted st = 1 \<and> room_in two_threads st = 1"
proof -
  let ?st = "send_settle 0 False one_departure (ECompleted []) (send_untake 1 (send_hand one_departure (sy_state both_admitted)))"
  have i: "journey_id (de_journey one_departure) = 1" by (simp add: one_departure_def departure_of_def)
  have t: "st_taking ?st = {}" and o: "st_owned ?st = Map.empty"
    using i by (simp_all add: settle_owned send_untake_def send_hand_def send_own_def both_admitted_def scan_takes_def send_new_def
        del: send_settle.simps)
  have "accounted (both_admitted\<lparr>sy_state := ?st, sy_free := sy_free both_admitted - 1\<rparr>) + 1 = st_admitted ?st"
    using hand_while_taking_leaks [of one_departure both_admitted _ 0 False "ECompleted []"] i
    by (simp add: both_admitted_def scan_takes_def send_new_def accounted_def del: send_settle.simps)
  then have "st_admitted ?st = 1" using t by (simp add: accounted_def both_admitted_def del: send_settle.simps)
  with t o show ?thesis by (simp add: Let_def room_in_def places_held_def two_threads_def del: send_settle.simps)
qed

section \<open>A due time is kept until it is taken\<close>

datatype due_event = DWakes instant | DNote instant | DFound instant | DReadBegins | DWaited due bool

fun due_apply :: "due_event \<Rightarrow> due \<Rightarrow> due" where
  "due_apply (DWakes t) = due_wakes t"
| "due_apply (DNote t) = due_note t"
| "due_apply (DFound t) = due_wakes_at t"
| "due_apply DReadBegins = due_read_begins"
| "due_apply (DWaited waits whole) = due_waited waits whole"

text \<open>A whole read that begins after the hand-on was written finds its place in the Ledger, so its answer
  is no later; one that began before may have passed the place.\<close>

fun reads_find :: "instant \<Rightarrow> bool \<Rightarrow> due_event list \<Rightarrow> bool" where
  "reads_find t begun [] \<longleftrightarrow> True"
| "reads_find t begun (DReadBegins # es) \<longleftrightarrow> reads_find t True es"
| "reads_find t begun (DWaited waits True # es) \<longleftrightarrow>
     (begun \<longrightarrow> (\<exists>x. du_at waits = Some x \<and> x \<le> t)) \<and> reads_find t begun es"
| "reads_find t begun (_ # es) \<longleftrightarrow> reads_find t begun es"

definition by_then :: "instant \<Rightarrow> instant option \<Rightarrow> bool" where
  "by_then t at_time \<longleftrightarrow> (case at_time of None \<Rightarrow> False | Some x \<Rightarrow> x \<le> t)"

lemma by_then_earlier [simp]: "by_then t (Some (earlier was x)) \<longleftrightarrow> by_then t was \<or> x \<le> t"
  by (auto simp: by_then_def earlier_def min_def split: option.splits)

text \<open>What a queue's entry keeps: it is woken for by \<open>t\<close>, and until a read begins it knows why.\<close>

definition kept_by :: "instant \<Rightarrow> bool \<Rightarrow> due \<Rightarrow> bool" where
  "kept_by t begun d \<longleftrightarrow> by_then t (du_at d) \<and> (begun \<or> by_then t (du_noted d))"

lemma kept_by_wakes:
  "kept_by t begun d \<Longrightarrow> kept_by t begun (due_wakes x d)"
  "kept_by t begun d \<Longrightarrow> kept_by t begun (due_note x d)"
  "kept_by t begun d \<Longrightarrow> kept_by t begun (due_wakes_at x d)"
  "kept_by t begun d \<Longrightarrow> kept_by t True (due_read_begins d)"
  "kept_by t begun d \<Longrightarrow> kept_by t begun (due_waited waits False d)"
  by (auto simp: kept_by_def due_wakes_def due_note_def due_wakes_at_def due_read_begins_def due_waited_def
      split: option.splits)

lemma kept_by_whole:
  assumes "kept_by t begun d" "begun \<longrightarrow> (\<exists>x. du_at waits = Some x \<and> x \<le> t)"
  shows "kept_by t begun (due_waited waits True d)"
proof (cases begun)
  case True
  with assms have "by_then t (du_at waits)" by (auto simp: by_then_def)
  with True show ?thesis by (simp add: kept_by_def due_waited_def split: option.splits)
next
  case False
  with assms obtain x where "du_noted d = Some x" "x \<le> t"
    by (auto simp: kept_by_def by_then_def split: option.splits)
  with False show ?thesis by (simp add: kept_by_def due_waited_def by_then_def [of _ "Some x"])
qed

lemma due_apply_kept: "reads_find t begun es \<Longrightarrow> kept_by t begun d \<Longrightarrow> \<exists>b. kept_by t b (fold due_apply es d)"
proof (induction t begun es arbitrary: d rule: reads_find.induct)
  case (3 t begun waits es)
  then show ?case using kept_by_whole by simp
qed (auto intro: kept_by_wakes)

text \<open>Once a hand-on's backoff is noted for its queue, the queue stays to be woken for by then, through
  every read of it -- also one under way that passed its place before the hand-on was written --
  until the dispatching takes it.\<close>

theorem due_never_dropped:
  assumes "reads_find t False es"
  shows "\<exists>x. du_at (fold due_apply es (due_note t d)) = Some x \<and> x \<le> t"
proof -
  have "kept_by t False (due_note t d)" by (simp add: kept_by_def due_note_def due_wakes_def)
  from due_apply_kept [OF assms this] show ?thesis
    by (auto simp: kept_by_def by_then_def split: option.splits)
qed

theorem due_never_dropped_witness:
  "reads_find 7 False [DWaited (due_of ''out'') True, DReadBegins, DNote 9, DWaited ((due_of ''out'')\<lparr>du_at := Some 7\<rparr>) True] \<and>
   (\<exists>x. du_at (fold due_apply [DWaited (due_of ''out'') True, DReadBegins, DNote 9, DWaited ((due_of ''out'')\<lparr>du_at := Some 7\<rparr>) True]
      (due_note 7 (due_of ''out''))) = Some x \<and> x \<le> 7)"
proof
  show r: "reads_find 7 False [DWaited (due_of ''out'') True, DReadBegins, DNote 9, DWaited ((due_of ''out'')\<lparr>du_at := Some 7\<rparr>) True]"
    by simp
qed (rule due_never_dropped, simp)


section \<open>The dispatching's turn\<close>

lemma fold_min_le: "fold min xs u \<le> u" for u :: nat
proof (induction xs arbitrary: u)
  case (Cons a xs)
  from Cons.IH [of "min a u"] show ?case by simp
qed simp

lemma fold_min_le_mem: "x \<in> set xs \<Longrightarrow> fold min xs u \<le> x" for u :: nat
proof (induction xs arbitrary: u)
  case (Cons a xs)
  from fold_min_le [of xs "min a u"] Cons show ?case by (cases "x = a") auto
qed simp

text \<open>A queue whose retry is due wakes the dispatching, and a turn takes every Message handed, every queue
  asked for, every queue this node serves where a rescan was asked, and exactly the queues
  whose retry is due, none of which is due again after; nothing handed or asked is left behind.\<close>

theorem next_takes_all:
  assumes "set order = dom (st_due st)"
    and "next_take order now st = ((closed, handed, asked), st')"
  shows "(is_due now st q \<longrightarrow> next_ready order until now st) \<and> handed = st_handed st \<and> closed = st_closed st \<and>
    set asked = set (st_asked st) \<union> (if st_rescan st then set (st_served st) else {}) \<union> {q. is_due now st q} \<and>
    \<not> is_due now st' q \<and> st_handed st' = [] \<and> st_asked st' = [] \<and> \<not> st_rescan st' \<and> st_owned st' = st_owned st"
proof -
  have due_order: "is_due now st q \<Longrightarrow> q \<in> set order" for q
    using assms(1) by (auto simp: is_due_def domI split: option.splits)
  have "next_ready order until now st" if due: "is_due now st q"
  proof -
    from due obtain t where "Option.bind (st_due st q) du_at = Some t" "t \<le> now"
      by (auto simp: is_due_def split: option.splits)
    moreover from this due_order [OF due]
    have "t \<in> set (List.map_filter (\<lambda>q. Option.bind (st_due st q) du_at) order)"
      by (force simp: List.map_filter_def)
    ultimately show ?thesis using fold_min_le_mem [of t] unfolding next_ready_def send_wakes_at_def
      by (meson order_trans)
  qed
  moreover have "\<not> is_due now st' q"
    using assms(2) by (auto simp: next_take_def Let_def is_due_def split: option.splits bind_splits if_splits)
  ultimately show ?thesis using assms(2) due_order by (auto simp: next_take_def Let_def)
qed

theorem next_takes_all_witness:
  "let st = send_new\<lparr>st_due := [5 \<mapsto> (due_of ''out'')\<lparr>du_at := Some 3\<rparr>, 6 \<mapsto> (due_of ''in'')\<lparr>du_at := Some 9\<rparr>]\<rparr> in
   next_ready [5, 6] 100 4 st \<and> snd (snd (fst (next_take [5, 6] 4 st))) = [5]"
proof -
  let ?st = "send_new\<lparr>st_due := [5 \<mapsto> (due_of ''out'')\<lparr>du_at := Some 3\<rparr>, 6 \<mapsto> (due_of ''in'')\<lparr>du_at := Some 9\<rparr>]\<rparr>"
  obtain t st' where "next_take [5, 6] 4 ?st = (t, st')" by fastforce
  moreover obtain c h a where "t = (c, h, a)" by (cases t) auto
  ultimately have n: "next_take [5, 6] 4 ?st = ((c, h, a), st')" by simp
  from next_takes_all [OF _ n, of 5 100] have "next_ready [5, 6] 100 4 ?st" by (auto simp: is_due_def due_of_def)
  moreover have "snd (snd (fst (next_take [5, 6] 4 ?st))) = [5]"
    by (simp add: next_take_def Let_def is_due_def due_of_def push_new_def send_new_def)
  ultimately show ?thesis by simp
qed

text \<open>However a pass ends, its Message is let go of -- owned no more, its place free, every queue that
  starved for one asked for -- and what its end calls for is noted: a retry's backoff for its
  queue, a sent, failed or lost Message counted at its Send Port, a queue to be read again asked
  for.\<close>

theorem settle_lets_go:
  "let st' = send_settle now ask d e st; i = journey_id (de_journey d); port = sub_name (de_to d);
       counts = (\<lambda>st. case st_figures st port of None \<Rightarrow> no_counts | Some c \<Rightarrow> c) in
   st_owned st' = (st_owned st)(i := None) \<and> st_admitted st' = st_admitted st \<and>
   st_starved st' = [] \<and> set (st_starved st) \<subseteq> set (st_asked st') \<and>
   (case e of
      EWaiting after _ \<Rightarrow> (\<exists>x. Option.bind (st_due st' (de_queue d)) du_at = Some x \<and> x \<le> now + after)
    | ECompleted _ \<Rightarrow> counts st' = (counts st)\<lparr>pc_sent := pc_sent (counts st) + 1\<rparr>
    | EFailed reason _ \<Rightarrow> counts st' = (counts st)\<lparr>pc_failed := pc_failed (counts st) + 1, pc_last_failure := Some (i, reason)\<rparr>
    | ELost _ \<Rightarrow> counts st' = (counts st)\<lparr>pc_lost := pc_lost (counts st) + 1\<rparr>
    | EUntried \<Rightarrow> de_queue d \<in> set (st_asked st')
    | EBehind \<Rightarrow> (if ask then de_queue d \<in> set (st_asked st') else set (st_asked st') = set (st_starved st) \<union> set (st_asked st))
    | EUnwritten _ \<Rightarrow> counts st' = counts st)"
  by (cases e)
    (auto simp: Let_def let_go_of_def due_entry_def counted_def send_ask_def send_lost_def due_note_def due_wakes_def
      earlier_def split: option.splits)

section \<open>Lining up\<close>

lemma line_up_each_spec:
  "line_up_each cfg sh body ids dep pl n lined = (lined', n') \<Longrightarrow>
   lu_holds lined' = lu_holds lined @ map (\<lambda>(j, to). \<lparr>h_queue = sc_queue cfg to, h_journey = journey_id j, h_body = body\<rparr>) dep \<and>
   map (\<lambda>(i, to, q, c). (i, to, q)) (lu_claimed lined') = map (\<lambda>(i, to, q, c). (i, to, q)) (lu_claimed lined) @
     map (\<lambda>(j, to). (journey_id j, to, sc_queue cfg to)) (take pl (filter (\<lambda>(j, to). sh to) dep)) \<and>
   (map (\<lambda>(i, to, q, c). c) (lu_claimed lined) = lu_claims lined \<longrightarrow>
     map (\<lambda>(i, to, q, c). c) (lu_claimed lined') = lu_claims lined') \<and>
   map cl_token (lu_claims lined') = map cl_token (lu_claims lined) @ map ids [n ..< n'] \<and> n \<le> n'"
proof (induction dep arbitrary: pl n lined)
  case (Cons jt rest)
  obtain j to where [simp]: "jt = (j, to)" by fastforce
  show ?case
  proof (cases "0 < pl \<and> sh to")
    case True
    then obtain k where [simp]: "pl = Suc k" by (cases pl) auto
    from Cons.prems True have rec: "line_up_each cfg sh body ids rest (pl - 1) (n + 1) (lined
        \<lparr>lu_holds := lu_holds lined @ [\<lparr>h_queue = sc_queue cfg to, h_journey = journey_id j, h_body = body\<rparr>],
         lu_claims := lu_claims lined @ [\<lparr>cl_journey = journey_id j, cl_holder = sc_node cfg, cl_token = ids n, cl_fence = 0\<rparr>],
         lu_claimed := lu_claimed lined @ [(journey_id j, to, sc_queue cfg to,
           \<lparr>cl_journey = journey_id j, cl_holder = sc_node cfg, cl_token = ids n, cl_fence = 0\<rparr>)]\<rparr>) = (lined', n')"
      by (simp add: Let_def)
    from Cons.IH [OF rec] True show ?thesis by (auto simp: upt_conv_Cons)
  next
    case False
    from Cons.prems False have rec: "line_up_each cfg sh body ids rest pl n (lined
        \<lparr>lu_holds := lu_holds lined @ [\<lparr>h_queue = sc_queue cfg to, h_journey = journey_id j, h_body = body\<rparr>]\<rparr>) = (lined', n')"
      by (auto simp: Let_def)
    from Cons.IH [OF rec] False show ?thesis by auto
  qed
qed simp


text \<open>A Publication lined up keeps every Message it opens at its destination's queue, in order, and claims
  exactly the first of those this node sends itself, as many as the Send pool admitted, each
  under a token of its own.\<close>

theorem line_up_claims:
  "let sent_here = (\<lambda>to. sends_serves s to \<and> \<not> sequential s to);
       lined = fst (fst (line_up cfg s departing body ids n now st)) in
   map (\<lambda>h. (h_journey h, h_queue h)) (lu_holds lined) = map (\<lambda>(j, to). (journey_id j, sc_queue cfg to)) departing \<and>
   lu_admitted lined = min (length (filter (\<lambda>(j, to). sent_here to) departing)) (room_in cfg st) \<and>
   map (\<lambda>(i, to, q, c). (i, to, q)) (lu_claimed lined) =
     map (\<lambda>(j, to). (journey_id j, to, sc_queue cfg to)) (take (lu_admitted lined) (filter (\<lambda>(j, to). sent_here to) departing)) \<and>
   map (\<lambda>(i, to, q, c). c) (lu_claimed lined) = lu_claims lined \<and>
   (inj ids \<longrightarrow> distinct (map cl_token (lu_claims lined)))"
proof -
  define sh where "sh = (\<lambda>to. sends_serves s to \<and> \<not> sequential s to)"
  obtain k st' where k: "send_admit cfg (length (filter (\<lambda>(j, to). sh to) departing)) st = (k, st')" by fastforce
  obtain lined n' where l: "line_up_each cfg sh body ids departing k n
      \<lparr>lu_holds = [], lu_claims = [], lu_claimed = [], lu_admitted = k, lu_asked = Some now\<rparr> = (lined, n')" by fastforce
  have lined: "fst (fst (line_up cfg s departing body ids n now st)) = lined"
    using k l by (simp add: line_up_def Let_def sh_def)
  have "k = min (length (filter (\<lambda>(j, to). sh to) departing)) (room_in cfg st)"
    using k by (auto simp: send_admit_def Let_def)
  moreover have "lu_admitted lined = k" using line_up_each_claimed [OF l] by simp
  moreover have "inj ids \<longrightarrow> distinct (map cl_token (lu_claims lined))"
    using line_up_each_spec [OF l] by (auto simp: distinct_map intro: inj_on_subset)
  ultimately show ?thesis
    using line_up_each_spec [OF l] by (simp add: lined sh_def [symmetric] comp_def case_prod_unfold)
qed

theorem line_up_claims_witness:
  "let lined = fst (fst (line_up (two_threads\<lparr>sc_most := 1\<rparr>) sample_sends
         [(bare_journey, ToSendPort ''out''), (bare_journey\<lparr>journey_id := 2\<rparr>, ToSendPort ''out'')] '''' (\<lambda>n. n) 9 0 send_new)) in
   map h_journey (lu_holds lined) = [1, 2] \<and> distinct (map cl_token (lu_claims lined)) \<and>
   lu_admitted lined = 1"
proof -
  let ?l = "fst (fst (line_up (two_threads\<lparr>sc_most := 1\<rparr>) sample_sends
         [(bare_journey, ToSendPort ''out''), (bare_journey\<lparr>journey_id := 2\<rparr>, ToSendPort ''out'')] '''' (\<lambda>n. n) 9 0 send_new))"
  have q: "\<not> sequential sample_sends (ToSendPort ''out'')" by code_simp
  have "inj (\<lambda>n::nat. n)" by (simp add: inj_on_def)
  then have "map (\<lambda>h. (h_journey h, h_queue h)) (lu_holds ?l) = [(1, 5), (2, 5)] \<and> distinct (map cl_token (lu_claims ?l)) \<and> lu_admitted ?l = 1"
    using line_up_claims [of sample_sends "two_threads\<lparr>sc_most := 1\<rparr>"
        "[(bare_journey, ToSendPort ''out''), (bare_journey\<lparr>journey_id := 2\<rparr>, ToSendPort ''out'')]" "''''" "\<lambda>n. n" 9 0 send_new]
      sample_serves q
    by (simp add: Let_def two_threads_def room_in_def places_held_def send_new_def del: One_nat_def)
  then show ?thesis by (auto simp: Let_def map_eq_conv simp del: One_nat_def)
qed

section \<open>Failed Messages a page at a time\<close>

text \<open>A queue's index of failed Messages as Xmip Storage reads it: its entries from a place on, at most so
  many, with the next place and the count.\<close>

definition index_read ::
    "(ident \<times> nat \<times> nat \<times> string) list \<Rightarrow> nat \<Rightarrow> nat \<Rightarrow> nat \<Rightarrow> string + nat \<times> nat \<times> (ident \<times> nat \<times> nat \<times> string) list" where
  "index_read idx nxt from most =
     Inr (nxt, length idx, take most (filter (\<lambda>(_, sequence, _, _). from \<le> sequence) idx))"

lemma failed_next_later:
  assumes "failed_messages (index_read idx nxt) from most = Inr pg" "fp_next pg = Some n"
  shows "from < n \<and> n < nxt"
proof -
  let ?f = "take (max most 1) (filter (\<lambda>(_, sequence, _, _). from \<le> sequence) idx)"
  from assms have ne: "?f \<noteq> []" and n: "n = Suc (fst (snd (last ?f)))" "n < nxt"
    by (auto simp: failed_messages_def index_read_def Let_def split: if_splits)
  from last_in_set [OF ne] have "from \<le> fst (snd (last ?f))"
    by (auto dest!: in_set_takeD)
  with n show ?thesis by simp
qed

function failed_pages :: "(ident \<times> nat \<times> nat \<times> string) list \<Rightarrow> nat \<Rightarrow> nat \<Rightarrow> nat \<Rightarrow> (ident \<times> nat \<times> string) list" where
  "failed_pages idx nxt most from =
     (case failed_messages (index_read idx nxt) from most of
        Inl _ \<Rightarrow> []
      | Inr pg \<Rightarrow> fp_messages pg @ (case fp_next pg of None \<Rightarrow> [] | Some n \<Rightarrow> failed_pages idx nxt most n))"
  by pat_completeness auto
termination
  by (relation "measure (\<lambda>(idx, nxt, most, from). nxt - from)")
    (auto dest!: failed_next_later simp: diff_less_mono2)

declare failed_pages.simps [simp del]

lemma sorted_take_filter:
  fixes f :: "'a \<Rightarrow> nat"
  assumes "sorted_wrt (<) (map f xs)" "take m (filter (\<lambda>x. from \<le> f x) xs) = ys" "ys \<noteq> []" "m \<le> length ys"
  shows "filter (\<lambda>x. from \<le> f x) xs = ys @ filter (\<lambda>x. Suc (f (last ys)) \<le> f x) xs"
proof -
  let ?zs = "filter (\<lambda>x. from \<le> f x) xs"
  have s: "sorted_wrt (<) (map f ?zs)"
    using assms(1) by (simp add: sorted_wrt_map sorted_wrt_filter)
  obtain rest where zs: "?zs = ys @ rest" using assms(2) by (metis append_take_drop_id)
  obtain ini l where ys: "ys = ini @ [l]" using assms(3) by (metis append_butlast_last_id)
  have lm: "l \<in> set ?zs" by (simp add: zs ys)
  then have "filter (\<lambda>x. Suc (f l) \<le> f x) xs = filter (\<lambda>x. Suc (f l) \<le> f x) ?zs"
    by (auto simp: intro!: filter_cong)
  also have "\<dots> = rest"
  proof -
    have "\<forall>x \<in> set ini. f x < f l" "\<forall>x \<in> set rest. f l < f x"
      using s by (auto simp: zs ys sorted_wrt_append)
    then have "filter (\<lambda>x. Suc (f l) \<le> f x) ini = []" "filter (\<lambda>x. Suc (f l) \<le> f x) rest = rest"
      by (auto simp: filter_empty_conv filter_id_conv)
    then show ?thesis by (simp add: zs ys)
  qed
  finally show ?thesis by (simp add: zs ys)
qed


lemma failed_pages_from:
  assumes "sorted_wrt (<) (map (\<lambda>e. fst (snd e)) idx)" "\<forall>e \<in> set idx. fst (snd e) < nxt"
  shows "failed_pages idx nxt most fr
    = map (\<lambda>(j, sequence, place, why). (j, place, why)) (filter (\<lambda>e. fr \<le> fst (snd e)) idx)"
proof (induction "nxt - fr" arbitrary: fr rule: less_induct)
  case less
  let ?zs = "filter (\<lambda>e. fr \<le> fst (snd e)) idx"
  let ?ys = "take (max most 1) ?zs"
  obtain pg where pg: "failed_messages (index_read idx nxt) fr most = Inr pg"
    by (simp add: failed_messages_def index_read_def Let_def)
  then have m: "fp_messages pg = map (\<lambda>(j, sequence, place, why). (j, place, why)) ?ys"
    by (auto simp: failed_messages_def index_read_def Let_def case_prod_unfold)
  show ?case
  proof (cases "fp_next pg")
    case (Some n)
    then have ys: "?ys \<noteq> []" "max most 1 \<le> length ?ys" "n = Suc (fst (snd (last ?ys)))"
      using pg by (auto simp: failed_messages_def index_read_def Let_def case_prod_unfold split: if_splits)
    from failed_next_later [OF pg Some] have "nxt - n < nxt - fr" by linarith
    from less [OF this] pg Some m
      sorted_take_filter [OF assms(1) refl ys(1,2)] ys(3)
    show ?thesis by (simp add: failed_pages.simps [of idx nxt most fr] flip: map_append)
  next
    case None
    have "?ys = ?zs"
    proof (cases "?ys = []")
      case False
      show ?thesis
      proof (rule ccontr)
        assume "?ys \<noteq> ?zs"
        then have len: "max most 1 < length ?zs" by (metis linorder_not_le take_all)
        then have n: "\<not> Suc (fst (snd (last ?ys))) < nxt"
          using pg None False
          by (auto simp: failed_messages_def index_read_def Let_def case_prod_unfold min_absorb2 split: if_splits)
        have "?zs = ?ys @ filter (\<lambda>e. Suc (fst (snd (last ?ys))) \<le> fst (snd e)) idx"
          using len by (intro sorted_take_filter [OF assms(1) refl False]) simp
        moreover have "filter (\<lambda>e. Suc (fst (snd (last ?ys))) \<le> fst (snd e)) idx = []"
          using n assms(2) by (fastforce simp: filter_empty_conv)
        ultimately have "?zs = ?ys" by (metis append_Nil2)
        then show False using \<open>?ys \<noteq> ?zs\<close> by (metis (no_types))
      qed
    qed simp
    with pg None m show ?thesis by (simp add: failed_pages.simps [of idx nxt most fr])
  qed
qed

text \<open>C16: following the pages of a queue's index of failed Messages from its start reads every entry of it once,
  oldest first, however small the page.\<close>

theorem failed_pages_complete:
  assumes "sorted_wrt (<) (map (\<lambda>e. fst (snd e)) idx)" and "\<forall>e \<in> set idx. fst (snd e) < nxt"
  shows "failed_pages idx nxt most 0 = map (\<lambda>(j, sequence, place, why). (j, place, why)) idx"
  by (simp add: failed_pages_from [OF assms])

theorem failed_pages_complete_witness:
  "failed_pages [(7, 1, 10, ''a''), (8, 2, 11, ''b''), (9, 5, 12, ''c'')] 6 2 0 = [(7, 10, ''a''), (8, 11, ''b''), (9, 12, ''c'')]"
  using failed_pages_complete [of "[(7, 1, 10, ''a''), (8, 2, 11, ''b''), (9, 5, 12, ''c'')]" 6 2] by simp

end
