(* ===== verification/Send_Pass.thy ===== *)
theory Send_Pass
  imports Send_State
begin

text \<open>
  \<open>src/send_step/pass.rs\<close>: one pass of a Message's send and its hand-on, one write;
  \<open>src/send_step/under_claim.rs\<close> and \<open>src/send_step/scan.rs\<close>: what a scan makes of an entry it
  claims; \<open>src/send_step/message_act.rs\<close>: an operator's Retry or Dismiss; \<open>src/held_work.rs\<close>: a held
  Message picked up. Each returns, beside its result, the hand-ons it asked Xmip Storage to write.
\<close>

section \<open>One pass and its hand-on\<close>

record pass_env =
  pe_read_held :: "ident \<Rightarrow> string + page"
  pe_hand_on :: "hand_on \<Rightarrow> string + bool"
  pe_world :: world
  pe_lost :: bool
  pe_read_duration :: "string \<Rightarrow> duration option"
  pe_shown_duration :: "duration \<Rightarrow> string"

definition journey_append :: "string \<Rightarrow> string \<Rightarrow> journey_state \<Rightarrow> journey \<Rightarrow> journey" where
  "journey_append action outcome state j = j\<lparr>j_entries := j_entries j @ [(action, outcome)], j_state := state\<rparr>"

text \<open>\<open>pass::heads\<close>: its Stream's sequences, its delivery's, its own, in turn.\<close>

definition pass_heads :: "(ident \<Rightarrow> string + page) \<Rightarrow> journey \<Rightarrow> headed \<Rightarrow> (string + bool) \<times> headed" where
  "pass_heads read_held j known =
     (case stream_heads read_held j known of
        (Inr True, known) \<Rightarrow>
          (case group_heads read_held j known of
             (Inr True, known) \<Rightarrow> all_head read_held (journey_id j) (map seq_queue (j_sequences j)) known
           | (r, known) \<Rightarrow> (r, known))
      | (r, known) \<Rightarrow> (r, known))"

definition pass_backoff :: "(string \<Rightarrow> duration option) \<Rightarrow> sends \<Rightarrow> subscriber \<Rightarrow> duration" where
  "pass_backoff read_duration s to =
     (case to of ToSendPort n \<Rightarrow> port_backoff read_duration (sends_port s n) | _ \<Rightarrow> 0)"

definition nanos :: "duration \<Rightarrow> nat" where
  "nanos d = min d (2 ^ 64 - 1)"

text \<open>The places a Message lets go of as its pass leaves it in \<open>state\<close>.\<close>

definition pass_leaves :: "journey_state \<Rightarrow> departure \<Rightarrow> ident list" where
  "pass_leaves state d =
     (if state = Completed then [de_queue d] else []) @
     map seq_queue (filter (\<lambda>sq. case state of Completed \<Rightarrow> True | Failed \<Rightarrow> seq_skips sq | _ \<Rightarrow> False)
       (j_sequences (de_journey d)))"

definition pass_journey :: "journey_state \<Rightarrow> string \<Rightarrow> departure \<Rightarrow> journey" where
  "pass_journey state outcome d =
     (journey_append ''send'' outcome state (de_journey d))\<lparr>j_attempts := progress_attempts (de_progress d)\<rparr>"

definition pass_hand_on :: "journey_state \<Rightarrow> string \<Rightarrow> duration option \<Rightarrow> departure \<Rightarrow> hand_on" where
  "pass_hand_on state outcome kept d =
     \<lparr>ho_claim = de_claim d, ho_result = pass_journey state outcome d, ho_leaves = pass_leaves state d,
      ho_queued = [], ho_requeued = [],
      ho_failed = (if state = Failed then Some (de_queue d, outcome) else None),
      ho_cleared = [], ho_waits = map_option (\<lambda>after. (de_queue d, nanos after)) kept, ho_kept_for = None\<rparr>"

definition pass_written ::
    "(hand_on \<Rightarrow> string + bool) \<Rightarrow> journey_state \<Rightarrow> string \<Rightarrow> duration option \<Rightarrow> departure \<Rightarrow> (string + bool) \<times> departure" where
  "pass_written write state outcome kept d =
     (case write (pass_hand_on state outcome kept d) of
        Inr True \<Rightarrow> (Inr True, d\<lparr>de_journey := pass_journey state outcome d\<rparr>)
      | Inr False \<Rightarrow> (Inr False, d)
      | Inl why \<Rightarrow> (Inl why, d))"

definition pass_state :: "progress \<Rightarrow> journey_state" where
  "pass_state p = (if pr_sent p then Completed else if progress_waiting p then Recovering else Failed)"

definition pass_outcome :: "pass_env \<Rightarrow> departed list \<Rightarrow> duration option \<Rightarrow> string" where
  "pass_outcome env departed kept =
     said (w_shown (pe_world env)) departed @
     (case kept of None \<Rightarrow> '''' | Some after \<Rightarrow> ''; tried again in '' @ pe_shown_duration env after)"

definition pass_ended :: "journey_state \<Rightarrow> duration option \<Rightarrow> departure \<Rightarrow> departed list \<Rightarrow> ended" where
  "pass_ended state kept d departed =
     (if state = Completed then ECompleted departed
      else case kept of
             Some after \<Rightarrow> EWaiting after departed
           | None \<Rightarrow> EFailed (sub_name (de_to d) @ '': '' @
                 (case pr_given_up (de_progress d) of None \<Rightarrow> '''' | Some why \<Rightarrow> why)) departed)"

text \<open>\<open>send\<close> once its Locations were tried: how the pass ended, the departure as it leaves it, and what it
  asked to be written.\<close>

definition pass_closes :: "sends \<Rightarrow> pass_env \<Rightarrow> departure \<Rightarrow> departed list \<Rightarrow> ended \<times> departure \<times> hand_on list" where
  "pass_closes s env d departed =
     (let p = de_progress d in
      if pe_lost env then (ELost departed, d, [])
      else if departed = [] \<and> progress_waiting p then (EUntried, d, [])
      else
        let state = pass_state p;
            kept = (if state = Recovering then Some (pass_backoff (pe_read_duration env) s (de_to d)) else None);
            outcome = pass_outcome env departed kept;
            h = pass_hand_on state outcome kept d in
        (case pass_written (pe_hand_on env) state outcome kept d of
           (Inl why, d) \<Rightarrow> (EUnwritten why, d, [h])
         | (Inr False, d) \<Rightarrow> (ELost departed, d, [h])
         | (Inr True, d) \<Rightarrow> (pass_ended state kept d departed, d, [h])))"

definition send_pass ::
    "sends \<Rightarrow> pass_env \<Rightarrow> nat \<Rightarrow> departure \<Rightarrow> headed \<Rightarrow> (ended \<times> departure \<times> hand_on list) \<times> headed" where
  "send_pass s env t d known =
     (if waits_for_places s (de_journey d) (de_to d) then ((EBehind, d, []), known)
      else case pass_heads (pe_read_held env) (de_journey d) known of
        (Inl why, known) \<Rightarrow> ((EUnwritten why, d, []), known)
      | (Inr False, known) \<Rightarrow> ((EBehind, d, []), known)
      | (Inr True, known) \<Rightarrow>
         (case depart_to (pe_world env) s (de_to d) ((de_progress d)\<lparr>pr_fence := cl_fence (de_claim d)\<rparr>) t of
            (departed, p) \<Rightarrow> (pass_closes s env (d\<lparr>de_progress := p\<rparr>) departed, known)))"

text \<open>\<open>abandoned\<close>: a send whose thread panicked, written Failed; whether its claim is released.\<close>

definition send_abandoned :: "(hand_on \<Rightarrow> string + bool) \<Rightarrow> string \<Rightarrow> departure \<Rightarrow> ended \<times> departure \<times> hand_on list \<times> bool" where
  "send_abandoned write why d =
     (let h = pass_hand_on Failed why None d in
      case pass_written write Failed why None d of
        (Inr True, d) \<Rightarrow> (EFailed (sub_name (de_to d) @ '': '' @ why) [], d, [h], False)
      | (Inr False, d) \<Rightarrow> (ELost [], d, [h], False)
      | (Inl unwritten, d) \<Rightarrow> (EUnwritten unwritten, d, [h], True))"

text \<open>\<open>dispatch::sent\<close>: whether what waits behind the Message is read again, in both steps.\<close>

definition sent_rescans :: "sends \<Rightarrow> departure \<Rightarrow> ended \<Rightarrow> bool" where
  "sent_rescans s d e \<longleftrightarrow>
     ((case j_received (de_journey d) of None \<Rightarrow> False | Some r \<Rightarrow> rec_sequences r \<noteq> []) \<or>
      j_group (de_journey d) \<noteq> None \<or> points_of s (de_to d) \<noteq> []) \<and>
     (case e of ECompleted _ \<Rightarrow> True | EFailed _ _ \<Rightarrow> True | _ \<Rightarrow> False)"

section \<open>What the Ledger holds of a Message in a queue\<close>

datatype found = Waiting journey ident string | FoundFailed journey ident | Finished | Unreadable string

record store =
  sr_read_journey :: "ident \<Rightarrow> string + string option"
  sr_read_message :: "ident \<Rightarrow> string + string option"
  sr_journey_of :: "string \<Rightarrow> string + journey"
  sr_message_of :: "string \<Rightarrow> string + ident"
  sr_facts_of :: "string \<Rightarrow> string + string"
  sr_claim :: "ident \<Rightarrow> string + claim option"
  sr_read_place :: "ident \<Rightarrow> nat \<Rightarrow> string + (hold \<times> nat \<times> duration option) list"
  sr_hand_on :: "hand_on \<Rightarrow> string + bool"

definition pass_read :: "store \<Rightarrow> ident \<Rightarrow> string \<Rightarrow> string + found" where
  "pass_read sr i body =
     (case sr_read_journey sr i of
        Inl e \<Rightarrow> Inl e
      | Inr None \<Rightarrow> Inr (Unreadable ''its Journey is not in the Ledger'')
      | Inr (Some record) \<Rightarrow>
         (case sr_journey_of sr record of
            Inl why \<Rightarrow> Inr (Unreadable why)
          | Inr j \<Rightarrow>
             if j_state j = Completed \<or> j_state j = Dismissed then Inr Finished
             else if j_messages j = [] then Inr (Unreadable ''its Journey holds no Message'')
             else case sr_read_message sr (last (j_messages j)) of
               Inl e \<Rightarrow> Inl e
             | Inr None \<Rightarrow> Inr (Unreadable ''its Message is not in the Ledger'')
             | Inr (Some kept) \<Rightarrow>
                (case sr_message_of sr kept of
                   Inl why \<Rightarrow> Inr (Unreadable why)
                 | Inr m \<Rightarrow>
                    if j_state j = Failed then Inr (FoundFailed j m)
                    else case sr_facts_of sr body of
                           Inl why \<Rightarrow> Inr (Unreadable why)
                         | Inr facts \<Rightarrow> Inr (Waiting j m facts))))"

datatype under = UWaiting journey ident string | UNotDue instant | UMoved | UNot found | UUnanswered

definition under_claim :: "store \<Rightarrow> instant \<Rightarrow> ident \<Rightarrow> ident \<times> nat \<Rightarrow> string \<Rightarrow> under" where
  "under_claim sr asked q place body =
     (case sr_read_place sr q (snd place) of
        Inl _ \<Rightarrow> UUnanswered
      | Inr [] \<Rightarrow> UMoved
      | Inr ((h, sequence, due_in) # _) \<Rightarrow>
          if \<not> (sequence = snd place \<and> h_journey h = fst place) then UMoved
          else case due_in of
                 Some left \<Rightarrow> UNotDue (asked + left)
               | None \<Rightarrow>
                  (case pass_read sr (fst place) body of
                     Inr (Waiting j m facts) \<Rightarrow> UWaiting j m facts
                   | Inr found \<Rightarrow> UNot found
                   | Inl _ \<Rightarrow> UUnanswered))"

datatype taken = TOne journey ident string claim instant | TPassed | TUnanswered

text \<open>\<open>claimed_first\<close>: whether the claim is given back, beside what the scan made of the entry and the
  send step's state.\<close>

definition claimed_first ::
    "store \<Rightarrow> instant \<Rightarrow> string \<Rightarrow> ident \<Rightarrow> ident \<times> nat \<Rightarrow> string \<Rightarrow> send_state \<Rightarrow> taken \<times> bool \<times> send_state" where
  "claimed_first sr asked port q place body st =
     (case sr_claim sr (fst place) of
        Inr None \<Rightarrow> (TPassed, False, st)
      | Inl _ \<Rightarrow> (TUnanswered, False, st)
      | Inr (Some c) \<Rightarrow>
         (case under_claim sr asked q place body of
            UWaiting j m facts \<Rightarrow> (TOne j m facts c asked, False, st)
          | UMoved \<Rightarrow> (TPassed, True, st)
          | UNotDue t \<Rightarrow> (TPassed, True, send_not_due port q t st)
          | UNot _ \<Rightarrow> (TPassed, True, send_passed q place st)
          | UUnanswered \<Rightarrow> (TUnanswered, True, st)))"

text \<open>\<open>scan::take\<close>: the entry owned and ready to send, or nothing.\<close>

definition scan_take ::
    "send_config \<Rightarrow> store \<Rightarrow> instant \<Rightarrow> subscriber \<Rightarrow> ident \<Rightarrow> ident \<times> nat \<Rightarrow> string \<Rightarrow> send_state
      \<Rightarrow> departure option \<times> send_state" where
  "scan_take cfg sr asked to q place body st =
     (case claimed_first sr asked (sub_name to) q place body st of
        (TOne j m facts c asked, _, st) \<Rightarrow>
          let d = departure_of m facts None (asked + sc_lease cfg) j to q c in
          (Some d, send_own (journey_id j) (owned_of d) st)
      | (_, _, st) \<Rightarrow> (None, st))"


section \<open>An operator's act\<close>

datatype act = Retry | Dismiss | OtherAct string

datatype refusal =
    NotTaken string
  | NamesNoJourney string
  | CannotRead ident string
  | NotInLedger ident
  | NotFailed ident journey_state
  | NoSendPort ident
  | NotSentHere string
  | ClaimedByAnother ident
  | Changed ident journey_state

datatype act_error = Refused refusal | NotDone string

datatype act_done = Retried ident string | WasDismissed ident | DismissedNow ident string

text \<open>\<open>kept\<close>: the Journey as the Ledger keeps it, its record's bytes beside it. The Ledger may answer
  differently at the two askings, so it is asked by a tick.\<close>

record act_env =
  ae_read_journey :: "nat \<Rightarrow> ident \<Rightarrow> string + string option"
  ae_journey_of :: "string \<Rightarrow> string + journey"
  ae_claim :: "ident \<Rightarrow> string + claim option"
  ae_hand_on :: "hand_on \<Rightarrow> string + bool"

definition act_kept :: "act_env \<Rightarrow> nat \<Rightarrow> ident \<Rightarrow> act_error + string \<times> journey" where
  "act_kept env t i =
     (case ae_read_journey env t i of
        Inr (Some body) \<Rightarrow>
          (case ae_journey_of env body of
             Inl why \<Rightarrow> Inl (Refused (CannotRead i why))
           | Inr j \<Rightarrow> Inr (body, j))
      | Inr None \<Rightarrow> Inl (Refused (NotInLedger i))
      | Inl why \<Rightarrow> Inl (NotDone why))"

definition act_taken_by :: "send_state \<Rightarrow> ident \<Rightarrow> journey \<Rightarrow> act_error + string \<times> bool" where
  "act_taken_by st i kept =
     (if j_state kept \<noteq> Failed then Inl (Refused (NotFailed i (j_state kept)))
      else case j_send_port kept of
             None \<Rightarrow> Inl (Refused (NoSendPort i))
           | Some port \<Rightarrow>
              (case st_ports st port of
                 None \<Rightarrow> Inl (Refused (NotSentHere port))
               | Some blocks \<Rightarrow> Inr (port, blocks)))"

definition act_unchanged :: "act_env \<Rightarrow> ident \<Rightarrow> string \<Rightarrow> act_error option" where
  "act_unchanged env i seen =
     (case act_kept env 1 i of
        Inl e \<Rightarrow> Some e
      | Inr (now, j) \<Rightarrow> if now = seen then None else Some (Refused (Changed i (j_state j))))"

definition act_acted :: "journey \<Rightarrow> bool \<Rightarrow> string \<Rightarrow> string \<Rightarrow> journey" where
  "act_acted kept retry word said_words =
     (let j = journey_append word said_words (if retry then Active else Dismissed) kept in
      if retry then j\<lparr>j_attempts := \<lparr>at_location = 0, at_tries = 0\<rparr>\<rparr> else j)"

definition act_hand_on :: "claim \<Rightarrow> journey \<Rightarrow> bool \<Rightarrow> bool \<Rightarrow> ident \<Rightarrow> string \<Rightarrow> string \<Rightarrow> hand_on" where
  "act_hand_on c kept retry blocks q word said_words =
     \<lparr>ho_claim = c, ho_result = act_acted kept retry word said_words,
      ho_leaves = (if retry then [] else q # map seq_queue (j_sequences kept)),
      ho_queued = [], ho_requeued = (if retry \<and> \<not> blocks then [q] else []),
      ho_failed = None, ho_cleared = [q], ho_waits = None, ho_kept_for = None\<rparr>"

text \<open>\<open>acted_on\<close>: the Message read again at its place, and its Port's window on the failed read afresh.\<close>

definition acted_on :: "ident \<Rightarrow> string \<Rightarrow> ident \<Rightarrow> (nat \<times> nat) option \<Rightarrow> (nat \<times> nat \<times> (ident \<times> nat \<times> string) list) option
    \<Rightarrow> send_state \<Rightarrow> send_state" where
  "acted_on i port q at_now read st =
     read_failed port True at_now read
       (st\<lparr>st_passed := (st_passed st)(q := map_option (\<lambda>ps. {pl \<in> ps. fst pl \<noteq> i}) (st_passed st q))\<rparr>)"

text \<open>\<open>act\<close>: what came of it, what it asked to be written, whether it gave its claim back, and the send
  step's state. \<open>parsed\<close> is what the identifier's text reads as.\<close>

definition message_act ::
    "send_config \<Rightarrow> act_env \<Rightarrow> (act_done \<Rightarrow> string) \<Rightarrow> (nat \<times> nat) option \<Rightarrow> (nat \<times> nat \<times> (ident \<times> nat \<times> string) list) option
      \<Rightarrow> string \<Rightarrow> ident option \<Rightarrow> act \<Rightarrow> send_state \<Rightarrow> (act_error + act_done) \<times> hand_on list \<times> bool \<times> send_state" where
  "message_act cfg env words at_now read text parsed a st =
     (case a of
        OtherAct w \<Rightarrow> (Inl (Refused (NotTaken w)), [], False, st)
      | _ \<Rightarrow>
       (case parsed of
          None \<Rightarrow> (Inl (Refused (NamesNoJourney text)), [], False, st)
        | Some i \<Rightarrow>
         (case act_kept env 0 i of
            Inl e \<Rightarrow> (Inl e, [], False, st)
          | Inr (seen, kept) \<Rightarrow>
             if a = Dismiss \<and> j_state kept = Dismissed then (Inr (WasDismissed i), [], False, st)
             else
             (case act_taken_by st i kept of
                Inl e \<Rightarrow> (Inl e, [], False, st)
              | Inr (port, blocks) \<Rightarrow>
                 (case ae_claim env i of
                    Inl why \<Rightarrow> (Inl (NotDone why), [], False, st)
                  | Inr None \<Rightarrow> (Inl (Refused (ClaimedByAnother i)), [], False, st)
                  | Inr (Some c) \<Rightarrow>
                     (case act_unchanged env i seen of
                        Some e \<Rightarrow> (Inl e, [], True, st)
                      | None \<Rightarrow>
                         let q = sc_queue cfg (ToSendPort port);
                             retry = (a = Retry);
                             done = (if retry then Retried i port else DismissedNow i port);
                             h = act_hand_on c kept retry blocks q (if retry then ''retry'' else ''dismiss'') (words done) in
                         (case ae_hand_on env h of
                            Inr True \<Rightarrow> (Inr done, [h], False, send_ask q (acted_on i port q at_now read st))
                          | Inr False \<Rightarrow> (Inl (NotDone ''its claim lapsed before it was written''), [h], False, st)
                          | Inl why \<Rightarrow> (Inl (NotDone why), [h], True, st))))))))"

section \<open>A Message is never lost by its pass\<close>

lemma depart_to_port_state:
  assumes "depart_to w s (ToSendPort n) p t = (ds, p')" "progress_waiting p" "progress_ok (sends_port s n) p"
  shows "pr_fence p' = pr_fence p \<and> progress_ok (sends_port s n) p' \<and>
    filter is_sent ds = (if pr_sent p' then [last ds] else [])"
proof -
  have d: "depart_port w (sends_port s n) p t = (ds, p')" using assms by (simp add: depart_to_port)
  note pass = depart_port_pass [OF d]
  have "pr_fence p' = pr_fence p" using pass by (induction rule: port_pass.induct) auto
  moreover have "\<not> pr_sent p" using assms(2) by (simp add: progress_waiting_def)
  ultimately show ?thesis using port_pass_spends [OF pass assms(3,2)] port_pass_sent [OF pass] by blast
qed

text \<open>What a pass may write: its Message out of its queue only where it was sent; its due time kept at its
  place where it waits, with fewer tries than its Port allows; entered among the failed, in its
  queue still, where it was given up.\<close>

definition hand_on_right :: "sends \<Rightarrow> (string \<Rightarrow> duration option) \<Rightarrow> string \<Rightarrow> departure \<Rightarrow> departed list \<Rightarrow> hand_on \<Rightarrow> bool" where
  "hand_on_right s read_duration n d departed h \<longleftrightarrow>
     ho_claim h = de_claim d \<and> journey_id (ho_result h) = journey_id (de_journey d) \<and> ho_queued h = [] \<and> ho_requeued h = [] \<and>
     (case j_state (ho_result h) of
        Completed \<Rightarrow> filter is_sent departed = [last departed] \<and> ho_failed h = None \<and> ho_waits h = None \<and>
          ho_leaves h = de_queue d # map seq_queue (j_sequences (de_journey d))
      | Recovering \<Rightarrow> filter is_sent departed = [] \<and> ho_leaves h = [] \<and> ho_failed h = None \<and>
          ho_waits h = Some (de_queue d, nanos (port_backoff read_duration (sends_port s n))) \<and>
          at_tries (j_attempts (ho_result h)) < port_tries (sends_port s n)
      | Failed \<Rightarrow> filter is_sent departed = [] \<and> (\<exists>why. ho_failed h = Some (de_queue d, why)) \<and> ho_waits h = None \<and>
          ho_leaves h = map seq_queue (filter seq_skips (j_sequences (de_journey d)))
      | _ \<Rightarrow> False)"

lemma pass_state_cases:
  "pass_state p = Completed \<longleftrightarrow> pr_sent p" "pass_state p = Recovering \<longleftrightarrow> progress_waiting p"
  "pass_state p = Failed \<longleftrightarrow> \<not> pr_sent p \<and> \<not> progress_waiting p"
  "pass_state p \<noteq> Active" "pass_state p \<noteq> JWaiting" "pass_state p \<noteq> Dismissed"
  by (auto simp: pass_state_def progress_waiting_def)

lemma journey_append_sel [simp]:
  "journey_id (journey_append a x st j) = journey_id j" "j_state (journey_append a x st j) = st"
  "j_sequences (journey_append a x st j) = j_sequences j"
  by (simp_all add: journey_append_def)

lemma filter_all [simp]: "filter (\<lambda>x. True) xs = xs" "filter (\<lambda>x. False) xs = []"
  by (simp_all add: filter_id_conv filter_empty_conv)

lemma pass_closes_right:
  assumes "pass_closes s env d departed = (e, d', hs)" "h \<in> set hs" "de_to d = ToSendPort n"
    and "progress_ok (sends_port s n) (de_progress d)"
    and "filter is_sent departed = (if pr_sent (de_progress d) then [last departed] else [])"
  shows "hand_on_right s (pe_read_duration env) n d departed h"
proof -
  let ?p = "de_progress d"
  from assms(1,2) have h: "\<exists>outcome. h = pass_hand_on (pass_state ?p) outcome
      (if pass_state ?p = Recovering then Some (pass_backoff (pe_read_duration env) s (de_to d)) else None) d"
    by (auto simp: pass_closes_def Let_def split: if_splits prod.splits sum.splits bool.splits)
  have bits: "port_tries (sends_port s n) > pr_tries ?p" if "progress_waiting ?p"
    using assms(4) that by (simp add: progress_ok_def)
  from h show ?thesis
    using assms(3,5) bits pass_state_cases(4-6) [of ?p]
    by (cases "pass_state ?p")
      (auto simp: hand_on_right_def pass_hand_on_def pass_journey_def pass_leaves_def pass_state_cases
        pass_backoff_def progress_attempts_def progress_waiting_def split: if_splits)
qed

lemma pass_closes_eq:
  assumes "\<not> pe_lost env" "\<not> (departed = [] \<and> progress_waiting (de_progress d))"
    and kept: "kept = (if pass_state (de_progress d) = Recovering
      then Some (pass_backoff (pe_read_duration env) s (de_to d)) else None)"
    and h: "h = pass_hand_on (pass_state (de_progress d)) (pass_outcome env departed kept) kept d"
  shows "\<exists>d'. pass_closes s env d departed =
    (case pe_hand_on env h of
       Inl why \<Rightarrow> EUnwritten why
     | Inr b \<Rightarrow> if b then pass_ended (pass_state (de_progress d)) kept d departed else ELost departed, d', [h])"
proof -
  have same: "pass_ended st kept (d\<lparr>de_journey := j\<rparr>) departed = pass_ended st kept d departed" for st j
    by (simp add: pass_ended_def split: option.split)
  show ?thesis
    unfolding pass_closes_def Let_def pass_written_def kept [symmetric] h [symmetric]
    using assms(1,2) same by (cases "pe_hand_on env h") (auto split: bool.splits)
qed

text \<open>C5: a pass of a Message to its Send Port asks for at most one write, under its claim, and the write is
  what happened: the Message leaves its queue only if a Location took it; left waiting, it stays
  with its backoff's due time; given up, it stays among the failed, letting go of only the
  sequences a failure lets pass. A pass that came to nothing -- behind, untried, its claim found
  lost, the Ledger silent -- asks for no write at all.\<close>

theorem pass_writes_what_happened:
  assumes "send_pass s env t d known = ((e, d', hs), known')" and "de_to d = ToSendPort n"
    and "progress_waiting (de_progress d)" and "progress_ok (sends_port s n) (de_progress d)"
  shows "hs = [] \<and> (\<exists>ds why. e \<in> {EBehind, EUntried, ELost ds, EUnwritten why}) \<or>
    (\<exists>h departed. hs = [h] \<and> hand_on_right s (pe_read_duration env) n d departed h \<and>
      (if pe_hand_on env h = Inr True
       then case j_state (ho_result h) of
              Completed \<Rightarrow> e = ECompleted departed
            | Recovering \<Rightarrow> e = EWaiting (port_backoff (pe_read_duration env) (sends_port s n)) departed
            | _ \<Rightarrow> (\<exists>why. e = EFailed why departed)
       else (\<exists>why. e \<in> {ELost departed, EUnwritten why})))"
proof (cases "waits_for_places s (de_journey d) (de_to d) \<or>
    fst (pass_heads (pe_read_held env) (de_journey d) known) \<noteq> Inr True")
  case True
  with assms(1) show ?thesis
    by (auto simp: send_pass_def split: prod.splits sum.splits bool.splits if_splits)
next
  case False
  let ?p0 = "(de_progress d)\<lparr>pr_fence := cl_fence (de_claim d)\<rparr>"
  obtain departed p where dp: "depart_to (pe_world env) s (de_to d) ?p0 t = (departed, p)" by fastforce
  let ?d = "d\<lparr>de_progress := p\<rparr>"
  from False assms(1) dp have c: "pass_closes s env ?d departed = (e, d', hs)"
    by (auto simp: send_pass_def split: prod.splits sum.splits bool.splits if_splits)
  from assms have w: "progress_waiting ?p0" "progress_ok (sends_port s n) ?p0"
    by (auto simp: progress_waiting_def progress_ok_def)
  from depart_to_port_state [OF dp [unfolded assms(2)] w] assms(2)
  have right: "\<And>h. h \<in> set hs \<Longrightarrow> hand_on_right s (pe_read_duration env) n ?d departed h"
    by (intro pass_closes_right [OF c]) auto
  show ?thesis
  proof (cases "pe_lost env \<or> (departed = [] \<and> progress_waiting p)")
    case True
    with c show ?thesis by (auto simp: pass_closes_def Let_def split: if_splits)
  next
    case False
    define kept where "kept = (if pass_state p = Recovering then Some (pass_backoff (pe_read_duration env) s (de_to d)) else None)"
    define h where "h = pass_hand_on (pass_state p) (pass_outcome env departed kept) kept ?d"
    have pe: "de_progress ?d = p" "de_to ?d = de_to d" by simp_all
    obtain d2 where "pass_closes s env ?d departed = (case pe_hand_on env h of Inl why \<Rightarrow> EUnwritten why
      | Inr b \<Rightarrow> if b then pass_ended (pass_state p) kept ?d departed else ELost departed, d2, [h])"
      using pass_closes_eq [of env departed ?d kept s h, unfolded pe] False kept_def h_def by blast
    with c have hs: "hs = [h]" and ee: "e = (case pe_hand_on env h of Inl why \<Rightarrow> EUnwritten why
      | Inr b \<Rightarrow> if b then pass_ended (pass_state p) kept ?d departed else ELost departed)"
      by simp_all
    have st: "j_state (ho_result h) = pass_state p" by (simp add: h_def pass_hand_on_def pass_journey_def)
    have e: "if pe_hand_on env h = Inr True then e = pass_ended (pass_state p) kept ?d departed
        else (\<exists>why. e \<in> {ELost departed, EUnwritten why})"
      using ee by (auto split: sum.splits)
    have "hand_on_right s (pe_read_duration env) n d departed h"
      using right [of h] hs by (simp add: hand_on_right_def split: journey_state.splits)
    with hs e st assms(2) pass_state_cases(4-6) [of p] show ?thesis
      by (cases "pass_state p") (auto simp: pass_ended_def kept_def pass_backoff_def)
  qed
qed


definition heading_env :: pass_env where
  "heading_env = \<lparr>pe_read_held = (\<lambda>_. Inr \<lparr>pg_held = [], pg_count = 0\<rparr>), pe_hand_on = (\<lambda>_. Inr True),
     pe_world = sample_world, pe_lost = False, pe_read_duration = (\<lambda>_. Some 5), pe_shown_duration = (\<lambda>_. ''5s'')\<rparr>"

theorem pass_writes_what_happened_witness:
  "let d = one_departure\<lparr>de_progress := fresh_progress 0\<rparr>;
       r = fst (send_pass sample_sends heading_env 0 d {}) in
   \<exists>h departed. snd (snd r) = [h] \<and> hand_on_right sample_sends (\<lambda>_. Some 5) ''out'' d departed h \<and>
     fst r = EWaiting 5 departed"
proof -
  let ?d = "one_departure\<lparr>de_progress := fresh_progress 0\<rparr>"
  have d: "de_to ?d = ToSendPort ''out''" "de_journey ?d = bare_journey" "de_claim ?d = own_claim"
    by (simp_all add: one_departure_def departure_of_def)
  have d0: "de_to one_departure = ToSendPort ''out''" by (simp add: one_departure_def departure_of_def)
  have p: "progress_waiting (de_progress ?d)" "progress_ok (sends_port sample_sends ''out'') (de_progress ?d)"
    using fresh_progress_ok [OF sample_serves, of 0] by (simp_all add: progress_waiting_def)
  obtain e d' hs known' where r: "send_pass sample_sends heading_env 0 ?d {} = ((e, d', hs), known')" by (metis prod.collapse)
  have w: "\<not> waits_for_places sample_sends bare_journey (ToSendPort ''out'')" by code_simp
  have b: "port_backoff (\<lambda>_. Some 5) (sends_port sample_sends ''out'') = 5" by code_simp
  have hd: "pass_heads (pe_read_held heading_env) bare_journey {} = (Inr True, {})"
    by (simp add: pass_heads_def stream_heads_def group_heads_def)
  have e: "e = EWaiting 5 [DFailed (ToSendPort ''out'') True ''refused'']"
    using r w hd b unfolding d send_pass_def
    by (auto simp: d d0 heading_env_def sample_pass pass_closes_def Let_def pass_state_def pass_written_def pass_ended_def pass_backoff_def)
  from pass_writes_what_happened [OF r d(1) p] e obtain h departed where h: "hs = [h]"
      "hand_on_right sample_sends (pe_read_duration heading_env) ''out'' ?d departed h"
      "case j_state (ho_result h) of Completed \<Rightarrow> e = ECompleted departed
        | Recovering \<Rightarrow> e = EWaiting (port_backoff (pe_read_duration heading_env) (sends_port sample_sends ''out'')) departed
        | _ \<Rightarrow> (\<exists>why. e = EFailed why departed)"
    by (auto simp: heading_env_def)
  from h(3) e have "departed = [DFailed (ToSendPort ''out'') True ''refused'']"
    by (cases "j_state (ho_result h)") auto
  with h(1,2) e r show ?thesis by (simp add: Let_def heading_env_def)
qed

section \<open>Retry and Dismiss\<close>

lemma act_taken:
  assumes "act_taken_by st i kept = Inr (port, blocks)"
  shows "j_state kept = Failed \<and> j_send_port kept = Some port \<and> st_ports st port = Some blocks"
  using assms by (auto simp: act_taken_by_def split: option.splits if_splits)

lemma act_same:
  assumes "act_unchanged env i seen = None"
  shows "map_sum id fst (act_kept env 1 i) = Inr seen"
  using assms by (auto simp: act_unchanged_def split: sum.splits if_splits)

lemma act_cases:
  assumes "message_act cfg env words at_now read text parsed a st = (r, hs, released, st')"
  obtains
    (not_done) e where "r = Inl e" "st' = st" "list_all (\<lambda>h. ae_hand_on env h \<noteq> Inr True) hs"
  | (was) i where "r = Inr (WasDismissed i)" "hs = []" "st' = st"
  | (acted) i port seen kept c blocks w where "parsed = Some i" "act_kept env 0 i = Inr (seen, kept)"
      "act_taken_by st i kept = Inr (port, blocks)" "ae_claim env i = Inr (Some c)" "act_unchanged env i seen = None"
      "r = Inr (if a = Retry then Retried i port else DismissedNow i port)"
      "hs = [act_hand_on c kept (a = Retry) blocks (sc_queue cfg (ToSendPort port)) (if a = Retry then ''retry'' else ''dismiss'') w]"
      "ae_hand_on env (hd hs) = Inr True"
proof -
  show ?thesis
  proof (cases "(\<exists>w. a = OtherAct w) \<or> parsed = None")
    case True
    with assms have "\<exists>e. r = Inl e" "st' = st" "hs = []" by (auto simp: message_act_def split: act.splits)
    then show ?thesis using not_done by auto
  next
    case False
    then obtain i where i: "parsed = Some i" and a: "a = Retry \<or> a = Dismiss" by (cases a) auto
    show ?thesis
    proof (cases "act_kept env 0 i")
      case (Inl e)
      with assms i a show ?thesis by (intro not_done [of e]) (auto simp: message_act_def)
    next
      case (Inr sk)
      obtain seen kept where sk: "act_kept env 0 i = Inr (seen, kept)" using Inr by (cases sk) auto
      show ?thesis
      proof (cases "a = Dismiss \<and> j_state kept = Dismissed")
        case True
        with assms i sk show ?thesis by (intro was [of i]) (auto simp: message_act_def)
      next
        case undone: False
        show ?thesis
        proof (cases "(\<exists>e. act_taken_by st i kept = Inl e) \<or> (\<nexists>c. ae_claim env i = Inr (Some c)) \<or> act_unchanged env i seen \<noteq> None")
          case True
          with assms i sk a undone have "\<exists>e. r = Inl e" "st' = st" "hs = []"
            by (auto simp: message_act_def split: sum.splits option.splits)
          then show ?thesis using not_done by auto
        next
          case False
          then obtain port blocks c where t: "act_taken_by st i kept = Inr (port, blocks)"
            and c: "ae_claim env i = Inr (Some c)" and u: "act_unchanged env i seen = None"
            by (metis old.sum.exhaust surj_pair)
          define h where "h = act_hand_on c kept (a = Retry) blocks (sc_queue cfg (ToSendPort port))
            (if a = Retry then ''retry'' else ''dismiss'') (words (if a = Retry then Retried i port else DismissedNow i port))"
          from assms i sk a undone t c u have m: "(r, hs, released, st') =
            (case ae_hand_on env h of
               Inr True \<Rightarrow> (Inr (if a = Retry then Retried i port else DismissedNow i port), [h], False,
                 send_ask (sc_queue cfg (ToSendPort port)) (acted_on i port (sc_queue cfg (ToSendPort port)) at_now read st))
             | Inr False \<Rightarrow> (Inl (NotDone ''its claim lapsed before it was written''), [h], False, st)
             | Inl why \<Rightarrow> (Inl (NotDone why), [h], True, st))"
            by (auto simp: message_act_def Let_def h_def split: sum.splits bool.splits)
          show ?thesis
          proof (cases "ae_hand_on env h = Inr True")
            case True
            with m have "r = Inr (if a = Retry then Retried i port else DismissedNow i port)" "hs = [h]" by simp_all
            with True show ?thesis
              by (intro acted [OF i sk t c u, of "words (if a = Retry then Retried i port else DismissedNow i port)"]) (simp_all add: h_def)
          next
            case False
            with m have "\<exists>e. r = Inl e" "st' = st" "hs = [h]" by (auto split: sum.splits bool.splits)
            with False show ?thesis using not_done by auto
          qed
        qed
      qed
    qed
  qed
qed

text \<open>C14: an operator's act is written only on a Journey that was Failed before the claim and is the same, byte
  for byte, under it; it is one write: a Retry makes it Active with its tries begun anew and, on
  a Port that does not block, moves it to the end of its queue; a Dismiss ends it and lets go of
  its queue and its sequences; both take it out of the failed. Refused or not done, the send
  step is as it was and no write was taken.\<close>

theorem act_only_on_failed:
  assumes "message_act cfg env words at_now read text parsed a st = (r, hs, released, st')"
  shows "case r of
     Inl e \<Rightarrow> st' = st \<and> list_all (\<lambda>h. ae_hand_on env h \<noteq> Inr True) hs
   | Inr (WasDismissed i) \<Rightarrow> hs = [] \<and> st' = st
   | Inr done \<Rightarrow> (\<exists>i port seen kept c blocks h.
       parsed = Some i \<and> act_kept env 0 i = Inr (seen, kept) \<and> map_sum id fst (act_kept env 1 i) = Inr seen \<and>
       j_state kept = Failed \<and> j_send_port kept = Some port \<and> st_ports st port = Some blocks \<and>
       ae_claim env i = Inr (Some c) \<and> hs = [h] \<and> ae_hand_on env h = Inr True \<and>
       ho_claim h = c \<and> ho_cleared h = [sc_queue cfg (ToSendPort port)] \<and>
       (case done of
          Retried _ _ \<Rightarrow> j_state (ho_result h) = Active \<and> at_tries (j_attempts (ho_result h)) = 0 \<and> ho_leaves h = [] \<and>
            ho_requeued h = (if blocks then [] else [sc_queue cfg (ToSendPort port)])
        | _ \<Rightarrow> j_state (ho_result h) = Dismissed \<and> ho_requeued h = [] \<and>
            ho_leaves h = sc_queue cfg (ToSendPort port) # map seq_queue (j_sequences kept)))"
  using assms
proof (cases rule: act_cases)
  case (acted i port seen kept c blocks w)
  from act_taken [OF acted(3)] act_same [OF acted(5)] acted show ?thesis
    by (cases "a = Retry"; cases blocks) (auto simp: act_hand_on_def act_acted_def Let_def)
qed auto

definition failed_journey :: journey where
  "failed_journey = bare_journey\<lparr>j_state := Failed, j_send_port := Some ''out'',
     j_sequences := [\<lparr>seq_queue = 1, seq_skips = True\<rparr>]\<rparr>"

definition act_sample :: act_env where
  "act_sample = \<lparr>ae_read_journey = (\<lambda>_ _. Inr (Some ''bytes'')), ae_journey_of = (\<lambda>_. Inr failed_journey),
     ae_claim = (\<lambda>_. Inr (Some own_claim)), ae_hand_on = (\<lambda>_. Inr True)\<rparr>"

theorem act_only_on_failed_witness:
  "\<exists>h. fst (snd (message_act two_threads act_sample (\<lambda>_. '''') None None ''1'' (Some 1) Retry (send_new\<lparr>st_ports := [''out'' \<mapsto> False]\<rparr>))) = [h]
     \<and> j_state (ho_result h) = Active \<and> ho_requeued h = [5]"
proof -
  let ?m = "message_act two_threads act_sample (\<lambda>_. '''') None None ''1'' (Some 1) Retry (send_new\<lparr>st_ports := [''out'' \<mapsto> False]\<rparr>)"
  obtain r hs released st' where m: "?m = (r, hs, released, st')" by (metis prod.collapse)
  have "fst ?m = Inr (Retried 1 ''out'')"
    by (simp add: message_act_def act_sample_def act_kept_def failed_journey_def act_taken_by_def act_unchanged_def Let_def)
  with m have "r = Inr (Retried 1 ''out'')" by simp
  with act_only_on_failed [OF m] m show ?thesis
    by (auto simp: act_sample_def failed_journey_def act_kept_def two_threads_def)
qed

text \<open>A retried Message holds no place it let go of. A pass that fails lets go of a sequence whose failures
  let the rest pass, the Journey still naming it; a Retry of it takes no place there again, and
  as the Journey names a sequence it waits for none. So its next pass asks of a place it does not
  hold, and is let through by what this process remembers though another heads the sequence.\<close>

theorem retried_skip_holds_no_place:
  assumes "sq \<in> set (j_sequences (de_journey d))" and "seq_skips sq"
    and "message_act cfg env words at_now read text parsed Retry st = (Inr (Retried i port), [h], released, st')"
    and "act_kept env 0 i = Inr (seen, pass_journey Failed outcome d)"
    and "sc_queue cfg (ToSendPort port) \<noteq> seq_queue sq" and "\<not> waits_for_group s (de_journey d)"
  shows "seq_queue sq \<in> set (ho_leaves (pass_hand_on Failed outcome kept d)) \<and>
    sq \<in> set (j_sequences (ho_result h)) \<and> ho_queued h = [] \<and> seq_queue sq \<notin> set (ho_requeued h) \<and>
    \<not> waits_for_places s (ho_result h) to"
proof -
  from assms(3,4) have h: "\<exists>c blocks w. h = act_hand_on c (pass_journey Failed outcome d) True blocks
      (sc_queue cfg (ToSendPort port)) ''retry'' w"
    by (cases rule: act_cases [OF assms(3)]) auto
  with assms show ?thesis
    by (auto simp: pass_hand_on_def pass_leaves_def act_hand_on_def act_acted_def pass_journey_def
        waits_for_places_def waits_for_group_def journey_append_def)
qed


definition skipping_departure :: departure where
  "skipping_departure = one_departure\<lparr>de_journey := bare_journey\<lparr>j_send_port := Some ''out'',
     j_sequences := [\<lparr>seq_queue = 1, seq_skips = True\<rparr>]\<rparr>\<rparr>"

definition retry_sample :: act_env where
  "retry_sample = act_sample\<lparr>ae_journey_of := (\<lambda>_. Inr (pass_journey Failed ''refused'' skipping_departure))\<rparr>"

theorem retried_skip_holds_no_place_witness:
  "\<exists>h. fst (snd (message_act two_threads retry_sample (\<lambda>_. '''') None None ''1'' (Some 1) Retry (send_new\<lparr>st_ports := [''out'' \<mapsto> False]\<rparr>))) = [h] \<and>
     \<not> waits_for_places sample_sends (ho_result h) (ToSendPort ''out'') \<and>
     fst (pass_heads (\<lambda>_. Inr \<lparr>pg_held = [\<lparr>h_queue = 1, h_journey = 8, h_body = ''''\<rparr>], pg_count = 1\<rparr>) (ho_result h) {(1, 1)}) = Inr True"
proof -
  let ?m = "message_act two_threads retry_sample (\<lambda>_. '''') None None ''1'' (Some 1) Retry (send_new\<lparr>st_ports := [''out'' \<mapsto> False]\<rparr>)"
  let ?j = "pass_journey Failed ''refused'' skipping_departure"
  let ?h = "act_hand_on own_claim ?j True False 5 ''retry'' ''''"
  have k: "act_kept retry_sample 0 1 = Inr (''bytes'', ?j)"
    by (simp add: retry_sample_def act_sample_def act_kept_def)
  have m: "\<exists>st'. ?m = (Inr (Retried 1 ''out''), [?h], False, st')"
    by (simp add: message_act_def retry_sample_def act_sample_def act_kept_def act_taken_by_def act_unchanged_def Let_def
        two_threads_def pass_journey_def journey_append_def skipping_departure_def one_departure_def departure_of_def)
  then obtain st' where m: "?m = (Inr (Retried 1 ''out''), [?h], False, st')" by blast
  have "\<not> waits_for_places sample_sends (ho_result ?h) (ToSendPort ''out'')"
    using retried_skip_holds_no_place [OF _ _ m k, of "\<lparr>seq_queue = 1, seq_skips = True\<rparr>" sample_sends]
    by (simp add: two_threads_def skipping_departure_def waits_for_group_def)
  moreover have "fst (pass_heads (\<lambda>_. Inr \<lparr>pg_held = [\<lparr>h_queue = 1, h_journey = 8, h_body = ''''\<rparr>], pg_count = 1\<rparr>) (ho_result ?h) {(1, 1)}) = Inr True"
    by (simp add: pass_heads_def stream_heads_def group_heads_def act_hand_on_def act_acted_def pass_journey_def
        journey_append_def skipping_departure_def one_departure_def departure_of_def heads_def Let_def)
  ultimately show ?thesis using m by simp
qed

end
