(* ===== verification/Held_Work.thy ===== *)
theory Held_Work
  imports Send_Pass
begin

text \<open>
  \<open>src/held_work.rs\<close>: a Message a paused Subscription held, moved to the queue of where it leads in one
  write; and the loop of \<open>src/send_step/scan.rs\<close> over what it reads of a queue.
\<close>

section \<open>A held Message picked up\<close>

datatype picked = PMoved | PUnreadable string

text \<open>Why a Message was not moved: in words, or naming the Journey whose claim is another's or lapsed.\<close>

datatype unmoved = Unanswered string | ClaimedByAnother ident | ClaimLapsed ident

definition moved_hand_on :: "claim \<Rightarrow> duration \<Rightarrow> bool \<Rightarrow> journey \<Rightarrow> hold \<Rightarrow> ident \<Rightarrow> hand_on" where
  "moved_hand_on c lease sent_here j held q =
     \<lparr>ho_claim = c, ho_result = j, ho_leaves = [h_queue held],
      ho_queued = [\<lparr>h_queue = q, h_journey = h_journey held, h_body = h_body held\<rparr>], ho_requeued = [],
      ho_failed = None, ho_cleared = [], ho_waits = None,
      ho_kept_for = (if sent_here then Some (nanos lease) else None)\<rparr>"

definition picked_to :: "journey \<Rightarrow> subscriber \<Rightarrow> subscriber" where
  "picked_to j destination = (case j_send_port j of None \<Rightarrow> destination | Some port \<Rightarrow> ToSendPort port)"

text \<open>\<open>pick_up\<close>: what came of it, what it asked to be written, whether its claim was given back, and the
  send step's state.\<close>

definition pick_up ::
    "send_config \<Rightarrow> sends \<Rightarrow> store \<Rightarrow> instant \<Rightarrow> subscriber \<Rightarrow> hold \<Rightarrow> send_state
      \<Rightarrow> (unmoved + picked) \<times> hand_on list \<times> bool \<times> send_state" where
  "pick_up cfg s sr asked destination held st =
     (case sr_claim sr (h_journey held) of
        Inl e \<Rightarrow> (Inl (Unanswered e), [], False, st)
      | Inr None \<Rightarrow> (Inl (ClaimedByAnother (h_journey held)), [], False, st)
      | Inr (Some c) \<Rightarrow>
         (case pass_read sr (h_journey held) (h_body held) of
            Inl why \<Rightarrow> (Inl (Unanswered why), [], True, st)
          | Inr (FoundFailed _ _) \<Rightarrow> (Inr (PUnreadable ''its Journey has ended''), [], True, st)
          | Inr Finished \<Rightarrow> (Inr (PUnreadable ''its Journey has ended''), [], True, st)
          | Inr (Unreadable why) \<Rightarrow> (Inr (PUnreadable why), [], True, st)
          | Inr (Waiting j m facts) \<Rightarrow>
             (let to = picked_to j destination;
                  q = sc_queue cfg to;
                  wanted = sends_serves s to \<and> \<not> sequential s to;
                  (sent_here, st) = (if wanted then (case send_admit cfg 1 st of (k, st) \<Rightarrow> (k = 1, st)) else (False, st));
                  h = moved_hand_on c (sc_lease cfg) sent_here j held q in
              case sr_hand_on sr h of
                Inr True \<Rightarrow>
                  (Inr PMoved, [h], False,
                   if sent_here then send_hand (departure_of m facts None (asked + sc_lease cfg) j to q c) st
                   else send_ask q st)
              | Inr False \<Rightarrow> (Inl (ClaimLapsed (h_journey held)), [h], False, send_withdraw (if sent_here then 1 else 0) st)
              | Inl e \<Rightarrow> (Inl (Unanswered e), [h], True, send_withdraw (if sent_here then 1 else 0) st))))"

text \<open>\<open>pick_up_released\<close>: what was let go of this time, in order; a Subscription one of whose Messages is
  read again has the rest of its own read again too. The result pairs each with whether it is read
  again.\<close>

fun pick_up_released :: "('r \<Rightarrow> string) \<Rightarrow> ('r \<Rightarrow> bool) \<Rightarrow> 'r list \<Rightarrow> string list \<Rightarrow> ('r \<times> bool) list" where
  "pick_up_released subscription picks [] stalled = []"
| "pick_up_released subscription picks (r # rs) stalled =
     (if subscription r \<in> set stalled then (r, True) # pick_up_released subscription picks rs stalled
      else if picks r then (r, False) # pick_up_released subscription picks rs stalled
      else (r, True) # pick_up_released subscription picks rs (stalled @ [subscription r]))"

section \<open>A scan's loop\<close>

text \<open>One entry read of a queue: its hold, its place, whether it failed, how long its retry still waits and
  when its read was asked.\<close>

record held_entry =
  he_hold :: hold
  he_place :: nat
  he_failed :: bool
  he_due_in :: "duration option"
  he_asked :: instant

datatype ready = RUnclaimed "ident \<times> nat" string | RClaimed departure

text \<open>\<open>scanning\<close>: \<open>in_order\<close> is what claiming a sequenced entry in the queue's order came to, with the
  state after; \<open>ended\<close> whether the reading ended by its end (\<open>None\<close>) or by Xmip Storage not answering.
  The present places are gathered to forget what has left.\<close>

fun scanning ::
    "send_config \<Rightarrow> bool \<Rightarrow> string \<Rightarrow> ident \<Rightarrow> (ident \<times> nat \<Rightarrow> string \<Rightarrow> send_state \<Rightarrow> departure option \<times> send_state)
      \<Rightarrow> instant \<Rightarrow> string option \<Rightarrow> held_entry list \<Rightarrow> (ident \<times> nat) set \<Rightarrow> due \<Rightarrow> ready list \<Rightarrow> send_state
      \<Rightarrow> (ready list \<times> bool) \<times> due \<times> send_state" where
  "scanning cfg sequenced port q in_order wall ended [] present waits found st =
     (case ended of
        Some why \<Rightarrow> ((found, False), waits, snd (queue_read wall port (Some why) st))
      | None \<Rightarrow> ((found, True), waits, read_whole q present (snd (queue_read wall port None st))))"
| "scanning cfg sequenced port q in_order wall ended (e # es) present waits found st =
     (let st = snd (queue_read wall port None st);
          i = h_journey (he_hold e);
          place = (i, he_place e);
          present = insert place present in
      if he_failed e then scanning cfg sequenced port q in_order wall ended es present waits found st
      else case he_due_in e of
        Some left \<Rightarrow>
          scanning cfg sequenced port q in_order wall ended es present (due_wakes_at (he_asked e + left) waits) found st
      | None \<Rightarrow>
          if scan_known q place st then scanning cfg sequenced port q in_order wall ended es present waits found st
          else case send_admit cfg 1 st of (k, st) \<Rightarrow>
            if k = 0 then ((found, False), waits, send_starve q st)
            else let st = scan_takes i st in
                 if sequenced
                 then case in_order place (h_body (he_hold e)) st of
                        (Some d, st) \<Rightarrow> scanning cfg sequenced port q in_order wall ended es present waits (found @ [RClaimed d]) st
                      | (None, st) \<Rightarrow> scanning cfg sequenced port q in_order wall ended es present waits found (send_untake i st)
                 else scanning cfg sequenced port q in_order wall ended es present waits
                        (found @ [RUnclaimed place (h_body (he_hold e))]) st)"

section \<open>Picking up moves once\<close>

lemma admit_one:
  "send_admit cfg 1 st = (k, st') \<Longrightarrow> k \<le> 1 \<and> st_owned st' = st_owned st \<and> st_taking st' = st_taking st \<and>
     st_admitted st' = st_admitted st + k"
  by (auto simp: send_admit_def Let_def)

text \<open>A held Message is picked up in one write that takes it out of its Subscription's queue and puts it
  at the end of the queue of its Send Port, under the claim taken for it, its body with it; where
  the write is not taken, or the Message is not one to send, every place admitted is given back.\<close>

theorem pick_up_moves_once:
  assumes "pick_up cfg s sr asked destination held st = (r, hs, released, st')"
  shows "(r = Inr PMoved \<longrightarrow> (\<exists>c j m facts sent_here.
       sr_claim sr (h_journey held) = Inr (Some c) \<and> pass_read sr (h_journey held) (h_body held) = Inr (Waiting j m facts) \<and>
       hs = [moved_hand_on c (sc_lease cfg) sent_here j held (sc_queue cfg (picked_to j destination))] \<and>
       sr_hand_on sr (hd hs) = Inr True \<and> \<not> released \<and>
       (sent_here \<longrightarrow> map_option ow_claim (st_owned st' (journey_id j)) = Some c) \<and>
       (\<not> sent_here \<longrightarrow> st_owned st' = st_owned st \<and> st_admitted st' = st_admitted st \<and>
          sc_queue cfg (picked_to j destination) \<in> set (st_asked st')))) \<and>
    (r \<noteq> Inr PMoved \<longrightarrow> st_owned st' = st_owned st \<and> st_admitted st' = st_admitted st \<and>
       list_all (\<lambda>h. sr_hand_on sr h \<noteq> Inr True) hs)"
proof (cases "\<exists>c j m facts. sr_claim sr (h_journey held) = Inr (Some c) \<and>
    pass_read sr (h_journey held) (h_body held) = Inr (Waiting j m facts)")
  case False
  with assms show ?thesis
    by (auto simp: pick_up_def split: sum.splits option.splits found.splits)
next
  case True
  then obtain c j m facts where c: "sr_claim sr (h_journey held) = Inr (Some c)"
    and w: "pass_read sr (h_journey held) (h_body held) = Inr (Waiting j m facts)" by blast
  define to where "to = picked_to j destination"
  obtain sent_here st1 where a: "(if sends_serves s to \<and> \<not> sequential s to
      then (case send_admit cfg 1 st of (k, st) \<Rightarrow> (k = 1, st)) else (False, st)) = (sent_here, st1)" by fastforce
  then have st1: "st_owned st1 = st_owned st" "st_admitted st1 = st_admitted st + (if sent_here then 1 else 0)"
    using admit_one [of cfg st] by (auto split: if_splits prod.splits)
  show ?thesis
  proof (cases "sr_hand_on sr (moved_hand_on c (sc_lease cfg) sent_here j held (sc_queue cfg to)) = Inr True")
    case True
    with assms c w a st1 show ?thesis
      by (auto simp: pick_up_def Let_def to_def send_hand_def send_own_def owned_of_def departure_of_def send_ask_def
          split: prod.splits)
  next
    case False
    with assms c w a st1 show ?thesis
      by (auto simp: pick_up_def Let_def to_def split: prod.splits sum.splits bool.splits)
  qed
qed

definition held_store :: store where
  "held_store = \<lparr>sr_read_journey = (\<lambda>_. Inr (Some ''j'')), sr_read_message = (\<lambda>_. Inr (Some ''m'')),
     sr_journey_of = (\<lambda>_. Inr (bare_journey\<lparr>j_send_port := Some ''out'', j_messages := [3]\<rparr>)),
     sr_message_of = (\<lambda>_. Inr 3), sr_facts_of = (\<lambda>_. Inr ''''), sr_claim = (\<lambda>_. Inr (Some own_claim)),
     sr_read_place = (\<lambda>_ _. Inr []), sr_hand_on = (\<lambda>_. Inr True)\<rparr>"

abbreviation held_hold :: hold where
  "held_hold \<equiv> \<lparr>h_queue = 77, h_journey = 1, h_body = ''''\<rparr>"

theorem pick_up_moves_once_witness:
  "\<exists>h. fst (snd (pick_up two_threads sample_sends held_store 0 (ToSendPort ''out'') held_hold send_new)) = [h] \<and>
     ho_leaves h = [77] \<and> map h_queue (ho_queued h) = [5]"
proof -
  let ?p = "pick_up two_threads sample_sends held_store 0 (ToSendPort ''out'') held_hold send_new"
  obtain r hs released st' where p: "?p = (r, hs, released, st')" by (metis prod.collapse)
  have "fst ?p = Inr PMoved"
    by (simp add: pick_up_def held_store_def pass_read_def Let_def split: prod.splits)
  with p have "r = Inr PMoved" by simp
  with pick_up_moves_once [OF p] p show ?thesis
    by (auto simp: moved_hand_on_def two_threads_def)
qed

lemma pick_up_released_stalled:
  "(r, again) \<in> set (pick_up_released sub picks rs stalled) \<Longrightarrow> sub r \<in> set stalled \<Longrightarrow> again"
  by (induction sub picks rs stalled rule: pick_up_released.induct) (auto split: if_splits)

text \<open>Every Message let go of is picked up or read again, each once and in order; and once one of a
  Subscription's is to be read again, so is everything of its own after it: a Subscription's
  order is never overtaken.\<close>

theorem pick_up_keeps_order:
  "map fst (pick_up_released sub picks rs stalled) = rs \<and>
   sorted_wrt (\<lambda>a b. sub (fst a) = sub (fst b) \<longrightarrow> snd a \<longrightarrow> snd b) (pick_up_released sub picks rs stalled)"
proof (induction sub picks rs stalled rule: pick_up_released.induct)
  case (2 sub picks r rs stalled)
  then show ?case using pick_up_released_stalled [of _ _ sub picks rs] by (auto split: if_splits) force+
qed simp

theorem pick_up_keeps_order_witness:
  "pick_up_released fst snd [(''a'', True), (''b'', False), (''a'', False), (''b'', True), (''a'', True)] []
     = [((''a'', True), False), ((''b'', False), True), ((''a'', False), True), ((''b'', True), True), ((''a'', True), True)] \<and>
   sorted_wrt (\<lambda>a b. fst (fst a) = fst (fst b) \<longrightarrow> snd a \<longrightarrow> snd b)
     (pick_up_released fst snd [(''a'', True), (''b'', False), (''a'', False), (''b'', True), (''a'', True)] [])"
  using pick_up_keeps_order [of fst snd "[(''a'', True), (''b'', False), (''a'', False), (''b'', True), (''a'', True)]" "[]"]
  by simp

section \<open>A scan takes no more than the pool admits\<close>

lemma queue_read_places [simp]:
  "st_owned (snd (queue_read wall port why st)) = st_owned st" "st_admitted (snd (queue_read wall port why st)) = st_admitted st"
  "st_taking (snd (queue_read wall port why st)) = st_taking st"
  "room_in cfg (snd (queue_read wall port why st)) = room_in cfg st"
  by (simp_all add: queue_read_def Let_def room_in_def places_held_def)

fun ready_id :: "ready \<Rightarrow> ident" where
  "ready_id (RUnclaimed place _) = fst place"
| "ready_id (RClaimed d) = journey_id (de_journey d)"

text \<open>What a scan has found so far, beside the state it left.\<close>

definition found_fit :: "send_state \<Rightarrow> ready list \<Rightarrow> send_state \<Rightarrow> bool" where
  "found_fit st0 found st \<longleftrightarrow> st_owned st = st_owned st0 \<and> st_admitted st = st_admitted st0 + length found \<and>
     st_taking st = st_taking st0 \<union> ready_id ` set found \<and> distinct (map ready_id found) \<and>
     ready_id ` set found \<inter> (st_taking st0 \<union> dom (st_owned st0)) = {}"

lemma found_fit_read: "found_fit st0 found (snd (queue_read wall port why st)) = found_fit st0 found st"
  by (simp add: found_fit_def)

lemma scanning_fits:
  assumes "scanning cfg False port q in_order wall ended es present waits found st = ((found', whole), waits', st')"
    and "found_fit st0 found st"
  shows "found_fit st0 found' st' \<and> (\<not> whole \<and> ended = None \<longrightarrow> room_in cfg st' = 0 \<and> q \<in> set (st_starved st'))"
  using assms
proof (induction es arbitrary: present waits found st)
  case Nil
  then show ?case by (auto simp: found_fit_def read_whole_def split: option.splits)
next
  case (Cons e es)
  let ?st = "snd (queue_read wall port None st)"
  let ?place = "(h_journey (he_hold e), he_place e)"
  have fit: "found_fit st0 found ?st" using Cons.prems(2) by (simp add: found_fit_read)
  show ?case
  proof (cases "he_failed e \<or> he_due_in e \<noteq> None \<or> scan_known q ?place ?st")
    case True
    with Cons.IH [OF _ fit] Cons.prems(1) show ?thesis
      by (auto simp: Let_def split: option.splits if_splits)
  next
    case False
    obtain k st1 where k: "send_admit cfg 1 ?st = (k, st1)" by fastforce
    show ?thesis
    proof (cases "k = 0")
      case True
      with k False Cons.prems(1) fit show ?thesis
        by (auto simp: Let_def send_starve_def found_fit_def send_admit_def room_in_def places_held_def)
    next
      case k1: False
      let ?f = "found @ [RUnclaimed ?place (h_body (he_hold e))]"
      have "found_fit st0 ?f (scan_takes (h_journey (he_hold e)) st1)"
        using fit k k1 False admit_one [OF k]
        by (auto simp: found_fit_def scan_takes_def scan_known_def image_iff)
      moreover from False k k1 Cons.prems(1)
      have "scanning cfg False port q in_order wall ended es (insert ?place present) waits ?f
          (scan_takes (h_journey (he_hold e)) st1) = ((found', whole), waits', st')"
        by (auto simp: Let_def)
      ultimately show ?thesis using Cons.IH by blast
    qed
  qed
qed

text \<open>A scan of a queue no sequence governs finds only Messages this node neither owns nor is already
  claiming, each once, each under a place of its own; and where it stops before the queue's end
  though Xmip Storage answered, the pool is full and the queue is read again once a place frees.\<close>

theorem scan_takes_within_room:
  assumes "scanning cfg False port q in_order wall ended es {} waits [] st = ((found, whole), waits', st')"
  shows "st_admitted st' = st_admitted st + length found \<and> st_owned st' = st_owned st \<and>
    distinct (map ready_id found) \<and> ready_id ` set found \<inter> (st_taking st \<union> dom (st_owned st)) = {} \<and>
    (\<not> whole \<and> ended = None \<longrightarrow> room_in cfg st' = 0 \<and> q \<in> set (st_starved st'))"
  using scanning_fits [OF assms, of st] by (simp add: found_fit_def)

abbreviation due_entry_at :: "nat \<Rightarrow> held_entry" where
  "due_entry_at i \<equiv> \<lparr>he_hold = \<lparr>h_queue = 5, h_journey = i, h_body = ''''\<rparr>, he_place = i, he_failed = False, he_due_in = None, he_asked = 0\<rparr>"

lemma scan_stops_full:
  "fst (scanning two_threads False ''out'' 5 (\<lambda>_ _ st. (None, st)) 0 None (map due_entry_at [1, 2, 3]) {} (due_of ''out'') [] send_new)
     = ([RUnclaimed (1, 1) '''', RUnclaimed (2, 2) ''''], False)"
proof -
  have "card (dom (st_owned send_new)) = 0" by (simp add: send_new_def)
  then show ?thesis
    by (simp add: Let_def scan_known_def queue_read_def send_admit_def room_in_def places_held_def two_threads_def
        scan_takes_def send_new_def)
qed

theorem scan_takes_within_room_witness:
  "\<exists>waits st. scanning two_threads False ''out'' 5 (\<lambda>_ _ st. (None, st)) 0 None (map due_entry_at [1, 2, 3]) {}
       (due_of ''out'') [] send_new = (([RUnclaimed (1, 1) '''', RUnclaimed (2, 2) ''''], False), waits, st) \<and>
     st_admitted st = 2 \<and> 5 \<in> set (st_starved st)"
proof -
  obtain x where x: "scanning two_threads False ''out'' 5 (\<lambda>_ _ st. (None, st)) 0 None
      (map due_entry_at [1, 2, 3]) {} (due_of ''out'') [] send_new = x" by simp
  obtain waits st where s: "x = (([RUnclaimed (1, 1) '''', RUnclaimed (2, 2) ''''], False), waits, st)"
    using scan_stops_full unfolding x by (cases x) auto
  have "st_admitted send_new = 0" by (simp add: send_new_def)
  with scan_takes_within_room [OF x [unfolded s]] have "st_admitted st = 2 \<and> 5 \<in> set (st_starved st)"
    by (simp del: scanning.simps)
  with x [unfolded s] show ?thesis by blast
qed

end
