(* ===== verification/Text.thy ===== *)
theory Text
  imports Prelude
begin

text \<open>
  What the sources use of Rust's \<open>str\<close>: \<open>trim\<close>, \<open>to_ascii_lowercase\<close>,
  \<open>eq_ignore_ascii_case\<close>, \<open>strip_prefix\<close>, \<open>rsplit_once\<close>, \<open>trim_start_matches\<close> and \<open>parse\<close> of an
  unsigned number. A \<open>string\<close> is the text's UTF-8 bytes, so a character that is not ASCII is
  several of its elements, and \<open>trim\<close> takes off the encodings of every White_Space character.
\<close>

section \<open>White space\<close>

definition byte_text :: "nat list \<Rightarrow> string" where
  "byte_text bs = map char_of bs"

definition white_spaces :: "string list" where
  "white_spaces = map byte_text
     ([[9], [10], [11], [12], [13], [32], [0xC2, 0x85], [0xC2, 0xA0], [0xE1, 0x9A, 0x80]] @
      map (\<lambda>b. [0xE2, 0x80, b]) ([0x80..<0x8B] @ [0xA8, 0xA9, 0xAF]) @
      [[0xE2, 0x81, 0x9F], [0xE3, 0x80, 0x80]])"

definition starts_with :: "string \<Rightarrow> string \<Rightarrow> bool" where
  "starts_with p s \<longleftrightarrow> take (length p) s = p"

text \<open>Every leading occurrence of one of \<open>ws\<close> taken off.\<close>

function strip_heads :: "string list \<Rightarrow> string \<Rightarrow> string" where
  "strip_heads ws s =
     (case find (\<lambda>w. w \<noteq> [] \<and> starts_with w s) ws of
        None \<Rightarrow> s
      | Some w \<Rightarrow> strip_heads ws (drop (length w) s))"
  by pat_completeness auto
termination
proof (relation "measure (\<lambda>(ws, s). length s)")
  fix ws :: "string list" and s w
  assume "find (\<lambda>w. w \<noteq> [] \<and> starts_with w s) ws = Some w"
  then have "w \<noteq> []" "take (length w) s = w"
    by (auto simp: find_Some_iff starts_with_def)
  then show "((ws, drop (length w) s), ws, s) \<in> measure (\<lambda>(ws, s). length s)"
    by (cases s) auto
qed simp

declare strip_heads.simps [simp del]

definition trim_start :: "string \<Rightarrow> string" where
  "trim_start s = strip_heads white_spaces s"

definition trim_end :: "string \<Rightarrow> string" where
  "trim_end s = rev (strip_heads (map rev white_spaces) (rev s))"

definition trim :: "string \<Rightarrow> string" where
  "trim s = trim_end (trim_start s)"

text \<open>\<open>trim_start_matches\<close> and \<open>trim_end_matches\<close> of one character.\<close>

definition trim_start_char :: "char \<Rightarrow> string \<Rightarrow> string" where
  "trim_start_char c s = dropWhile (\<lambda>x. x = c) s"

definition trim_end_char :: "char \<Rightarrow> string \<Rightarrow> string" where
  "trim_end_char c s = rev (dropWhile (\<lambda>x. x = c) (rev s))"

section \<open>Case, prefixes and splits\<close>

definition ascii_lower :: "char \<Rightarrow> char" where
  "ascii_lower c = (let n = of_char c :: nat in if 65 \<le> n \<and> n \<le> 90 then char_of (n + 32) else c)"

definition to_ascii_lowercase :: "string \<Rightarrow> string" where
  "to_ascii_lowercase s = map ascii_lower s"

definition eq_ignore_ascii_case :: "string \<Rightarrow> string \<Rightarrow> bool" where
  "eq_ignore_ascii_case a b \<longleftrightarrow> to_ascii_lowercase a = to_ascii_lowercase b"

definition strip_prefix :: "string \<Rightarrow> string \<Rightarrow> string option" where
  "strip_prefix p s = (if starts_with p s then Some (drop (length p) s) else None)"

definition rsplit_once :: "char \<Rightarrow> string \<Rightarrow> (string \<times> string) option" where
  "rsplit_once c s =
     (if c \<in> set s
      then Some (rev (tl (dropWhile (\<lambda>x. x \<noteq> c) (rev s))), rev (takeWhile (\<lambda>x. x \<noteq> c) (rev s)))
      else None)"

text \<open>A text between single quotes.\<close>

definition quoted :: "string \<Rightarrow> string" where
  "quoted s = CHR 0x27 # s @ [CHR 0x27]"

section \<open>Unsigned numbers\<close>

definition is_digit :: "char \<Rightarrow> bool" where
  "is_digit c \<longleftrightarrow> 48 \<le> (of_char c :: nat) \<and> (of_char c :: nat) \<le> 57"

text \<open>\<open>str::parse\<close> of an unsigned integer whose greatest value is \<open>greatest\<close>: an optional plus
  sign, then one digit or more, and nothing else.\<close>

definition parse_unsigned :: "nat \<Rightarrow> string \<Rightarrow> nat option" where
  "parse_unsigned greatest s =
     (let digits = (case s of c # rest \<Rightarrow> if c = CHR ''+'' then rest else s | [] \<Rightarrow> []) in
      if digits = [] \<or> \<not> list_all is_digit digits then None
      else if read_decimal digits \<le> greatest then Some (read_decimal digits) else None)"

section \<open>Lemmas\<close>

lemma starts_with_append [simp]: "starts_with p (p @ s)"
  by (simp add: starts_with_def)

lemma strip_prefix_append [simp]: "strip_prefix p (p @ s) = Some s"
  by (simp add: strip_prefix_def)

lemma strip_prefix_iff: "strip_prefix p s = Some r \<longleftrightarrow> s = p @ r"
  by (auto simp: strip_prefix_def starts_with_def) (metis append_take_drop_id)

lemma rsplit_once_iff:
  "rsplit_once c s = Some (a, b) \<longleftrightarrow> s = a @ c # b \<and> c \<notin> set b"
proof
  assume *: "rsplit_once c s = Some (a, b)"
  then have in_s: "c \<in> set (rev s)" by (auto simp: rsplit_once_def split: if_splits)
  let ?r = "rev s"
  have "?r = takeWhile (\<lambda>x. x \<noteq> c) ?r @ dropWhile (\<lambda>x. x \<noteq> c) ?r" by simp
  moreover obtain y ys where d: "dropWhile (\<lambda>x. x \<noteq> c) ?r = y # ys"
    using in_s by (metis (full_types) dropWhile_eq_Nil_conv list.exhaust)
  moreover have "y = c" using d hd_dropWhile [of "\<lambda>x. x \<noteq> c" ?r] by simp
  ultimately have "?r = takeWhile (\<lambda>x. x \<noteq> c) ?r @ c # ys" by simp
  then have "s = rev ys @ c # rev (takeWhile (\<lambda>x. x \<noteq> c) ?r)"
    by (metis append.assoc append_Cons append_Nil rev.simps(2) rev_append rev_rev_ident)
  moreover have "c \<notin> set (takeWhile (\<lambda>x. x \<noteq> c) ?r)" using set_takeWhileD by fastforce
  ultimately show "s = a @ c # b \<and> c \<notin> set b"
    using * d by (auto simp: rsplit_once_def split: if_splits)
next
  assume *: "s = a @ c # b \<and> c \<notin> set b"
  then have all: "\<And>x. x \<in> set (rev b) \<Longrightarrow> x \<noteq> c" and r: "rev s = rev b @ c # rev a" by auto
  have "takeWhile (\<lambda>x. x \<noteq> c) (rev s) = rev b" "dropWhile (\<lambda>x. x \<noteq> c) (rev s) = c # rev a"
    unfolding r using takeWhile_append2 [of "rev b" "\<lambda>x. x \<noteq> c" "c # rev a", OF all]
      dropWhile_append2 [of "rev b" "\<lambda>x. x \<noteq> c" "c # rev a", OF all] by simp_all
  with * show "rsplit_once c s = Some (a, b)"
    unfolding rsplit_once_def by (simp only:) simp
qed

lemma digit_is_digit: "d < 10 \<Longrightarrow> is_digit (digit_char d)"
  by (simp add: is_digit_def digit_char_def)

lemma decimal_digits: "list_all is_digit (decimal n)"
proof (induction n rule: decimal.induct)
  case (1 n)
  then show ?case by (simp add: decimal.simps [of n] digit_is_digit)
qed

lemma decimal_nonempty [simp]: "decimal n \<noteq> []"
  by (simp add: decimal.simps [of n])

lemma parse_decimal: "n \<le> greatest \<Longrightarrow> parse_unsigned greatest (decimal n) = Some n"
proof -
  assume "n \<le> greatest"
  obtain c cs where d: "decimal n = c # cs" by (cases "decimal n") auto
  then have "c \<noteq> CHR ''+''" using decimal_digits [of n] by (auto simp: is_digit_def)
  with d \<open>n \<le> greatest\<close> decimal_digits [of n] read_decimal_decimal [of n] show ?thesis
    by (simp add: parse_unsigned_def)
qed

lemma strip_heads_none:
  "(\<And>w. w \<in> set ws \<Longrightarrow> w \<noteq> [] \<Longrightarrow> \<not> starts_with w s) \<Longrightarrow> strip_heads ws s = s"
  by (subst strip_heads.simps) (auto split: option.split simp: find_Some_iff)

text \<open>A text whose first and last characters are ASCII and not white space is its own trim.\<close>

definition plain_char :: "char \<Rightarrow> bool" where
  "plain_char c \<longleftrightarrow> 33 \<le> (of_char c :: nat) \<and> (of_char c :: nat) \<le> 126"

lemma white_heads:
  "w \<in> set white_spaces \<Longrightarrow> w \<noteq> [] \<and> \<not> plain_char (hd w) \<and> \<not> plain_char (last w)"
  unfolding white_spaces_def by (auto simp: byte_text_def plain_char_def)

lemma starts_with_hd: "starts_with w s \<Longrightarrow> w \<noteq> [] \<Longrightarrow> hd w = hd s"
  unfolding starts_with_def by (metis hd_take length_greater_0_conv)

lemma trim_plain:
  assumes "s \<noteq> []" and "plain_char (hd s)" and "plain_char (last s)"
  shows "trim s = s"
proof -
  have "strip_heads white_spaces s = s"
    by (rule strip_heads_none) (use assms(2) starts_with_hd white_heads in metis)
  moreover have "strip_heads (map rev white_spaces) (rev s) = rev s"
  proof (rule strip_heads_none)
    fix w assume "w \<in> set (map rev white_spaces)"
    then obtain v where v: "v \<in> set white_spaces" "w = rev v" by auto
    show "\<not> starts_with w (rev s)"
    proof
      assume "starts_with w (rev s)"
      then have "hd w = last s"
        using starts_with_hd [of w "rev s"] white_heads [OF v(1)] v(2) by (simp add: hd_rev)
      then show False using white_heads [OF v(1)] v(2) assms(3) by (simp add: hd_rev)
    qed
  qed
  ultimately show ?thesis by (simp add: trim_def trim_start_def trim_end_def)
qed

lemma digit_plain: "is_digit c \<Longrightarrow> plain_char c"
  by (auto simp: is_digit_def plain_char_def)

lemma trim_decimal [simp]: "trim (decimal n) = decimal n"
proof (rule trim_plain)
  have all: "\<forall>c \<in> set (decimal n). is_digit c" using decimal_digits by (simp add: list_all_iff)
  show "plain_char (hd (decimal n))" and "plain_char (last (decimal n))"
    using all digit_plain hd_in_set last_in_set decimal_nonempty by blast+
qed simp

end
