(* ===== verification/Plane_Role.thy ===== *)
theory Plane_Role
  imports Text
begin

text \<open>
  \<open>src/plane/role.rs\<close>: the security roles of a node's operate plane and the one check a call is
  admitted by. The roles are ordered by what they may do, as their numbers are, and cross the C
  boundary as those numbers. The names of the methods are \<open>src/plane/call.rs\<close>'s. The decision
  itself, \<open>authorize::plane::admit\<close>, is a function of another crate: an argument, with
  \<open>admits_by_rules\<close> the documented contract.
\<close>

section \<open>Who asks\<close>

text \<open>What the plane reads of a \<open>context::AuthenticatedIdentity\<close>: the name it goes by, the name of
  the mechanism it was presented by, and the gate's verdict.\<close>

datatype verified = Proven | Vouched_For | Claimed | Verdict_Refused

record identity =
  id_value :: string
  id_mechanism :: string
  id_verified :: verified

definition is_proven :: "identity \<Rightarrow> bool" where
  "is_proven i \<longleftrightarrow> id_verified i = Proven"

section \<open>Roles\<close>

datatype role = Observer | Operator | Developer

primrec role_number :: "role \<Rightarrow> nat" where
  "role_number Observer = 0"
| "role_number Operator = 1"
| "role_number Developer = 2"

lemma role_number_inject [simp]: "role_number a = role_number b \<longleftrightarrow> a = b"
  by (cases a; cases b) simp_all

instantiation role :: linorder
begin

definition less_eq_role :: "role \<Rightarrow> role \<Rightarrow> bool" where
  "a \<le> b \<longleftrightarrow> role_number a \<le> role_number b"

definition less_role :: "role \<Rightarrow> role \<Rightarrow> bool" where
  "a < b \<longleftrightarrow> role_number a < role_number b"

instance
proof
  fix a b :: role
  show "a \<le> b \<Longrightarrow> b \<le> a \<Longrightarrow> a = b"
    by (simp add: less_eq_role_def, blast?)
qed (auto simp: less_eq_role_def less_role_def)

end

lemma role_order [simp]:
  "Observer \<le> r" "r \<le> Developer" "Operator \<le> Developer" "\<not> Operator \<le> Observer"
  by (cases r; simp add: less_eq_role_def)+

definition role_named :: "string \<Rightarrow> role" where
  "role_named word =
     (let w = to_ascii_lowercase (trim word) in
      if w = ''operator'' then Operator else if w = ''developer'' then Developer else Observer)"

text \<open>\<open>Role as i32\<close>, and \<open>Role::from_wire\<close>.\<close>

definition role_wire :: "role \<Rightarrow> int" where
  "role_wire r = int (role_number r)"

definition role_from_wire :: "int \<Rightarrow> role option" where
  "role_from_wire n =
     (if n = 0 then Some Observer else if n = 1 then Some Operator
      else if n = 2 then Some Developer else None)"

primrec role_word :: "role \<Rightarrow> string" where
  "role_word Observer = ''Observer''"
| "role_word Operator = ''Operator''"
| "role_word Developer = ''Developer''"

definition em_dash :: string where
  "em_dash = byte_text [0xE2, 0x80, 0x94]"

primrec role_describe :: "role \<Rightarrow> string" where
  "role_describe Observer = ''watches '' @ em_dash @ '' monitoring only''"
| "role_describe Operator = ''also acts and configures''"
| "role_describe Developer = ''also builds''"

definition may_operate :: "role \<Rightarrow> bool" where
  "may_operate r \<longleftrightarrow> Operator \<le> r"

section \<open>The methods and their rules\<close>

definition m_publication :: string where "m_publication = ''Publication''"
definition m_wait :: string where "m_wait = ''Wait''"
definition m_act :: string where "m_act = ''Act''"
definition m_secret :: string where "m_secret = ''SetSecret''"
definition m_secrets :: string where "m_secrets = ''Secrets''"
definition m_nonces :: string where "m_nonces = ''Nonces''"
definition m_vouch :: string where "m_vouch = ''Vouch''"
definition m_unvouch :: string where "m_unvouch = ''Unvouch''"

lemmas method_defs = m_publication_def m_wait_def m_act_def m_secret_def m_secrets_def
  m_nonces_def m_vouch_def m_unvouch_def

record rule =
  ru_action :: string
  ru_method :: string
  ru_least :: nat

definition plane_rules :: "rule list" where
  "plane_rules =
     [\<lparr>ru_action = ''read'', ru_method = m_publication, ru_least = role_number Observer\<rparr>,
      \<lparr>ru_action = ''read'', ru_method = m_wait, ru_least = role_number Observer\<rparr>,
      \<lparr>ru_action = ''read'', ru_method = m_secrets, ru_least = role_number Operator\<rparr>,
      \<lparr>ru_action = ''act'', ru_method = m_act, ru_least = role_number Operator\<rparr>,
      \<lparr>ru_action = ''act'', ru_method = m_secret, ru_least = role_number Operator\<rparr>]"

definition method_action :: "string \<Rightarrow> string" where
  "method_action m = (if m \<in> {m_publication, m_wait, m_secrets} then ''read'' else ''act'')"

section \<open>The admission\<close>

type_synonym admit = "string option \<Rightarrow> nat \<Rightarrow> string \<times> string \<Rightarrow> rule list \<Rightarrow> string + unit"

definition nobody_refused :: "string \<Rightarrow> string \<Rightarrow> string" where
  "nobody_refused act target =
     ''REFUSED. Nothing proved who asks to '' @ act @ '' '' @ target @
     ''; an act is taken from the identity the connection proved '' @ em_dash @
     '' a client certificate, or on the node's local endpoint the account the operating system names '' @
     em_dash @ '' never from what the caller says, nor from where it connects (ADR-0009)''"

definition role_refused :: "string \<Rightarrow> role \<Rightarrow> string \<Rightarrow> string \<Rightarrow> string" where
  "role_refused who role act target =
     ''REFUSED. '' @ who @ '' may not '' @ act @ '' '' @ target @ '': '' @ who @ '' is '' @
     role_word role @ '', which '' @ role_describe role @ '' (ADR-0009)''"

definition asker :: "identity option \<Rightarrow> string option" where
  "asker caller = (case caller of Some c \<Rightarrow> if is_proven c then Some (id_value c) else None | None \<Rightarrow> None)"

definition admitted :: "admit \<Rightarrow> identity option \<Rightarrow> role \<Rightarrow> string \<Rightarrow> string \<times> string \<Rightarrow> string + unit" where
  "admitted admit caller role method asked =
     (let who = asker caller; (act, target) = asked in
      case (who, admit who (role_number role) (method_action method, method) plane_rules) of
        (_, Inr _) \<Rightarrow> Inr ()
      | (None, Inl _) \<Rightarrow> Inl (nobody_refused act target)
      | (Some who, Inl _) \<Rightarrow> Inl (role_refused who role act target))"

text \<open>What \<open>authorize::plane\<close> promises: an asker that is someone, holding at least the role of a
  rule that names its action and its method, and no other.\<close>

definition admits_by_rules :: "admit \<Rightarrow> bool" where
  "admits_by_rules admit \<longleftrightarrow> (\<forall>who role asked rules.
     admit who role asked rules = Inr () \<longleftrightarrow>
       who \<noteq> None \<and> (\<exists>r \<in> set rules. (ru_action r, ru_method r) = asked \<and> ru_least r \<le> role))"

text \<open>An admission that keeps that contract, for the witnesses.\<close>

definition sample_admit :: admit where
  "sample_admit who role asked rules =
     (if who \<noteq> None \<and> list_ex (\<lambda>r. (ru_action r, ru_method r) = asked \<and> ru_least r \<le> role) rules
      then Inr () else Inl ''not admitted'')"

lemma sample_admits: "admits_by_rules sample_admit"
  by (simp add: admits_by_rules_def sample_admit_def list_ex_iff)

section \<open>Lemmas\<close>

lemma methods_distinct:
  "distinct [m_publication, m_wait, m_act, m_secret, m_secrets, m_nonces, m_vouch, m_unvouch]"
  and methods_distinct_rev:
  "distinct [m_unvouch, m_vouch, m_nonces, m_secrets, m_secret, m_act, m_wait, m_publication]"
  by (simp_all add: method_defs)

lemmas methods_differ [simp] = methods_distinct [simplified] methods_distinct_rev [simplified]

interpretation role_code: wire_code role_wire role_from_wire
proof
  show "role_from_wire (role_wire x) = Some x" for x
    by (cases x) (simp_all add: role_from_wire_def role_wire_def)
  show "role_from_wire c = Some x \<Longrightarrow> role_wire x = c" for c x
    by (auto simp: role_from_wire_def role_wire_def split: if_splits)
qed

lemma asker_some: "asker caller = Some who \<longleftrightarrow> (\<exists>c. caller = Some c \<and> is_proven c \<and> id_value c = who)"
  by (cases caller) (auto simp: asker_def)

lemma asker_none: "asker caller = None \<longleftrightarrow> (\<forall>c. caller = Some c \<longrightarrow> \<not> is_proven c)"
  by (cases caller) (simp_all add: asker_def)

text \<open>The rule of each method, read off the table.\<close>

definition method_least :: "string \<Rightarrow> role option" where
  "method_least m =
     (if m \<in> {m_publication, m_wait} then Some Observer
      else if m \<in> {m_act, m_secret, m_secrets} then Some Operator else None)"

lemma rules_least:
  "(\<exists>r \<in> set plane_rules. (ru_action r, ru_method r) = (method_action m, m) \<and> ru_least r \<le> role_number role)
     \<longleftrightarrow> (\<exists>least. method_least m = Some least \<and> least \<le> role)"
proof -
  have "m \<notin> {m_publication, m_wait, m_act, m_secret, m_secrets} \<or>
      m = m_publication \<or> m = m_wait \<or> m = m_act \<or> m = m_secret \<or> m = m_secrets" by blast
  then show ?thesis
    by (elim disjE)
      (simp_all add: plane_rules_def method_action_def method_least_def less_eq_role_def, blast?)
qed

lemma admitted_ok_iff:
  assumes "admits_by_rules admit"
  shows "admitted admit caller role method asked = Inr () \<longleftrightarrow>
    asker caller \<noteq> None \<and> (\<exists>least. method_least method = Some least \<and> least \<le> role)"
proof -
  have "admitted admit caller role method asked = Inr () \<longleftrightarrow>
      admit (asker caller) (role_number role) (method_action method, method) plane_rules = Inr ()"
    by (cases asked; cases "asker caller";
        cases "admit (asker caller) (role_number role) (method_action method, method) plane_rules")
      (simp_all add: admitted_def)
  with assms rules_least show ?thesis by (simp add: admits_by_rules_def)
qed

section \<open>Properties\<close>

text \<open>A call is admitted exactly where the gate called its caller proven and the role the
  caller holds reaches the method's: Observer for the publication and its wait, Operator for an
  act, a secret set and the secrets' listing, and no role for any other method. A refusal names
  the asker only where one was proven.\<close>

theorem admitted_exactly:
  assumes "admits_by_rules admit"
  shows "(admitted admit caller role method asked = Inr () \<longleftrightarrow>
      (\<exists>c. caller = Some c \<and> is_proven c) \<and>
      (method \<in> {m_publication, m_wait} \<or>
       method \<in> {m_act, m_secret, m_secrets} \<and> may_operate role)) \<and>
    (asker caller = None \<longrightarrow>
      admitted admit caller role method asked = Inl (nobody_refused (fst asked) (snd asked)))"
proof -
  have m: "(\<exists>least. method_least method = Some least \<and> least \<le> role) \<longleftrightarrow>
      method \<in> {m_publication, m_wait} \<or>
      method \<in> {m_act, m_secret, m_secrets} \<and> may_operate role"
    by (simp add: method_least_def may_operate_def)
  have "admitted admit caller role method asked = Inl (nobody_refused (fst asked) (snd asked))"
    if none: "asker caller = None"
  proof -
    let ?said = "admit None (role_number role) (method_action method, method) plane_rules"
    have refused: "?said \<noteq> Inr ()" using assms by (simp add: admits_by_rules_def)
    show ?thesis
    proof (cases ?said)
      case (Inl why)
      with none show ?thesis by (simp add: admitted_def split_beta)
    next
      case (Inr u)
      with refused show ?thesis by (cases u) simp
    qed
  qed
  moreover have "asker caller \<noteq> None \<longleftrightarrow> (\<exists>c. caller = Some c \<and> is_proven c)"
    by (simp add: asker_none)
  ultimately show ?thesis using admitted_ok_iff [OF assms] m by simp
qed

abbreviation sample_caller :: "verified \<Rightarrow> identity" where
  "sample_caller v \<equiv> \<lparr>id_value = ''CN=a'', id_mechanism = ''mutual-tls'', id_verified = v\<rparr>"

theorem admitted_exactly_witness:
  "admitted sample_admit (Some (sample_caller Proven)) Operator m_act (''pause'', ''x'') = Inr () \<and>
   admitted sample_admit (Some (sample_caller Proven)) Observer m_act (''pause'', ''x'') \<noteq> Inr () \<and>
   admitted sample_admit (Some (sample_caller Claimed)) Developer m_act (''pause'', ''x'') =
     Inl (nobody_refused ''pause'' ''x'')"
  using admitted_exactly [OF sample_admits, of "Some (sample_caller Proven)" Operator m_act "(''pause'', ''x'')"]
    admitted_exactly [OF sample_admits, of "Some (sample_caller Proven)" Observer m_act "(''pause'', ''x'')"]
    admitted_exactly [OF sample_admits, of "Some (sample_caller Claimed)" Developer m_act "(''pause'', ''x'')"]
  by (simp add: is_proven_def may_operate_def asker_def)

end
