(* ===== verification/Plane_Call.thy ===== *)
theory Plane_Call
  imports Plane_Role
begin

text \<open>
  \<open>src/plane/call.rs\<close> and the address of \<open>src/plane/line.rs\<close>: how a surface and a node's operate
  listener write a call and its answer, over gRPC with JSON messages. The frames, the JSON text,
  the percent encoding and a request's headers are other crates': the fields of \<open>call_env\<close>, whose
  documented inverses are \<open>call_laws\<close>. A JSON value is of a type the model does not look into.
\<close>

section \<open>Requests and responses\<close>

record request =
  rq_method :: string
  rq_path :: string
  rq_headers :: "(string \<times> string) list"
  rq_body :: string

record response =
  rs_status :: nat
  rs_headers :: "(string \<times> string) list"
  rs_body :: string
  rs_trailers :: "(string \<times> string) list"

record 'j call_env =
  ce_frame :: "string \<Rightarrow> string + string"
  ce_unframe :: "string \<Rightarrow> string + string \<times> string"
  ce_to_text :: "'j \<Rightarrow> string"
  ce_from_text :: "string \<Rightarrow> string + 'j"
  ce_header_value :: "(string \<times> string) list \<Rightarrow> string \<Rightarrow> string option"
  ce_code :: "string \<Rightarrow> nat"
  ce_encode :: "string \<Rightarrow> string"
  ce_decode :: "string \<Rightarrow> string"
  ce_content_type :: string
  ce_status :: string
  ce_message :: string

definition service :: string where "service = ''xmip.operate.v1.Operate''"
definition caller_header :: string where "caller_header = ''xmip-caller''"
definition unknown_caller :: string where
  "unknown_caller = ''REFUSED. Nothing proved who asks: the node holds no caller by that handle for this relay''"
definition refused_call :: string where "refused_call = ''the node refused the call''"
definition longest_wait :: duration where "longest_wait = 25 * 10 ^ 9"

definition call_path :: "string \<Rightarrow> string" where
  "call_path method = ''/'' @ service @ ''/'' @ method"

definition call_method :: "string \<Rightarrow> string option" where
  "call_method path =
     Option.bind (strip_prefix ''/'' path) (\<lambda>rest.
     Option.bind (strip_prefix service rest) (\<lambda>rest. strip_prefix ''/'' rest))"

definition call_request :: "'j call_env \<Rightarrow> string \<Rightarrow> string \<Rightarrow> 'j \<Rightarrow> u64 option \<Rightarrow> string + request" where
  "call_request env authority method message caller =
     (case ce_frame env (ce_to_text env message) of
        Inl why \<Rightarrow> Inl why
      | Inr body \<Rightarrow> Inr
          \<lparr>rq_method = ''POST'', rq_path = call_path method,
           rq_headers = [(''host'', authority), (''content-type'', ce_content_type env), (''te'', ''trailers'')] @
             (case caller of None \<Rightarrow> [] | Some h \<Rightarrow> [(caller_header, decimal (unat h))]),
           rq_body = body\<rparr>)"

definition caller_of :: "'j call_env \<Rightarrow> request \<Rightarrow> u64 option" where
  "caller_of env r =
     map_option (\<lambda>value. case parse_unsigned (2 ^ 64 - 1) (trim value) of None \<Rightarrow> 0 | Some n \<Rightarrow> of_nat n)
       (ce_header_value env (rq_headers r) caller_header)"

definition call_message :: "'j call_env \<Rightarrow> request \<Rightarrow> string + 'j" where
  "call_message env r =
     (case ce_unframe env (rq_body r) of
        Inl why \<Rightarrow> Inl why
      | Inr (message, _) \<Rightarrow>
         (case ce_from_text env message of
            Inl error \<Rightarrow> Inl (''the message is not JSON: '' @ error) | Inr v \<Rightarrow> Inr v))"

definition call_refusal :: "'j call_env \<Rightarrow> string \<Rightarrow> string \<Rightarrow> response" where
  "call_refusal env name why =
     \<lparr>rs_status = 200, rs_headers = [(''content-type'', ce_content_type env)], rs_body = [],
      rs_trailers = [(ce_status env, decimal (ce_code env name)), (ce_message env, ce_encode env why)]\<rparr>"

definition call_answer :: "'j call_env \<Rightarrow> 'j \<Rightarrow> response" where
  "call_answer env message =
     (case ce_frame env (ce_to_text env message) of
        Inr body \<Rightarrow> \<lparr>rs_status = 200, rs_headers = [(''content-type'', ce_content_type env)],
                    rs_body = body, rs_trailers = [(ce_status env, ''0'')]\<rparr>
      | Inl failed \<Rightarrow> call_refusal env ''INTERNAL'' failed)"

definition response_field :: "response \<Rightarrow> string \<Rightarrow> string option" where
  "response_field r name =
     map_option snd (find (\<lambda>f. eq_ignore_ascii_case (fst f) name) (rs_trailers r @ rs_headers r))"

definition call_answered :: "'j call_env \<Rightarrow> response \<Rightarrow> string + 'j" where
  "call_answered env r =
     (if rs_status r \<noteq> 200 then Inl (''the node answered HTTP '' @ decimal (rs_status r))
      else
        let status = (case response_field r (ce_status env) of None \<Rightarrow> ''2'' | Some s \<Rightarrow> s) in
        if status \<noteq> ''0'' then
          let said_why = (case response_field r (ce_message env) of None \<Rightarrow> '''' | Some m \<Rightarrow> ce_decode env m) in
          Inl (refused_call @ '' ('' @ status @ ''): '' @ said_why)
        else case ce_unframe env (rs_body r) of
               Inl why \<Rightarrow> Inl why
             | Inr (message, _) \<Rightarrow>
                (case ce_from_text env message of
                   Inl error \<Rightarrow> Inl (''the answer is not JSON: '' @ error) | Inr v \<Rightarrow> Inr v))"

section \<open>The host of an operate address\<close>

definition host_of :: "string \<Rightarrow> string + string" where
  "host_of address =
     (let no_address = Inl (address @ '' is no operate address; it is host:port'') in
      case rsplit_once (CHR '':'') address of
        None \<Rightarrow> no_address
      | Some (host, port) \<Rightarrow>
          if host = [] \<or> CHR ''/'' \<in> set host \<or> parse_unsigned (2 ^ 16 - 1) port = None then no_address
          else Inr (trim_end_char (CHR '']'') (trim_start_char (CHR ''['') host)))"

section \<open>What the codecs promise\<close>

text \<open>A frame is read back as it was written, JSON text as its value and a percent encoding as its
  text; a header that is there once is found; the gRPC field names differ, with no regard to case;
  and only \<open>OK\<close> has the code 0.\<close>

definition call_laws :: "'j call_env \<Rightarrow> bool" where
  "call_laws env \<longleftrightarrow>
     (\<forall>b f. ce_frame env b = Inr f \<longrightarrow> (\<exists>rest. ce_unframe env f = Inr (b, rest))) \<and>
     (\<forall>v. ce_from_text env (ce_to_text env v) = Inr v) \<and>
     (\<forall>s. ce_decode env (ce_encode env s) = s) \<and>
     (\<forall>hs name v. name \<notin> fst ` set hs \<longrightarrow>
        ce_header_value env (hs @ [(name, v)]) name = Some v \<and> ce_header_value env hs name = None) \<and>
     \<not> eq_ignore_ascii_case (ce_status env) (ce_message env) \<and>
     (\<forall>name. ce_code env name = 0 \<longrightarrow> name = ''OK'')"

lemma decimal_0 [simp]: "decimal 0 = ''0''"
  by (subst decimal.simps) code_simp

lemma decimal_eq_0: "decimal n = ''0'' \<longleftrightarrow> n = 0"
  using decimal_inject [of n 0] by simp

lemma eq_ignore_refl [simp]: "eq_ignore_ascii_case s s"
  by (simp add: eq_ignore_ascii_case_def)

lemma call_method_path [simp]: "call_method (call_path m) = Some m"
proof -
  have "strip_prefix ''/'' (call_path m) = Some (service @ ''/'' @ m)"
    unfolding call_path_def by (rule strip_prefix_append)
  moreover have "strip_prefix ''/'' (''/'' @ m) = Some m" by (rule strip_prefix_append)
  ultimately show ?thesis by (simp add: call_method_def)
qed

lemma call_method_iff: "call_method p = Some m \<longleftrightarrow> p = call_path m"
  by (auto simp: call_method_def call_path_def strip_prefix_iff bind_eq_Some_conv)

lemma caller_of_request:
  assumes "call_laws env" and "call_request env authority method message caller = Inr r"
  shows "caller_of env r = caller"
proof -
  let ?hs = "[(''host'', authority), (''content-type'', ce_content_type env), (''te'', ''trailers'')]"
  have new: "caller_header \<notin> fst ` set ?hs" by (simp add: caller_header_def)
  have r: "rq_headers r = ?hs @ (case caller of None \<Rightarrow> [] | Some h \<Rightarrow> [(caller_header, decimal (unat h))])"
    using assms(2) by (auto simp: call_request_def split: sum.splits)
  have found: "ce_header_value env (?hs @ [(caller_header, v)]) caller_header = Some v \<and>
      ce_header_value env ?hs caller_header = None" for v
    using assms(1) new unfolding call_laws_def by blast
  show ?thesis
  proof (cases caller)
    case None
    then show ?thesis using found r by (simp add: caller_of_def)
  next
    case (Some h)
    have "unat h \<le> 2 ^ 64 - 1" using unat_u64_less [of h] by simp
    from parse_decimal [OF this] show ?thesis using found r Some by (simp add: caller_of_def)
  qed
qed

section \<open>Properties\<close>


text \<open>An environment that keeps the laws, with text for JSON.\<close>

definition sample_call_env :: "string call_env" where
  "sample_call_env = \<lparr>ce_frame = Inr, ce_unframe = (\<lambda>b. Inr (b, '''')), ce_to_text = id, ce_from_text = Inr,
     ce_header_value = (\<lambda>hs name. map_option snd (find (\<lambda>h. fst h = name) hs)),
     ce_code = (\<lambda>name. if name = ''OK'' then 0 else 7), ce_encode = id, ce_decode = id,
     ce_content_type = ''json'', ce_status = ''grpc-status'', ce_message = ''grpc-message''\<rparr>"

lemma find_last: "name \<notin> fst ` set hs \<Longrightarrow> find (\<lambda>h. fst h = name) (hs @ [(name, v)]) = Some (name, v)"
  by (induction hs) auto

lemma find_absent: "name \<notin> fst ` set hs \<Longrightarrow> find (\<lambda>h. fst h = name) hs = None"
  by (auto simp: find_None_iff rev_image_eqI)

lemma sample_call_laws: "call_laws sample_call_env"
  by (simp add: call_laws_def sample_call_env_def find_last find_absent eq_ignore_ascii_case_def
      to_ascii_lowercase_def ascii_lower_def)


end
