(* ===== verification/Plane_Held.thy ===== *)
theory Plane_Held
  imports Plane_Role
begin

text \<open>
  \<open>src/plane/held.rs\<close> and \<open>src/plane/handle.rs\<close>: the callers a process proved, each named to its
  holder by a handle. The registry behind the mutex is a table of handles; what the handles share
  is a \<open>Proof\<close> behind an \<open>Arc\<close>, so the proofs are an explicit store by address, and an address is
  let go of, its \<open>Drop\<close> run, when neither a handle nor a clone handed out refers to it any more.
  Dropping a proof tells every node that vouched for the caller; \<open>rg_told\<close> is what was told, in
  order, and \<open>rg_issued\<close> every vouch there was. A \<open>HashMap\<close> is the list of its entries. Handles are
  drawn at random until one is free; the draws are an argument, and running out of them is
  \<open>None\<close>.
\<close>

section \<open>Handles and provers\<close>

definition held_most :: nat where "held_most = 65536"

type_synonym prover = u64

definition prover_next :: "u64 \<Rightarrow> prover \<times> u64" where
  "prover_next counter = (counter, counter + 1)"

definition drawn :: "(u64 \<Rightarrow> bool) \<Rightarrow> u64 list \<Rightarrow> u64 option" where
  "drawn is_taken draws = find (\<lambda>d. d \<noteq> 0 \<and> \<not> is_taken d) draws"

section \<open>Proofs\<close>

type_synonym address = nat

record vouch =
  vo_at :: u64
  vo_handle :: u64

record caller_proof =
  pf_identity :: identity
  pf_leaf :: "string option"
  pf_vouched :: "vouch list"
  pf_refusals :: "(u64 \<times> string) list"

definition vouched_at :: "u64 \<Rightarrow> caller_proof \<Rightarrow> u64 option" where
  "vouched_at at pf = map_option vo_handle (find (\<lambda>v. vo_at v = at) (pf_vouched pf))"

text \<open>\<open>Vec::swap_remove\<close>: the last element takes the place of the one taken out.\<close>

definition swap_remove :: "nat \<Rightarrow> 'a list \<Rightarrow> 'a list" where
  "swap_remove i xs =
     (if i + 1 < length xs then (butlast xs)[i := last xs] else butlast xs)"

fun position :: "('a \<Rightarrow> bool) \<Rightarrow> 'a list \<Rightarrow> nat option" where
  "position P [] = None"
| "position P (x # xs) = (if P x then Some 0 else map_option Suc (position P xs))"

text \<open>\<open>Proof::vouched\<close>: the vouch kept, and the one it replaced, whose node is told.\<close>

definition proof_vouched :: "vouch \<Rightarrow> caller_proof \<Rightarrow> caller_proof \<times> vouch list" where
  "proof_vouched v pf =
     (case position (\<lambda>x. vo_at x = vo_at v) (pf_vouched pf) of
        None \<Rightarrow> (pf\<lparr>pf_vouched := pf_vouched pf @ [v]\<rparr>, [])
      | Some i \<Rightarrow> (pf\<lparr>pf_vouched := swap_remove i (pf_vouched pf) @ [v]\<rparr>, [pf_vouched pf ! i]))"

definition proof_refused :: "u64 \<Rightarrow> string \<Rightarrow> caller_proof \<Rightarrow> caller_proof" where
  "proof_refused at why pf = pf\<lparr>pf_refusals := pf_refusals pf @ [(at, why)]\<rparr>"

definition proof_refusal :: "u64 \<Rightarrow> caller_proof \<Rightarrow> string option" where
  "proof_refusal at pf = map_option snd (find (\<lambda>r. fst r = at) (pf_refusals pf))"

section \<open>The registry\<close>

record held_caller =
  hc_proof :: address
  hc_until :: "int option"
  hc_by :: "prover option"

definition held_live :: "int \<Rightarrow> held_caller \<Rightarrow> bool" where
  "held_live now c \<longleftrightarrow> (case hc_until c of None \<Rightarrow> True | Some until \<Rightarrow> now < until)"

record registry =
  rg_callers :: "(u64 \<times> held_caller) list"
  rg_revoked :: "prover set"
  rg_proofs :: "(address \<times> caller_proof) list"
  rg_out :: "address list"
  rg_next :: address
  rg_issued :: "vouch list"
  rg_told :: "vouch list"

definition registry_new :: registry where
  "registry_new = \<lparr>rg_callers = [], rg_revoked = {}, rg_proofs = [], rg_out = [], rg_next = 0,
     rg_issued = [], rg_told = []\<rparr>"

definition referenced :: "address \<Rightarrow> registry \<Rightarrow> bool" where
  "referenced p st \<longleftrightarrow> p \<in> set (map (hc_proof \<circ> snd) (rg_callers st)) \<or> p \<in> set (rg_out st)"

text \<open>One reference to an address given up: the last runs \<open>Proof::drop\<close>.\<close>

definition let_go :: "address \<Rightarrow> registry \<Rightarrow> registry" where
  "let_go p st =
     (if referenced p st then st
      else case map_of (rg_proofs st) p of
             None \<Rightarrow> st
           | Some pf \<Rightarrow> st\<lparr>rg_proofs := filter (\<lambda>e. fst e \<noteq> p) (rg_proofs st),
                          rg_told := rg_told st @ pf_vouched pf\<rparr>)"

text \<open>\<open>HashMap::retain\<close> on the callers, the proofs of those not kept let go of after the lock.\<close>

definition registry_retain :: "(u64 \<times> held_caller \<Rightarrow> bool) \<Rightarrow> registry \<Rightarrow> registry" where
  "registry_retain keep st =
     fold let_go (map (hc_proof \<circ> snd) (filter (\<lambda>e. \<not> keep e) (rg_callers st)))
       (st\<lparr>rg_callers := filter keep (rg_callers st)\<rparr>)"

text \<open>Past \<open>MOST\<close>, those whose time is over are let go.\<close>

definition registry_room :: "int \<Rightarrow> registry \<Rightarrow> registry" where
  "registry_room now st =
     (if held_most \<le> length (rg_callers st)
      then registry_retain (\<lambda>e. held_live now (snd e)) st else st)"

definition held_again :: "int \<Rightarrow> u64 list \<Rightarrow> address \<Rightarrow> int option \<Rightarrow> prover option \<Rightarrow> registry \<Rightarrow> (u64 \<times> registry) option" where
  "held_again now draws p until by st =
     (if (case until of Some u \<Rightarrow> u \<le> now | None \<Rightarrow> False) then Some (0, st)
      else if (case by of Some b \<Rightarrow> b \<in> rg_revoked st | None \<Rightarrow> False) then Some (0, st)
      else
        let st = registry_room now st in
        if held_most \<le> length (rg_callers st) then Some (0, st)
        else case drawn (\<lambda>h. h \<in> fst ` set (rg_callers st)) draws of
               None \<Rightarrow> None
             | Some h \<Rightarrow> Some (h, st\<lparr>rg_callers :=
                 (h, \<lparr>hc_proof = p, hc_until = until, hc_by = by\<rparr>) # rg_callers st\<rparr>))"

text \<open>The \<open>Arc\<close> handed to \<open>held_again\<close> is a reference of its own until it is stored or dropped: it
  stands among \<open>rg_out\<close> meanwhile.\<close>

definition with_arc :: "address \<Rightarrow> (registry \<Rightarrow> (u64 \<times> registry) option) \<Rightarrow> registry \<Rightarrow> (u64 \<times> registry) option" where
  "with_arc p f st =
     map_option (\<lambda>(h, st). (h, let_go p (st\<lparr>rg_out := remove1 p (rg_out st)\<rparr>)))
       (f (st\<lparr>rg_out := p # rg_out st\<rparr>))"

definition hold :: "int \<Rightarrow> u64 list \<Rightarrow> identity \<Rightarrow> int option \<Rightarrow> prover option \<Rightarrow> string option \<Rightarrow> registry \<Rightarrow> (u64 \<times> registry) option" where
  "hold now draws i until by leaf st =
     (if \<not> is_proven i then Some (0, st)
      else
        let p = rg_next st;
            pf = \<lparr>pf_identity = i, pf_leaf = leaf, pf_vouched = [], pf_refusals = []\<rparr> in
        with_arc p (held_again now draws p until by)
          (st\<lparr>rg_proofs := (p, pf) # rg_proofs st, rg_next := p + 1\<rparr>))"

text \<open>\<open>proof\<close>: the address cloned for the caller of the function, which drops it when it is done.\<close>

definition held_proof :: "int \<Rightarrow> u64 \<Rightarrow> registry \<Rightarrow> address option \<times> registry" where
  "held_proof now h st =
     (if h = 0 then (None, st)
      else case map_of (rg_callers st) h of
             None \<Rightarrow> (None, st)
           | Some c \<Rightarrow>
              if held_live now c then (Some (hc_proof c), st\<lparr>rg_out := hc_proof c # rg_out st\<rparr>)
              else (None, registry_retain (\<lambda>e. fst e \<noteq> h) st))"

definition proof_dropped :: "address \<Rightarrow> registry \<Rightarrow> registry" where
  "proof_dropped p st = let_go p (st\<lparr>rg_out := remove1 p (rg_out st)\<rparr>)"

definition held_proven :: "int \<Rightarrow> u64 \<Rightarrow> registry \<Rightarrow> identity option \<times> registry" where
  "held_proven now h st =
     (case held_proof now h st of
        (None, st) \<Rightarrow> (None, st)
      | (Some p, st) \<Rightarrow> (map_option pf_identity (map_of (rg_proofs st) p), proof_dropped p st))"

definition again :: "int \<Rightarrow> u64 list \<Rightarrow> u64 \<Rightarrow> registry \<Rightarrow> (u64 \<times> registry) option" where
  "again now draws h st =
     (case map_of (rg_callers st) h of
        None \<Rightarrow> Some (0, st)
      | Some c \<Rightarrow>
          if held_live now c
          then with_arc (hc_proof c) (held_again now draws (hc_proof c) (hc_until c) (hc_by c)) st
          else Some (0, st))"

definition release :: "u64 \<Rightarrow> registry \<Rightarrow> bool \<times> registry" where
  "release h st = (h \<in> fst ` set (rg_callers st), registry_retain (\<lambda>e. fst e \<noteq> h) st)"

definition revoke :: "prover \<Rightarrow> registry \<Rightarrow> registry" where
  "revoke by st =
     registry_retain (\<lambda>e. hc_by (snd e) \<noteq> Some by) (st\<lparr>rg_revoked := insert by (rg_revoked st)\<rparr>)"

text \<open>A vouch or a refusal kept with the proof at an address that is held or out.\<close>

definition registry_vouched :: "address \<Rightarrow> vouch \<Rightarrow> registry \<Rightarrow> registry" where
  "registry_vouched p v st =
     (case map_of (rg_proofs st) p of
        None \<Rightarrow> st
      | Some pf \<Rightarrow>
         (case proof_vouched v pf of
            (pf', replaced) \<Rightarrow>
              st\<lparr>rg_proofs := map (\<lambda>e. if fst e = p then (p, pf') else e) (rg_proofs st),
                 rg_issued := rg_issued st @ [v], rg_told := rg_told st @ replaced\<rparr>))"

definition registry_refused :: "address \<Rightarrow> u64 \<Rightarrow> string \<Rightarrow> registry \<Rightarrow> registry" where
  "registry_refused p at why st =
     st\<lparr>rg_proofs := map (\<lambda>e. if fst e = p then (p, proof_refused at why (snd e)) else e) (rg_proofs st)\<rparr>"

text \<open>The check a screen's act is admitted by (\<open>role::act_admitted\<close>).\<close>

definition act_admitted :: "admit \<Rightarrow> int \<Rightarrow> u64 \<Rightarrow> role \<Rightarrow> string \<times> string \<Rightarrow> registry \<Rightarrow> (string + unit) \<times> registry" where
  "act_admitted admit now h role asked st =
     (case held_proven now h st of
        (caller, st) \<Rightarrow> (admitted admit caller role m_act asked, st))"

section \<open>Steps\<close>

text \<open>One call, atomic under the registry's lock, with the clock reading \<open>now\<close>.\<close>

inductive registry_step :: "int \<Rightarrow> registry \<Rightarrow> registry \<Rightarrow> bool" for now where
  holds: "hold now draws i until by leaf s = Some (h, t) \<Longrightarrow> registry_step now s t"
| agains: "again now draws h0 s = Some (h, t) \<Longrightarrow> registry_step now s t"
| reads: "held_proof now h s = (found, t) \<Longrightarrow> registry_step now s t"
| drops: "p \<in> set (rg_out s) \<Longrightarrow> registry_step now s (proof_dropped p s)"
| vouches: "p \<in> set (rg_out s) \<Longrightarrow> registry_step now s (registry_vouched p v s)"
| refuses: "p \<in> set (rg_out s) \<Longrightarrow> registry_step now s (registry_refused p at why s)"
| releases: "release h s = (was, t) \<Longrightarrow> registry_step now s t"
| revokes: "registry_step now s (revoke by s)"

inductive_cases registry_stepE: "registry_step now s t"

text \<open>What the registry promises, with no table of proofs: who each handle is, until when and by
  what proved, and the provers revoked. A handle is given to a proven caller, shared as it is,
  and ends when it is released, when its time is over, or with what proved it.\<close>

type_synonym session = "identity \<times> int option \<times> prover option"

record sessions =
  ss_open :: "u64 \<rightharpoonup> session"
  ss_revoked :: "prover set"

definition session_live :: "int \<Rightarrow> session \<Rightarrow> bool" where
  "session_live now s \<longleftrightarrow> (case s of (i, until, by) \<Rightarrow> (case until of None \<Rightarrow> True | Some u \<Rightarrow> now < u))"

definition kept_sessions :: "(u64 \<Rightarrow> session \<Rightarrow> bool) \<Rightarrow> (u64 \<rightharpoonup> session) \<Rightarrow> (u64 \<rightharpoonup> session)" where
  "kept_sessions keep m = (\<lambda>h. case m h of None \<Rightarrow> None | Some s \<Rightarrow> if keep h s then Some s else None)"

inductive session_step :: "int \<Rightarrow> sessions \<Rightarrow> sessions \<Rightarrow> bool" for now where
  opens: "is_proven i \<Longrightarrow> h \<noteq> 0 \<Longrightarrow> ss_open S h = None \<Longrightarrow> session_live now (i, until, by) \<Longrightarrow>
    (\<forall>b \<in> ss_revoked S. by \<noteq> Some b) \<Longrightarrow>
    session_step now S (S\<lparr>ss_open := (ss_open S)(h \<mapsto> (i, until, by))\<rparr>)"
| shares: "ss_open S h0 = Some s \<Longrightarrow> session_live now s \<Longrightarrow> h \<noteq> 0 \<Longrightarrow> ss_open S h = None \<Longrightarrow>
    session_step now S (S\<lparr>ss_open := (ss_open S)(h \<mapsto> s)\<rparr>)"
| ends: "session_step now S (S\<lparr>ss_open := (ss_open S)(h := None)\<rparr>)"
| lapses: "session_step now S (S\<lparr>ss_open := kept_sessions (\<lambda>_. session_live now) (ss_open S)\<rparr>)"
| session_revokes: "session_step now S
    (S\<lparr>ss_open := kept_sessions (\<lambda>_ (i, until, by'). by' \<noteq> Some by) (ss_open S),
       ss_revoked := insert by (ss_revoked S)\<rparr>)"

definition sessions_of :: "registry \<Rightarrow> sessions" where
  "sessions_of st =
     \<lparr>ss_open = (\<lambda>h. Option.bind (map_of (rg_callers st) h) (\<lambda>c.
        map_option (\<lambda>pf. (pf_identity pf, hc_until c, hc_by c)) (map_of (rg_proofs st) (hc_proof c)))),
      ss_revoked = rg_revoked st\<rparr>"

section \<open>The invariant\<close>

definition callers_ok :: "registry \<Rightarrow> bool" where [inv_defs]:
  "callers_ok st \<longleftrightarrow> distinct (map fst (rg_callers st)) \<and> length (rg_callers st) \<le> held_most \<and>
     0 \<notin> fst ` set (rg_callers st) \<and>
     (\<forall>e \<in> set (rg_callers st). \<forall>b \<in> rg_revoked st. hc_by (snd e) \<noteq> Some b)"

text \<open>The store: every address referred to is kept, and every address kept is referred to, those
  of \<open>ps\<close> about to be let go of apart.\<close>

definition store_ok :: "address list \<Rightarrow> registry \<Rightarrow> bool" where [inv_defs]:
  "store_ok ps st \<longleftrightarrow> distinct (map fst (rg_proofs st)) \<and>
     (\<forall>e \<in> set (rg_proofs st). fst e < rg_next st \<and> is_proven (pf_identity (snd e)) \<and>
        distinct (map vo_at (pf_vouched (snd e)))) \<and>
     (\<forall>p. referenced p st \<longrightarrow> p \<in> fst ` set (rg_proofs st)) \<and>
     (\<forall>p \<in> fst ` set (rg_proofs st). referenced p st \<or> p \<in> set ps)"

definition told_ok :: "registry \<Rightarrow> bool" where [inv_defs]:
  "told_ok st \<longleftrightarrow> mset (rg_issued st) =
     mset (rg_told st) + mset (concat (map (pf_vouched \<circ> snd) (rg_proofs st)))"

definition registry_ok :: "registry \<Rightarrow> bool" where
  "registry_ok st \<longleftrightarrow> callers_ok st \<and> store_ok [] st \<and> told_ok st"

section \<open>Tables and vectors\<close>

lemma concat_filter_out:
  assumes "distinct (map fst xs)" and "map_of xs p = Some a"
  shows "mset (concat (map (g \<circ> snd) xs)) =
    mset (g a) + mset (concat (map (g \<circ> snd) (filter (\<lambda>e. fst e \<noteq> p) xs)))"
  using assms
proof (induction xs)
  case (Cons x xs)
  show ?case
  proof (cases "fst x = p")
    case True
    then have "filter (\<lambda>e. fst e \<noteq> p) xs = xs" by (intro filter_True) (use Cons.prems(1) in \<open>auto simp: image_iff\<close>)
    then show ?thesis using True Cons.prems(2) by (cases x) simp
  next
    case False
    then show ?thesis using Cons by (cases x) (auto simp: ac_simps)
  qed
qed simp

lemma concat_map_entry:
  assumes "distinct (map fst xs)" and "map_of xs p = Some a"
  shows "mset (concat (map (g \<circ> snd) (map (\<lambda>e. if fst e = p then (p, b) else e) xs))) + mset (g a) =
    mset (concat (map (g \<circ> snd) xs)) + mset (g b)"
  using assms
proof (induction xs)
  case (Cons x xs)
  show ?case
  proof (cases "fst x = p")
    case True
    then have "map (\<lambda>e. if fst e = p then (p, b) else e) xs = xs"
      by (intro map_idI) (use Cons.prems(1) in \<open>auto simp: image_iff\<close>)
    then show ?thesis using True Cons.prems(2) by (cases x) (simp add: ac_simps)
  next
    case False
    then show ?thesis using Cons by (cases x) (auto simp: ac_simps)
  qed
qed simp

lemma map_fst_entry [simp]:
  "map (fst \<circ> (\<lambda>e. if fst e = p then (p, f e) else e)) xs = map fst xs"
  by auto

lemma position_some: "position P xs = Some i \<Longrightarrow> i < length xs \<and> P (xs ! i)"
  by (induction xs arbitrary: i) (auto split: if_splits)

lemma position_none: "position P xs = None \<longleftrightarrow> (\<forall>x \<in> set xs. \<not> P x)"
  by (induction xs) auto

lemma swap_remove_mset: "i < length xs \<Longrightarrow> mset (xs ! i # swap_remove i xs) = mset xs"
proof -
  assume i: "i < length xs"
  then have xs: "xs = butlast xs @ [last xs]" by (auto intro: append_butlast_last_id [symmetric])
  show ?thesis
  proof (cases "i + 1 < length xs")
    case True
    then have b: "i < length (butlast xs)" by simp
    have "mset ((butlast xs)[i := last xs]) = add_mset (last xs) (mset (butlast xs) - {#butlast xs ! i#})"
      by (rule mset_update [OF b])
    moreover have "butlast xs ! i = xs ! i" using b by (rule nth_butlast)
    moreover have "xs ! i \<in># mset (butlast xs)" using b calculation(2) by (metis nth_mem set_mset_mset)
    moreover have "mset xs = add_mset (last xs) (mset (butlast xs))" by (subst xs) simp
    ultimately show ?thesis using True by (simp add: swap_remove_def)
  next
    case False
    then have "i = length xs - 1" and "xs \<noteq> []" using i by auto
    then have "xs ! i = last xs" by (simp add: last_conv_nth)
    then show ?thesis using False by (subst (3) xs) (simp add: swap_remove_def)
  qed
qed

lemma proof_vouched_mset:
  assumes "proof_vouched v pf = (pf', replaced)"
  shows "mset (pf_vouched pf') + mset replaced = mset (pf_vouched pf) + {#v#}"
proof (cases "position (\<lambda>x. vo_at x = vo_at v) (pf_vouched pf)")
  case None
  then show ?thesis using assms by (auto simp: proof_vouched_def)
next
  case (Some i)
  then show ?thesis using assms swap_remove_mset [of i "pf_vouched pf"] position_some [OF Some]
    by (auto simp: proof_vouched_def)
qed

lemma proof_vouched_distinct:
  assumes "proof_vouched v pf = (pf', replaced)" and "distinct (map vo_at (pf_vouched pf))"
  shows "distinct (map vo_at (pf_vouched pf')) \<and> pf_identity pf' = pf_identity pf"
proof (cases "position (\<lambda>x. vo_at x = vo_at v) (pf_vouched pf)")
  case None
  then have "pf' = pf\<lparr>pf_vouched := pf_vouched pf @ [v]\<rparr>" using assms(1) by (simp add: proof_vouched_def)
  then show ?thesis using assms(2) None by (auto simp: position_none)
next
  case (Some i)
  let ?xs = "pf_vouched pf"
  from position_some [OF Some] have i: "i < length ?xs" "vo_at (?xs ! i) = vo_at v" by auto
  have "mset (map vo_at (?xs ! i # swap_remove i ?xs)) = mset (map vo_at ?xs)"
    using swap_remove_mset [OF i(1)] by (metis mset_map)
  then have "distinct (map vo_at (?xs ! i # swap_remove i ?xs))"
    using assms(2) mset_eq_imp_distinct_iff by blast
  then show ?thesis using assms(1) Some i(2) by (auto simp: proof_vouched_def)
qed

section \<open>Letting go\<close>

lemma let_go_same [simp]:
  "rg_callers (let_go p st) = rg_callers st" "rg_out (let_go p st) = rg_out st"
  "rg_revoked (let_go p st) = rg_revoked st" "rg_next (let_go p st) = rg_next st"
  "rg_issued (let_go p st) = rg_issued st" "referenced q (let_go p st) = referenced q st"
  by (simp_all add: let_go_def referenced_def split: option.split)

lemma fold_let_go_same [simp]:
  "rg_callers (fold let_go ps st) = rg_callers st" "rg_out (fold let_go ps st) = rg_out st"
  "rg_revoked (fold let_go ps st) = rg_revoked st" "rg_issued (fold let_go ps st) = rg_issued st"
  by (induction ps arbitrary: st) simp_all

lemma caller_referenced: "(h, c) \<in> set (rg_callers st) \<Longrightarrow> referenced (hc_proof c) st"
  using imageI [of "(h, c)" "set (rg_callers st)" "hc_proof \<circ> snd"] by (simp add: referenced_def)

lemma let_go_proofs:
  "rg_proofs (let_go p st) =
     (if referenced p st then rg_proofs st else filter (\<lambda>e. fst e \<noteq> p) (rg_proofs st))"
proof (cases "map_of (rg_proofs st) p")
  case None
  then have "filter (\<lambda>e. fst e \<noteq> p) (rg_proofs st) = rg_proofs st"
    by (auto simp: map_of_eq_None_iff filter_id_conv)
  then show ?thesis using None by (simp add: let_go_def)
next
  case (Some pf)
  then show ?thesis by (simp add: let_go_def)
qed

lemma store_let_go: "store_ok (p # ps) st \<Longrightarrow> store_ok ps (let_go p st)"
  unfolding store_ok_def let_go_proofs by (auto simp: distinct_map_filter)

lemma told_let_go: "store_ok ps st \<Longrightarrow> told_ok st \<Longrightarrow> told_ok (let_go p st)"
  using concat_filter_out [of "rg_proofs st" p _ pf_vouched]
  by (auto simp: let_go_def told_ok_def store_ok_def split: option.split)

lemma fold_let_go_ok:
  "store_ok ps st \<Longrightarrow> told_ok st \<Longrightarrow> store_ok [] (fold let_go ps st) \<and> told_ok (fold let_go ps st)"
proof (induction ps arbitrary: st)
  case (Cons p ps)
  from store_let_go [OF Cons.prems(1)] told_let_go [OF Cons.prems] Cons.IH show ?case by simp
qed simp

lemma callers_ok_cong:
  "rg_callers s = rg_callers t \<Longrightarrow> rg_revoked s = rg_revoked t \<Longrightarrow> callers_ok s = callers_ok t"
  by (simp add: callers_ok_def)

lemma retain_same [simp]:
  "rg_callers (registry_retain keep st) = filter keep (rg_callers st)"
  "rg_revoked (registry_retain keep st) = rg_revoked st"
  "rg_out (registry_retain keep st) = rg_out st"
  by (simp_all add: registry_retain_def)

lemma retain_store:
  assumes "store_ok [] st" and "told_ok st"
  shows "store_ok [] (registry_retain keep st) \<and> told_ok (registry_retain keep st)"
proof -
  let ?gone = "map (hc_proof \<circ> snd) (filter (\<lambda>e. \<not> keep e) (rg_callers st))"
  let ?mid = "st\<lparr>rg_callers := filter keep (rg_callers st)\<rparr>"
  have part: "set (rg_callers st) = set (filter keep (rg_callers st)) \<union> set (filter (\<lambda>e. \<not> keep e) (rg_callers st))"
    by auto
  have ref: "referenced p st \<longleftrightarrow> referenced p ?mid \<or> p \<in> set ?gone" for p
    unfolding referenced_def set_map image_comp by (subst part) (simp add: image_Un, blast)
  have "store_ok ?gone ?mid"
    using assms(1) ref unfolding store_ok_def by simp
  moreover have "told_ok ?mid" using assms(2) by (simp add: told_ok_def)
  ultimately show ?thesis
    using fold_let_go_ok [of ?gone ?mid] by (simp add: registry_retain_def)
qed

lemma retain_ok: "registry_ok st \<Longrightarrow> registry_ok (registry_retain keep st)"
  using retain_store [of st keep] le_trans [OF length_filter_le]
  by (auto simp: registry_ok_def callers_ok_def distinct_map_filter)

lemma map_of_filter_key: "p \<noteq> q \<Longrightarrow> map_of (filter (\<lambda>e. fst e \<noteq> p) xs) q = map_of xs q"
  by (induction xs) auto

lemma store_ok_transfer:
  assumes "store_ok [] s" and "rg_proofs t = rg_proofs s" and "rg_next t = rg_next s"
    and "\<And>q. referenced q t \<Longrightarrow> q \<in> fst ` set (rg_proofs s)"
    and "\<And>q. referenced q s \<Longrightarrow> referenced q t \<or> q \<in> set ps"
  shows "store_ok ps t"
  using assms unfolding store_ok_def by auto

lemma store_ok_ref: "store_ok [] s \<Longrightarrow> referenced q s \<Longrightarrow> q \<in> fst ` set (rg_proofs s)"
  unfolding store_ok_def by blast

lemma fold_let_go_proofs:
  "referenced q st \<Longrightarrow> map_of (rg_proofs (fold let_go ps st)) q = map_of (rg_proofs st) q"
proof (induction ps arbitrary: st)
  case (Cons p ps)
  have "map_of (rg_proofs (let_go p st)) q = map_of (rg_proofs st) q"
  proof (cases "p = q")
    case True
    then show ?thesis using Cons.prems by (simp add: let_go_def)
  next
    case False
    then show ?thesis by (simp add: let_go_proofs map_of_filter_key)
  qed
  with Cons show ?case by simp
qed simp

section \<open>Every call keeps the invariant\<close>

lemma proof_dropped_ok:
  assumes "registry_ok st"
  shows "registry_ok (proof_dropped p st)"
proof -
  let ?mid = "st\<lparr>rg_out := remove1 p (rg_out st)\<rparr>"
  have ref: "referenced q ?mid \<Longrightarrow> referenced q st" "referenced q st \<Longrightarrow> referenced q ?mid \<or> q = p" for q
    by (auto simp: referenced_def dest: notin_set_remove1 intro: in_set_remove1 [THEN iffD2] set_remove1_subset [THEN subsetD])
  have s: "store_ok [] st" using assms by (simp add: registry_ok_def)
  have "store_ok [p] ?mid"
    by (rule store_ok_transfer [OF s]) (use ref store_ok_ref [OF s] in auto)
  moreover have "told_ok ?mid" "callers_ok ?mid"
    using assms by (simp_all add: registry_ok_def told_ok_def callers_ok_def)
  ultimately show ?thesis
    using store_let_go [of p "[]" ?mid] told_let_go [of "[p]" ?mid p] callers_ok_cong [of ?mid "let_go p ?mid"]
    by (simp add: proof_dropped_def registry_ok_def)
qed

definition placed_at :: "u64 \<Rightarrow> held_caller \<Rightarrow> registry \<Rightarrow> registry" where
  "placed_at h c st = st\<lparr>rg_callers := (h, c) # rg_callers st\<rparr>"

lemma held_again_cases:
  assumes "held_again now draws p until by st = Some (h, t)"
  obtains "h = 0" "t = st" | "h = 0" "t = registry_room now st"
  | c where "h \<noteq> 0" "h \<notin> fst ` set (rg_callers (registry_room now st))"
      "length (rg_callers (registry_room now st)) < held_most"
      "\<forall>b \<in> rg_revoked st. by \<noteq> Some b" "held_live now c"
      "c = \<lparr>hc_proof = p, hc_until = until, hc_by = by\<rparr>" "t = placed_at h c (registry_room now st)"
proof -
  let ?mid = "registry_room now st" and ?c = "\<lparr>hc_proof = p, hc_until = until, hc_by = by\<rparr>"
  let ?draw = "drawn (\<lambda>h. h \<in> fst ` set (rg_callers ?mid)) draws"
  let ?over = "case until of Some u \<Rightarrow> u \<le> now | None \<Rightarrow> False"
  let ?revoked = "case by of Some b \<Rightarrow> b \<in> rg_revoked st | None \<Rightarrow> False"
  consider "?over \<or> ?revoked" | "\<not> ?over" "\<not> ?revoked" "held_most \<le> length (rg_callers ?mid)"
    | "\<not> ?over" "\<not> ?revoked" "\<not> held_most \<le> length (rg_callers ?mid)" by blast
  then show thesis
  proof cases
    case 1
    then have "held_again now draws p until by st = Some (0, st)"
      unfolding held_again_def by (elim disjE) (simp_all only: if_True if_cancel)
    then show thesis using assms that(1) by simp
  next
    case 2
    then have "held_again now draws p until by st = Some (0, ?mid)"
      unfolding held_again_def Let_def by (simp only: if_False if_True)
    then show thesis using assms that(2) by simp
  next
    case 3
    then have run: "held_again now draws p until by st = (case ?draw of None \<Rightarrow> None
        | Some h \<Rightarrow> Some (h, placed_at h ?c ?mid))"
      unfolding held_again_def Let_def placed_at_def by (simp only: if_False)
    then obtain "?draw = Some h" "t = placed_at h ?c ?mid"
      using assms by (cases ?draw) simp_all
    moreover from this(1) have "h \<noteq> 0" "h \<notin> fst ` set (rg_callers ?mid)"
      by (auto simp: drawn_def find_Some_iff)
    moreover have "held_live now ?c" using 3(1) by (cases until) (simp_all add: held_live_def)
    moreover have "\<forall>b \<in> rg_revoked st. by \<noteq> Some b" using 3(2) by auto
    ultimately show thesis using that(3) [of ?c] 3(3) by simp
  qed
qed

lemma room_ok:
  assumes "registry_ok st"
  shows "registry_ok (registry_room now st) \<and> rg_revoked (registry_room now st) = rg_revoked st \<and>
    rg_out (registry_room now st) = rg_out st"
  using retain_ok [OF assms] assms by (simp add: registry_room_def)

lemma held_again_ok:
  assumes ok: "registry_ok st" and p: "p \<in> set (rg_out st)"
    and run: "held_again now draws p until by st = Some (h, t)"
  shows "registry_ok t"
proof -
  let ?mid = "registry_room now st"
  note m = room_ok [OF ok, of now]
  from run show ?thesis
  proof (cases rule: held_again_cases)
    case (3 c)
    have ref: "referenced q (placed_at h c ?mid) \<longleftrightarrow> referenced q ?mid" for q
      using m p 3(6) by (auto simp: referenced_def placed_at_def)
    have s: "store_ok [] ?mid" using m by (simp add: registry_ok_def)
    have "store_ok [] (placed_at h c ?mid)"
      by (rule store_ok_transfer [OF s]) (use ref store_ok_ref [OF s] in \<open>auto simp: placed_at_def\<close>)
    moreover have "callers_ok (placed_at h c ?mid)"
      using m 3 by (auto simp: registry_ok_def callers_ok_def placed_at_def)
    moreover have "told_ok (placed_at h c ?mid)"
      using m by (simp add: registry_ok_def told_ok_def placed_at_def)
    ultimately show ?thesis using 3(7) by (simp add: registry_ok_def)
  qed (use ok m in auto)
qed

lemma with_arc_ok:
  assumes ok: "registry_ok st" and "p \<in> fst ` set (rg_proofs st)"
    and f: "\<And>s h t. registry_ok s \<Longrightarrow> p \<in> set (rg_out s) \<Longrightarrow> f s = Some (h, t) \<Longrightarrow> registry_ok t"
    and run: "with_arc p f st = Some (h, t)"
  shows "registry_ok t"
proof -
  let ?mid = "st\<lparr>rg_out := p # rg_out st\<rparr>"
  have ref: "referenced q ?mid \<longleftrightarrow> referenced q st \<or> q = p" for q by (auto simp: referenced_def)
  have s: "store_ok [] st" using ok by (simp add: registry_ok_def)
  have "store_ok [] ?mid"
    by (rule store_ok_transfer [OF s]) (use ref store_ok_ref [OF s] assms(2) in auto)
  then have "registry_ok ?mid"
    using ok by (simp add: registry_ok_def callers_ok_def told_ok_def)
  moreover from run obtain s where "f ?mid = Some (h, s)" "t = proof_dropped p s"
    by (auto simp: with_arc_def proof_dropped_def)
  ultimately show ?thesis using f [of ?mid h s] proof_dropped_ok by simp
qed

lemma registry_opened:
  assumes ok: "registry_ok st" and "is_proven i"
  shows "registry_ok (st\<lparr>rg_proofs := (rg_next st,
      \<lparr>pf_identity = i, pf_leaf = leaf, pf_vouched = [], pf_refusals = []\<rparr>) # rg_proofs st,
    rg_next := rg_next st + 1, rg_out := rg_next st # rg_out st\<rparr>)" (is "registry_ok ?out")
proof -
  let ?p = "rg_next st"
  have less: "\<forall>e \<in> set (rg_proofs st). fst e < ?p" using ok by (simp add: registry_ok_def store_ok_def)
  have ref: "referenced q ?out \<longleftrightarrow> referenced q st \<or> q = ?p" for q by (auto simp: referenced_def)
  have "store_ok [] ?out"
    using ok less ref assms(2) unfolding registry_ok_def store_ok_def by (auto intro: less_SucI)
  then show ?thesis using ok by (simp add: registry_ok_def callers_ok_def told_ok_def)
qed

lemma hold_ok:
  assumes ok: "registry_ok st" and run: "hold now draws i until by leaf st = Some (h, t)"
  shows "registry_ok t"
proof (cases "is_proven i")
  case True
  let ?p = "rg_next st"
  let ?pf = "\<lparr>pf_identity = i, pf_leaf = leaf, pf_vouched = [], pf_refusals = []\<rparr>"
  let ?out = "st\<lparr>rg_proofs := (?p, ?pf) # rg_proofs st, rg_next := ?p + 1, rg_out := ?p # rg_out st\<rparr>"
  from run True obtain s where s: "held_again now draws ?p until by ?out = Some (h, s)" "t = proof_dropped ?p s"
    by (auto simp: hold_def with_arc_def proof_dropped_def Let_def)
  have "registry_ok s" by (rule held_again_ok [OF registry_opened [OF ok True] _ s(1)]) simp
  then show ?thesis unfolding s(2) by (rule proof_dropped_ok)
next
  case False
  then show ?thesis using ok run by (simp add: hold_def)
qed

lemma caller_stored:
  assumes "registry_ok st" and "map_of (rg_callers st) h = Some c"
  shows "referenced (hc_proof c) st \<and> (\<exists>pf. map_of (rg_proofs st) (hc_proof c) = Some pf)"
proof -
  have ref: "referenced (hc_proof c) st" using map_of_SomeD [OF assms(2)] by (rule caller_referenced)
  moreover have "hc_proof c \<in> fst ` set (rg_proofs st)"
    using assms(1) store_ok_ref [OF _ ref] by (simp add: registry_ok_def)
  ultimately show ?thesis by (metis map_of_eq_None_iff not_Some_eq)
qed

lemma again_ok:
  assumes ok: "registry_ok st" and run: "again now draws h0 st = Some (h, t)"
  shows "registry_ok t"
proof (cases "map_of (rg_callers st) h0")
  case None
  then show ?thesis using ok run by (simp add: again_def)
next
  case (Some c)
  have "hc_proof c \<in> fst ` set (rg_proofs st)"
    using caller_stored [OF ok Some] store_ok_ref ok by (simp add: registry_ok_def)
  note stored = this
  show ?thesis
  proof (cases "held_live now c")
    case True
    then have "with_arc (hc_proof c) (held_again now draws (hc_proof c) (hc_until c) (hc_by c)) st = Some (h, t)"
      using run Some by (simp add: again_def)
    from with_arc_ok [OF ok stored _ this] held_again_ok show ?thesis by blast
  qed (use run ok Some in \<open>simp add: again_def\<close>)
qed

lemma held_proof_cases:
  assumes "held_proof now h st = (found, t)"
  obtains "found = None" "t = st"
  | c where "map_of (rg_callers st) h = Some c" "held_live now c" "found = Some (hc_proof c)"
      "t = st\<lparr>rg_out := hc_proof c # rg_out st\<rparr>"
  | c where "map_of (rg_callers st) h = Some c" "\<not> held_live now c" "found = None"
      "t = registry_retain (\<lambda>e. fst e \<noteq> h) st"
  using assms
  by (cases "map_of (rg_callers st) h") (auto simp: held_proof_def split: if_splits)

lemma registry_cloned:
  assumes ok: "registry_ok st" and p: "referenced p st"
  shows "registry_ok (st\<lparr>rg_out := p # rg_out st\<rparr>)" (is "registry_ok ?t")
proof -
  have s: "store_ok [] st" using ok by (simp add: registry_ok_def)
  have "referenced q ?t \<longleftrightarrow> referenced q st" for q using p by (auto simp: referenced_def)
  then have "store_ok [] ?t"
    by (intro store_ok_transfer [OF s]) (use store_ok_ref [OF s] in auto)
  then show ?thesis using ok by (simp add: registry_ok_def callers_ok_def told_ok_def)
qed

lemma held_proof_ok:
  assumes ok: "registry_ok st" and "held_proof now h st = (found, t)"
  shows "registry_ok t"
  using assms(2)
proof (cases rule: held_proof_cases)
  case (2 c)
  then show ?thesis using registry_cloned [OF ok] caller_stored [OF ok 2(1)] by blast
qed (use ok retain_ok in auto)

text \<open>The proof at one address changed in place: its identity and its vouches' places are kept.\<close>

lemma registry_entry_ok:
  assumes ok: "registry_ok st" and p: "map_of (rg_proofs st) p = Some pf"
    and pf': "pf_identity pf' = pf_identity pf" "distinct (map vo_at (pf_vouched pf'))"
    and ms: "mset (pf_vouched pf') + mset replaced = mset (pf_vouched pf) + mset new"
  shows "registry_ok (st\<lparr>rg_proofs := map (\<lambda>e. if fst e = p then (p, pf') else e) (rg_proofs st),
    rg_issued := rg_issued st @ new, rg_told := rg_told st @ replaced\<rparr>)"
    (is "registry_ok ?t")
proof -
  have d: "distinct (map fst (rg_proofs st))" using ok by (simp add: registry_ok_def store_ok_def)
  have pin: "(p, pf) \<in> set (rg_proofs st)" using p by (rule map_of_SomeD)
  have ref: "referenced q ?t \<longleftrightarrow> referenced q st" for q by (simp add: referenced_def)
  have "map fst (rg_proofs ?t) = map fst (rg_proofs st)" by simp
  from arg_cong [OF this, of set] have keys: "fst ` set (rg_proofs ?t) = fst ` set (rg_proofs st)"
    by (simp only: set_map)
  have "\<forall>e \<in> set (rg_proofs ?t). fst e < rg_next ?t \<and> is_proven (pf_identity (snd e)) \<and>
      distinct (map vo_at (pf_vouched (snd e)))"
    using ok pin pf' by (auto simp: registry_ok_def store_ok_def)
  then have "store_ok [] ?t"
    using ok d unfolding store_ok_def ref keys registry_ok_def by simp
  moreover have "told_ok ?t"
  proof -
    let ?all = "\<lambda>ps. mset (concat (map (pf_vouched \<circ> snd) ps))"
    have "?all (rg_proofs ?t) + mset replaced + mset (pf_vouched pf) =
        (?all (rg_proofs st) + mset (pf_vouched pf')) + mset replaced"
      using concat_map_entry [OF d p, of pf_vouched pf'] by (simp add: ac_simps)
    also have "\<dots> = ?all (rg_proofs st) + mset new + mset (pf_vouched pf)"
      using ms by (simp add: ac_simps)
    finally have "?all (rg_proofs ?t) + mset replaced = ?all (rg_proofs st) + mset new" by simp
    moreover have "mset (rg_issued st) = mset (rg_told st) + ?all (rg_proofs st)"
      using ok by (simp add: registry_ok_def told_ok_def)
    ultimately show ?thesis unfolding told_ok_def by (simp add: ac_simps)
  qed
  moreover have "callers_ok ?t" using ok by (simp add: registry_ok_def callers_ok_def)
  ultimately show ?thesis by (simp add: registry_ok_def)
qed

lemma registry_vouched_ok:
  assumes ok: "registry_ok st"
  shows "registry_ok (registry_vouched p v st)"
proof (cases "map_of (rg_proofs st) p")
  case None
  then show ?thesis using ok by (simp add: registry_vouched_def)
next
  case (Some pf)
  obtain pf' replaced where v: "proof_vouched v pf = (pf', replaced)" by fastforce
  have "distinct (map vo_at (pf_vouched pf))"
    using ok map_of_SomeD [OF Some] by (force simp: registry_ok_def store_ok_def)
  from proof_vouched_distinct [OF v this] proof_vouched_mset [OF v]
    registry_entry_ok [OF ok Some, of pf' replaced "[v]"]
  show ?thesis by (simp add: registry_vouched_def Some v)
qed

lemma registry_refused_ok:
  assumes ok: "registry_ok st"
  shows "registry_ok (registry_refused p at why st)"
proof (cases "map_of (rg_proofs st) p")
  case None
  then have "map (\<lambda>e. if fst e = p then (p, proof_refused at why (snd e)) else e) (rg_proofs st) = rg_proofs st"
    by (intro map_idI) (auto simp: map_of_eq_None_iff image_iff)
  then show ?thesis using ok by (simp add: registry_refused_def)
next
  case (Some pf)
  have "distinct (map vo_at (pf_vouched pf))" and d: "distinct (map fst (rg_proofs st))"
    using ok map_of_SomeD [OF Some] by (force simp: registry_ok_def store_ok_def)+
  then have "registry_ok (st\<lparr>rg_proofs := map (\<lambda>e. if fst e = p then (p, proof_refused at why pf) else e)
      (rg_proofs st), rg_issued := rg_issued st @ [], rg_told := rg_told st @ []\<rparr>)"
    by (intro registry_entry_ok [OF ok Some]) (simp_all add: proof_refused_def)
  moreover have "snd e = pf" if "e \<in> set (rg_proofs st)" "fst e = p" for e
    using that Some d by (metis map_of_eq_Some_iff option.inject prod.collapse)
  then have eq: "map (\<lambda>e. if fst e = p then (p, proof_refused at why (snd e)) else e) (rg_proofs st) =
      map (\<lambda>e. if fst e = p then (p, proof_refused at why pf) else e) (rg_proofs st)" by auto
  ultimately show ?thesis unfolding registry_refused_def eq by simp
qed

lemma revoke_ok:
  assumes ok: "registry_ok st"
  shows "registry_ok (revoke by st)"
proof -
  let ?mid = "st\<lparr>rg_revoked := insert by (rg_revoked st)\<rparr>"
  have "referenced q ?mid \<longleftrightarrow> referenced q st" for q by (simp add: referenced_def)
  then have "store_ok [] ?mid" "told_ok ?mid"
    using ok by (simp_all add: registry_ok_def store_ok_def told_ok_def)
  from retain_store [OF this] show ?thesis
    using ok le_trans [OF length_filter_le]
    by (auto simp: revoke_def registry_ok_def callers_ok_def distinct_map_filter)
qed

lemma registry_step_ok: "registry_ok s \<Longrightarrow> registry_step now s t \<Longrightarrow> registry_ok t"
  by (erule registry_stepE)
    (auto simp: release_def intro: hold_ok again_ok held_proof_ok proof_dropped_ok
      registry_vouched_ok registry_refused_ok retain_ok revoke_ok)

definition registry_moves :: "registry \<Rightarrow> registry \<Rightarrow> bool" where
  "registry_moves s t \<longleftrightarrow> (\<exists>now. registry_step now s t)"

interpretation registry: invariant_system "\<lambda>s. s = registry_new" registry_moves registry_ok
proof
  show "registry_ok s" if "s = registry_new" for s
    using that by (simp add: registry_ok_def inv_defs registry_new_def referenced_def held_most_def)
qed (auto simp: registry_moves_def intro: registry_step_ok)

section \<open>The registry keeps its promise\<close>

lemma map_of_filter_distinct:
  "distinct (map fst xs) \<Longrightarrow> map_of (filter keep xs) h =
     (case map_of xs h of None \<Rightarrow> None | Some c \<Rightarrow> if keep (h, c) then Some c else None)"
proof (induction xs)
  case (Cons x xs)
  obtain k v where x: "x = (k, v)" by (cases x)
  show ?case
  proof (cases "k = h")
    case True
    then have "map_of xs h = None" "map_of (filter keep xs) h = None"
      using Cons.prems x by (auto simp: map_of_eq_None_iff)
    then show ?thesis using True x by simp
  next
    case False
    then show ?thesis using Cons x by simp
  qed
qed simp

lemma sessions_same:
  assumes "rg_callers t = rg_callers s" and "rg_revoked t = rg_revoked s"
    and "\<And>h c. map_of (rg_callers s) h = Some c \<Longrightarrow>
      map_option pf_identity (map_of (rg_proofs t) (hc_proof c)) =
      map_option pf_identity (map_of (rg_proofs s) (hc_proof c))"
  shows "sessions_of t = sessions_of s"
proof -
  have id: "map_option (\<lambda>pf. (pf_identity pf, u, b)) x = map_option (\<lambda>i. (i, u, b)) (map_option pf_identity x)"
    for u :: "int option" and b :: "prover option" and x by (cases x) simp_all
  have "ss_open (sessions_of t) h = ss_open (sessions_of s) h" for h
    using assms(3) [of h] by (cases "map_of (rg_callers s) h") (simp_all add: sessions_of_def assms(1) id)
  then show ?thesis by (auto simp: assms(2) sessions_of_def)
qed

lemma sessions_cong:
  assumes "rg_callers t = rg_callers s" and "rg_revoked t = rg_revoked s"
    and "\<And>h c. map_of (rg_callers s) h = Some c \<Longrightarrow>
      map_of (rg_proofs t) (hc_proof c) = map_of (rg_proofs s) (hc_proof c)"
  shows "sessions_of t = sessions_of s"
  by (rule sessions_same) (simp_all add: assms)

lemma sessions_out [simp]: "sessions_of (st\<lparr>rg_out := x\<rparr>) = sessions_of st"
  by (simp add: sessions_of_def)

lemma sessions_dropped: "registry_ok st \<Longrightarrow> sessions_of (proof_dropped p st) = sessions_of st"
proof (rule sessions_cong)
  fix h c assume "registry_ok st" and "map_of (rg_callers st) h = Some c"
  then have "referenced (hc_proof c) (st\<lparr>rg_out := remove1 p (rg_out st)\<rparr>)"
    using map_of_SomeD [of "rg_callers st" h c] by (auto intro: caller_referenced)
  from fold_let_go_proofs [OF this, of "[p]"] show "map_of (rg_proofs (proof_dropped p st)) (hc_proof c) =
      map_of (rg_proofs st) (hc_proof c)" by (simp add: proof_dropped_def)
qed (simp_all add: proof_dropped_def)

lemma sessions_retain:
  assumes "distinct (map fst (rg_callers st))"
  shows "sessions_of (registry_retain keep st) = (sessions_of st)\<lparr>ss_open := (\<lambda>h.
    case map_of (rg_callers st) h of None \<Rightarrow> None
    | Some c \<Rightarrow> if keep (h, c) then ss_open (sessions_of st) h else None)\<rparr>"
proof -
  let ?mid = "st\<lparr>rg_callers := filter keep (rg_callers st)\<rparr>"
  have proofs: "map_of (rg_proofs (registry_retain keep st)) (hc_proof c) = map_of (rg_proofs st) (hc_proof c)"
    if "map_of (rg_callers st) h = Some c" "keep (h, c)" for h c
  proof -
    have "referenced (hc_proof c) ?mid"
      using map_of_SomeD [OF that(1)] that(2) by (auto intro: caller_referenced)
    from fold_let_go_proofs [OF this] show ?thesis by (simp add: registry_retain_def)
  qed
  show ?thesis
    unfolding sessions_of_def
    by (auto intro!: ext simp: map_of_filter_distinct [OF assms] proofs split: option.split)
qed

lemma session_of_caller:
  assumes "registry_ok st"
  shows "ss_open (sessions_of st) h =
    (case map_of (rg_callers st) h of None \<Rightarrow> None
     | Some c \<Rightarrow> Some (pf_identity (the (map_of (rg_proofs st) (hc_proof c))), hc_until c, hc_by c))"
proof (cases "map_of (rg_callers st) h")
  case (Some c)
  then show ?thesis using caller_stored [OF assms Some] by (auto simp: sessions_of_def)
qed (simp add: sessions_of_def)

lemma kept_retain:
  assumes ok: "registry_ok st"
    and "\<And>h c i. keep (h, c) = keep' h (i, hc_until c, hc_by c)"
  shows "sessions_of (registry_retain keep st) =
    (sessions_of st)\<lparr>ss_open := kept_sessions keep' (ss_open (sessions_of st))\<rparr>"
proof -
  have d: "distinct (map fst (rg_callers st))" using ok by (simp add: registry_ok_def callers_ok_def)
  show ?thesis unfolding sessions_retain [OF d] kept_sessions_def
    by (intro sessions.equality ext)
      (auto simp: session_of_caller [OF ok] assms(2) [symmetric] split: option.split)
qed

lemma lapse_room:
  assumes "registry_ok st"
  shows "sessions_of (registry_room now st) = sessions_of st \<or>
    sessions_of (registry_room now st) =
      (sessions_of st)\<lparr>ss_open := kept_sessions (\<lambda>_. session_live now) (ss_open (sessions_of st))\<rparr>"
  using kept_retain [OF assms, of "\<lambda>e. held_live now (snd e)" "\<lambda>_. session_live now"]
  by (simp add: registry_room_def held_live_def session_live_def)

lemma room_steps: "registry_ok st \<Longrightarrow> (session_step now)\<^sup>*\<^sup>* (sessions_of st) (sessions_of (registry_room now st))"
  using lapse_room [of st now] session_step.lapses by (metis r_into_rtranclp rtranclp.rtrancl_refl)

lemma sessions_placed:
  assumes "map_of (rg_proofs st) (hc_proof c) = Some pf"
  shows "sessions_of (placed_at h c st) = (sessions_of st)\<lparr>ss_open :=
    (ss_open (sessions_of st))(h \<mapsto> (pf_identity pf, hc_until c, hc_by c))\<rparr>"
  using assms by (auto simp: sessions_of_def placed_at_def)

lemma room_proofs:
  assumes "p \<in> set (rg_out st)"
  shows "map_of (rg_proofs (registry_room now st)) p = map_of (rg_proofs st) p"
proof -
  have "referenced p (st\<lparr>rg_callers := x\<rparr>)" for x using assms by (simp add: referenced_def)
  from fold_let_go_proofs [OF this] show ?thesis by (simp add: registry_room_def registry_retain_def)
qed

lemma held_again_sim:
  assumes ok: "registry_ok st" and p: "p \<in> set (rg_out st)" and pf: "map_of (rg_proofs st) p = Some pf"
    and run: "held_again now draws p until by st = Some (h, t)"
  shows "\<exists>S. (S = sessions_of st \<or> S = sessions_of (registry_room now st)) \<and>
    (sessions_of t = S \<or>
      h \<noteq> 0 \<and> ss_open S h = None \<and> session_live now (pf_identity pf, until, by) \<and>
      (\<forall>b \<in> ss_revoked S. by \<noteq> Some b) \<and>
      sessions_of t = S\<lparr>ss_open := (ss_open S)(h \<mapsto> (pf_identity pf, until, by))\<rparr>)"
  using run
proof (cases rule: held_again_cases)
  case (3 c)
  let ?mid = "registry_room now st"
  have "map_of (rg_proofs ?mid) (hc_proof c) = Some pf" using room_proofs [OF p] pf 3(6) by simp
  from sessions_placed [OF this, of h] 3 have
    "sessions_of t = (sessions_of ?mid)\<lparr>ss_open := (ss_open (sessions_of ?mid))(h \<mapsto> (pf_identity pf, until, by))\<rparr>"
    by simp
  moreover have "map_of (rg_callers ?mid) h = None" using 3(2) by (simp add: map_of_eq_None_iff)
  then have "ss_open (sessions_of ?mid) h = None" by (simp add: sessions_of_def)
  moreover have "session_live now (pf_identity pf, until, by)"
    using 3(5,6) by (simp add: session_live_def held_live_def)
  moreover have "\<forall>b \<in> ss_revoked (sessions_of ?mid). by \<noteq> Some b"
    using 3(4) room_ok [OF ok, of now] by (simp add: sessions_of_def)
  ultimately show ?thesis using 3(1) by (intro exI [of _ "sessions_of ?mid"]) simp
qed auto

lemma hold_sim:
  assumes ok: "registry_ok st" and run: "hold now draws i until by leaf st = Some (h, t)"
  shows "(session_step now)\<^sup>*\<^sup>* (sessions_of st) (sessions_of t)"
proof (cases "is_proven i")
  case True
  let ?p = "rg_next st"
  let ?pf = "\<lparr>pf_identity = i, pf_leaf = leaf, pf_vouched = [], pf_refusals = []\<rparr>"
  let ?out = "st\<lparr>rg_proofs := (?p, ?pf) # rg_proofs st, rg_next := ?p + 1, rg_out := ?p # rg_out st\<rparr>"
  have less: "hc_proof c < ?p" if "map_of (rg_callers st) h' = Some c" for h' c
    using caller_stored [OF ok that] ok by (force simp: registry_ok_def store_ok_def dest: map_of_SomeD)
  have same: "sessions_of ?out = sessions_of st"
    by (rule sessions_cong) (use less in \<open>auto dest: less_imp_neq\<close>)
  have ok': "registry_ok ?out" by (rule registry_opened [OF ok True])
  have out: "?p \<in> set (rg_out ?out)" and pf: "map_of (rg_proofs ?out) ?p = Some ?pf" by simp_all
  from run True obtain s where s: "held_again now draws ?p until by ?out = Some (h, s)" "t = proof_dropped ?p s"
    by (auto simp: hold_def with_arc_def proof_dropped_def Let_def)
  have t: "sessions_of t = sessions_of s"
    unfolding s(2) by (rule sessions_dropped) (rule held_again_ok [OF ok' _ s(1)], simp)
  obtain S where S: "S = sessions_of ?out \<or> S = sessions_of (registry_room now ?out)"
    and new: "sessions_of s = S \<or>
      h \<noteq> 0 \<and> ss_open S h = None \<and> session_live now (i, until, by) \<and>
      (\<forall>b \<in> ss_revoked S. by \<noteq> Some b) \<and>
      sessions_of s = S\<lparr>ss_open := (ss_open S)(h \<mapsto> (i, until, by))\<rparr>"
    using held_again_sim [OF ok' out pf s(1)] by auto
  have "(session_step now)\<^sup>*\<^sup>* (sessions_of st) S"
    using S room_steps [OF ok', of now] same by auto
  moreover have "(session_step now)\<^sup>*\<^sup>* S (sessions_of s)"
    using new True session_step.opens [of i h S now until "by"] by auto
  ultimately show ?thesis using t by simp
next
  case False
  then show ?thesis using run by (simp add: hold_def)
qed

lemma again_sim:
  assumes ok: "registry_ok st" and run: "again now draws h0 st = Some (h, t)"
  shows "(session_step now)\<^sup>*\<^sup>* (sessions_of st) (sessions_of t)"
proof (cases "\<exists>c. map_of (rg_callers st) h0 = Some c \<and> held_live now c")
  case True
  then obtain c where c: "map_of (rg_callers st) h0 = Some c" "held_live now c" by blast
  let ?p = "hc_proof c"
  let ?out = "st\<lparr>rg_out := ?p # rg_out st\<rparr>"
  obtain pf where pf: "map_of (rg_proofs st) ?p = Some pf" using caller_stored [OF ok c(1)] by blast
  have ok': "registry_ok ?out" using registry_cloned [OF ok] caller_stored [OF ok c(1)] by blast
  have out: "?p \<in> set (rg_out ?out)" by simp
  from run c obtain s where s: "held_again now draws ?p (hc_until c) (hc_by c) ?out = Some (h, s)" "t = proof_dropped ?p s"
    by (auto simp: again_def with_arc_def proof_dropped_def)
  have t: "sessions_of t = sessions_of s"
    unfolding s(2) by (rule sessions_dropped) (rule held_again_ok [OF ok' _ s(1)], simp)
  let ?s = "(pf_identity pf, hc_until c, hc_by c)"
  obtain S where S: "S = sessions_of ?out \<or> S = sessions_of (registry_room now ?out)"
    and new: "sessions_of s = S \<or>
      h \<noteq> 0 \<and> ss_open S h = None \<and> session_live now ?s \<and> (\<forall>b \<in> ss_revoked S. hc_by c \<noteq> Some b) \<and>
      sessions_of s = S\<lparr>ss_open := (ss_open S)(h \<mapsto> ?s)\<rparr>"
    using held_again_sim [OF ok' out _ s(1), of pf] pf by auto
  have live: "session_live now ?s" using c(2) by (simp add: session_live_def held_live_def)
  have h0: "ss_open (sessions_of ?out) h0 = Some ?s" using c(1) pf by (simp add: sessions_of_def)
  then have "ss_open S h0 = Some ?s"
    using S lapse_room [OF ok', of now] live by (auto simp: kept_sessions_def)
  moreover have "(session_step now)\<^sup>*\<^sup>* (sessions_of st) S"
    using S room_steps [OF ok', of now] by auto
  ultimately show ?thesis using t new live session_step.shares [of S h0 ?s now h]
    by (metis rtranclp.rtrancl_into_rtrancl)
next
  case False
  then show ?thesis using run by (auto simp: again_def split: option.splits)
qed

lemma ended_retain:
  assumes "registry_ok st"
  shows "sessions_of (registry_retain (\<lambda>e. fst e \<noteq> h) st) =
    (sessions_of st)\<lparr>ss_open := (ss_open (sessions_of st))(h := None)\<rparr>"
  using kept_retain [OF assms, of "\<lambda>e. fst e \<noteq> h" "\<lambda>h' _. h' \<noteq> h"]
  by (auto simp: kept_sessions_def fun_eq_iff split: option.split)

lemma revoke_sessions:
  assumes "registry_ok st"
  shows "sessions_of (revoke b st) =
    (sessions_of st)\<lparr>ss_open := kept_sessions (\<lambda>_ (i, until, by'). by' \<noteq> Some b) (ss_open (sessions_of st)),
      ss_revoked := insert b (ss_revoked (sessions_of st))\<rparr>"
proof -
  have d: "distinct (map fst (rg_callers st))" using assms by (simp add: registry_ok_def callers_ok_def)
  let ?mid = "st\<lparr>rg_revoked := insert b (rg_revoked st)\<rparr>"
  have mid: "sessions_of ?mid = (sessions_of st)\<lparr>ss_revoked := insert b (ss_revoked (sessions_of st))\<rparr>"
    by (simp add: sessions_of_def)
  have "sessions_of (revoke b st) = (sessions_of ?mid)\<lparr>ss_open := (\<lambda>h.
      case map_of (rg_callers st) h of None \<Rightarrow> None
      | Some c \<Rightarrow> if hc_by c \<noteq> Some b then ss_open (sessions_of ?mid) h else None)\<rparr>"
  proof -
    have c: "rg_callers ?mid = rg_callers st" by simp
    show ?thesis
      unfolding revoke_def using sessions_retain [of ?mid "\<lambda>e. hc_by (snd e) \<noteq> Some b"] d
      by (simp only: c snd_conv)
  qed
  then show ?thesis
    unfolding mid kept_sessions_def
    by (auto simp: session_of_caller [OF assms] fun_eq_iff split: option.split)
qed

lemma sessions_entry:
  assumes "map_of (rg_proofs st) p = Some pf" and "pf_identity pf' = pf_identity pf"
  shows "sessions_of (st\<lparr>rg_proofs := map (\<lambda>e. if fst e = p then (p, pf') else e) (rg_proofs st),
    rg_issued := is, rg_told := ts\<rparr>) = sessions_of st"
proof -
  have "map_of (map (\<lambda>e. if fst e = p then (p, pf') else e) xs) q =
      (if q = p then map_option (\<lambda>_. pf') (map_of xs p) else map_of xs q)" for xs q
    by (induction xs) auto
  then show ?thesis by (intro sessions_same) (simp_all add: assms)
qed

lemma sessions_vouched: "sessions_of (registry_vouched p v st) = sessions_of st"
proof (cases "map_of (rg_proofs st) p")
  case (Some pf)
  obtain pf' replaced where v: "proof_vouched v pf = (pf', replaced)" by fastforce
  then have "pf_identity pf' = pf_identity pf"
    by (auto simp: proof_vouched_def split: option.splits)
  then show ?thesis using sessions_entry [OF Some] by (simp add: registry_vouched_def Some v)
qed (simp add: registry_vouched_def)

lemma sessions_refused: "sessions_of (registry_refused p at why st) = sessions_of st"
proof -
  have "map_option pf_identity (map_of (map (\<lambda>e. if fst e = p then (p, proof_refused at why (snd e)) else e) xs) q) =
      map_option pf_identity (map_of xs q)" for xs q
    by (induction xs) (auto simp: proof_refused_def)
  then show ?thesis by (intro sessions_same) (simp_all add: registry_refused_def)
qed

lemma registry_step_sim:
  assumes ok: "registry_ok s" and "registry_step now s t"
  shows "(session_step now)\<^sup>*\<^sup>* (sessions_of s) (sessions_of t)"
  using assms(2)
proof cases
  case (reads h found)
  from reads show ?thesis
  proof (cases rule: held_proof_cases)
    case (3 c)
    have "sessions_of t = (sessions_of s)\<lparr>ss_open := (ss_open (sessions_of s))(h := None)\<rparr>"
      unfolding 3(4) using ended_retain [OF ok] by simp
    then show ?thesis using session_step.ends [of now "sessions_of s" h] by auto
  qed auto
next
  case (releases h was)
  then have "sessions_of t = (sessions_of s)\<lparr>ss_open := (ss_open (sessions_of s))(h := None)\<rparr>"
    using ended_retain [OF ok, of h] by (simp add: release_def)
  then show ?thesis using session_step.ends [of now "sessions_of s" h] by auto
next
  case (revokes b)
  show ?thesis unfolding revokes(1) revoke_sessions [OF ok]
    using session_step.session_revokes [of now "sessions_of s" b] by auto
qed (use hold_sim again_sim sessions_dropped sessions_vouched sessions_refused ok in auto)

lemma held_proven_answer:
  assumes ok: "registry_ok st"
  shows "fst (held_proven now h st) =
    (case ss_open (sessions_of st) h of None \<Rightarrow> None
     | Some (i, until, by) \<Rightarrow> if session_live now (i, until, by) then Some i else None)"
proof (cases "map_of (rg_callers st) h")
  case None
  then show ?thesis by (simp add: held_proven_def held_proof_def sessions_of_def)
next
  case (Some c)
  then obtain pf where pf: "map_of (rg_proofs st) (hc_proof c) = Some pf" using caller_stored [OF ok] by blast
  have "h \<in> fst ` set (rg_callers st)" using map_of_SomeD [OF Some] by (simp add: rev_image_eqI)
  then have "h \<noteq> 0" using ok by (auto simp: registry_ok_def callers_ok_def)
  with Some pf show ?thesis
    by (simp add: held_proven_def held_proof_def sessions_of_def session_live_def held_live_def)
qed

section \<open>Properties\<close>

text \<open>A registry with one caller held, the state the witnesses below apply the properties at.\<close>

abbreviation sample_proven :: identity where
  "sample_proven \<equiv> sample_caller Proven"

definition sample_registry :: registry where
  "sample_registry = \<lparr>rg_callers = [(7, \<lparr>hc_proof = 0, hc_until = Some 100, hc_by = Some 1\<rparr>)],
     rg_revoked = {}, rg_proofs = [(0, \<lparr>pf_identity = sample_proven, pf_leaf = None,
       pf_vouched = [], pf_refusals = []\<rparr>)], rg_out = [], rg_next = 1, rg_issued = [], rg_told = []\<rparr>"

lemma sample_held: "hold 5 [0, 7] sample_proven (Some 100) (Some 1) None registry_new = Some (7, sample_registry)"
  by (simp add: hold_def is_proven_def with_arc_def held_again_def registry_room_def registry_new_def
      sample_registry_def held_most_def drawn_def let_go_def referenced_def)

lemma sample_reached: "reach (\<lambda>s. s = registry_new) registry_moves sample_registry"
proof (rule reach_step)
  show "reach (\<lambda>s. s = registry_new) registry_moves registry_new" by (rule reach_init) simp
  show "registry_moves registry_new sample_registry"
    unfolding registry_moves_def using registry_step.holds [OF sample_held] by blast
qed

text \<open>However holders take, share, read, release and revoke handles, the registry is
  well-formed: at most \<open>MOST\<close> handles, each its own and none 0; each for a caller the gate called
  proven, and none by a prover revoked; and no proof is kept that nothing refers to.\<close>

theorem registry_well_formed:
  assumes "reach (\<lambda>s. s = registry_new) registry_moves s"
  shows "length (rg_callers s) \<le> 65536 \<and> distinct (map fst (rg_callers s)) \<and>
    (\<forall>(h, c) \<in> set (rg_callers s). h \<noteq> 0 \<and> (\<forall>b \<in> rg_revoked s. hc_by c \<noteq> Some b) \<and>
      (\<exists>pf. map_of (rg_proofs s) (hc_proof c) = Some pf \<and> is_proven (pf_identity pf))) \<and>
    (\<forall>p \<in> fst ` set (rg_proofs s). referenced p s)"
proof -
  have ok: "registry_ok s" by (rule registry.reach_inv [OF assms])
  then have c: "callers_ok s" and st: "store_ok [] s" by (simp_all add: registry_ok_def)
  have "\<exists>pf. map_of (rg_proofs s) (hc_proof c) = Some pf \<and> is_proven (pf_identity pf)"
    if "(h, c) \<in> set (rg_callers s)" for h c
  proof -
    have "map_of (rg_callers s) h = Some c" using that callers_ok_def c by (simp add: map_of_eq_Some_iff)
    from caller_stored [OF ok this] obtain pf where pf: "map_of (rg_proofs s) (hc_proof c) = Some pf" by blast
    from map_of_SomeD [OF this] st have "is_proven (pf_identity pf)" by (auto simp: store_ok_def)
    with pf show ?thesis by blast
  qed
  moreover have "h \<noteq> 0 \<and> (\<forall>b \<in> rg_revoked s. hc_by c \<noteq> Some b)" if "(h, c) \<in> set (rg_callers s)" for h c
    using c that unfolding callers_ok_def by (metis fst_conv image_eqI snd_conv)
  moreover have "\<forall>p \<in> fst ` set (rg_proofs s). referenced p s" using st by (simp add: store_ok_def)
  ultimately show ?thesis using c by (auto simp: callers_ok_def held_most_def)
qed

theorem registry_well_formed_witness:
  "length (rg_callers sample_registry) \<le> 65536 \<and> distinct (map fst (rg_callers sample_registry))"
  using registry_well_formed [OF sample_reached] by blast



text \<open>Every node that vouched for a caller is told once, and only once the last holder of the
  caller let go of it or another vouch took its place: what was vouched is what was told and what
  the proofs still held name, and no two of a proof are one node's.\<close>

theorem every_vouch_told_once:
  assumes "reach (\<lambda>s. s = registry_new) registry_moves s"
  shows "mset (rg_issued s) = mset (rg_told s) + mset (concat (map (pf_vouched \<circ> snd) (rg_proofs s))) \<and>
    (rg_callers s = [] \<and> rg_out s = [] \<longrightarrow> mset (rg_told s) = mset (rg_issued s)) \<and>
    (\<forall>(p, pf) \<in> set (rg_proofs s). distinct (map vo_at (pf_vouched pf)))"
proof -
  have "registry_ok s" by (rule registry.reach_inv [OF assms])
  then have t: "told_ok s" and st: "store_ok [] s" by (simp_all add: registry_ok_def)
  have "rg_proofs s = []" if "rg_callers s = []" "rg_out s = []"
    using st that by (cases "rg_proofs s") (auto simp: store_ok_def referenced_def)
  then show ?thesis using t st by (auto simp: told_ok_def store_ok_def)
qed

abbreviation sample_vouch :: vouch where
  "sample_vouch \<equiv> \<lparr>vo_at = 3, vo_handle = 9\<rparr>"

definition sample_out :: registry where
  "sample_out = snd (held_proof 6 7 sample_registry)"

definition sample_vouched :: registry where
  "sample_vouched = registry_vouched 0 sample_vouch sample_out"

definition sample_told :: registry where
  "sample_told = snd (release 7 (proof_dropped 0 sample_vouched))"

lemmas sample_defs = sample_out_def sample_vouched_def sample_told_def sample_registry_def
  held_proof_def held_live_def registry_vouched_def proof_vouched_def proof_dropped_def release_def
  registry_retain_def let_go_def referenced_def

lemma sample_told_reached: "reach (\<lambda>s. s = registry_new) registry_moves sample_told"
proof -
  have out: "rg_out sample_out = [0]" "rg_out sample_vouched = [0]" by (simp_all add: sample_defs)
  have "registry_moves sample_registry sample_out"
    unfolding registry_moves_def sample_out_def
    using registry_step.reads [of 6 7 sample_registry] by (metis prod.collapse)
  moreover have "registry_moves sample_out sample_vouched"
    unfolding registry_moves_def sample_vouched_def
    using registry_step.vouches [of 0 sample_out _ sample_vouch] out by auto
  moreover have "registry_moves sample_vouched (proof_dropped 0 sample_vouched)"
    unfolding registry_moves_def using registry_step.drops [of 0 sample_vouched] out by auto
  moreover have "registry_moves (proof_dropped 0 sample_vouched) sample_told"
    unfolding registry_moves_def sample_told_def
    using registry_step.releases [of 7 "proof_dropped 0 sample_vouched"] by (metis prod.collapse)
  ultimately show ?thesis using sample_reached reach_step by metis
qed

theorem every_vouch_told_once_witness:
  "rg_issued sample_told = [sample_vouch] \<and> mset (rg_told sample_told) = mset (rg_issued sample_told)"
proof
  show "rg_issued sample_told = [sample_vouch]" by (simp add: sample_defs)
  have "rg_callers sample_told = []" "rg_out sample_told = []" by (simp_all add: sample_defs)
  with every_vouch_told_once [OF sample_told_reached]
  show "mset (rg_told sample_told) = mset (rg_issued sample_told)" by blast
qed

end
