(* ===== verification/Plane_Vouched.thy ===== *)
theory Plane_Vouched
  imports Plane_Held
begin

text \<open>
  \<open>src/plane/caller.rs\<close>, \<open>fresh.rs\<close>, \<open>possessed.rs\<close> and \<open>vouched.rs\<close>: a relay speaks for a
  browser to a node. The node issues the relay nonces, each for one listener and spent once within
  half a minute; the relay hands back the browser's handshake, bound to such a nonce, which proves
  the browser held its key; the node verifies the browser's chain, runs it through its gate and
  holds the caller by a handle, for that relay alone and until the certificate ends.

  What other crates do is an argument: the certificates and their paths (\<open>authenticate::x509\<close>), the
  authentication gate and the names it goes by, the possession proof of \<open>tls::possession\<close>, and the codecs, as the fields of
  \<open>relay_env\<close>. A call reads the clock once: \<open>now\<close>. The fields the code reads of a JSON message
  are arguments, and an answer is the object it is written as.
\<close>

type_synonym bytes = string

section \<open>The caller a certificate or an account proves\<close>

datatype established = Passed | Detected

record presented =
  pr_mechanism :: string
  pr_how :: established
  pr_value :: string
  pr_proof :: "string \<times> string"
  pr_evidence :: "(string \<times> string) list"

datatype usage = ClientAuth | AnyUsage

text \<open>A TLS handshake as \<open>tls::possession::proved\<close> reads it.\<close>

record possession =
  ps_server_random :: bytes
  ps_server_leaf :: bytes
  ps_client_chain :: "bytes list"

record relay_env =
  re_subject_of :: "bytes \<Rightarrow> string + string"
  re_issuer_of :: "bytes \<Rightarrow> string + string"
  re_mutual_tls :: string
  re_peer_credentials :: string
  re_handshake_proof :: "string \<times> string"
  re_system_proof :: "string \<times> string"
  re_issuer_key :: string
  re_authenticate :: "string \<Rightarrow> presented \<Rightarrow> string + identity"
  re_read_chain :: "bytes list \<Rightarrow> string option"
  re_path :: "bytes list \<Rightarrow> usage \<Rightarrow> int \<Rightarrow> string + (string + int)"
  re_proved :: "bytes \<Rightarrow> string + possession"
  re_binding :: "bytes list \<Rightarrow> bytes"
  re_binding_length :: nat
  re_base64 :: "string \<Rightarrow> string + bytes"
  re_hex :: "string \<Rightarrow> bytes option"
  re_to_hex :: "bytes \<Rightarrow> string"

text \<open>\<open>gate\<close>: only the mechanism named is accepted, and its own authenticator asked.\<close>

definition caller_gate :: "relay_env \<Rightarrow> string \<Rightarrow> presented \<Rightarrow> string + identity" where
  "caller_gate env mechanism claim = re_authenticate env mechanism claim"

definition caller_certificate :: "relay_env \<Rightarrow> bytes \<Rightarrow> string + identity" where
  "caller_certificate env leaf =
     (case re_subject_of env leaf of
        Inl why \<Rightarrow> Inl why
      | Inr subject \<Rightarrow>
          let claim = \<lparr>pr_mechanism = re_mutual_tls env, pr_how = Passed, pr_value = subject,
                       pr_proof = re_handshake_proof env,
                       pr_evidence = (case re_issuer_of env leaf of
                          Inl _ \<Rightarrow> [] | Inr issuer \<Rightarrow> [(re_issuer_key env, issuer)])\<rparr>
          in caller_gate env (re_mutual_tls env) claim)"

definition caller_local :: "relay_env \<Rightarrow> string \<Rightarrow> string + identity" where
  "caller_local env account =
     caller_gate env (re_peer_credentials env)
       \<lparr>pr_mechanism = re_peer_credentials env, pr_how = Detected, pr_value = account,
        pr_proof = re_system_proof env, pr_evidence = []\<rparr>"

section \<open>Nonces\<close>

definition nonce_within :: duration where "nonce_within = 30 * 10 ^ 9"
definition nonces_at_once :: nat where "nonces_at_once = 32"
definition nonces_most :: nat where "nonces_most = 65536"
definition nonce_length :: nat where "nonce_length = 16"

record issued =
  is_through :: string
  is_listener :: bytes
  is_until :: instant

type_synonym fresh = "(bytes \<times> issued) list"

text \<open>One nonce drawn that is not outstanding, and the draws left; \<open>None\<close> where the draws ran out.\<close>

fun draw_nonce :: "fresh \<Rightarrow> bytes list \<Rightarrow> (bytes \<times> bytes list) option" where
  "draw_nonce st [] = None"
| "draw_nonce st (d # ds) = (if d \<in> fst ` set st then draw_nonce st ds else Some (d, ds))"

fun issue_each :: "nat \<Rightarrow> issued \<Rightarrow> bytes list \<Rightarrow> fresh \<Rightarrow> (bytes list \<times> fresh) option" where
  "issue_each 0 one draws st = Some ([], st)"
| "issue_each (Suc n) one draws st =
     (case draw_nonce st draws of
        None \<Rightarrow> None
      | Some (nonce, draws) \<Rightarrow>
          map_option (\<lambda>(ns, st). (nonce # ns, st)) (issue_each n one draws ((nonce, one) # st)))"

text \<open>\<open>Fresh::issue\<close>: the sum of what is outstanding and what is asked is a \<open>usize\<close> and wraps.\<close>

definition fresh_kept :: "instant \<Rightarrow> u64 \<Rightarrow> fresh \<Rightarrow> fresh" where
  "fresh_kept now n st =
     (if of_nat nonces_most \<le> of_nat (length st) + n
      then filter (\<lambda>e. now < is_until (snd e)) st else st)"

definition fresh_issue :: "instant \<Rightarrow> bytes list \<Rightarrow> string \<Rightarrow> bytes \<Rightarrow> u64 \<Rightarrow> fresh \<Rightarrow> (bytes list \<times> fresh) option" where
  "fresh_issue now draws through listener n st =
     (let st = fresh_kept now n st;
          room = nonces_most - length st;
          one = \<lparr>is_through = through, is_listener = listener, is_until = now + nonce_within\<rparr> in
      issue_each (min (min (unat n) nonces_at_once) room) one draws st)"

fun fresh_spend :: "instant \<Rightarrow> string \<Rightarrow> bytes list \<Rightarrow> fresh \<Rightarrow> bytes option \<times> fresh" where
  "fresh_spend now through [] st = (None, st)"
| "fresh_spend now through (n # ns) st =
     (if length n \<noteq> nonce_length then fresh_spend now through ns st
      else case map_of st n of
             None \<Rightarrow> fresh_spend now through ns st
           | Some one \<Rightarrow>
              (case fresh_spend now through ns (filter (\<lambda>e. fst e \<noteq> n) st) of
                 (found, st) \<Rightarrow>
                   (if is_through one = through \<and> now < is_until one then Some (is_listener one) else found,
                    st)))"

datatype nonces_answer = NoncesRefused string | NoncesAre "string list" nat

definition fresh_answered ::
  "relay_env \<Rightarrow> instant \<Rightarrow> bytes list \<Rightarrow> identity \<Rightarrow> bytes \<Rightarrow> u64 \<Rightarrow> fresh \<Rightarrow> (nonces_answer \<times> fresh) option" where
  "fresh_answered env now draws connection listener n st =
     (if id_mechanism connection = re_mutual_tls env \<and>
         \<not> (case caller_certificate env listener of
               Inl _ \<Rightarrow> False | Inr named \<Rightarrow> id_value named = id_value connection)
      then Some (NoncesRefused (''REFUSED. '' @ id_value connection @
             '' names a listener whose certificate is not its own subject's''), st)
      else map_option (\<lambda>(ns, st). (NoncesAre (map (re_to_hex env) ns) 30000, st))
             (fresh_issue now draws (id_value connection) listener n st))"

section \<open>What a node holds for its relays\<close>

definition vouched_most :: nat where "vouched_most = 65536"
definition known_most :: nat where "known_most = 1024"

record vouched_caller =
  vc_identity :: identity
  vc_until :: int
  vc_through :: string

record relaying =
  rl_relay :: "string list"
  rl_fresh :: fresh
  rl_vouched :: "(u64 \<times> vouched_caller) list"
  rl_known :: "(bytes list \<times> (identity \<times> int)) list"

definition relaying_new :: "string list \<Rightarrow> relaying" where
  "relaying_new relay = \<lparr>rl_relay = relay, rl_fresh = [], rl_vouched = [], rl_known = []\<rparr>"

text \<open>\<open>Relaying::new\<close>: \<open>from_pem\<close> reads the anchors, how many certificates there are.\<close>

definition relaying_made :: "(string \<Rightarrow> string + nat) \<Rightarrow> string list \<Rightarrow> string \<Rightarrow> string + relaying" where
  "relaying_made from_pem relay anchors =
     (case from_pem anchors of
        Inl why \<Rightarrow> Inl why
      | Inr n \<Rightarrow> if n = 0 then Inl ''[operate] relay needs anchors that hold a certificate''
                else Inr (relaying_new relay))"

definition relays :: "string \<Rightarrow> relaying \<Rightarrow> bool" where
  "relays who rl \<longleftrightarrow> list_ex (\<lambda>r. eq_ignore_ascii_case (trim r) who) (rl_relay rl)"

definition chain_verified :: "relay_env \<Rightarrow> int \<Rightarrow> bytes list \<Rightarrow> usage \<Rightarrow> string + identity \<times> int" where
  "chain_verified env now chain usage =
     (case chain of
        [] \<Rightarrow> Inl ''REFUSED. The chain is empty''
      | leaf # _ \<Rightarrow>
         (case re_read_chain env chain of
            Some why \<Rightarrow> Inl why
          | None \<Rightarrow>
             (case re_path env chain usage now of
                Inl why \<Rightarrow> Inl (''REFUSED. The certificate: '' @ why)
              | Inr ends \<Rightarrow>
                 (case caller_certificate env leaf of
                    Inl why \<Rightarrow> Inl why
                  | Inr who \<Rightarrow>
                      if \<not> is_proven who then Inl (''REFUSED. '' @ id_value who @ '' is not proven'')
                      else case ends of Inl why \<Rightarrow> Inl why | Inr until \<Rightarrow> Inr (who, until)))))"

definition verified_once :: "relay_env \<Rightarrow> int \<Rightarrow> bytes list \<Rightarrow> relaying \<Rightarrow> (string + identity \<times> int) \<times> relaying" where
  "verified_once env now chain rl =
     (let known = filter (\<lambda>e. now < snd (snd e)) (rl_known rl) in
      case map_of known chain of
        Some kept \<Rightarrow> (Inr kept, rl\<lparr>rl_known := known\<rparr>)
      | None \<Rightarrow>
         (case chain_verified env now chain ClientAuth of
            Inl why \<Rightarrow> (Inl why, rl\<lparr>rl_known := known\<rparr>)
          | Inr verified \<Rightarrow>
              let known = (if known_most \<le> length known then [] else known) in
              (Inr verified, rl\<lparr>rl_known := (chain, verified) # known\<rparr>)))"

definition vouched_full :: string where
  "vouched_full = ''REFUSED. The node holds '' @ decimal vouched_most @ '' relayed callers already''"

definition vouch_for ::
  "relay_env \<Rightarrow> int \<Rightarrow> u64 list \<Rightarrow> string \<Rightarrow> bytes list \<Rightarrow> relaying \<Rightarrow> ((string + u64) \<times> relaying) option" where
  "vouch_for env now draws through chain rl =
     (case verified_once env now chain rl of
        (Inl why, rl) \<Rightarrow> Some (Inl why, rl)
      | (Inr (who, until), rl) \<Rightarrow>
          let held = (if vouched_most \<le> length (rl_vouched rl)
                      then filter (\<lambda>e. now < vc_until (snd e)) (rl_vouched rl) else rl_vouched rl) in
          if vouched_most \<le> length held then Some (Inl vouched_full, rl\<lparr>rl_vouched := held\<rparr>)
          else case drawn (\<lambda>h. h \<in> fst ` set held) draws of
                 None \<Rightarrow> None
               | Some h \<Rightarrow> Some (Inr h, rl\<lparr>rl_vouched :=
                   (h, \<lparr>vc_identity = who, vc_until = until, vc_through = through\<rparr>) # held\<rparr>))"

definition vouched_proven :: "int \<Rightarrow> u64 \<Rightarrow> string \<Rightarrow> relaying \<Rightarrow> identity option \<times> relaying" where
  "vouched_proven now h through rl =
     (case map_of (rl_vouched rl) h of
        None \<Rightarrow> (None, rl)
      | Some c \<Rightarrow>
          if vc_until c \<le> now then (None, rl\<lparr>rl_vouched := filter (\<lambda>e. fst e \<noteq> h) (rl_vouched rl)\<rparr>)
          else (if vc_through c = through then Some (vc_identity c) else None, rl))"

definition unvouch :: "u64 \<Rightarrow> string \<Rightarrow> relaying \<Rightarrow> bool \<times> relaying" where
  "unvouch h through rl =
     (case map_of (rl_vouched rl) h of
        Some c \<Rightarrow>
          if vc_through c = through
          then (True, rl\<lparr>rl_vouched := filter (\<lambda>e. fst e \<noteq> h) (rl_vouched rl)\<rparr>) else (False, rl)
      | None \<Rightarrow> (False, rl))"

section \<open>Possession\<close>

definition no_fresh_nonce :: "string \<Rightarrow> string" where
  "no_fresh_nonce through =
     ''REFUSED. The browser's handshake holds no fresh nonce this node issued '' @ through @
     '': each is spent once, within 30 s (ADR-0009)''"

definition possessed ::
  "relay_env \<Rightarrow> instant \<Rightarrow> string \<Rightarrow> bytes \<Rightarrow> bytes list \<Rightarrow> fresh \<Rightarrow> (string + bytes list) \<times> fresh" where
  "possessed env now through transcript nonces st =
     (case re_proved env transcript of
        Inl why \<Rightarrow> (Inl (''REFUSED. The browser's handshake proves nothing: '' @ why @ '' (ADR-0009)''), st)
      | Inr ps \<Rightarrow>
          if take (re_binding_length env) (ps_server_random ps) \<noteq> re_binding env nonces
          then (Inl (''REFUSED. The browser's handshake is not bound to the nonces handed with it: '' @
                     ''its server's random holds none of them (ADR-0009)''), st)
          else case fresh_spend now through nonces st of
                 (None, st) \<Rightarrow> (Inl (no_fresh_nonce through), st)
               | (Some listener, st) \<Rightarrow>
                   if ps_server_leaf ps \<noteq> listener
                   then (Inl (''REFUSED. The browser's handshake was made with a server that is not '' @
                              ''the listener the node's nonce was issued for (ADR-0009)''), st)
                   else (Inr (ps_client_chain ps), st))"

section \<open>The answers to a relay\<close>

text \<open>\<open>nonces\<close>: \<open>listener\<close> and \<open>count\<close> are what the message says under those keys, where it is text
  and a number.\<close>

definition nonces_for ::
  "relay_env \<Rightarrow> int \<Rightarrow> instant \<Rightarrow> bytes list \<Rightarrow> identity \<Rightarrow> string option \<Rightarrow> u64 option \<Rightarrow> relaying \<Rightarrow>
     (nonces_answer \<times> relaying) option" where
  "nonces_for env now at draws connection listener n rl =
     (case Option.bind listener (\<lambda>text. case re_base64 env text of Inl _ \<Rightarrow> None
             | Inr leaf \<Rightarrow> if leaf = [] then None else Some leaf) of
        None \<Rightarrow> Some (NoncesRefused ''REFUSED. Nonces name the listener they are for'', rl)
      | Some leaf \<Rightarrow>
         (case chain_verified env now [leaf] AnyUsage of
            Inl refused \<Rightarrow> Some (NoncesRefused (refused @ '': the relay's listener (ADR-0009)''), rl)
          | Inr _ \<Rightarrow>
              map_option (\<lambda>(answer, st). (answer, rl\<lparr>rl_fresh := st\<rparr>))
                (fresh_answered env at draws connection leaf (case n of None \<Rightarrow> 1 | Some n \<Rightarrow> n) (rl_fresh rl))))"

text \<open>\<open>vouched_for\<close>: the transcript where the message has it as text, and every listed nonce that is
  text; those that are no hex are passed over.\<close>

definition vouched_for ::
  "relay_env \<Rightarrow> int \<Rightarrow> instant \<Rightarrow> u64 list \<Rightarrow> string \<Rightarrow> string option \<Rightarrow> string list \<Rightarrow> relaying \<Rightarrow>
     ((string + u64) \<times> relaying) option" where
  "vouched_for env now at draws through transcript listed rl =
     (case (case transcript of
              None \<Rightarrow> Inl ''REFUSED. A Vouch hands the browser's handshake''
            | Some text \<Rightarrow> (case re_base64 env text of
                 Inl why \<Rightarrow> Inl (''REFUSED. '' @ why) | Inr t \<Rightarrow> Inr t)) of
        Inl why \<Rightarrow> Some (Inl why, rl)
      | Inr t \<Rightarrow>
         (case possessed env at through t (List.map_filter (re_hex env) listed) (rl_fresh rl) of
            (Inl why, st) \<Rightarrow> Some (Inl why, rl\<lparr>rl_fresh := st\<rparr>)
          | (Inr chain, st) \<Rightarrow> vouch_for env now draws through chain (rl\<lparr>rl_fresh := st\<rparr>)))"

definition unvouched :: "string \<Rightarrow> u64 option \<Rightarrow> relaying \<Rightarrow> bool \<times> relaying" where
  "unvouched through caller rl = unvouch (case caller of None \<Rightarrow> 0 | Some h \<Rightarrow> h) through rl"

section \<open>What the nonces outstanding keep\<close>

definition fresh_ok :: "fresh \<Rightarrow> bool" where [inv_defs]:
  "fresh_ok st \<longleftrightarrow> distinct (map fst st) \<and> length st \<le> nonces_most"

lemma draw_nonce_new: "draw_nonce st draws = Some (n, rest) \<Longrightarrow> n \<notin> fst ` set st"
  by (induction st draws rule: draw_nonce.induct) (auto split: if_splits)

lemma issue_each_entries:
  assumes "issue_each n one draws st = Some (ns, st')"
  shows "st' = rev (map (\<lambda>k. (k, one)) ns) @ st \<and> length ns = n \<and> distinct ns \<and>
    set ns \<inter> fst ` set st = {}"
  using assms
proof (induction n arbitrary: draws st ns)
  case (Suc n)
  from Suc.prems obtain k rest ks where d: "draw_nonce st draws = Some (k, rest)"
    and i: "issue_each n one rest ((k, one) # st) = Some (ks, st')" "ns = k # ks"
    by (auto split: option.splits)
  from Suc.IH [OF i(1)] draw_nonce_new [OF d] i(2) show ?case by auto
qed simp

lemma fresh_kept_ok: "fresh_ok st \<Longrightarrow> fresh_ok (fresh_kept now n st)"
  by (auto simp: fresh_kept_def fresh_ok_def distinct_map_filter intro: le_trans [OF length_filter_le])

lemma fresh_issue_ok:
  assumes "fresh_ok st" and "fresh_issue now draws through listener n st = Some (ns, st')"
  shows "fresh_ok st' \<and> length ns \<le> nonces_at_once \<and>
    (\<forall>k \<in> set ns. map_of st' k =
      Some \<lparr>is_through = through, is_listener = listener, is_until = now + nonce_within\<rparr>)"
proof -
  let ?one = "\<lparr>is_through = through, is_listener = listener, is_until = now + nonce_within\<rparr>"
  let ?st = "fresh_kept now n st"
  have ok: "fresh_ok ?st" using fresh_kept_ok [OF assms(1)] .
  from assms(2) have "issue_each (min (min (unat n) nonces_at_once) (nonces_most - length ?st)) ?one draws ?st = Some (ns, st')"
    by (simp add: fresh_issue_def Let_def)
  from issue_each_entries [OF this] have e: "st' = rev (map (\<lambda>k. (k, ?one)) ns) @ ?st"
    "length ns = min (min (unat n) nonces_at_once) (nonces_most - length ?st)"
    "distinct ns" "set ns \<inter> fst ` set ?st = {}" by auto
  have d: "distinct (map fst st')" using ok e(3,4) by (auto simp: e(1) fresh_ok_def comp_def rev_map [symmetric])
  have "length ns \<le> nonces_most - length ?st" using e(2) by simp
  then have "length st' \<le> nonces_most" using ok by (simp add: e(1) fresh_ok_def le_diff_conv2)
  moreover have "map_of st' k = Some ?one" if "k \<in> set ns" for k
    using d that by (simp add: map_of_eq_Some_iff) (simp add: e(1))
  ultimately show ?thesis using d e(2) by (simp add: fresh_ok_def)
qed

lemma fresh_spend_subset: "set (snd (fresh_spend now through ns st)) \<subseteq> set st"
  by (induction now through ns st rule: fresh_spend.induct)
    (auto split: option.splits prod.splits)

lemma fresh_spend_ok: "fresh_ok st \<Longrightarrow> fresh_ok (snd (fresh_spend now through ns st))"
proof (induction now through ns st rule: fresh_spend.induct)
  case (2 now through n ns st)
  have "fresh_ok (filter (\<lambda>e. fst e \<noteq> n) st)"
    using 2(4) by (auto simp: fresh_ok_def distinct_map_filter intro: le_trans [OF length_filter_le])
  with 2 show ?case by (auto split: option.split prod.split)
qed simp

lemma fresh_spend_gone:
  "n \<in> set ns \<Longrightarrow> length n = nonce_length \<Longrightarrow> n \<notin> fst ` set (snd (fresh_spend now through ns st))"
proof (induction now through ns st rule: fresh_spend.induct)
  case (2 now through k ns st)
  show ?case
  proof (cases "length k = nonce_length \<and> map_of st k \<noteq> None")
    case True
    then obtain one where one: "map_of st k = Some one" by blast
    show ?thesis
    proof (cases "n = k")
      case eq: True
      have "set (snd (fresh_spend now through ns (filter (\<lambda>e. fst e \<noteq> k) st))) \<subseteq> set (filter (\<lambda>e. fst e \<noteq> k) st)"
        by (rule fresh_spend_subset)
      then show ?thesis using True one eq by (auto split: prod.splits)
    next
      case False
      then show ?thesis using 2(3) [OF _ one] True one 2(4,5) by (auto split: prod.splits)
    qed
  next
    case False
    show ?thesis
    proof (cases "n \<in> set ns")
      case True
      then show ?thesis using False 2 by (auto split: option.splits)
    next
      case out: False
      then have "n = k" using 2(4) by simp
      with False 2(5) have "map_of st n = None" by simp
      then have "n \<notin> fst ` set st" by (simp add: map_of_eq_None_iff)
      then have "n \<notin> fst ` set (snd (fresh_spend now through (k # ns) st))"
        using fresh_spend_subset [of now through "k # ns" st] by blast
      then show ?thesis .
    qed
  qed
qed simp

lemma fresh_spend_found:
  assumes "fresh_spend now through ns st = (Some listener, st')"
  shows "\<exists>n one. n \<in> set ns \<and> length n = nonce_length \<and> map_of st n = Some one \<and>
    is_through one = through \<and> now < is_until one \<and> is_listener one = listener"
  using assms
proof (induction now through ns st arbitrary: st' rule: fresh_spend.induct)
  case (2 now through k ns st)
  show ?case
  proof (cases "length k = nonce_length \<and> map_of st k \<noteq> None")
    case True
    then obtain one where one: "map_of st k = Some one" by blast
    obtain found st1 where rest: "fresh_spend now through ns (filter (\<lambda>e. fst e \<noteq> k) st) = (found, st1)"
      by fastforce
    show ?thesis
    proof (cases "is_through one = through \<and> now < is_until one")
      case ok: True
      then show ?thesis using 2(4) True one rest by auto
    next
      case False
      then have "found = Some listener" using 2(4) True one rest by auto
      with 2(3) [OF _ one] True rest obtain n' one' where n: "n' \<in> set ns" "length n' = nonce_length"
        "map_of (filter (\<lambda>e. fst e \<noteq> k) st) n' = Some one'" "is_through one' = through"
        "now < is_until one'" "is_listener one' = listener" by blast
      then have "n' \<noteq> k" using map_of_SomeD [OF n(3)] by auto
      with n(3) have "map_of st n' = Some one'" using map_of_filter_key [of k n' st] by simp
      with n show ?thesis by auto
    qed
  next
    case False
    then have "fresh_spend now through ns st = (Some listener, st')"
      using 2(4) by (auto split: if_splits)
    with 2(1,2) False show ?thesis by (cases "length k = nonce_length") auto
  qed
qed simp

section \<open>What a node holds for its relays, over every call\<close>

text \<open>An identity and its end come of a chain verified once for client authentication.\<close>

definition from_chain :: "relay_env \<Rightarrow> bytes list \<Rightarrow> identity \<times> int \<Rightarrow> bool" where
  "from_chain env chain v \<longleftrightarrow> (\<exists>past. chain_verified env past chain ClientAuth = Inr v)"

definition relaying_ok :: "relay_env \<Rightarrow> relaying \<Rightarrow> bool" where [inv_defs]:
  "relaying_ok env rl \<longleftrightarrow> fresh_ok (rl_fresh rl) \<and>
     distinct (map fst (rl_vouched rl)) \<and> length (rl_vouched rl) \<le> vouched_most \<and>
     0 \<notin> fst ` set (rl_vouched rl) \<and>
     (\<forall>e \<in> set (rl_vouched rl). \<exists>chain. from_chain env chain (vc_identity (snd e), vc_until (snd e))) \<and>
     length (rl_known rl) \<le> known_most \<and> (\<forall>e \<in> set (rl_known rl). from_chain env (fst e) (snd e))"

inductive relay_step :: "relay_env \<Rightarrow> relaying \<Rightarrow> relaying \<Rightarrow> bool" for env where
  nonces: "nonces_for env now at draws connection listener n s = Some (answer, t) \<Longrightarrow> relay_step env s t"
| vouches_for: "vouched_for env now at handles through transcript listed s = Some (answer', t) \<Longrightarrow> relay_step env s t"
| proves: "vouched_proven now h through s = (found, t) \<Longrightarrow> relay_step env s t"
| unvouches: "unvouched through h' s = (was, t) \<Longrightarrow> relay_step env s t"

inductive_cases relay_stepE: "relay_step env s t"

lemma chain_verified_ok:
  assumes "chain_verified env now chain usage = Inr (who, until)"
  shows "chain \<noteq> [] \<and> re_read_chain env chain = None \<and> re_path env chain usage now = Inr (Inr until) \<and>
    caller_certificate env (hd chain) = Inr who \<and> is_proven who"
proof (cases chain)
  case Nil
  then show ?thesis using assms by (simp add: chain_verified_def)
next
  case (Cons leaf rest)
  have "re_read_chain env chain = None"
    using assms Cons by (cases "re_read_chain env chain") (simp_all add: chain_verified_def)
  moreover obtain ends where "re_path env chain usage now = Inr ends"
    using assms Cons calculation by (cases "re_path env chain usage now") (simp_all add: chain_verified_def)
  moreover obtain c where "caller_certificate env leaf = Inr c"
    using assms Cons calculation by (cases "caller_certificate env leaf") (simp_all add: chain_verified_def)
  ultimately show ?thesis
    using assms Cons by (cases ends) (simp_all add: chain_verified_def split: if_splits)
qed

lemma from_chain_proven: "from_chain env chain (who, until) \<Longrightarrow> is_proven who"
  using chain_verified_ok by (auto simp: from_chain_def)

lemma verified_once_cases:
  assumes "relaying_ok env rl" and "verified_once env now chain rl = (v, rl')"
  shows "relaying_ok env rl' \<and> rl_vouched rl' = rl_vouched rl \<and> rl_fresh rl' = rl_fresh rl \<and>
    (\<forall>w. v = Inr w \<longrightarrow> from_chain env chain w)"
proof -
  let ?known = "filter (\<lambda>e. now < snd (snd e)) (rl_known rl)"
  have k: "length ?known \<le> known_most" "\<forall>e \<in> set ?known. from_chain env (fst e) (snd e)"
    using assms(1) le_trans [OF length_filter_le] by (auto simp: relaying_ok_def)
  have keep: "relaying_ok env (rl\<lparr>rl_known := ks\<rparr>)"
    if "length ks \<le> known_most" "\<forall>e \<in> set ks. from_chain env (fst e) (snd e)" for ks
    using assms(1) that by (simp add: relaying_ok_def)
  show ?thesis
  proof (cases "map_of ?known chain")
    case (Some kept)
    with k(2) have "from_chain env chain kept" using map_of_SomeD by fastforce
    then show ?thesis using assms(2) Some keep [OF k] by (auto simp: verified_once_def)
  next
    case None
    show ?thesis
    proof (cases "chain_verified env now chain ClientAuth")
      case (Inl why)
      then show ?thesis using assms(2) None keep [OF k] by (auto simp: verified_once_def)
    next
      case (Inr w)
      let ?ks = "(chain, w) # (if known_most \<le> length ?known then [] else ?known)"
      have "from_chain env chain w" using Inr by (auto simp: from_chain_def)
      then have "relaying_ok env (rl\<lparr>rl_known := ?ks\<rparr>)"
        by (intro keep) (use k in \<open>auto simp: known_most_def\<close>)
      then show ?thesis using assms(2) None Inr \<open>from_chain env chain w\<close>
        by (auto simp: verified_once_def Let_def)
    qed
  qed
qed

lemma vouched_filter_ok:
  "relaying_ok env rl \<Longrightarrow> relaying_ok env (rl\<lparr>rl_vouched := filter P (rl_vouched rl)\<rparr>)"
  by (auto simp: relaying_ok_def distinct_map_filter intro: le_trans [OF length_filter_le])

lemma vouch_for_cases:
  assumes ok: "relaying_ok env rl" and run: "vouch_for env now draws through chain rl = Some (answer, rl')"
  shows "relaying_ok env rl' \<and> (\<forall>h. answer = Inr h \<longrightarrow> h \<noteq> 0 \<and> (\<exists>who until.
    from_chain env chain (who, until) \<and>
    map_of (rl_vouched rl') h = Some \<lparr>vc_identity = who, vc_until = until, vc_through = through\<rparr>))"
proof -
  obtain v rl1 where v: "verified_once env now chain rl = (v, rl1)" by fastforce
  note one = verified_once_cases [OF ok v]
  show ?thesis
  proof (cases v)
    case (Inl why)
    then show ?thesis using run v one by (auto simp: vouch_for_def)
  next
    case (Inr w)
    obtain who until where w: "w = (who, until)" by (cases w)
    let ?held = "if vouched_most \<le> length (rl_vouched rl1)
      then filter (\<lambda>e. now < vc_until (snd e)) (rl_vouched rl1) else rl_vouched rl1"
    let ?c = "\<lparr>vc_identity = who, vc_until = until, vc_through = through\<rparr>"
    have held: "relaying_ok env (rl1\<lparr>rl_vouched := ?held\<rparr>)"
      using one vouched_filter_ok [of env rl1 "\<lambda>_. True"]
        vouched_filter_ok [of env rl1 "\<lambda>e. now < vc_until (snd e)"] by simp
    show ?thesis
    proof (cases "vouched_most \<le> length ?held")
      case True
      then have "answer = Inl vouched_full" "rl' = rl1\<lparr>rl_vouched := ?held\<rparr>"
        using run v Inr w by (simp_all add: vouch_for_def Let_def split: if_splits)
      then show ?thesis using held by simp
    next
      case False
      then obtain h where h: "drawn (\<lambda>h. h \<in> fst ` set ?held) draws = Some h"
        and out: "answer = Inr h" "rl' = rl1\<lparr>rl_vouched := (h, ?c) # ?held\<rparr>"
        using run v Inr w by (auto simp: vouch_for_def Let_def split: if_splits option.splits)
      have new: "h \<noteq> 0" "h \<notin> fst ` set ?held" using h by (auto simp: drawn_def find_Some_iff)
      have "from_chain env chain (who, until)" using one Inr w by simp
      then show ?thesis using held new False unfolding out relaying_ok_def by (auto simp: Suc_le_eq)
    qed
  qed
qed

lemma possessed_fresh_ok:
  "fresh_ok st \<Longrightarrow> fresh_ok (snd (possessed env now through transcript ns st))"
  using fresh_spend_ok [of st now through ns]
  by (auto simp: possessed_def split: sum.splits prod.splits option.splits)

lemma fresh_answered_ok:
  "fresh_ok st \<Longrightarrow> fresh_answered env now draws connection listener n st = Some (answer, st') \<Longrightarrow> fresh_ok st'"
  using fresh_issue_ok [of st now draws "id_value connection" listener n]
  by (auto simp: fresh_answered_def split: if_splits)

lemma relaying_fresh_ok: "relaying_ok env rl \<Longrightarrow> fresh_ok st \<Longrightarrow> relaying_ok env (rl\<lparr>rl_fresh := st\<rparr>)"
  by (simp add: relaying_ok_def)

lemma nonces_for_ok:
  assumes "relaying_ok env s" and "nonces_for env now at draws connection listener n s = Some (answer, t)"
  shows "relaying_ok env t"
  using assms fresh_answered_ok [of "rl_fresh s" env at draws connection] relaying_fresh_ok [of env s]
  by (auto simp: nonces_for_def relaying_ok_def split: option.splits sum.splits)

lemma vouched_for_ok:
  assumes "relaying_ok env s" and "vouched_for env now at handles through transcript listed s = Some (answer, t)"
  shows "relaying_ok env t"
proof -
  have fresh: "relaying_ok env (s\<lparr>rl_fresh := snd (possessed env at through x ns (rl_fresh s))\<rparr>)" for x ns
    using assms(1) possessed_fresh_ok relaying_fresh_ok by (simp add: relaying_ok_def)
  show ?thesis
    using assms fresh vouch_for_cases [OF fresh]
    by (auto simp: vouched_for_def split: option.splits sum.splits prod.splits) (metis snd_conv)+
qed

lemma relay_step_ok: "relaying_ok env s \<Longrightarrow> relay_step env s t \<Longrightarrow> relaying_ok env t"
  by (erule relay_stepE)
    (auto simp: vouched_proven_def unvouched_def unvouch_def intro: nonces_for_ok vouched_for_ok vouched_filter_ok
      split: option.splits if_splits)

interpretation relaying: invariant_system "\<lambda>s. \<exists>relay. s = relaying_new relay" "relay_step env" "relaying_ok env"
proof
  show "relaying_ok env s" if "\<exists>relay. s = relaying_new relay" for s
    using that by (auto simp: relaying_ok_def relaying_new_def fresh_ok_def)
qed (rule relay_step_ok)

lemma vouch_for_fresh:
  "vouch_for env now draws through chain rl = Some (answer, rl') \<Longrightarrow> rl_fresh rl' = rl_fresh rl"
  by (auto simp: vouch_for_def verified_once_def Let_def split: option.splits sum.splits prod.splits if_splits)

lemma fresh_spend_again:
  assumes "fresh_spend now through ns st = (found, st')"
  shows "fst (fresh_spend later through' ns st') = None"
proof (rule ccontr)
  assume "fst (fresh_spend later through' ns st') \<noteq> None"
  then obtain listener st'' where "fresh_spend later through' ns st' = (Some listener, st'')"
    by (cases "fresh_spend later through' ns st'") auto
  from fresh_spend_found [OF this] obtain n one where n: "n \<in> set ns" "length n = nonce_length" "map_of st' n = Some one"
    by blast
  have "n \<in> fst ` set st'" using map_of_SomeD [OF n(3)] by (simp add: rev_image_eqI)
  moreover have "n \<notin> fst ` set st'" using fresh_spend_gone [OF n(1,2), of now through st] assms by simp
  ultimately show False by simp
qed

lemma possessed_ok:
  assumes "possessed env now through transcript ns st = (Inr chain, st')"
  obtains ps listener where "re_proved env transcript = Inr ps"
    and "take (re_binding_length env) (ps_server_random ps) = re_binding env ns"
    and "fresh_spend now through ns st = (Some listener, st')" and "ps_server_leaf ps = listener"
    and "ps_client_chain ps = chain"
  using assms by (auto simp: possessed_def split: sum.splits prod.splits option.splits if_splits)

lemma vouched_for_accepted:
  assumes "vouched_for env now at handles through transcript listed s = Some (Inr h, t)"
  obtains b64 tr chain st where "transcript = Some b64" and "re_base64 env b64 = Inr tr"
    and "possessed env at through tr (List.map_filter (re_hex env) listed) (rl_fresh s) = (Inr chain, st)"
    and "vouch_for env now handles through chain (s\<lparr>rl_fresh := st\<rparr>) = Some (Inr h, t)"
  using assms by (auto simp: vouched_for_def split: option.splits sum.splits prod.splits)

section \<open>Properties\<close>

text \<open>A nonce is honoured once. What a spend answers is the listener of a nonce of the list
  that was outstanding, issued to that very relay and still fresh; every nonce of the list is gone
  after, used or not, so the same list answers no one, at any later time.\<close>

theorem nonce_spent_once:
  assumes "fresh_spend now through ns st = (found, st')"
  shows "(\<forall>listener. found = Some listener \<longrightarrow> (\<exists>n one. n \<in> set ns \<and> map_of st n = Some one \<and>
      is_through one = through \<and> now < is_until one \<and> is_listener one = listener)) \<and>
    (\<forall>n. n \<in> set ns \<and> length n = 16 \<longrightarrow> map_of st' n = None) \<and>
    fst (fresh_spend later through' ns st') = None"
proof -
  have "map_of st' n = None" if "n \<in> set ns" "length n = 16" for n
    using fresh_spend_gone [of n ns now through st] that assms
    by (simp add: map_of_eq_None_iff nonce_length_def)
  moreover have "found = Some listener \<Longrightarrow> \<exists>n one. n \<in> set ns \<and> map_of st n = Some one \<and>
      is_through one = through \<and> now < is_until one \<and> is_listener one = listener" for listener
    using fresh_spend_found [of now through ns st listener st'] assms by blast
  ultimately show ?thesis using fresh_spend_again [OF assms] by blast
qed

abbreviation sample_nonce :: bytes where
  "sample_nonce \<equiv> ''0123456789abcdef''"

abbreviation sample_issued :: issued where
  "sample_issued \<equiv> \<lparr>is_through = ''relay'', is_listener = ''leaf'', is_until = 30\<rparr>"

theorem nonce_spent_once_witness:
  "fresh_spend 5 ''relay'' [sample_nonce] [(sample_nonce, sample_issued)] = (Some ''leaf'', []) \<and>
   fst (fresh_spend 6 ''relay'' [sample_nonce] []) = None"
proof -
  have spent: "fresh_spend 5 ''relay'' [sample_nonce] [(sample_nonce, sample_issued)] = (Some ''leaf'', [])"
    by (simp add: nonce_length_def)
  from nonce_spent_once [OF this, of 6 "''relay''"] spent show ?thesis by blast
qed

text \<open>C19: a relay is answered a handle for a browser only where the browser's handshake proved it
  held its key, bound to a nonce this node issued that relay, fresh and unspent, for the listener
  the handshake was made with, and its chain was verified for client authentication and proven by
  the node's gate. The handle then names that caller, to that relay alone, until the certificate
  ends; and the same handshake offered again is refused.\<close>

theorem vouched_only_proved:
  assumes "reach (\<lambda>s. \<exists>relay. s = relaying_new relay) (relay_step env) s"
    and "vouched_for env now at handles through (Some text) listed s = Some (Inr h, t)"
  shows "\<exists>tr ps n one who until.
    re_base64 env text = Inr tr \<and> re_proved env tr = Inr ps \<and>
    take (re_binding_length env) (ps_server_random ps) = re_binding env (List.map_filter (re_hex env) listed) \<and>
    n \<in> set (List.map_filter (re_hex env) listed) \<and> map_of (rl_fresh s) n = Some one \<and>
    is_through one = through \<and> at < is_until one \<and> is_listener one = ps_server_leaf ps \<and>
    from_chain env (ps_client_chain ps) (who, until) \<and> is_proven who \<and>
    (\<forall>later r. fst (vouched_proven later h r t) = (if later < until \<and> r = through then Some who else None)) \<and>
    (\<forall>now' at' handles'. \<exists>u. vouched_for env now' at' handles' through (Some text) listed t =
      Some (Inl (no_fresh_nonce through), u))"
proof -
  let ?ns = "List.map_filter (re_hex env) listed"
  have ok: "relaying_ok env s" by (rule relaying.reach_inv [OF assms(1)])
  from assms(2) obtain tr chain st where tr: "re_base64 env text = Inr tr"
    and p: "possessed env at through tr ?ns (rl_fresh s) = (Inr chain, st)"
    and v: "vouch_for env now handles through chain (s\<lparr>rl_fresh := st\<rparr>) = Some (Inr h, t)"
    by (rule vouched_for_accepted) simp
  from p obtain ps listener where ps: "re_proved env tr = Inr ps"
    "take (re_binding_length env) (ps_server_random ps) = re_binding env ?ns"
    "fresh_spend at through ?ns (rl_fresh s) = (Some listener, st)" "ps_server_leaf ps = listener"
    "ps_client_chain ps = chain" by (rule possessed_ok)
  from fresh_spend_found [OF ps(3)] obtain n one where n: "n \<in> set ?ns" "map_of (rl_fresh s) n = Some one"
    "is_through one = through" "at < is_until one" "is_listener one = listener" by blast
  have "fresh_ok st" using fresh_spend_ok [of "rl_fresh s" at through ?ns] ok ps(3) by (simp add: relaying_ok_def)
  from vouch_for_cases [OF relaying_fresh_ok [OF ok this] v] obtain who until where
    who: "from_chain env chain (who, until)"
      "map_of (rl_vouched t) h = Some \<lparr>vc_identity = who, vc_until = until, vc_through = through\<rparr>" by blast
  have names: "fst (vouched_proven later h r t) = (if later < until \<and> r = through then Some who else None)" for later r
    using who(2) by (auto simp: vouched_proven_def)
  have left: "rl_fresh t = st" using vouch_for_fresh [OF v] by simp
  have again: "\<exists>u. vouched_for env now' at' handles' through (Some text) listed t =
      Some (Inl (no_fresh_nonce through), u)" for now' at' handles'
  proof -
    obtain found st2 where spent: "fresh_spend at' through ?ns st = (found, st2)" by fastforce
    moreover have "found = None" using fresh_spend_again [OF ps(3), of at' through] spent by simp
    ultimately show ?thesis by (simp add: vouched_for_def tr possessed_def ps(1,2) left)
  qed
  have "is_proven who" by (rule from_chain_proven [OF who(1)])
  then show ?thesis using tr ps n who(1) names again by blast
qed

text \<open>An environment, and a browser that proves itself in it: the state the witness applies the
  property at.\<close>

definition sample_env :: relay_env where
  "sample_env = \<lparr>re_subject_of = (\<lambda>leaf. Inr (''CN='' @ leaf)), re_issuer_of = (\<lambda>_. Inl ''none''),
     re_mutual_tls = ''mutual-tls'', re_peer_credentials = ''peer'',
     re_handshake_proof = (''handshake'', ''verified''), re_system_proof = (''system'', ''verified''),
     re_issuer_key = ''issuer'',
     re_authenticate = (\<lambda>mechanism claim. Inr \<lparr>id_value = pr_value claim, id_mechanism = mechanism, id_verified = Proven\<rparr>),
     re_read_chain = (\<lambda>_. None), re_path = (\<lambda>_ _ _. Inr (Inr 100)),
     re_proved = (\<lambda>tr. Inr \<lparr>ps_server_random = ''bound'', ps_server_leaf = ''leaf'', ps_client_chain = [tr]\<rparr>),
     re_binding = (\<lambda>_. ''bound''), re_binding_length = 5,
     re_base64 = Inr, re_hex = Some, re_to_hex = id\<rparr>"

definition sample_relaying :: relaying where
  "sample_relaying = \<lparr>rl_relay = [''CN=leaf''],
     rl_fresh = [(sample_nonce, \<lparr>is_through = ''CN=leaf'', is_listener = ''leaf'', is_until = 5 + nonce_within\<rparr>)],
     rl_vouched = [], rl_known = []\<rparr>"

abbreviation sample_relay :: identity where
  "sample_relay \<equiv> \<lparr>id_value = ''CN=leaf'', id_mechanism = ''mutual-tls'', id_verified = Proven\<rparr>"

lemma sample_env_fields [simp]:
  "re_read_chain sample_env c = None" "re_path sample_env c usage now = Inr (Inr 100)"
  "re_proved sample_env tr = Inr \<lparr>ps_server_random = ''bound'', ps_server_leaf = ''leaf'', ps_client_chain = [tr]\<rparr>"
  "re_binding sample_env ns = ''bound''" "re_binding_length sample_env = 5" "re_base64 sample_env = Inr"
  "re_hex sample_env = Some" "re_to_hex sample_env = id"
  by (simp_all add: sample_env_def)

lemma sample_certificate [simp]:
  "caller_certificate sample_env leaf =
     Inr \<lparr>id_value = ''CN='' @ leaf, id_mechanism = ''mutual-tls'', id_verified = Proven\<rparr>"
  by (simp add: caller_certificate_def caller_gate_def sample_env_def)

lemma sample_chain [simp]:
  "chain_verified sample_env now [leaf] usage =
     Inr (\<lparr>id_value = ''CN='' @ leaf, id_mechanism = ''mutual-tls'', id_verified = Proven\<rparr>, 100)"
  by (simp add: chain_verified_def is_proven_def)

lemma sample_nonces:
  "nonces_for sample_env 5 5 [sample_nonce] sample_relay (Some ''leaf'') (Some 1) (relaying_new [''CN=leaf'']) =
     Some (NoncesAre [sample_nonce] 30000, sample_relaying)"
  by (simp add: nonces_for_def fresh_answered_def fresh_issue_def fresh_kept_def relaying_new_def
      sample_relaying_def nonces_most_def nonces_at_once_def nonce_within_def word_le_nat_alt)

lemma sample_relaying_reached:
  "reach (\<lambda>s. \<exists>relay. s = relaying_new relay) (relay_step sample_env) sample_relaying"
  using relay_step.nonces [OF sample_nonces] by (auto intro: reach_step reach_init)

lemma sample_vouched_for:
  "\<exists>t. vouched_for sample_env 6 6 [7] ''CN=leaf'' (Some ''browser'') [sample_nonce] sample_relaying = Some (Inr 7, t)"
  by (simp add: vouched_for_def possessed_def vouch_for_def verified_once_def sample_relaying_def
      drawn_def vouched_most_def known_most_def nonce_length_def map_filter_simps nonce_within_def)

theorem vouched_only_proved_witness:
  "\<exists>t who until. vouched_for sample_env 6 6 [7] ''CN=leaf'' (Some ''browser'') [sample_nonce] sample_relaying = Some (Inr 7, t) \<and>
     from_chain sample_env [''browser''] (who, until) \<and> is_proven who"
proof -
  obtain t where t: "vouched_for sample_env 6 6 [7] ''CN=leaf'' (Some ''browser'') [sample_nonce] sample_relaying = Some (Inr 7, t)"
    using sample_vouched_for by blast
  from vouched_only_proved [OF sample_relaying_reached t] obtain tr ps who until where
    p: "re_base64 sample_env ''browser'' = Inr tr" "re_proved sample_env tr = Inr ps"
      "from_chain sample_env (ps_client_chain ps) (who, until)" "is_proven who" by blast
  then have "ps_client_chain ps = [''browser'']" by auto
  with p t show ?thesis by auto
qed

text \<open>Whatever relays ask, a node holds at most \<open>MOST\<close> nonces, \<open>MOST\<close> callers and \<open>KNOWN\<close>
  chains; no handle is 0, and every caller it holds, and every chain it knows, was verified and
  proven.\<close>

theorem relaying_bounded:
  assumes "reach (\<lambda>s. \<exists>relay. s = relaying_new relay) (relay_step env) s"
  shows "length (rl_fresh s) \<le> 65536 \<and> length (rl_vouched s) \<le> 65536 \<and> length (rl_known s) \<le> 1024 \<and>
    (\<forall>(h, c) \<in> set (rl_vouched s). h \<noteq> 0 \<and> is_proven (vc_identity c) \<and>
      (\<exists>chain. from_chain env chain (vc_identity c, vc_until c)))"
proof -
  have ok: "relaying_ok env s" by (rule relaying.reach_inv [OF assms])
  have "h \<noteq> 0 \<and> is_proven (vc_identity c) \<and> (\<exists>chain. from_chain env chain (vc_identity c, vc_until c))"
    if "(h, c) \<in> set (rl_vouched s)" for h c
  proof -
    from ok that have "\<exists>chain. from_chain env chain (vc_identity c, vc_until c)"
      unfolding relaying_ok_def by fastforce
    moreover have "h \<in> fst ` set (rl_vouched s)" using that by (simp add: rev_image_eqI)
    then have "h \<noteq> 0" using ok by (auto simp: relaying_ok_def)
    ultimately show ?thesis using from_chain_proven by blast
  qed
  then show ?thesis
    using ok by (auto simp: relaying_ok_def fresh_ok_def nonces_most_def vouched_most_def known_most_def)
qed

theorem relaying_bounded_witness: "length (rl_fresh sample_relaying) \<le> 65536"
  using relaying_bounded [OF sample_relaying_reached] by blast

text \<open>What a relay asks for is added to what is outstanding before it is bounded, and the sum
  wraps. With \<open>MOST\<close> nonces outstanding, every one of them stale, a relay that asks for
  \<open>u64::MAX\<close> is answered none and no stale one goes, where one that asks for a single one is
  answered it.\<close>

theorem issue_count_wraps:
  assumes "length st = 65536" and "\<forall>e \<in> set st. is_until (snd e) \<le> now"
  shows "fresh_issue now draws through listener (- 1) st = Some ([], st) \<and> fresh_kept now 1 st = []"
proof
  have "of_nat 65536 + (- 1) < (of_nat 65536 :: u64)" by (simp add: word_less_nat_alt)
  then have "fresh_kept now (- 1) st = st"
    by (simp add: fresh_kept_def assms(1) nonces_most_def not_le [symmetric])
  then show "fresh_issue now draws through listener (- 1) st = Some ([], st)"
    by (simp add: fresh_issue_def assms(1) nonces_most_def)
  have "(of_nat 65536 :: u64) \<le> of_nat 65536 + 1" by (simp add: word_le_nat_alt)
  then show "fresh_kept now 1 st = []"
    using assms(2) by (simp add: fresh_kept_def assms(1) nonces_most_def filter_empty_conv not_less)
qed

theorem issue_count_wraps_witness:
  "fresh_issue 40 [sample_nonce] ''relay'' ''leaf'' (- 1) (replicate 65536 (sample_nonce, sample_issued)) =
     Some ([], replicate 65536 (sample_nonce, sample_issued))"
  using issue_count_wraps [of "replicate 65536 (sample_nonce, sample_issued)" 40 "[sample_nonce]" "''relay''" "''leaf''"]
  by (simp add: in_set_replicate)

end
