(* ===== verification/Plane_Served.thy ===== *)
theory Plane_Served
  imports Plane_Call Plane_Vouched
begin

text \<open>
  \<open>src/plane/served.rs\<close>, with \<open>src/applied.rs\<close> and \<open>src/secret.rs\<close>: one call on a connection to
  a node's operate listener, decided from its method, from who the connection proved (or the caller
  a relay names) and from the role the node's configuration states, before its message is read; then
  read and answered. The connection itself, TLS and HTTP/2, is not modelled: a call is what was
  received on it.

  What the listener reaches is the state: the relaying it holds (\<open>Plane_Vouched\<close>), the audit
  records it wrote, in order, the orders it applied, the secrets it set, and how often it told the
  program running the node of an act. An answer is a \<open>reply\<close>, the JSON object the code writes or
  the gRPC refusal. The fields read of a message are its \<open>mg_\<close> fields.
\<close>

section \<open>What came of an act\<close>

datatype applied = Taken string | Refused_Act string | Failed_Act string

fun applied_said :: "applied \<Rightarrow> string" where
  "applied_said (Taken s) = s"
| "applied_said (Refused_Act s) = s"
| "applied_said (Failed_Act s) = s"

fun applied_result :: "applied \<Rightarrow> string + string" where
  "applied_result (Taken s) = Inr s"
| "applied_result (Refused_Act s) = Inl s"
| "applied_result (Failed_Act s) = Inl s"

definition applied_of :: "string + string \<Rightarrow> applied" where
  "applied_of answer =
     (case answer of
        Inr s \<Rightarrow> Taken s
      | Inl s \<Rightarrow> if starts_with ''FAILED'' s then Failed_Act s else Refused_Act s)"

datatype noun = Subscription | DeadMessage | MessageNoun | EventSubscription

text \<open>\<open>observe::Act\<close>; the word an act is said by is the other crate's, \<open>se_word\<close>.\<close>

datatype act_kind = Pause | Resume | Remove | Replay | Retry | Dismiss

record order =
  od_node :: string
  od_noun :: noun
  od_target :: string
  od_act :: act_kind
  od_who :: string

text \<open>The nodes of the process, each with what its \<open>Pickup\<close> and its \<open>SendStep\<close> answer an act, and
  what its Xmip Storage answers of secrets.\<close>

record node_acts =
  na_node :: string
  na_pickup :: "(string \<Rightarrow> act_kind \<Rightarrow> string \<Rightarrow> string + string) option"
  na_replay :: "string \<Rightarrow> string \<Rightarrow> string + string"
  na_send_step :: "(string \<Rightarrow> act_kind \<Rightarrow> string \<Rightarrow> string + string) option"
  na_write_secret :: "string \<Rightarrow> string \<Rightarrow> string \<Rightarrow> string \<Rightarrow> string option"
  na_list_secrets :: "string + string list"

definition absent_node :: "string \<Rightarrow> applied" where
  "absent_node node = Refused_Act (''REFUSED: no node at '' @ node @ '' runs in this process'')"

definition apply_order :: "node_acts list \<Rightarrow> order \<Rightarrow> applied" where
  "apply_order nodes ordr =
     (let node = od_node ordr in
      case od_noun ordr of
        EventSubscription \<Rightarrow> Refused_Act (''REFUSED: '' @ node @
          '' keeps no Event subscription hub; the Event subscription '' @ quoted (od_target ordr) @
          '' is another process's'')
      | MessageNoun \<Rightarrow>
          (case find (\<lambda>n. na_send_step n \<noteq> None \<and> na_node n = node) nodes of
             None \<Rightarrow> absent_node node
           | Some n \<Rightarrow> applied_of (the (na_send_step n) (od_target ordr) (od_act ordr) (od_who ordr)))
      | _ \<Rightarrow>
          (case find (\<lambda>n. na_pickup n \<noteq> None \<and> na_node n = node) nodes of
             None \<Rightarrow> absent_node node
           | Some n \<Rightarrow> applied_of
               (if od_act ordr = Replay then na_replay n (od_target ordr) (od_who ordr)
                else the (na_pickup n) (od_target ordr) (od_act ordr) (od_who ordr))))"

section \<open>Secrets\<close>

definition secret_node :: "node_acts list \<Rightarrow> string \<Rightarrow> string + node_acts" where
  "secret_node nodes node =
     (let registered = filter (\<lambda>n. na_pickup n \<noteq> None) nodes in
      case (if node = [] \<and> length registered = 1 then Some (hd registered)
            else find (\<lambda>n. na_node n = node) registered) of
        Some n \<Rightarrow> Inr n
      | None \<Rightarrow> Inl (if node = [] then ''REFUSED: name the node; this process runs more than one node, or none''
                     else ''REFUSED: no node at '' @ node @ '' runs in this process''))"

text \<open>\<open>made\<close> is what \<open>SecretName::new\<close>, \<open>SecretKind::named\<close> and \<open>Secret::new\<close> say of the three texts:
  why not, or the kind's word.\<close>

definition secret_set :: "(string \<Rightarrow> string \<Rightarrow> string \<Rightarrow> string + string) \<Rightarrow> node_acts list \<Rightarrow>
    string \<Rightarrow> string \<Rightarrow> string \<Rightarrow> string \<Rightarrow> string \<Rightarrow> applied" where
  "secret_set made nodes node name kind val who =
     (case made name kind val of
        Inl why \<Rightarrow> Refused_Act (''REFUSED: '' @ why)
      | Inr word \<Rightarrow>
         (case secret_node nodes node of
            Inl refused \<Rightarrow> Refused_Act refused
          | Inr n \<Rightarrow>
             (case na_write_secret n name word val who of
                None \<Rightarrow> Taken (''the secret '' @ quoted name @ '', a '' @ word @
                  '', is set; a Location naming it presents it as it next connects'')
              | Some failed \<Rightarrow> Failed_Act (''FAILED: the secret '' @ quoted name @
                  '' is not set, Xmip Storage did not take it: '' @ failed))))"

definition secrets_listed :: "node_acts list \<Rightarrow> string \<Rightarrow> string + string list" where
  "secrets_listed nodes node =
     (case secret_node nodes node of
        Inl refused \<Rightarrow> Inl refused
      | Inr n \<Rightarrow> (case na_list_secrets n of
          Inl failed \<Rightarrow> Inl (''FAILED: the secrets could not be read: '' @ failed) | Inr es \<Rightarrow> Inr es))"

section \<open>A call and its answer\<close>

record message =
  mg_text :: "string \<Rightarrow> string option"
  mg_number :: "string \<Rightarrow> u64 option"
  mg_list :: "string \<Rightarrow> string list"

record served_call =
  sc_path :: string
  sc_caller :: "u64 option"
  sc_message :: "string + message"

datatype reply = Refusal string string | Publication u64 string | RevisionIs u64 |
  Outcome string string | SecretsAre "string list" | AnswerRefused string |
  NoncesReply nonces_answer | CallerIs u64 | Released bool

datatype audit = Recorded string "string option" role string string "string option" | Noted string string

record served =
  sv_relaying :: "relaying option"
  sv_audit :: "audit list"
  sv_orders :: "order list"
  sv_secrets :: "(string \<times> string \<times> string) list"
  sv_acted :: nat

record served_env =
  se_relay :: relay_env
  se_admit :: admit
  se_stated :: "role option"
  se_published :: "u64 \<times> string"
  se_waited :: "u64 \<Rightarrow> duration \<Rightarrow> u64"
  se_nodes :: "node_acts list"
  se_noun :: "string \<Rightarrow> noun option"
  se_called :: "noun \<Rightarrow> string"
  se_act :: "noun \<Rightarrow> string \<Rightarrow> string + act_kind"
  se_word :: "act_kind \<Rightarrow> string"
  se_made :: "string \<Rightarrow> string \<Rightarrow> string \<Rightarrow> string + string"
  se_now :: int
  se_at :: instant
  se_handles :: "u64 list"
  se_nonces :: "bytes list"

definition not_a_relay :: string where
  "not_a_relay = ''relays for no one: [operate] relay does not name it''"

definition served_role :: "served_env \<Rightarrow> role" where
  "served_role env = (case se_stated env of None \<Rightarrow> Observer | Some r \<Rightarrow> r)"

definition method_asked :: "string \<Rightarrow> string" where
  "method_asked m =
     (if m = m_publication then ''read the publication''
      else if m = m_wait then ''follow the publication''
      else if m = m_secret then ''set a secret''
      else if m = m_secrets then ''list the secrets'' else ''act'')"

definition served_methods :: "string list" where
  "served_methods = [m_publication, m_wait, m_act, m_secret, m_secrets, m_nonces, m_vouch, m_unvouch]"

definition answered_refused :: "string \<Rightarrow> string \<Rightarrow> reply" where
  "answered_refused m refused =
     (if m \<in> {m_act, m_secret} then Outcome ''denied'' refused
      else if m = m_secrets then AnswerRefused refused
      else Refusal ''PERMISSION_DENIED'' refused)"

definition noted :: "string \<Rightarrow> string \<Rightarrow> served \<Rightarrow> served" where
  "noted peer said_text st = st\<lparr>sv_audit := sv_audit st @ [Noted peer said_text]\<rparr>"

definition recorded :: "string \<Rightarrow> string option \<Rightarrow> role \<Rightarrow> string \<Rightarrow> string \<Rightarrow> string option \<Rightarrow> served \<Rightarrow> served" where
  "recorded who through role act target refused st =
     st\<lparr>sv_audit := sv_audit st @ [Recorded who through role act target refused]\<rparr>"

definition mg_said :: "message \<Rightarrow> string \<Rightarrow> string" where
  "mg_said m key = (case mg_text m key of None \<Rightarrow> [] | Some t \<Rightarrow> t)"

section \<open>A relay's calls\<close>

definition relay_refused :: "reply \<Rightarrow> string option" where
  "relay_refused r =
     (case r of AnswerRefused why \<Rightarrow> Some why
      | NoncesReply (NoncesRefused why) \<Rightarrow> Some why | _ \<Rightarrow> None)"

definition relay_answer ::
  "served_env \<Rightarrow> identity \<Rightarrow> string \<Rightarrow> message \<Rightarrow> relaying \<Rightarrow> (reply \<times> relaying) option" where
  "relay_answer env caller method m rl =
     (if method = m_nonces then
        map_option (\<lambda>(a, rl). (NoncesReply a, rl))
          (nonces_for (se_relay env) (se_now env) (se_at env) (se_nonces env) caller
             (mg_text m ''listener'') (mg_number m ''count'') rl)
      else if method = m_vouch then
        map_option (\<lambda>(a, rl). (case a of Inr h \<Rightarrow> CallerIs h | Inl why \<Rightarrow> AnswerRefused why, rl))
          (vouched_for (se_relay env) (se_now env) (se_at env) (se_handles env) (id_value caller)
             (mg_text m ''transcript'') (mg_list m ''nonces'') rl)
      else case unvouched (id_value caller) (mg_number m ''caller'') rl of
             (was, rl) \<Rightarrow> Some (Released was, rl))"

definition served_relayed ::
  "served_env \<Rightarrow> relaying option \<Rightarrow> identity \<Rightarrow> string \<Rightarrow> served_call \<Rightarrow> served \<Rightarrow> (reply \<times> served) option" where
  "served_relayed env relaying caller method c st =
     (case relaying of
        None \<Rightarrow>
          let refused = ''REFUSED. '' @ id_value caller @ '' '' @ not_a_relay @ '' (ADR-0009)'' in
          Some (Refusal ''PERMISSION_DENIED'' refused, noted (id_value caller) refused st)
      | Some rl \<Rightarrow>
         (case sc_message c of
            Inl why \<Rightarrow> Some (Refusal ''INVALID_ARGUMENT'' why, st)
          | Inr m \<Rightarrow>
              map_option (\<lambda>(r, rl).
                let st = st\<lparr>sv_relaying := Some rl\<rparr> in
                (r, case relay_refused r of None \<Rightarrow> st | Some why \<Rightarrow> noted (id_value caller) why st))
                (relay_answer env caller method m rl)))"

section \<open>An act and a secret\<close>

definition applied_outcome :: "applied \<Rightarrow> reply" where
  "applied_outcome a =
     (case a of Taken s \<Rightarrow> Outcome ''taken'' s | Refused_Act s \<Rightarrow> Outcome ''refused'' s
      | Failed_Act s \<Rightarrow> Outcome ''failed'' s)"

definition served_acted :: "served_env \<Rightarrow> string \<Rightarrow> string option \<Rightarrow> message \<Rightarrow> served \<Rightarrow> reply \<times> served" where
  "served_acted env who through m st =
     (case se_noun env (mg_said m ''noun'') of
        None \<Rightarrow> (Outcome ''invalid'' (''REFUSED: '' @ quoted (mg_said m ''noun'') @ '' is no noun''), st)
      | Some noun \<Rightarrow>
         (case se_act env noun (mg_said m ''act'') of
            Inl refused \<Rightarrow> (Outcome ''invalid'' refused, st)
          | Inr act \<Rightarrow>
              let order = \<lparr>od_node = mg_said m ''node'', od_noun = noun, od_target = mg_said m ''target'',
                           od_act = act, od_who = who\<rparr>;
                  thing = se_called env noun @ '' '' @ quoted (od_target order) @ '' at '' @ od_node order;
                  st = recorded who through (served_role env) (se_word env act) thing None st;
                  st = st\<lparr>sv_orders := sv_orders st @ [order]\<rparr>;
                  came = apply_order (se_nodes env) order in
              (applied_outcome came,
               case came of Taken _ \<Rightarrow> st\<lparr>sv_acted := sv_acted st + 1\<rparr> | _ \<Rightarrow> st)))"

definition served_secret_set :: "served_env \<Rightarrow> string \<Rightarrow> string option \<Rightarrow> message \<Rightarrow> served \<Rightarrow> reply \<times> served" where
  "served_secret_set env who through m st =
     (let node = mg_said m ''node''; name = mg_said m ''name'';
          st = recorded who through (served_role env) ''set'' (''the secret '' @ quoted name @ '' at '' @ node) None st;
          st = st\<lparr>sv_secrets := sv_secrets st @ [(node, name, who)]\<rparr> in
      (applied_outcome (secret_set (se_made env) (se_nodes env) node name (mg_said m ''kind'') (mg_said m ''value'') who),
       st))"

section \<open>The one call\<close>

definition call_relaying :: "identity \<Rightarrow> served \<Rightarrow> relaying option" where
  "call_relaying caller st =
     (case sv_relaying st of
        Some rl \<Rightarrow> if is_proven caller \<and> relays (id_value caller) rl then Some rl else None
      | None \<Rightarrow> None)"

text \<open>An admitted call, read and answered.\<close>

definition served_read :: "served_env \<Rightarrow> string \<Rightarrow> string option \<Rightarrow> string \<Rightarrow> message \<Rightarrow> served \<Rightarrow> reply \<times> served" where
  "served_read env who through method m st =
     (if method = m_publication then (Publication (fst (se_published env)) (snd (se_published env)), st)
      else if method = m_wait then
        (let after = (case mg_number m ''after'' of None \<Rightarrow> 0 | Some n \<Rightarrow> n);
             within = (case mg_number m ''within_ms'' of None \<Rightarrow> longest_wait
                       | Some ms \<Rightarrow> min (unat ms * 10 ^ 6) longest_wait) in
         (RevisionIs (se_waited env after within), st))
      else if method = m_act then served_acted env who through m st
      else if method = m_secret then served_secret_set env who through m st
      else (case secrets_listed (se_nodes env) (mg_said m ''node'') of
              Inr es \<Rightarrow> SecretsAre es | Inl refused \<Rightarrow> AnswerRefused refused, st))"

definition served_admitted ::
  "served_env \<Rightarrow> identity \<Rightarrow> string option \<Rightarrow> string \<Rightarrow> served_call \<Rightarrow> served \<Rightarrow> reply \<times> served" where
  "served_admitted env acting through method c st =
     (let who = id_value acting; role = served_role env in
      case admitted (se_admit env) (Some acting) role method (method_asked method, ''on this node'') of
        Inl refused \<Rightarrow>
          (answered_refused method refused, recorded who through role method [] (Some refused) st)
      | Inr _ \<Rightarrow>
         (case sc_message c of
            Inl why \<Rightarrow> (Refusal ''INVALID_ARGUMENT'' why, st)
          | Inr m \<Rightarrow> served_read env who through method m st))"

definition served_called :: "served_env \<Rightarrow> identity \<Rightarrow> served_call \<Rightarrow> served \<Rightarrow> (reply \<times> served) option" where
  "served_called env caller c st =
     (case call_method (sc_path c) of
        None \<Rightarrow> Some (Refusal ''UNIMPLEMENTED'' (sc_path c @ '' is no method of '' @ service), st)
      | Some method \<Rightarrow>
          if method \<notin> set served_methods then
            Some (Refusal ''UNIMPLEMENTED'' (sc_path c @ '' is no method of '' @ service), st)
          else
            let relaying = call_relaying caller st in
            if method \<in> {m_nonces, m_vouch, m_unvouch} then served_relayed env relaying caller method c st
            else case (sc_caller c, relaying) of
                   (None, _) \<Rightarrow> Some (served_admitted env caller None method c st)
                 | (Some h, Some rl) \<Rightarrow>
                    (case vouched_proven (se_now env) h (id_value caller) rl of
                       (found, rl) \<Rightarrow>
                         let st = st\<lparr>sv_relaying := Some rl\<rparr> in
                         case found of
                           None \<Rightarrow> Some (answered_refused method unknown_caller, st)
                         | Some acting \<Rightarrow> Some (served_admitted env acting (Some (id_value caller)) method c st))
                 | (Some h, None) \<Rightarrow>
                     Some (answered_refused method
                       (''REFUSED. '' @ id_value caller @ '' '' @ not_a_relay @ '' (ADR-0009)''), st))"

section \<open>What a call changes\<close>

text \<open>An act taken or a secret set for \<open>who\<close>, and recorded before it was.\<close>

definition acted_for :: "string \<Rightarrow> string option \<Rightarrow> role \<Rightarrow> served \<Rightarrow> served \<Rightarrow> bool" where
  "acted_for who through role st st' \<longleftrightarrow>
     (\<exists>act thing. sv_audit st' = sv_audit st @ [Recorded who through role act thing None]) \<and>
     ((\<exists>ordr. od_who ordr = who \<and> sv_orders st' = sv_orders st @ [ordr] \<and> sv_secrets st' = sv_secrets st) \<or>
      (\<exists>node name. sv_orders st' = sv_orders st \<and> sv_secrets st' = sv_secrets st @ [(node, name, who)]))"

definition no_act :: "served \<Rightarrow> served \<Rightarrow> bool" where
  "no_act st st' \<longleftrightarrow> sv_orders st' = sv_orders st \<and> sv_secrets st' = sv_secrets st"

lemma served_acted_does:
  "no_act st (snd (served_acted env who through m st)) \<or>
   acted_for who through (served_role env) st (snd (served_acted env who through m st))"
proof (cases "se_noun env (mg_said m ''noun'')")
  case None
  then show ?thesis by (simp add: served_acted_def no_act_def)
next
  case (Some noun)
  show ?thesis
  proof (cases "se_act env noun (mg_said m ''act'')")
    case (Inl why)
    then show ?thesis using Some by (simp add: served_acted_def no_act_def)
  next
    case (Inr act)
    have "acted_for who through (served_role env) st (snd (served_acted env who through m st))"
      by (auto simp: served_acted_def Some Inr Let_def acted_for_def recorded_def split: applied.split)
    then show ?thesis ..
  qed
qed

lemma served_read_does:
  assumes "served_read env who through method m st = (r, st')"
  shows "no_act st st' \<and> st' = st \<or>
    method \<in> {m_act, m_secret} \<and> (no_act st st' \<or> acted_for who through (served_role env) st st')"
proof -
  consider "method = m_act" | "method = m_secret" | "method \<notin> {m_act, m_secret}" by blast
  then show ?thesis
  proof cases
    case 1
    then show ?thesis using assms served_acted_does [of st env who through m] by (simp add: served_read_def)
  next
    case 2
    then have "st' = snd (served_secret_set env who through m st)" using assms by (simp add: served_read_def)
    then show ?thesis using 2 by (auto simp: served_secret_set_def Let_def acted_for_def recorded_def)
  next
    case 3
    then have "st' = st" using assms by (auto simp: served_read_def Let_def split: if_splits)
    then show ?thesis by (simp add: no_act_def)
  qed
qed

lemma served_admitted_does:
  assumes "admits_by_rules (se_admit env)" and "served_admitted env acting through method c st = (r, st')"
  shows "no_act st st' \<or>
    is_proven acting \<and> may_operate (served_role env) \<and>
    acted_for (id_value acting) through (served_role env) st st'"
proof (cases "admitted (se_admit env) (Some acting) (served_role env) method (method_asked method, ''on this node'')")
  case (Inl why)
  then show ?thesis using assms(2) by (auto simp: served_admitted_def Let_def no_act_def recorded_def)
next
  case (Inr u)
  then have ok: "admitted (se_admit env) (Some acting) (served_role env) method (method_asked method, ''on this node'') = Inr ()"
    by simp
  show ?thesis
  proof (cases "sc_message c")
    case (Inl why)
    then show ?thesis using assms(2) Inr by (simp add: served_admitted_def no_act_def)
  next
    case (Inr m)
    then have "served_read env (id_value acting) through method m st = (r, st')"
      using assms(2) ok by (simp add: served_admitted_def)
    from served_read_does [OF this] show ?thesis
    proof
      assume "method \<in> {m_act, m_secret} \<and> (no_act st st' \<or> acted_for (id_value acting) through (served_role env) st st')"
      then have m: "method = m_act \<or> method = m_secret"
        and d: "no_act st st' \<or> acted_for (id_value acting) through (served_role env) st st'" by auto
      have "asker (Some acting) \<noteq> None" "\<exists>least. method_least method = Some least \<and> least \<le> served_role env"
        using ok admitted_ok_iff [OF assms(1)] by blast+
      then have "is_proven acting" "may_operate (served_role env)"
        using m by (auto simp: asker_def method_least_def may_operate_def split: if_splits)
      then show ?thesis using d by blast
    qed blast
  qed
qed

text \<open>Who a call acts for: the caller its connection proved, where it names none, else the caller a
  relay names, as the node holds it for that relay.\<close>

definition acts_for :: "served_env \<Rightarrow> identity \<Rightarrow> served_call \<Rightarrow> served \<Rightarrow> identity \<Rightarrow> string option \<Rightarrow> bool" where
  "acts_for env caller c st acting through \<longleftrightarrow>
     sc_caller c = None \<and> acting = caller \<and> through = None \<or>
     (\<exists>h rl held. sc_caller c = Some h \<and> sv_relaying st = Some rl \<and> is_proven caller \<and>
        relays (id_value caller) rl \<and> map_of (rl_vouched rl) h = Some held \<and>
        vc_through held = id_value caller \<and> se_now env < vc_until held \<and>
        vc_identity held = acting \<and> through = Some (id_value caller))"

lemma call_relaying_some: "call_relaying caller st = Some rl \<Longrightarrow>
    sv_relaying st = Some rl \<and> is_proven caller \<and> relays (id_value caller) rl"
  by (auto simp: call_relaying_def split: option.splits if_splits)

lemma vouched_proven_found: "vouched_proven now h through rl = (Some who, rl') \<Longrightarrow>
    rl' = rl \<and> (\<exists>held. map_of (rl_vouched rl) h = Some held \<and> vc_through held = through \<and> now < vc_until held \<and>
      vc_identity held = who)"
  by (auto simp: vouched_proven_def split: option.splits if_splits)

lemma served_relayed_no_act:
  "served_relayed env relaying caller method c st = Some (r, st') \<Longrightarrow> no_act st st'"
  by (auto simp: served_relayed_def no_act_def noted_def Let_def split: option.splits sum.splits)

lemma served_called_does:
  assumes "admits_by_rules (se_admit env)" and "served_called env caller c st = Some (r, st')"
  shows "no_act st st' \<or> (\<exists>acting through. acts_for env caller c st acting through \<and>
    is_proven acting \<and> may_operate (served_role env) \<and>
    acted_for (id_value acting) through (served_role env) st st')"
proof -
  consider "call_method (sc_path c) = None \<or> (\<exists>m. call_method (sc_path c) = Some m \<and> m \<notin> set served_methods)"
    | m where "call_method (sc_path c) = Some m" "m \<in> set served_methods" "m \<in> {m_nonces, m_vouch, m_unvouch}"
    | m where "call_method (sc_path c) = Some m" "m \<in> set served_methods" "m \<notin> {m_nonces, m_vouch, m_unvouch}"
    by (cases "call_method (sc_path c)") auto
  then show ?thesis
  proof cases
    case 1
    then have "st' = st" using assms(2) by (auto simp: served_called_def)
    then show ?thesis by (simp add: no_act_def)
  next
    case (2 m)
    then have "served_relayed env (call_relaying caller st) caller m c st = Some (r, st')"
      using assms(2) by (simp add: served_called_def)
    then show ?thesis using served_relayed_no_act by blast
  next
    case (3 m)
    show ?thesis
    proof (cases "sc_caller c")
      case None
      then have "served_admitted env caller None m c st = (r, st')"
        using assms(2) 3 by (simp add: served_called_def)
      from served_admitted_does [OF assms(1) this] None show ?thesis by (auto simp: acts_for_def)
    next
      case (Some h)
      show ?thesis
      proof (cases "call_relaying caller st")
        case None
        then have "st' = st" using assms(2) 3 Some by (simp add: served_called_def)
        then show ?thesis by (simp add: no_act_def)
      next
        case rl: (Some rl)
        obtain found rl' where v: "vouched_proven (se_now env) h (id_value caller) rl = (found, rl')" by fastforce
        let ?st = "st\<lparr>sv_relaying := Some rl'\<rparr>"
        show ?thesis
        proof (cases found)
          case None
          then have "st' = ?st" using assms(2) 3 Some rl v by (simp add: served_called_def Let_def)
          then show ?thesis by (simp add: no_act_def)
        next
          case acting: (Some acting)
          then have "served_admitted env acting (Some (id_value caller)) m c ?st = (r, st')"
            using assms(2) 3 Some rl v by (simp add: served_called_def Let_def)
          from served_admitted_does [OF assms(1) this]
          have "no_act st st' \<or> is_proven acting \<and> may_operate (served_role env) \<and>
              acted_for (id_value acting) (Some (id_value caller)) (served_role env) st st'"
            by (auto simp: no_act_def acted_for_def)
          moreover have "acts_for env caller c st acting (Some (id_value caller))"
            using Some call_relaying_some [OF rl] vouched_proven_found [of "se_now env" h "id_value caller" rl acting rl'] v acting
            by (auto simp: acts_for_def)
          ultimately show ?thesis by blast
        qed
      qed
    qed
  qed
qed

section \<open>Properties\<close>


text \<open>A node of two callers, one on the connection and one it vouched for, and a call to act.\<close>

definition sample_node :: node_acts where
  "sample_node = \<lparr>na_node = ''n'', na_pickup = Some (\<lambda>target act who. Inr ''paused''),
     na_replay = (\<lambda>_ _. Inl ''no''), na_send_step = None, na_write_secret = (\<lambda>_ _ _ _. None),
     na_list_secrets = Inr []\<rparr>"

definition sample_served_env :: served_env where
  "sample_served_env = \<lparr>se_relay = sample_env, se_admit = sample_admit, se_stated = Some Operator,
     se_published = (1, ''text''), se_waited = (\<lambda>n _. n), se_nodes = [sample_node],
     se_noun = (\<lambda>_. Some Subscription), se_called = (\<lambda>_. ''Subscription''), se_act = (\<lambda>_ _. Inr Pause), se_word = (\<lambda>_. ''pause''),
     se_made = (\<lambda>_ _ _. Inr ''text''), se_now = 6, se_at = 6, se_handles = [9], se_nonces = []\<rparr>"

definition sample_message :: message where
  "sample_message = \<lparr>mg_text = (\<lambda>key. if key = ''node'' then Some ''n'' else Some ''pause''),
     mg_number = (\<lambda>_. None), mg_list = (\<lambda>_. [])\<rparr>"

definition sample_served_call :: "u64 option \<Rightarrow> served_call" where
  "sample_served_call caller = \<lparr>sc_path = call_path m_act, sc_caller = caller, sc_message = Inr sample_message\<rparr>"

definition sample_served :: "relaying option \<Rightarrow> served" where
  "sample_served rl = \<lparr>sv_relaying = rl, sv_audit = [], sv_orders = [], sv_secrets = [], sv_acted = 0\<rparr>"

lemma sample_served_orders:
  "\<exists>r st'. served_called sample_served_env sample_relay (sample_served_call None) (sample_served None) = Some (r, st') \<and>
     sv_orders st' \<noteq> []"
proof -
  have "admitted sample_admit (Some sample_relay) Operator m_act (''act'', ''on this node'') = Inr ()"
    by (simp add: admitted_ok_iff [OF sample_admits] asker_def is_proven_def method_least_def)
  then show ?thesis
    by (simp add: served_called_def sample_served_call_def served_methods_def sample_served_def call_relaying_def
        served_admitted_def sample_served_env_def served_role_def method_asked_def served_read_def
        served_acted_def recorded_def Let_def split: applied.split)
qed


text \<open>An act that is refused because its connection names a caller and relays for no one is
  answered as denied and leaves no record: the audit has exactly what it had, where the listener
  promises every act recorded, taken or refused.\<close>

theorem refused_relay_unrecorded:
  assumes "sc_path c = call_path m_act" and "sc_caller c = Some h" and "sv_relaying st = None"
  shows "served_called env caller c st =
    Some (Outcome ''denied'' (''REFUSED. '' @ id_value caller @ '' '' @ not_a_relay @ '' (ADR-0009)''), st)"
  using assms by (simp add: served_called_def served_methods_def call_relaying_def answered_refused_def)

theorem refused_relay_unrecorded_witness:
  "\<exists>r. served_called sample_served_env sample_relay (sample_served_call (Some 7)) (sample_served None) =
     Some (r, sample_served None)"
  using refused_relay_unrecorded [of "sample_served_call (Some 7)" 7 "sample_served None" sample_served_env sample_relay]
  by (simp add: sample_served_call_def sample_served_def)

end
