(* ===== verification/Pickup.thy ===== *)
theory Pickup
  imports Held_Work Plane_Served
begin

text \<open>
  \<open>src/pickup.rs\<close> with \<open>pickup/state.rs\<close>, \<open>holding.rs\<close> and \<open>released.rs\<close>, and
  \<open>src/configured_subscription.rs\<close>: a node's Subscriptions, each with its standing (paused or not,
  by whom, since when), what its queue in the Ledger holds, and how far the node has read it. A
  Publication asks which of its Messages a Subscription holds, and says when its write is durable;
  the node takes up what an active Subscription holds, oldest first, and says of each what became
  of it. The operations under the mutex are functions of the state; Xmip Storage's answers are
  arguments. A queue's places are the numbers it gives them, \<open>BTreeSet\<close> a set of them.
\<close>

section \<open>A Subscription's standing\<close>

record sub_standing =
  su_paused :: bool
  su_by :: string
  su_since :: int

text \<open>The codec's fields: a text and a 64-bit number written to bytes, and read of the front of
  them.\<close>

record codec =
  cx_text :: "string \<Rightarrow> string"
  cx_read_text :: "string \<Rightarrow> string + string \<times> string"
  cx_i64 :: "int \<Rightarrow> string"
  cx_read_i64 :: "string \<Rightarrow> string + int \<times> string"
  cx_short :: string

definition standing_form :: nat where "standing_form = 1"

definition standing_record :: "codec \<Rightarrow> sub_standing \<Rightarrow> string" where
  "standing_record cx s =
     [char_of standing_form, char_of (if su_paused s then 1 else 0 :: nat)] @ cx_text cx (su_by s) @ cx_i64 cx (su_since s)"

definition read_byte :: "codec \<Rightarrow> string \<Rightarrow> string + nat \<times> string" where
  "read_byte cx bs = (case bs of [] \<Rightarrow> Inl (cx_short cx) | b # rest \<Rightarrow> Inr (of_char b, rest))"

definition standing_from_record :: "codec \<Rightarrow> string \<Rightarrow> string + sub_standing" where
  "standing_from_record cx bytes =
     (case read_byte cx bytes of
        Inl e \<Rightarrow> Inl e
      | Inr (form, rest) \<Rightarrow>
          if form \<noteq> standing_form then
            Inl (''a standing of form '' @ decimal form @ '', and this reads form '' @ decimal standing_form)
          else case read_byte cx rest of
            Inl e \<Rightarrow> Inl e
          | Inr (paused, rest) \<Rightarrow>
             (case cx_read_text cx rest of
                Inl e \<Rightarrow> Inl e
              | Inr (by, rest) \<Rightarrow>
                 (case cx_read_i64 cx rest of
                    Inl e \<Rightarrow> Inl e
                  | Inr (since, rest) \<Rightarrow>
                      if rest = [] then Inr \<lparr>su_paused = (paused \<noteq> 0), su_by = by, su_since = since\<rparr>
                      else Inl ''bytes after the standing'')))"

section \<open>The Subscriptions of a node\<close>

text \<open>A Subscription as routing has it (its filter by its text), and one configured: where it is
  drawn, and the Send Ports it reaches.\<close>

record subscription =
  sb_id :: string
  sb_filter :: string
  sb_destination :: subscriber

record configured_subscription =
  cs_subscription :: subscription
  cs_application :: string
  cs_file :: string
  cs_entry :: string
  cs_ports :: "string list"

definition cs_name :: "configured_subscription \<Rightarrow> string" where
  "cs_name c = sb_id (cs_subscription c)"

definition cs_destination :: "configured_subscription \<Rightarrow> subscriber" where
  "cs_destination c = sb_destination (cs_subscription c)"

text \<open>\<open>ConfiguredSubscription::unfiled\<close> and \<open>reached\<close>: the Send Ports a destination reaches.\<close>

fun unfiled_ports :: "subscriber \<Rightarrow> string list" where
  "unfiled_ports (ToSendPort port) = [port]"
| "unfiled_ports _ = []"

definition unfiled :: "subscription \<Rightarrow> configured_subscription" where
  "unfiled sb = \<lparr>cs_subscription = sb, cs_application = [], cs_file = [], cs_entry = [],
     cs_ports = unfiled_ports (sb_destination sb)\<rparr>"

fun reached :: "send_port_group list \<Rightarrow> subscriber \<Rightarrow> string list" where
  "reached groups (ToSendPort port) = [port]"
| "reached groups (ToSendGroup g) =
     (case find (\<lambda>d. sg_name d = g) groups of None \<Rightarrow> [] | Some d \<Rightarrow> sg_send_ports d)"
| "reached groups (ToWorkProcess w) = []"

text \<open>\<open>ConfiguredSubscription::of\<close>: what the node uses of an Xmip Application and of the file it was read
  of; \<open>subscription_entry\<close> is the configuration library's reading of a file's text.\<close>

record xmip_application =
  xa_subscriptions :: "subscription list"
  xa_send_port_groups :: "send_port_group list"

record application_file =
  af_name :: string
  af_file :: string
  af_text :: string

definition configured_of ::
  "(string \<Rightarrow> string \<Rightarrow> string \<Rightarrow> string option) \<Rightarrow> xmip_application list \<Rightarrow> application_file list \<Rightarrow>
     configured_subscription list" where
  "configured_of subscription_entry applications files =
     concat (map (\<lambda>(a, f).
       map (\<lambda>sb. \<lparr>cs_subscription = sb, cs_application = af_name f, cs_file = af_file f,
                   cs_entry = (case subscription_entry (af_text f) (af_name f) (sb_id sb) of None \<Rightarrow> [] | Some e \<Rightarrow> e),
                   cs_ports = reached (xa_send_port_groups a) (sb_destination sb)\<rparr>)
         (xa_subscriptions a)) (zip applications files))"

record pickup_entry =
  pe_configured :: configured_subscription
  pe_queue :: ident
  pe_standing :: sub_standing
  pe_held :: nat
  pe_picked_up :: nat
  pe_cursor :: nat
  pe_taken :: "nat set"
  pe_pending :: bool
  pe_not_before :: "instant option"

record pickup =
  pk_node :: string
  pk_entries :: "pickup_entry list"

definition pe_name :: "pickup_entry \<Rightarrow> string" where
  "pe_name e = cs_name (pe_configured e)"

definition entry_ready :: "instant \<Rightarrow> pickup_entry \<Rightarrow> bool" where
  "entry_ready now e \<longleftrightarrow> pe_pending e \<and> \<not> su_paused (pe_standing e) \<and>
     (case pe_not_before e of None \<Rightarrow> True | Some at \<Rightarrow> at \<le> now)"

definition pickup_index :: "string \<Rightarrow> pickup \<Rightarrow> nat option" where
  "pickup_index name st = position (\<lambda>e. pe_name e = name) (pk_entries st)"

definition pickup_ready :: "instant \<Rightarrow> pickup \<Rightarrow> bool" where
  "pickup_ready now st \<longleftrightarrow> list_ex (entry_ready now) (pk_entries st)"

text \<open>\<open>State::standing\<close>: every Subscription as the node publishes it; \<open>words\<close> is how the configuration
  library names a destination.\<close>

record published =
  pb_node :: string
  pb_name :: string
  pb_application :: string
  pb_filter :: string
  pb_destination :: string
  pb_file :: string
  pb_configuration :: string
  pb_paused :: bool
  pb_by :: string
  pb_picked_up :: nat
  pb_held :: nat
  pb_since :: int

definition pickup_standing :: "(subscriber \<Rightarrow> string) \<Rightarrow> pickup \<Rightarrow> published list" where
  "pickup_standing words st =
     map (\<lambda>e. let c = pe_configured e in
       \<lparr>pb_node = pk_node st, pb_name = cs_name c, pb_application = cs_application c,
        pb_filter = sb_filter (cs_subscription c), pb_destination = words (cs_destination c), pb_file = cs_file c,
        pb_configuration = cs_entry c, pb_paused = su_paused (pe_standing e), pb_by = su_by (pe_standing e),
        pb_picked_up = pe_picked_up e, pb_held = pe_held e, pb_since = su_since (pe_standing e)\<rparr>) (pk_entries st)"

definition pickup_uri :: "string \<Rightarrow> string \<Rightarrow> string" where
  "pickup_uri node name = node @ ''/subscription/'' @ name"

definition entry_at :: "nat \<Rightarrow> (pickup_entry \<Rightarrow> pickup_entry) \<Rightarrow> pickup \<Rightarrow> pickup" where
  "entry_at i f st = st\<lparr>pk_entries := (pk_entries st)[i := f (pk_entries st ! i)]\<rparr>"

text \<open>\<open>Pickup::open\<close>: \<open>operator_record\<close> and \<open>held_count\<close> are what Xmip Storage answers of a queue.\<close>

fun open_entries ::
  "codec \<Rightarrow> (string \<Rightarrow> ident) \<Rightarrow> string \<Rightarrow> int \<Rightarrow> (ident \<Rightarrow> string + string option) \<Rightarrow> (ident \<Rightarrow> string + nat) \<Rightarrow>
     configured_subscription list \<Rightarrow> string + pickup_entry list" where
  "open_entries cx named node now operator_record held_count [] = Inr []"
| "open_entries cx named node now operator_record held_count (c # cs) =
     (let unread = (\<lambda>e. Inl (''the Subscription '' @ quoted (cs_name c) @ '': '' @ e));
          q = named (pickup_uri node (cs_name c)) in
      case operator_record q of
        Inl e \<Rightarrow> unread e
      | Inr record_body \<Rightarrow>
         (case (case record_body of
                  None \<Rightarrow> Inr \<lparr>su_paused = False, su_by = [], su_since = now\<rparr>
                | Some body \<Rightarrow> standing_from_record cx body) of
            Inl e \<Rightarrow> unread e
          | Inr standing \<Rightarrow>
             (case held_count q of
                Inl e \<Rightarrow> unread e
              | Inr held \<Rightarrow>
                 (case open_entries cx named node now operator_record held_count cs of
                    Inl e \<Rightarrow> Inl e
                  | Inr es \<Rightarrow> Inr
                      (\<lparr>pe_configured = c, pe_queue = q, pe_standing = standing, pe_held = held, pe_picked_up = 0,
                        pe_cursor = 0, pe_taken = {}, pe_pending = (0 < held), pe_not_before = None\<rparr> # es)))))"

definition pickup_open where
  "pickup_open cx named node now operator_record held_count configured =
     (case open_entries cx named node now operator_record held_count configured of
        Inl e \<Rightarrow> Inl e | Inr es \<Rightarrow> Inr \<lparr>pk_node = node, pk_entries = es\<rparr>)"

section \<open>An operator's act\<close>

text \<open>\<open>act\<close>: \<open>written\<close> is what Xmip Storage says of the standing's write; the act is one a
  Subscription takes, Pause or Resume, or \<open>refused\<close> says why it is none.\<close>

definition pickup_act ::
  "(string + act_kind) \<Rightarrow> string \<Rightarrow> string \<Rightarrow> int \<Rightarrow> string option \<Rightarrow> pickup \<Rightarrow> (string + string) \<times> pickup" where
  "pickup_act taken name who now failed_write st =
     (case taken of
        Inl refused \<Rightarrow> (Inl refused, st)
      | Inr act \<Rightarrow>
         (case pickup_index name st of
            None \<Rightarrow> (Inl (''REFUSED: no Subscription '' @ quoted name @ '' is configured on '' @ pk_node st @
              ''; a Subscription is added and removed in the TOML configuration of the Xmip Application that draws it''), st)
          | Some i \<Rightarrow>
             let e = pk_entries st ! i; held = pe_held e in
             if act = Pause \<and> su_paused (pe_standing e) then
               (Inr (''Subscription '' @ quoted name @ '' was already paused''), st)
             else if act = Resume \<and> \<not> su_paused (pe_standing e) then
               (Inr (''Subscription '' @ quoted name @ '' was not paused''), st)
             else
               let pause = (act = Pause);
                   standing = \<lparr>su_paused = pause, su_by = (if pause then who else []), su_since = now\<rparr> in
               case failed_write of
                 Some error \<Rightarrow>
                   (Inl (''FAILED: Subscription '' @ quoted name @ '' is not '' @ (if pause then ''paused'' else ''resumed'') @
                      '': Xmip Storage did not take its standing: '' @ error), st)
               | None \<Rightarrow>
                   if pause then
                     (Inr (''Subscription '' @ quoted name @ '' paused by '' @ who @
                        ''; what it matches is held, not picked up, until it is resumed''),
                      entry_at i (\<lambda>e. e\<lparr>pe_standing := standing\<rparr>) st)
                   else
                     (Inr (''Subscription '' @ quoted name @ '' resumed by '' @ who @ ''; the '' @ decimal held @
                        '' it held are picked up, oldest first''),
                      entry_at i (\<lambda>e. e\<lparr>pe_standing := standing, pe_cursor := 0, pe_pending := True\<rparr>) st)))"

definition reaches :: "string \<Rightarrow> subscriber \<Rightarrow> pickup \<Rightarrow> subscriber list" where
  "reaches name destination st =
     (let ports = (case pickup_index name st of None \<Rightarrow> [] | Some i \<Rightarrow> cs_ports (pe_configured (pk_entries st ! i))) in
      if ports = [] then [destination] else map ToSendPort ports)"

section \<open>What a Publication holds\<close>

record holding =
  hg_holds :: "hold list"
  hg_held :: "(nat \<times> string) list"
  hg_picked :: "nat list"

definition holding_none :: holding where
  "holding_none = \<lparr>hg_holds = [], hg_held = [], hg_picked = []\<rparr>"

definition holding_one :: "pickup \<Rightarrow> string \<Rightarrow> bool \<Rightarrow> opened \<Rightarrow> holding \<Rightarrow> holding" where
  "holding_one st body every o1 hg =
     (case pickup_index (op_subscription o1) st of
        None \<Rightarrow> hg
      | Some i \<Rightarrow>
         let e = pk_entries st ! i in
         if \<not> every \<and> \<not> su_paused (pe_standing e) \<and> pe_held e = 0 then hg\<lparr>hg_picked := hg_picked hg @ [i]\<rparr>
         else hg\<lparr>hg_holds := hg_holds hg @ [\<lparr>h_queue = pe_queue e, h_journey = journey_id (op_journey o1), h_body = body\<rparr>],
                  hg_held := hg_held hg @ [(i, op_subscription o1)]\<rparr>)"

definition held_of :: "pickup \<Rightarrow> string \<Rightarrow> bool \<Rightarrow> opened list \<Rightarrow> holding" where
  "held_of st body every os = fold (holding_one st body every) os holding_none"

definition departing :: "holding \<Rightarrow> opened list \<Rightarrow> (journey \<times> subscriber) list" where
  "departing hg os =
     map (\<lambda>o1. (op_journey o1, op_to o1))
       (filter (\<lambda>o1. op_subscription o1 \<notin> snd ` set (hg_held hg)) os)"

definition entry_published :: "pickup_entry \<Rightarrow> pickup_entry" where
  "entry_published e =
     (let e = e\<lparr>pe_held := pe_held e + 1\<rparr> in
      if su_paused (pe_standing e) then e else e\<lparr>pe_pending := True\<rparr>)"

definition pickup_published :: "holding \<Rightarrow> pickup \<Rightarrow> pickup" where
  "pickup_published hg st =
     fold (\<lambda>(i, _). entry_at i entry_published) (hg_held hg)
       (fold (\<lambda>i. entry_at i (\<lambda>e. e\<lparr>pe_picked_up := pe_picked_up e + 1\<rparr>)) (hg_picked hg) st)"

section \<open>What is taken up\<close>

definition pickup_again_after :: duration where "pickup_again_after = 50 * 10 ^ 6"

text \<open>\<open>released\<close>: what is asked of the queues, then, of each answer, what is taken; a queue answers
  its places in order, with what is held at each.\<close>

definition released_asks :: "instant \<Rightarrow> pickup \<Rightarrow> (nat \<times> ident \<times> nat) list" where
  "released_asks now st =
     map (\<lambda>(i, e). (i, pe_queue e, pe_cursor e))
       (filter (\<lambda>(i, e). entry_ready now e) (enumerate 0 (pk_entries st)))"

fun take_each :: "(nat \<times> 'h) list \<Rightarrow> pickup_entry \<Rightarrow> (nat \<times> 'h) list \<times> pickup_entry" where
  "take_each [] e = ([], e)"
| "take_each ((place, h) # hs) e =
     (case take_each hs (e\<lparr>pe_cursor := place + 1, pe_taken := insert place (pe_taken e)\<rparr>) of
        (out, e') \<Rightarrow> (if place \<in> pe_taken e then out else (place, h) # out, e'))"

definition entry_taken ::
  "instant \<Rightarrow> nat \<Rightarrow> nat \<Rightarrow> string + (nat \<times> 'h) list \<Rightarrow> pickup_entry \<Rightarrow> (nat \<times> 'h) list \<times> pickup_entry" where
  "entry_taken now most start answer e =
     (if su_paused (pe_standing e) \<or> pe_cursor e \<noteq> start then ([], e)
      else case answer of
             Inl _ \<Rightarrow> ([], e\<lparr>pe_not_before := Some (now + pickup_again_after)\<rparr>)
           | Inr hs \<Rightarrow>
              (case take_each hs (e\<lparr>pe_not_before := None\<rparr>) of
                 (out, e') \<Rightarrow> (out, if length hs < most then e'\<lparr>pe_pending := False\<rparr> else e')))"

definition released_most :: "nat \<Rightarrow> nat" where
  "released_most wanted = (let n = max wanted 1 in if n \<le> u32_max then n else u32_max)"

section \<open>What became of it\<close>

definition entry_settle :: "nat \<Rightarrow> (pickup_entry \<Rightarrow> pickup_entry) \<Rightarrow> pickup_entry \<Rightarrow> pickup_entry" where
  "entry_settle place f e = f (e\<lparr>pe_taken := pe_taken e - {place}\<rparr>)"

definition entry_moved :: "nat \<Rightarrow> pickup_entry \<Rightarrow> pickup_entry" where
  "entry_moved place = entry_settle place (\<lambda>e. e\<lparr>pe_held := pe_held e - 1, pe_picked_up := pe_picked_up e + 1\<rparr>)"

definition entry_passed :: "nat \<Rightarrow> pickup_entry \<Rightarrow> pickup_entry" where
  "entry_passed place = entry_settle place id"

definition entry_again :: "instant \<Rightarrow> nat \<Rightarrow> pickup_entry \<Rightarrow> pickup_entry" where
  "entry_again now place e =
     (let e = e\<lparr>pe_taken := pe_taken e - {place}\<rparr>;
          e = (if place < pe_cursor e then e\<lparr>pe_cursor := place\<rparr> else e) in
      e\<lparr>pe_pending := True, pe_not_before := Some (now + pickup_again_after)\<rparr>)"

definition named_entry :: "string \<Rightarrow> (pickup_entry \<Rightarrow> pickup_entry) \<Rightarrow> pickup \<Rightarrow> pickup" where
  "named_entry name f st = (case pickup_index name st of None \<Rightarrow> st | Some i \<Rightarrow> entry_at i f st)"

definition pickup_moved :: "string \<Rightarrow> nat \<Rightarrow> pickup \<Rightarrow> pickup" where
  "pickup_moved name place = named_entry name (entry_moved place)"

definition pickup_passed :: "string \<Rightarrow> nat \<Rightarrow> pickup \<Rightarrow> pickup" where
  "pickup_passed name place = named_entry name (entry_passed place)"

definition pickup_again :: "instant \<Rightarrow> string \<Rightarrow> nat \<Rightarrow> pickup \<Rightarrow> pickup" where
  "pickup_again now name place = named_entry name (entry_again now place)"

text \<open>\<open>delivered\<close> and \<open>kept\<close>: the write, and the state where it was taken.\<close>

definition let_go_hand_on :: "claim \<Rightarrow> journey \<Rightarrow> hold \<Rightarrow> hand_on" where
  "let_go_hand_on c j h =
     \<lparr>ho_claim = c, ho_result = j, ho_leaves = [h_queue h], ho_queued = [], ho_requeued = [], ho_failed = None,
      ho_cleared = [], ho_waits = None, ho_kept_for = None\<rparr>"

definition pickup_delivered ::
  "store \<Rightarrow> string \<Rightarrow> nat \<Rightarrow> hold \<Rightarrow> journey \<Rightarrow> pickup \<Rightarrow> (unmoved + unit) \<times> hand_on list \<times> pickup" where
  "pickup_delivered sr name place h j st =
     (case sr_claim sr (h_journey h) of
        Inl e \<Rightarrow> (Inl (Unanswered e), [], st)
      | Inr None \<Rightarrow> (Inl (ClaimedByAnother (h_journey h)), [], st)
      | Inr (Some c) \<Rightarrow>
         let w = let_go_hand_on c j h in
         (case sr_hand_on sr w of
            Inr True \<Rightarrow> (Inr (), [w], pickup_moved name place st)
          | Inr False \<Rightarrow> (Inl (ClaimLapsed (h_journey h)), [w], st)
          | Inl e \<Rightarrow> (Inl (Unanswered e), [w], st)))"

definition pickup_kept :: "string option \<Rightarrow> string \<Rightarrow> nat \<Rightarrow> pickup \<Rightarrow> (string + unit) \<times> pickup" where
  "pickup_kept failed_write name place st =
     (case failed_write of Some e \<Rightarrow> (Inl e, st) | None \<Rightarrow> (Inr (), pickup_passed name place st))"

section \<open>One Subscription's queue over time\<close>

text \<open>
  A Subscription's entry with its queue in the Ledger, the places in order. A Publication's write
  puts a Message at the queue's end, and is announced (\<open>published\<close>) afterwards; \<open>hs_unannounced\<close>
  counts the writes not announced yet. The node asks with the lock, reads the queue without it and
  takes what it read with the lock again (\<open>hs_reading\<close>), at most \<open>atmost\<close> at once; \<open>hs_out\<close> is what it
  took and has not said the end of. Where \<open>overtaken\<close> is false, nothing is announced between an asking
  and its taking.
\<close>

record held_system =
  hs_entry :: pickup_entry
  hs_queue :: "(nat \<times> ident) list"
  hs_next :: nat
  hs_unannounced :: nat
  hs_reading :: "(nat \<times> (nat \<times> ident) list option) option"
  hs_out :: "nat list"

definition read_from :: "nat \<Rightarrow> nat \<Rightarrow> (nat \<times> 'h) list \<Rightarrow> (nat \<times> 'h) list" where
  "read_from most start q = take most (filter (\<lambda>e. start \<le> fst e) q)"

inductive held_step :: "bool \<Rightarrow> nat \<Rightarrow> held_system \<Rightarrow> held_system \<Rightarrow> bool" for overtaken atmost where
  writes: "held_step overtaken atmost s (s\<lparr>hs_queue := hs_queue s @ [(hs_next s, j)], hs_next := hs_next s + 1,
    hs_unannounced := hs_unannounced s + 1\<rparr>)"
| announces: "0 < hs_unannounced s \<Longrightarrow> overtaken \<or> hs_reading s = None \<Longrightarrow>
    held_step overtaken atmost s (s\<lparr>hs_unannounced := hs_unannounced s - 1, hs_entry := entry_published (hs_entry s)\<rparr>)"
| asks: "hs_reading s = None \<Longrightarrow> entry_ready now (hs_entry s) \<Longrightarrow>
    held_step overtaken atmost s (s\<lparr>hs_reading := Some (pe_cursor (hs_entry s), None)\<rparr>)"
| reads: "hs_reading s = Some (start, None) \<Longrightarrow>
    held_step overtaken atmost s (s\<lparr>hs_reading := Some (start, Some (read_from atmost start (hs_queue s)))\<rparr>)"
| takes: "hs_reading s = Some (start, Some hs) \<Longrightarrow> entry_taken now atmost start (Inr hs) (hs_entry s) = (out, e) \<Longrightarrow>
    held_step overtaken atmost s (s\<lparr>hs_entry := e, hs_out := hs_out s @ map fst out, hs_reading := None\<rparr>)"
| fails: "hs_reading s = Some (start, None) \<Longrightarrow> entry_taken now atmost start (Inl why :: string + (nat \<times> ident) list) (hs_entry s) = (out, e) \<Longrightarrow>
    held_step overtaken atmost s (s\<lparr>hs_entry := e, hs_reading := None\<rparr>)"
| moves: "place \<in> set (hs_out s) \<Longrightarrow>
    held_step overtaken atmost s (s\<lparr>hs_entry := entry_moved place (hs_entry s), hs_out := remove1 place (hs_out s),
      hs_queue := filter (\<lambda>e. fst e \<noteq> place) (hs_queue s)\<rparr>)"
| passes: "place \<in> set (hs_out s) \<Longrightarrow>
    held_step overtaken atmost s (s\<lparr>hs_entry := entry_passed place (hs_entry s), hs_out := remove1 place (hs_out s)\<rparr>)"
| agains: "place \<in> set (hs_out s) \<Longrightarrow>
    held_step overtaken atmost s (s\<lparr>hs_entry := entry_again now place (hs_entry s), hs_out := remove1 place (hs_out s)\<rparr>)"
| pauses: "held_step overtaken atmost s
    (s\<lparr>hs_entry := (hs_entry s)\<lparr>pe_standing := \<lparr>su_paused = True, su_by = who, su_since = at\<rparr>\<rparr>\<rparr>)"
| resumes: "held_step overtaken atmost s
    (s\<lparr>hs_entry := (hs_entry s)\<lparr>pe_standing := \<lparr>su_paused = False, su_by = [], su_since = at\<rparr>,
       pe_cursor := 0, pe_pending := True\<rparr>\<rparr>)"

inductive_cases held_stepE: "held_step overtaken atmost s t"

text \<open>A node just started, its queue as the Ledger has it.\<close>

definition held_start :: "held_system \<Rightarrow> bool" where
  "held_start s \<longleftrightarrow> distinct (map fst (hs_queue s)) \<and> (\<forall>e \<in> set (hs_queue s). fst e < hs_next s) \<and>
     sorted (map fst (hs_queue s)) \<and> hs_unannounced s = 0 \<and> hs_reading s = None \<and> hs_out s = [] \<and>
     pe_held (hs_entry s) = length (hs_queue s) \<and> pe_cursor (hs_entry s) = 0 \<and> pe_taken (hs_entry s) = {} \<and>
     (pe_pending (hs_entry s) \<longleftrightarrow> 0 < pe_held (hs_entry s))"

definition out_inv :: "held_system \<Rightarrow> bool" where [inv_defs]:
  "out_inv s \<longleftrightarrow> distinct (hs_out s) \<and> set (hs_out s) = pe_taken (hs_entry s) \<and>
     sorted (map fst (hs_queue s)) \<and> distinct (map fst (hs_queue s)) \<and> (\<forall>e \<in> set (hs_queue s). fst e < hs_next s) \<and>
     (\<forall>start hs. hs_reading s = Some (start, Some hs) \<longrightarrow>
        sorted (map fst hs) \<and> distinct (map fst hs) \<and> (\<forall>e \<in> set hs. start \<le> fst e))"

lemma take_each_out:
  assumes "take_each hs e = (out, e')" and "distinct (map fst hs)"
  shows "out = filter (\<lambda>x. fst x \<notin> pe_taken e) hs \<and> pe_taken e' = pe_taken e \<union> fst ` set hs \<and>
    pe_cursor e' = (if hs = [] then pe_cursor e else fst (last hs) + 1) \<and>
    pe_pending e' = pe_pending e \<and> pe_standing e' = pe_standing e"
  using assms
proof (induction hs arbitrary: e out)
  case (Cons h hs)
  obtain place x where h: "h = (place, x)" by (cases h)
  let ?e = "e\<lparr>pe_cursor := place + 1, pe_taken := insert place (pe_taken e)\<rparr>"
  obtain out1 where t: "take_each hs ?e = (out1, e')"
    and out: "out = (if place \<in> pe_taken e then out1 else (place, x) # out1)"
    using Cons.prems(1) h by (auto split: prod.splits)
  have "place \<notin> fst ` set hs" using Cons.prems(2) h by simp
  then have "filter (\<lambda>y. fst y \<notin> insert place (pe_taken e)) hs = filter (\<lambda>y. fst y \<notin> pe_taken e) hs"
    by (auto intro!: filter_cong simp: image_iff)
  with Cons.IH [OF t] Cons.prems(2) h out show ?case by auto
qed simp

lemma entry_taken_out:
  assumes "entry_taken now most start (Inr hs) e = (out, e')" and "distinct (map fst hs)"
  shows "(out = [] \<and> e' = e \<and> (su_paused (pe_standing e) \<or> pe_cursor e \<noteq> start)) \<or>
    (\<not> su_paused (pe_standing e) \<and> pe_cursor e = start \<and>
     out = filter (\<lambda>x. fst x \<notin> pe_taken e) hs \<and> pe_taken e' = pe_taken e \<union> fst ` set hs \<and>
     pe_cursor e' = (if hs = [] then start else fst (last hs) + 1) \<and>
     pe_pending e' = (if length hs < most then False else pe_pending e) \<and> pe_standing e' = pe_standing e)"
proof (cases "su_paused (pe_standing e) \<or> pe_cursor e \<noteq> start")
  case True
  then show ?thesis using assms(1) by (auto simp: entry_taken_def)
next
  case False
  obtain out1 e1 where t: "take_each hs (e\<lparr>pe_not_before := None\<rparr>) = (out1, e1)" by fastforce
  have run: "out = out1" "e' = (if length hs < most then e1\<lparr>pe_pending := False\<rparr> else e1)"
    using assms(1) False by (simp_all add: entry_taken_def t)
  from take_each_out [OF t assms(2)] have
    "out1 = filter (\<lambda>x. fst x \<notin> pe_taken e) hs" "pe_taken e1 = pe_taken e \<union> fst ` set hs"
    "pe_cursor e1 = (if hs = [] then pe_cursor e else fst (last hs) + 1)" "pe_pending e1 = pe_pending e"
    "pe_standing e1 = pe_standing e" by simp_all
  with run False show ?thesis by simp
qed

lemma entry_failed_same:
  "entry_taken now most start (Inl why) e = (out, e') \<Longrightarrow>
     pe_taken e' = pe_taken e \<and> pe_cursor e' = pe_cursor e \<and> pe_pending e' = pe_pending e \<and>
     pe_standing e' = pe_standing e"
  by (auto simp: entry_taken_def split: if_splits)

lemma read_from_props:
  assumes "sorted (map fst q)" and "distinct (map fst q)"
  shows "sorted (map fst (read_from most start q)) \<and> distinct (map fst (read_from most start q)) \<and>
    (\<forall>e \<in> set (read_from most start q). start \<le> fst e \<and> e \<in> set q)"
  using assms
  by (auto simp: read_from_def sorted_filter distinct_map_filter take_map [symmetric] sorted_wrt_take
      dest: in_set_takeD)

lemma set_remove1_distinct: "distinct xs \<Longrightarrow> set (remove1 x xs) = set xs - {x}"
  by simp

lemma entry_settle_fields [simp]:
  "pe_taken (entry_moved place e) = pe_taken e - {place}" "pe_taken (entry_passed place e) = pe_taken e - {place}"
  "pe_taken (entry_again now place e) = pe_taken e - {place}" "pe_taken (entry_published e) = pe_taken e"
  by (simp_all add: entry_moved_def entry_passed_def entry_settle_def entry_again_def entry_published_def Let_def)

lemma out_step:
  assumes inv: "out_inv s" and "held_step overtaken atmost s t"
  shows "out_inv t"
  using assms(2)
proof cases
  case (writes j)
  then show ?thesis using inv by (auto simp: out_inv_def sorted_append less_imp_le)
next
  case (reads start)
  then show ?thesis using inv read_from_props [of "hs_queue s" atmost start] by (auto simp: out_inv_def)
next
  case (takes start hs now out e)
  have d: "distinct (map fst hs)" using inv takes(2) by (simp add: out_inv_def)
  from entry_taken_out [OF takes(3) d] show ?thesis
  proof
    assume "out = [] \<and> e = hs_entry s \<and> (su_paused (pe_standing (hs_entry s)) \<or> pe_cursor (hs_entry s) \<noteq> start)"
    then show ?thesis using inv takes(1) by (simp add: out_inv_def)
  next
    assume a: "\<not> su_paused (pe_standing (hs_entry s)) \<and> pe_cursor (hs_entry s) = start \<and>
      out = filter (\<lambda>x. fst x \<notin> pe_taken (hs_entry s)) hs \<and> pe_taken e = pe_taken (hs_entry s) \<union> fst ` set hs \<and>
      pe_cursor e = (if hs = [] then start else fst (last hs) + 1) \<and>
      pe_pending e = (if length hs < atmost then False else pe_pending (hs_entry s)) \<and> pe_standing e = pe_standing (hs_entry s)"
    have "distinct (map fst out)" using a d by (simp add: distinct_map_filter)
    then show ?thesis using inv takes(1) a unfolding out_inv_def by auto
  qed
next
  case (fails start now why out e)
  then show ?thesis using inv entry_failed_same [OF fails(3)] by (simp add: out_inv_def)
next
  case (moves place)
  then show ?thesis using inv by (auto simp: out_inv_def sorted_filter distinct_map_filter)
next
  case (passes place)
  then show ?thesis using inv by (simp add: out_inv_def)
next
  case (agains place now)
  then show ?thesis using inv by (simp add: out_inv_def)
qed (use inv in \<open>auto simp: out_inv_def\<close>)

interpretation held_out: invariant_system held_start "held_step overtaken atmost" out_inv
proof
  show "held_start s \<Longrightarrow> out_inv s" for s by (simp add: out_inv_def held_start_def)
qed (rule out_step)

section \<open>Nothing read is overtaken, nothing is left behind\<close>

definition waits_from :: "nat \<Rightarrow> (nat \<times> 'h) list \<Rightarrow> nat" where
  "waits_from start q = length (filter (\<lambda>e. start \<le> fst e) q)"

definition behind_inv :: "nat \<Rightarrow> held_system \<Rightarrow> bool" where
  "behind_inv atmost s \<longleftrightarrow> out_inv s \<and>
     (\<not> su_paused (pe_standing (hs_entry s)) \<and> \<not> pe_pending (hs_entry s) \<longrightarrow>
        waits_from (pe_cursor (hs_entry s)) (hs_queue s) \<le> hs_unannounced s) \<and>
     (\<forall>start hs. hs_reading s = Some (start, Some hs) \<and> length hs < atmost \<longrightarrow>
        length (filter (\<lambda>e. start \<le> fst e \<and> fst e \<notin> fst ` set hs) (hs_queue s)) \<le> hs_unannounced s)"

lemma waits_from_mono: "start \<le> start' \<Longrightarrow> waits_from start' q \<le> waits_from start q"
  unfolding waits_from_def by (induction q) auto

lemma waits_from_filter: "waits_from start (filter P q) \<le> waits_from start q"
  unfolding waits_from_def by (induction q) auto

lemma length_filter_filter: "length (filter P (filter Q q)) \<le> length (filter P q)"
  by (induction q) auto

lemma read_from_whole:
  "length (read_from most start q) < most \<Longrightarrow> read_from most start q = filter (\<lambda>e. start \<le> fst e) q"
  by (simp add: read_from_def min_def split: if_splits)

lemma sorted_le_last: "sorted xs \<Longrightarrow> x \<in> set xs \<Longrightarrow> x \<le> last xs" for x :: nat
proof (induction xs)
  case (Cons a xs)
  then show ?case by (cases "xs = []") auto
qed simp

lemma past_last:
  assumes "sorted (map fst hs)" and "hs \<noteq> []" and "\<forall>e \<in> set hs. start \<le> fst e"
  shows "waits_from (fst (last hs) + 1) q \<le> length (filter (\<lambda>e. start \<le> fst e \<and> fst e \<notin> fst ` set hs) q)"
proof -
  have le: "x \<le> fst (last hs)" if "x \<in> fst ` set hs" for x
  proof -
    from that have "x \<in> set (map fst hs)" by simp
    then have "x \<le> last (map fst hs)" by (rule sorted_le_last [OF assms(1)])
    then show ?thesis using assms(2) by (simp add: last_map)
  qed
  have "start \<le> fst (last hs)" using assms(2,3) last_in_set by blast
  then have "fst (last hs) + 1 \<le> fst e \<Longrightarrow> start \<le> fst e \<and> fst e \<notin> fst ` set hs" for e :: "nat \<times> 'b"
    using le [of "fst e"] by auto
  then show ?thesis unfolding waits_from_def by (induction q) auto
qed

lemma behind_step:
  assumes inv: "behind_inv atmost s" and step: "held_step False atmost s t"
  shows "behind_inv atmost t"
proof -
  have out: "out_inv s" "out_inv t" using inv out_step [OF _ step] by (auto simp: behind_inv_def)
  have wait: "\<not> su_paused (pe_standing (hs_entry s)) \<Longrightarrow> \<not> pe_pending (hs_entry s) \<Longrightarrow>
      waits_from (pe_cursor (hs_entry s)) (hs_queue s) \<le> hs_unannounced s"
    and read: "\<And>start hs. hs_reading s = Some (start, Some hs) \<Longrightarrow> length hs < atmost \<Longrightarrow>
      length (filter (\<lambda>e. start \<le> fst e \<and> fst e \<notin> fst ` set hs) (hs_queue s)) \<le> hs_unannounced s"
    using inv by (auto simp: behind_inv_def)
  from step show ?thesis
  proof cases
    case (writes j)
    then show ?thesis using out(2) wait read by (auto simp: behind_inv_def waits_from_def)
  next
    case announces
    then show ?thesis using out(2) by (auto simp: behind_inv_def entry_published_def Let_def)
  next
    case (asks now)
    then show ?thesis using out(2) wait by (simp add: behind_inv_def)
  next
    case (reads start)
    have "filter (\<lambda>e. start \<le> fst e \<and> fst e \<notin> fst ` set (filter (\<lambda>e. start \<le> fst e) q)) q = []"
      for q :: "(nat \<times> ident) list" by (auto simp: filter_empty_conv)
    then show ?thesis using reads out(2) wait read_from_whole [of atmost start "hs_queue s"]
      by (auto simp: behind_inv_def)
  next
    case (takes start hs now o1 e)
    have d: "distinct (map fst hs)" "sorted (map fst hs)" "\<forall>x \<in> set hs. start \<le> fst x"
      using out(1) takes(2) by (simp_all add: out_inv_def)
    have "waits_from (pe_cursor e) (hs_queue s) \<le> hs_unannounced s"
      if "\<not> su_paused (pe_standing e)" "\<not> pe_pending e"
      using entry_taken_out [OF takes(3) d(1)]
    proof
      assume "o1 = [] \<and> e = hs_entry s \<and> (su_paused (pe_standing (hs_entry s)) \<or> pe_cursor (hs_entry s) \<noteq> start)"
      then show ?thesis using wait that by simp
    next
      assume a: "\<not> su_paused (pe_standing (hs_entry s)) \<and> pe_cursor (hs_entry s) = start \<and>
        o1 = filter (\<lambda>x. fst x \<notin> pe_taken (hs_entry s)) hs \<and> pe_taken e = pe_taken (hs_entry s) \<union> fst ` set hs \<and>
        pe_cursor e = (if hs = [] then start else fst (last hs) + 1) \<and>
        pe_pending e = (if length hs < atmost then False else pe_pending (hs_entry s)) \<and> pe_standing e = pe_standing (hs_entry s)"
      show ?thesis
      proof (cases "length hs < atmost")
        case True
        note r = read [OF takes(2) True]
        show ?thesis
        proof (cases "hs = []")
          case True
          then show ?thesis using r a by (simp add: waits_from_def)
        next
          case False
          then show ?thesis using le_trans [OF past_last [OF d(2) False d(3)] r] a by simp
        qed
      next
        case False
        then have "waits_from start (hs_queue s) \<le> hs_unannounced s" using a wait that by simp
        moreover have "start \<le> pe_cursor e"
          using a d(3) last_in_set [of hs] by (cases "hs = []") (auto intro: le_SucI)
        ultimately show ?thesis using waits_from_mono le_trans by blast
      qed
    qed
    then show ?thesis using takes(1) out(2) by (simp add: behind_inv_def)
  next
    case (fails start now why o1 e)
    then show ?thesis using out(2) wait entry_failed_same [OF fails(3)] by (simp add: behind_inv_def)
  next
    case (moves place)
    have "waits_from (pe_cursor (hs_entry s)) (filter (\<lambda>e. fst e \<noteq> place) (hs_queue s)) \<le> hs_unannounced s"
      if "\<not> su_paused (pe_standing (hs_entry s))" "\<not> pe_pending (hs_entry s)"
      using le_trans [OF waits_from_filter wait [OF that]] .
    moreover have "length (filter (\<lambda>e. start \<le> fst e \<and> fst e \<notin> fst ` set hs) (filter (\<lambda>e. fst e \<noteq> place) (hs_queue s)))
        \<le> hs_unannounced s" if "hs_reading s = Some (start, Some hs)" "length hs < atmost" for start hs
      using le_trans [OF length_filter_filter read [OF that]] .
    ultimately show ?thesis using moves(1) out(2)
      by (simp add: behind_inv_def entry_moved_def entry_settle_def)
  next
    case (passes place)
    then show ?thesis using out(2) wait read by (auto simp: behind_inv_def entry_passed_def entry_settle_def)
  next
    case (agains place now)
    then show ?thesis using out(2) read by (auto simp: behind_inv_def entry_again_def Let_def)
  next
    case (pauses who at)
    then show ?thesis using out(2) read by (auto simp: behind_inv_def)
  next
    case (resumes at)
    then show ?thesis using out(2) read by (auto simp: behind_inv_def)
  qed
qed

interpretation behind: invariant_system held_start "held_step False atmost" "behind_inv atmost"
proof
  show "behind_inv atmost s" if "held_start s" for s
    using held_out.init_inv [OF that] that by (auto simp: behind_inv_def held_start_def waits_from_def)
qed (rule behind_step)

section \<open>Properties\<close>

text \<open>C22: what a Subscription lets go of is the node's alone until the node says what became of it.
  However askings, Publications, pauses and resumes interleave, no place is out twice; and each
  taking lets go, oldest first, only of places not out, from where the Subscription was read.\<close>

theorem pickup_lets_go_once:
  assumes "reach held_start (held_step overtaken atmost) s"
    and "hs_reading s = Some (start, Some hs)" and "entry_taken now atmost start (Inr hs) (hs_entry s) = (out, e)"
  shows "distinct (hs_out s @ map fst out) \<and> sorted (map fst out) \<and> (\<forall>x \<in> set out. start \<le> fst x \<and> x \<in> set hs)"
proof -
  have inv: "out_inv s" by (rule held_out.reach_inv [OF assms(1)])
  have d: "distinct (map fst hs)" "sorted (map fst hs)" "\<forall>x \<in> set hs. start \<le> fst x"
    using inv assms(2) by (simp_all add: out_inv_def)
  from entry_taken_out [OF assms(3) d(1)] have "out = [] \<or> out = filter (\<lambda>x. fst x \<notin> pe_taken (hs_entry s)) hs"
    by blast
  then show ?thesis
  proof
    assume "out = filter (\<lambda>x. fst x \<notin> pe_taken (hs_entry s)) hs"
    then show ?thesis using inv d by (auto simp: out_inv_def distinct_map_filter sorted_filter)
  qed (use inv in \<open>simp add: out_inv_def\<close>)
qed

text \<open>A Subscription that was resumed with one Message held, at place 0.\<close>

definition resumed_entry :: pickup_entry where
  "resumed_entry = \<lparr>pe_configured = unfiled \<lparr>sb_id = ''s'', sb_filter = [], sb_destination = ToSendPort ''p''\<rparr>,
     pe_queue = 5, pe_standing = \<lparr>su_paused = False, su_by = [], su_since = 0\<rparr>, pe_held = 1, pe_picked_up = 0,
     pe_cursor = 0, pe_taken = {}, pe_pending = True, pe_not_before = None\<rparr>"

definition resumed :: held_system where
  "resumed = \<lparr>hs_entry = resumed_entry, hs_queue = [(0, 7)], hs_next = 1, hs_unannounced = 0, hs_reading = None, hs_out = []\<rparr>"

lemma resumed_start: "held_start resumed"
  by (simp add: held_start_def resumed_def resumed_entry_def)

definition read_once :: held_system where
  "read_once = resumed\<lparr>hs_reading := Some (0, Some [(0, 7)])\<rparr>"

lemma read_once_reached: "reach held_start (held_step overtaken 64) read_once"
proof -
  have "held_step overtaken 64 resumed (resumed\<lparr>hs_reading := Some (0, None)\<rparr>)"
    using held_step.asks [of resumed 0 overtaken 64] by (simp add: resumed_def resumed_entry_def entry_ready_def)
  moreover have "held_step overtaken 64 (resumed\<lparr>hs_reading := Some (0, None)\<rparr>) read_once"
    using held_step.reads [of "resumed\<lparr>hs_reading := Some (0, None)\<rparr>" 0 overtaken 64]
    by (simp add: read_once_def read_from_def) (simp add: resumed_def)
  ultimately show ?thesis using reach_init [of held_start, OF resumed_start] by (blast intro: reach_step)
qed

theorem pickup_lets_go_once_witness:
  "\<exists>out e. entry_taken 0 64 0 (Inr [(0, 7 :: ident)]) resumed_entry = (out, e) \<and> out = [(0, 7)] \<and>
     distinct (hs_out read_once @ map fst out)"
proof -
  obtain out e where run: "entry_taken 0 64 0 (Inr [(0, 7 :: ident)]) resumed_entry = (out, e)" by fastforce
  have r: "hs_reading read_once = Some (0, Some [(0, 7)])" "hs_entry read_once = resumed_entry"
    by (simp_all add: read_once_def resumed_def)
  have "out = [(0, 7)]" using run by (simp add: entry_taken_def resumed_entry_def)
  with pickup_lets_go_once [OF read_once_reached r(1), of 0 out e] run r(2) show ?thesis by simp
qed

text \<open>C23: where nothing is announced between an asking and its taking, nothing held is left behind: a
  Subscription that is not paused and has nothing to read has read past every Message of its queue
  whose Publication was announced.\<close>

theorem held_not_left_behind:
  assumes "reach held_start (held_step False atmost) s"
    and "\<not> su_paused (pe_standing (hs_entry s))" and "\<not> pe_pending (hs_entry s)" and "hs_unannounced s = 0"
  shows "\<forall>e \<in> set (hs_queue s). fst e < pe_cursor (hs_entry s)"
proof -
  have "behind_inv atmost s" by (rule behind.reach_inv [OF assms(1)])
  then have "waits_from (pe_cursor (hs_entry s)) (hs_queue s) = 0" using assms(2-4) by (simp add: behind_inv_def)
  then show ?thesis by (auto simp: waits_from_def filter_empty_conv not_le)
qed

definition taken_once :: held_system where
  "taken_once = read_once\<lparr>hs_entry := resumed_entry\<lparr>pe_cursor := 1, pe_taken := {0}, pe_pending := False\<rparr>,
     hs_out := [0], hs_reading := None\<rparr>"

lemma taken_once_reached: "reach held_start (held_step overtaken 64) taken_once"
proof -
  have "held_step overtaken 64 read_once taken_once"
    using held_step.takes [of read_once 0 "[(0, 7)]" 0 64 _ _ overtaken]
    by (simp add: taken_once_def) (simp add: read_once_def resumed_def resumed_entry_def entry_taken_def)
  then show ?thesis using read_once_reached by (blast intro: reach_step)
qed

theorem held_not_left_behind_witness:
  "hs_queue taken_once = [(0, 7)] \<and> 0 < pe_cursor (hs_entry taken_once)"
proof
  show q: "hs_queue taken_once = [(0, 7)]" by (simp add: taken_once_def read_once_def resumed_def)
  have "\<forall>e \<in> set (hs_queue taken_once). fst e < pe_cursor (hs_entry taken_once)"
    by (rule held_not_left_behind [OF taken_once_reached])
      (simp_all add: taken_once_def read_once_def resumed_def resumed_entry_def)
  with q show "0 < pe_cursor (hs_entry taken_once)" by simp
qed

text \<open>C24: a Publication announced between an asking's read and its taking is forgotten. The taking
  marks the queue read to its end by what it read before, so the Subscription, not paused, with
  nothing out and everything announced, holds a Message it will not read: no asking is ready, at any
  time, until another Message is held or an operator acts.\<close>

theorem pickup_strands_held:
  "\<exists>s. reach held_start (held_step True 64) s \<and> hs_queue s = [(1, 9)] \<and> hs_unannounced s = 0 \<and>
     hs_out s = [] \<and> hs_reading s = None \<and> \<not> su_paused (pe_standing (hs_entry s)) \<and>
     pe_cursor (hs_entry s) = 1 \<and> (\<forall>now. \<not> entry_ready now (hs_entry s))"
proof -
  let ?written = "read_once\<lparr>hs_queue := [(0, 7), (1, 9)], hs_next := 2, hs_unannounced := 1\<rparr>"
  let ?announced = "?written\<lparr>hs_unannounced := 0, hs_entry := resumed_entry\<lparr>pe_held := 2\<rparr>\<rparr>"
  let ?e = "resumed_entry\<lparr>pe_held := 2, pe_cursor := 1, pe_taken := {0}, pe_pending := False\<rparr>"
  let ?taken = "?announced\<lparr>hs_entry := ?e, hs_out := [0], hs_reading := None\<rparr>"
  let ?moved = "?taken\<lparr>hs_entry := entry_moved 0 ?e, hs_out := [], hs_queue := [(1, 9)]\<rparr>"
  have "held_step True 64 read_once ?written"
    using held_step.writes [of True 64 read_once 9] by (simp add: read_once_def resumed_def numeral_2_eq_2)
  moreover have "held_step True 64 ?written ?announced"
    using held_step.announces [of ?written True 64]
    by (simp add: entry_published_def read_once_def resumed_def resumed_entry_def numeral_2_eq_2)
  moreover have "held_step True 64 ?announced ?taken"
    using held_step.takes [of ?announced 0 "[(0, 7)]" 0 64 _ _ True]
    by (simp add: read_once_def resumed_def resumed_entry_def entry_taken_def)
  moreover have "held_step True 64 ?taken ?moved"
    using held_step.moves [of 0 ?taken True 64] by simp
  ultimately have "reach held_start (held_step True 64) ?moved"
    using read_once_reached [of True] by (blast intro: reach_step)
  moreover have "\<not> entry_ready now (hs_entry ?moved)" for now
    by (simp add: entry_ready_def entry_moved_def entry_settle_def)
  ultimately show ?thesis
    by (intro exI [of _ ?moved])
      (simp add: read_once_def resumed_def entry_moved_def entry_settle_def resumed_entry_def)
qed

text \<open>The count of what a Subscription's queue holds does not stay in step with the queue. A Message
  written, read and moved on before its Publication is announced is taken off a count it was not in
  yet and added to it afterwards: with its queue empty, nothing out and everything announced, the
  Subscription, not paused, counts one held, and every Message it matches from then on is held.\<close>

theorem held_count_drifts:
  "\<exists>s. reach held_start (held_step False 64) s \<and> hs_queue s = [] \<and> hs_unannounced s = 0 \<and> hs_out s = [] \<and>
     hs_reading s = None \<and> \<not> su_paused (pe_standing (hs_entry s)) \<and> pe_held (hs_entry s) = 1 \<and>
     (\<forall>node body o1. hg_held (held_of \<lparr>pk_node = node, pk_entries = [hs_entry s]\<rparr> body False
        [o1\<lparr>op_subscription := pe_name (hs_entry s)\<rparr>]) = [(0, pe_name (hs_entry s))])"
proof -
  let ?asked = "resumed\<lparr>hs_reading := Some (0, None)\<rparr>"
  let ?written = "?asked\<lparr>hs_queue := [(0, 7), (1, 9)], hs_next := 2, hs_unannounced := 1\<rparr>"
  let ?read = "?written\<lparr>hs_reading := Some (0, Some [(0, 7), (1, 9)])\<rparr>"
  let ?e = "resumed_entry\<lparr>pe_cursor := 2, pe_taken := {0, 1}, pe_pending := False\<rparr>"
  let ?taken = "?read\<lparr>hs_entry := ?e, hs_out := [0, 1], hs_reading := None\<rparr>"
  let ?moved = "?taken\<lparr>hs_entry := entry_moved 0 ?e, hs_out := [1], hs_queue := [(1, 9)]\<rparr>"
  let ?empty = "?moved\<lparr>hs_entry := entry_moved 1 (entry_moved 0 ?e), hs_out := [], hs_queue := []\<rparr>"
  let ?last = "?empty\<lparr>hs_unannounced := 0, hs_entry := entry_published (entry_moved 1 (entry_moved 0 ?e))\<rparr>"
  have s1: "held_step False 64 resumed ?asked"
    using held_step.asks [of resumed 0 False 64] by (simp add: resumed_def resumed_entry_def entry_ready_def)
  have s2: "held_step False 64 ?asked ?written"
    using held_step.writes [of False 64 ?asked 9] by (simp add: resumed_def numeral_2_eq_2)
  have s3: "held_step False 64 ?written ?read"
    using held_step.reads [of ?written 0 False 64] by (simp add: read_from_def)
  have s4: "held_step False 64 ?read ?taken"
    using held_step.takes [of ?read 0 "[(0, 7), (1, 9)]" 0 64 _ _ False]
    by (simp add: resumed_def resumed_entry_def entry_taken_def numeral_2_eq_2 insert_commute)
  have s5: "held_step False 64 ?taken ?moved"
    using held_step.moves [of 0 ?taken False 64] by simp
  have s6: "held_step False 64 ?moved ?empty"
    using held_step.moves [of 1 ?moved False 64] by simp
  have s7: "held_step False 64 ?empty ?last"
    using held_step.announces [of ?empty False 64] by simp
  note last = reach_init [of held_start _ "held_step False 64", OF resumed_start, THEN reach_step, OF s1, THEN reach_step, OF s2, THEN reach_step, OF s3,
    THEN reach_step, OF s4, THEN reach_step, OF s5, THEN reach_step, OF s6, THEN reach_step, OF s7]
  then show ?thesis
    by (intro exI [of _ ?last])
      (simp add: resumed_entry_def entry_moved_def entry_settle_def entry_published_def held_of_def holding_one_def
        holding_none_def pickup_index_def pe_name_def)
qed

end
