(* ===== verification/Publication.thy ===== *)
theory Publication
  imports Pickup
begin

text \<open>
  \<open>src/ledger/publication.rs\<close> with \<open>ledger/record.rs\<close>, \<open>src/dead_message.rs\<close> and \<open>src/pickup/replay.rs\<close>:
  the one write a received Message is published by. Routing's decisions are an argument; for each
  Subscription matched and each Send Port it reaches a Journey is opened, told the delivery it is of
  and the places it takes, and kept in one queue: its Subscription's where that holds it, the queue of
  where it leads otherwise, claimed by this node where the Send pool admits it. Where nothing matched
  the Message goes to the Dead Message Queue, from which a Replay opens its Journeys later. What the
  Journey and Message libraries make is an argument, with what is relied on of it named.
\<close>

section \<open>What routing says and what a Message shows\<close>

record evaluation =
  ev_subscription :: string
  ev_destination :: subscriber
  ev_matched :: bool
  ev_reason :: "string option"

type_synonym message_ref = "ident \<times> ident"

text \<open>A Message by its identifier and its Sections' Streams, the first apart: each by its identifier and
  its length.\<close>

record message =
  mg_id :: ident
  mg_first :: "ident \<times> nat"
  mg_rest :: "(ident \<times> nat) list"

datatype chain_cause = BySubscription string | ByProcess string string

section \<open>Records\<close>

text \<open>What a Journey's record lays out of the sequences it holds.\<close>

record journey_facts =
  jf_origin :: "ident option"
  jf_open :: bool
  jf_group_delivery :: "ident option"
  jf_group_open :: bool

definition journey_held :: "journey \<Rightarrow> received option" where
  "journey_held j = (case j_received j of None \<Rightarrow> None | Some r \<Rightarrow> if rec_sequences r = [] then None else Some r)"

fun still_open :: "journey_state \<Rightarrow> bool \<Rightarrow> bool" where
  "still_open Completed skips = False"
| "still_open Dismissed skips = False"
| "still_open Failed skips = (\<not> skips)"
| "still_open _ skips = True"

definition facts_of :: "journey \<Rightarrow> journey_facts" where
  "facts_of j = \<lparr>jf_origin = map_option rec_origin (journey_held j),
     jf_open = (case journey_held j of None \<Rightarrow> False | Some r \<Rightarrow> still_open (j_state j) (rec_skips r)),
     jf_group_delivery = map_option grp_delivery (j_group j),
     jf_group_open = (case j_group j of None \<Rightarrow> False | Some g \<Rightarrow> still_open (j_state j) (grp_skips g))\<rparr>"

definition audited_streams :: "message \<Rightarrow> ident list" where
  "audited_streams m = fold push_new (map fst (mg_first m # mg_rest m)) []"

section \<open>The Dead Message Queue\<close>

record identity_said =
  is_verified :: string
  is_mechanism :: string
  is_value :: string

record identity_facts =
  if_transport :: identity_said
  if_message :: "identity_said option"
  if_alignment :: string

record unmatched =
  um_promoted :: "(string \<times> string) list option"
  um_facts :: "identity_facts option"

record dead_message =
  dm_queue :: ident
  dm_message :: ident
  dm_stream :: ident
  dm_node :: string
  dm_location :: string
  dm_received :: int
  dm_validation :: "(string \<times> string) list"
  dm_promoted :: "(string \<times> string) list"
  dm_declines :: "(string \<times> string) list"
  dm_body :: string

definition validation :: "identity_facts \<Rightarrow> (string \<times> string) list" where
  "validation facts =
     (let said = (\<lambda>i. is_verified i @ '' by '' @ is_mechanism i @ '': '' @ is_value i) in
      [(''transport identity'', said (if_transport facts))] @
      (case if_message facts of None \<Rightarrow> [] | Some i \<Rightarrow> [(''message identity'', said i)]) @
      [(''alignment'', if_alignment facts)])"

definition declines_of :: "evaluation list \<Rightarrow> (string \<times> string) list" where
  "declines_of routing =
     map (\<lambda>ev. (ev_subscription ev, case ev_reason ev of None \<Rightarrow> ''its filter did not hold'' | Some why \<Rightarrow> why))
       (filter (\<lambda>ev. \<not> ev_matched ev) routing)"

definition dead_entry ::
  "(string \<Rightarrow> ident) \<Rightarrow> string \<times> string \<times> int \<Rightarrow> message_ref \<Rightarrow> evaluation list \<Rightarrow> unmatched \<Rightarrow> string \<Rightarrow> dead_message" where
  "dead_entry dead_queue at held routing um body =
     (case at of (node, location, received) \<Rightarrow>
        \<lparr>dm_queue = dead_queue node, dm_message = fst held, dm_stream = snd held, dm_node = node, dm_location = location,
         dm_received = received, dm_validation = (case um_facts um of None \<Rightarrow> [] | Some f \<Rightarrow> validation f),
         dm_promoted = (case um_promoted um of None \<Rightarrow> [] | Some ps \<Rightarrow> ps), dm_declines = declines_of routing,
         dm_body = body\<rparr>)"

section \<open>The Publication\<close>

record publication =
  pn_message :: message
  pn_journeys :: "journey list"
  pn_held :: "hold list"
  pn_audit_id :: ident
  pn_audit :: "(string \<times> string) list"
  pn_audited :: "ident list"
  pn_dead :: "dead_message option"
  pn_claims :: "claim list"
  pn_lease :: nat

record publisher =
  pu_config :: send_config
  pu_sends :: sends
  pu_named :: "string \<Rightarrow> ident"
  pu_cluster :: string
  pu_ids :: "nat \<Rightarrow> ident"
  pu_shown :: "ident \<Rightarrow> string"
  pu_matched :: "ident \<Rightarrow> chain_cause \<Rightarrow> message_ref \<Rightarrow> journey"
  pu_received_as :: "received \<Rightarrow> journey \<Rightarrow> journey"
  pu_promote :: "message \<Rightarrow> string + promoted"
  pu_dead_queue :: "string \<Rightarrow> ident"
  pu_publish :: "publication \<Rightarrow> string + claim list \<times> ident"

record published_write =
  pd_journeys :: "journey list"
  pd_holding :: holding
  pd_lined :: lined_up
  pd_durable :: ident

fun through :: "subscriber \<Rightarrow> string option" where
  "through (ToSendGroup g) = Some g"
| "through (ToSendPort _) = None"
| "through (ToWorkProcess _) = None"

fun cause_of :: "string \<Rightarrow> subscriber \<Rightarrow> chain_cause" where
  "cause_of name (ToWorkProcess process) = ByProcess name process"
| "cause_of name _ = BySubscription name"

text \<open>Every way a matched Message goes: the Subscription's evaluation and where it leads.\<close>

definition ways :: "pickup \<Rightarrow> evaluation list \<Rightarrow> (evaluation \<times> subscriber) list" where
  "ways pk routing =
     concat (map (\<lambda>ev. map (Pair ev) (reaches (ev_subscription ev) (ev_destination ev) pk)) (filter ev_matched routing))"

definition opened_one :: "(ident \<Rightarrow> chain_cause \<Rightarrow> message_ref \<Rightarrow> journey) \<Rightarrow> message_ref \<Rightarrow> ident \<Rightarrow> evaluation \<times> subscriber \<Rightarrow> opened" where
  "opened_one matched held i way =
     (case way of (ev, to) \<Rightarrow>
        let j = matched i (cause_of (ev_subscription ev) (ev_destination ev)) held;
            j = (case to of ToSendPort port \<Rightarrow> j\<lparr>j_send_port := Some port\<rparr> | _ \<Rightarrow> j) in
        \<lparr>op_journey = j, op_subscription = ev_subscription ev, op_to = to, op_group = through (ev_destination ev)\<rparr>)"

definition opened_of ::
  "(ident \<Rightarrow> chain_cause \<Rightarrow> message_ref \<Rightarrow> journey) \<Rightarrow> (nat \<Rightarrow> ident) \<Rightarrow> pickup \<Rightarrow> message_ref \<Rightarrow> evaluation list \<Rightarrow> nat \<Rightarrow> opened list \<times> nat" where
  "opened_of matched ids pk held routing n =
     (let ws = ways pk routing in
      (map (\<lambda>(k, way). opened_one matched held (ids k) way) (enumerate n ws), n + length ws))"

fun listed :: "string list \<Rightarrow> string" where
  "listed [] = []"
| "listed [w] = w"
| "listed (w # ws) = w @ '','' @ listed ws"

definition published_audit :: "(ident \<Rightarrow> string) \<Rightarrow> string \<Rightarrow> message \<Rightarrow> journey list \<Rightarrow> (string \<times> string) list" where
  "published_audit shown location m journeys =
     [(''location'', location), (''message'', shown (mg_id m)), (''stream'', shown (fst (mg_first m))),
      (''length'', decimal (snd (mg_first m))),
      (''disposition'', if journeys = [] then ''dead-message-queue'' else ''routed''),
      (''journeys'', listed (map (\<lambda>j. shown (journey_id j)) journeys)),
      (''subscriptions'', listed (List.map_filter j_subscription journeys))]"

definition lined_none :: lined_up where
  "lined_none = \<lparr>lu_holds = [], lu_claims = [], lu_claimed = [], lu_admitted = 0, lu_asked = None\<rparr>"

definition send_places_of ::
  "publisher \<Rightarrow> received \<Rightarrow> message \<Rightarrow> opened list \<Rightarrow> seq_error + opened list \<times> hold list" where
  "send_places_of p received m os =
     (if rec_sequences received = [] then
        (case pu_promote p m of
           Inl why \<Rightarrow> Inl (PromoteError why)
         | Inr promoted \<Rightarrow>
            (case places_of (pu_named p) (pu_cluster p) (pu_sends p) promoted os of
               Inl e \<Rightarrow> Inl (KeyError e) | Inr r \<Rightarrow> Inr r))
      else Inr (os, []))"

text \<open>Which are held, which are lined up to be sent, and the Dead Message Queue's entry where none was
  opened.\<close>

definition disposed ::
  "publisher \<Rightarrow> instant \<Rightarrow> int \<Rightarrow> pickup \<Rightarrow> string \<Rightarrow> message_ref \<Rightarrow> evaluation list \<Rightarrow> unmatched \<Rightarrow> string \<Rightarrow> opened list \<Rightarrow>
     nat \<Rightarrow> send_state \<Rightarrow> (holding \<times> lined_up \<times> dead_message option) \<times> nat \<times> send_state" where
  "disposed p now wall pk location held routing um body os n st =
     (if os = [] then
        ((holding_none, lined_none, Some (dead_entry (pu_dead_queue p) (pk_node pk, location, wall) held routing um body)), n, st)
      else
        let hg = held_of pk body False os in
        (case line_up (pu_config p) (pu_sends p) (departing hg os) body (pu_ids p) n now st of
           ((lined, n), st) \<Rightarrow> ((hg, lined, None), n, st)))"

text \<open>The write itself, of what was opened, the places taken and how each is disposed of.\<close>

definition publication_of ::
  "publisher \<Rightarrow> string \<Rightarrow> hold list \<Rightarrow> message \<Rightarrow> opened list \<Rightarrow> hold list \<Rightarrow> holding \<times> lined_up \<times> dead_message option \<Rightarrow> nat \<Rightarrow> publication" where
  "publication_of p location stream_places m os hs disposal n =
     (case disposal of (hg, lined, dead) \<Rightarrow>
        \<lparr>pn_message = m, pn_journeys = map op_journey os,
         pn_held = hg_holds hg @ lu_holds lined @ (if map op_journey os = [] then [] else stream_places) @ hs,
         pn_audit_id = pu_ids p n, pn_audit = published_audit (pu_shown p) location m (map op_journey os),
         pn_audited = audited_streams m, pn_dead = dead, pn_claims = lu_claims lined, pn_lease = nanos (sc_lease (pu_config p))\<rparr>)"

definition publish ::
  "publisher \<Rightarrow> instant \<Rightarrow> int \<Rightarrow> pickup \<Rightarrow> string \<Rightarrow> received \<times> hold list \<Rightarrow> message \<Rightarrow> evaluation list \<Rightarrow> unmatched \<Rightarrow> string \<Rightarrow>
     nat \<Rightarrow> send_state \<Rightarrow> (seq_error + published_write) \<times> publication option \<times> nat \<times> send_state" where
  "publish p now wall pk location arrival m routing um body n st =
     (let held = (mg_id m, fst (mg_first m));
          (received, places) = arrival;
          (os, n) = opened_of (pu_matched p) (pu_ids p) pk held routing n;
          os = map (\<lambda>one. one\<lparr>op_journey := pu_received_as p received (op_journey one)\<rparr>) os;
          (os, n) = delivered (pu_sends p) (pu_ids p) n os in
      case send_places_of p received m os of
        Inl e \<Rightarrow> (Inl e, None, n, st)
      | Inr (os, send_places) \<Rightarrow>
         (let (disposal, n, st) = disposed p now wall pk location held routing um body os n st;
              (hg, lined, dead) = disposal;
              pub = publication_of p location places m os send_places disposal n in
          case pu_publish p pub of
            Inl why \<Rightarrow> (Inl (StorageError why), Some pub, n + 1, send_withdrawn lined st)
          | Inr (holds, durable) \<Rightarrow>
             (case send_confirmed holds lined st of
                (lined, st) \<Rightarrow>
                  (Inr \<lparr>pd_journeys = map op_journey os, pd_holding = hg, pd_lined = lined, pd_durable = durable\<rparr>,
                   Some pub, n + 1, st))))"

section \<open>A Replay from the Dead Message Queue\<close>

datatype dead_read = DKept dead_message | DReplayed | DNever

datatype replayed = RNow | RBefore | RAbsent

record replay_write =
  rw_queue :: ident
  rw_message :: ident
  rw_journeys :: "journey list"
  rw_held :: "hold list"
  rw_audit_id :: ident
  rw_audit :: "(string \<times> string) list"
  rw_audited :: "ident list"

text \<open>What a Replay asks of what is not the runtime's: identifiers read and shown, routing over what was
  promoted, and Xmip Storage.\<close>

record replay_env =
  rp_parse :: "string \<Rightarrow> ident option"
  rp_shown :: "ident \<Rightarrow> string"
  rp_ids :: "nat \<Rightarrow> ident"
  rp_matched :: "ident \<Rightarrow> chain_cause \<Rightarrow> message_ref \<Rightarrow> journey"
  rp_dead_queue :: "string \<Rightarrow> ident"
  rp_route :: "promoted \<Rightarrow> subscription list \<Rightarrow> evaluation list"
  rp_declines :: "evaluation list \<Rightarrow> (string \<times> string) list"
  rp_read_dead :: "ident \<Rightarrow> ident \<Rightarrow> string + dead_read"
  rp_read_message :: "ident \<Rightarrow> string + string option"
  rp_message_of :: "string \<Rightarrow> string + message"
  rp_replay :: "replay_write \<Rightarrow> string + replayed"

fun joined :: "string \<Rightarrow> string list \<Rightarrow> string" where
  "joined sep [] = []"
| "joined sep [w] = w"
| "joined sep (w # ws) = w @ sep @ joined sep ws"

definition never :: "replay_env \<Rightarrow> string \<Rightarrow> ident \<Rightarrow> string" where
  "never env node i = ''REFUSED: the Dead Message Queue of '' @ node @ '' never kept a Message '' @ rp_shown env i"

definition not_replayed :: "replay_env \<Rightarrow> ident \<Rightarrow> string \<Rightarrow> string" where
  "not_replayed env i problem =
     ''FAILED: the Message '' @ rp_shown env i @ '' is not replayed: Xmip Storage did not answer: '' @ problem"

definition unreplayed :: "replay_env \<Rightarrow> string \<Rightarrow> ident \<Rightarrow> (string \<times> string) list \<Rightarrow> string" where
  "unreplayed env node i declines =
     (let why = map (\<lambda>(name, why). quoted name @ '': '' @ why) declines in
      ''REFUSED: the Message '' @ rp_shown env i @ '' still matches no Subscription on '' @ node @
      '', and stays in its Dead Message Queue; '' @
      (if why = [] then ''no Subscription is configured'' else joined ''; '' why))"

definition replayed_record :: "replay_env \<Rightarrow> string \<Rightarrow> ident \<Rightarrow> journey list \<Rightarrow> string \<Rightarrow> (string \<times> string) list" where
  "replayed_record env node i journeys who =
     [(''node'', node), (''message'', rp_shown env i), (''by'', who),
      (''journeys'', joined '','' (map (\<lambda>j. rp_shown env (journey_id j)) journeys))]"

definition replay_write_of ::
  "replay_env \<Rightarrow> string \<Rightarrow> pickup \<Rightarrow> ident \<Rightarrow> dead_message \<Rightarrow> opened list \<Rightarrow> message \<Rightarrow> nat \<Rightarrow> replay_write" where
  "replay_write_of env who pk i entry os m n =
     \<lparr>rw_queue = rp_dead_queue env (pk_node pk), rw_message = i, rw_journeys = map op_journey os,
      rw_held = hg_holds (held_of pk (dm_body entry) True os), rw_audit_id = rp_ids env n,
      rw_audit = replayed_record env (pk_node pk) i (map op_journey os) who, rw_audited = audited_streams m\<rparr>"

text \<open>\<open>replay\<close>: what it says, the write it asked for, and the Subscriptions after it.\<close>

definition pickup_replay ::
  "replay_env \<Rightarrow> string \<Rightarrow> string \<Rightarrow> nat \<Rightarrow> pickup \<Rightarrow> (string + string) \<times> replay_write option \<times> pickup" where
  "pickup_replay env text who n pk =
     (case rp_parse env text of
        None \<Rightarrow> (Inl (''REFUSED: '' @ quoted text @ '' names no Message''), None, pk)
      | Some i \<Rightarrow>
         let node = pk_node pk; already = ''Message '' @ rp_shown env i @ '' was replayed already'' in
         case rp_read_dead env (rp_dead_queue env node) i of
           Inl e \<Rightarrow> (Inl (not_replayed env i e), None, pk)
         | Inr DReplayed \<Rightarrow> (Inr already, None, pk)
         | Inr DNever \<Rightarrow> (Inl (never env node i), None, pk)
         | Inr (DKept entry) \<Rightarrow>
            let promoted = fold (\<lambda>(name, v) m. m(name \<mapsto> v)) (dm_promoted entry) Map.empty;
                routing = rp_route env promoted (map (\<lambda>e. cs_subscription (pe_configured e)) (pk_entries pk));
                (os, n) = opened_of (rp_matched env) (rp_ids env) pk (i, dm_stream entry) routing n in
            if os = [] then (Inl (unreplayed env node i (rp_declines env routing)), None, pk)
            else case rp_read_message env i of
              Inl e \<Rightarrow> (Inl (not_replayed env i e), None, pk)
            | Inr None \<Rightarrow>
                (Inl (''FAILED: the Message '' @ rp_shown env i @ '' is not replayed: the Ledger holds no record of the Message '' @
                   rp_shown env i @ '' to audit''), None, pk)
            | Inr (Some body) \<Rightarrow>
               (case rp_message_of env body of
                  Inl e \<Rightarrow> (Inl (not_replayed env i e), None, pk)
                | Inr m \<Rightarrow>
                   let w = replay_write_of env who pk i entry os m n in
                   (case rp_replay env w of
                      Inr RNow \<Rightarrow>
                        (Inr (''Message '' @ rp_shown env i @ '' replayed by '' @ who @ '': '' @ decimal (length os) @
                           '' Journey(s) opened, picked up from their Subscriptions' queues oldest first''),
                         Some w, pickup_published (held_of pk (dm_body entry) True os) pk)
                    | Inr RBefore \<Rightarrow> (Inr already, Some w, pk)
                    | Inr RAbsent \<Rightarrow> (Inl (never env node i), Some w, pk)
                    | Inl e \<Rightarrow> (Inl (not_replayed env i e), Some w, pk))))"

section \<open>What is opened keeps its name\<close>

definition sub_holds :: "pickup \<Rightarrow> opened \<Rightarrow> bool" where
  "sub_holds pk o1 \<longleftrightarrow>
     (case pickup_index (op_subscription o1) pk of
        None \<Rightarrow> False
      | Some i \<Rightarrow> su_paused (pe_standing (pk_entries pk ! i)) \<or> pe_held (pk_entries pk ! i) \<noteq> 0)"

text \<open>The queue a Journey opened is kept in, and its hold there.\<close>

definition kept_in :: "send_config \<Rightarrow> pickup \<Rightarrow> opened \<Rightarrow> ident" where
  "kept_in cfg pk o1 =
     (if sub_holds pk o1 then (case pickup_index (op_subscription o1) pk of None \<Rightarrow> 0 | Some i \<Rightarrow> pe_queue (pk_entries pk ! i))
      else sc_queue cfg (op_to o1))"

definition kept_hold :: "send_config \<Rightarrow> pickup \<Rightarrow> string \<Rightarrow> opened \<Rightarrow> hold" where
  "kept_hold cfg pk body o1 = \<lparr>h_queue = kept_in cfg pk o1, h_journey = journey_id (op_journey o1), h_body = body\<rparr>"

definition way_of :: "opened \<Rightarrow> ident \<times> string \<times> subscriber" where
  "way_of o1 = (journey_id (op_journey o1), op_subscription o1, op_to o1)"

lemma told_way [simp]: "way_of (told d o1) = way_of o1"
  by (simp add: told_def way_of_def)

lemma delivered_ways:
  "delivered s ids n os = (os', n') \<Longrightarrow> map way_of os' = map way_of os"
proof -
  assume "delivered s ids n os = (os', n')"
  from delivered_each [OF this] show ?thesis
    by (induction rule: list_all2_induct) (auto simp: told_right_def split: if_splits)
qed

lemma group_placed_id: "group_placed named cluster s j promoted = Inr (j', g) \<Longrightarrow> journey_id j' = journey_id j"
  by (cases g) (auto dest: group_placed_some simp: group_placed_none)

lemma placed_id: "placed named cluster ps j promoted = Inr (j', hs) \<Longrightarrow> journey_id j' = journey_id j"
  using placed_told [of named cluster ps j promoted j' hs] by simp

lemma places_of_ways:
  "places_of named cluster s promoted os = Inr (os', hs) \<Longrightarrow> map way_of os' = map way_of os"
  by (induction os arbitrary: os' hs)
    (auto simp: way_of_def split: sum.splits prod.splits dest!: group_placed_id placed_id)

lemma send_places_ways:
  "send_places_of p received m os = Inr (os', hs) \<Longrightarrow> map way_of os' = map way_of os \<and> (rec_sequences received \<noteq> [] \<longrightarrow> hs = [])"
  by (auto simp: send_places_of_def dest: places_of_ways split: if_splits sum.splits)

definition journeys_named :: "publisher \<Rightarrow> bool" where
  "journeys_named p \<longleftrightarrow> (\<forall>i c held. journey_id (pu_matched p i c held) = i) \<and>
     (\<forall>r j. journey_id (pu_received_as p r j) = journey_id j)"

lemma opened_ways:
  assumes "journeys_named p" and "opened_of (pu_matched p) ids pk held routing n = (os, n')"
  shows "map way_of os = map (\<lambda>(k, ev, to). (ids k, ev_subscription ev, to)) (enumerate n (ways pk routing)) \<and>
    n' = n + length (ways pk routing)"
proof -
  have "journey_id (pu_matched p i c held) = i" for i c using assms(1) unfolding journeys_named_def by blast
  then have "way_of (opened_one (pu_matched p) held i (ev, to)) = (i, ev_subscription ev, to)" for i ev to
    by (simp add: opened_one_def way_of_def Let_def split: subscriber.split)
  then show ?thesis using assms(2) by (auto simp: opened_of_def Let_def)
qed

section \<open>What is held and what departs\<close>

lemma holding_one_holds:
  "hg_holds (holding_one pk body False o1 hg) =
     hg_holds hg @ (if sub_holds pk o1 then [kept_hold cfg pk body o1] else []) \<and>
   snd ` set (hg_held (holding_one pk body False o1 hg)) =
     snd ` set (hg_held hg) \<union> (if sub_holds pk o1 then {op_subscription o1} else {})"
  by (auto simp: holding_one_def sub_holds_def kept_hold_def kept_in_def Let_def split: option.splits)

lemma held_of_holds:
  "hg_holds (held_of pk body False os) = map (kept_hold cfg pk body) (filter (sub_holds pk) os) \<and>
   snd ` set (hg_held (held_of pk body False os)) = op_subscription ` set (filter (sub_holds pk) os)"
proof -
  have "hg_holds (fold (holding_one pk body False) os hg) = hg_holds hg @ map (kept_hold cfg pk body) (filter (sub_holds pk) os) \<and>
    snd ` set (hg_held (fold (holding_one pk body False) os hg)) = snd ` set (hg_held hg) \<union> op_subscription ` set (filter (sub_holds pk) os)" for hg
  proof (induction os arbitrary: hg)
    case (Cons o1 os)
    from Cons.IH [of "holding_one pk body False o1 hg"] holding_one_holds [where pk = pk and ?o1.0 = o1 and cfg = cfg]
    show ?case by (simp add: insert_is_Un [symmetric])
  qed simp
  then show ?thesis by (simp add: held_of_def holding_none_def)
qed

lemma sub_holds_same: "op_subscription o1 = op_subscription o2 \<Longrightarrow> sub_holds pk o1 = sub_holds pk o2"
  by (simp add: sub_holds_def)

lemma departing_rest:
  "departing (held_of pk body False os) os =
     map (\<lambda>o1. (op_journey o1, op_to o1)) (filter (\<lambda>o1. \<not> sub_holds pk o1) os)"
proof -
  note held = held_of_holds [THEN conjunct2, of pk body os]
  have "op_subscription o1 \<in> snd ` set (hg_held (held_of pk body False os)) \<longleftrightarrow> sub_holds pk o1" if "o1 \<in> set os" for o1
  proof
    assume "op_subscription o1 \<in> snd ` set (hg_held (held_of pk body False os))"
    then obtain o2 where "op_subscription o1 = op_subscription o2" "o2 \<in> set (filter (sub_holds pk) os)"
      unfolding held by (elim imageE)
    then show "sub_holds pk o1" using sub_holds_same [of o1 o2 pk] by simp
  next
    assume "sub_holds pk o1"
    then show "op_subscription o1 \<in> snd ` set (hg_held (held_of pk body False os))"
      unfolding held using that by (intro imageI) simp
  qed
  then show ?thesis unfolding departing_def by (simp cong: filter_cong)
qed

section \<open>One write for everything a Message opens\<close>

lemma line_up_each_named:
  "line_up_each cfg sh body ids dep pl n lined = (lined', n') \<Longrightarrow>
   list_all (\<lambda>(i, to, q, c). cl_journey c = i) (lu_claimed lined) \<Longrightarrow> list_all (\<lambda>(i, to, q, c). cl_journey c = i) (lu_claimed lined')"
  by (induction cfg sh body ids dep pl n lined rule: line_up_each.induct) (auto simp: Let_def split: if_splits)

lemma line_up_facts:
  assumes "line_up cfg s dep body ids n now st = ((lined, n'), st')"
  shows "lu_holds lined = map (\<lambda>(j, to). \<lparr>h_queue = sc_queue cfg to, h_journey = journey_id j, h_body = body\<rparr>) dep"
    and "length (lu_claimed lined) = lu_admitted lined" and "lu_admitted lined \<le> room_in cfg st"
    and "st' = st\<lparr>st_admitted := st_admitted st + lu_admitted lined\<rparr>"
    and "set (map cl_journey (lu_claims lined)) \<subseteq>
      (\<lambda>(j, to). journey_id j) ` set (filter (\<lambda>(j, to). sends_serves s to \<and> \<not> sequential s to) dep)"
proof -
  define sh where "sh = (\<lambda>to. sends_serves s to \<and> \<not> sequential s to)"
  let ?here = "filter (\<lambda>(j, to). sh to) dep"
  define k where "k = min (length ?here) (room_in cfg st)"
  have l: "line_up_each cfg sh body ids dep k n \<lparr>lu_holds = [], lu_claims = [], lu_claimed = [], lu_admitted = k, lu_asked = Some now\<rparr> = (lined, n')"
    and st': "st' = st\<lparr>st_admitted := st_admitted st + k\<rparr>"
    using assms by (simp_all add: line_up_def send_admit_def Let_def sh_def k_def)
  note spec = line_up_each_spec [OF l] and ad = line_up_each_claimed [OF l] and nm = line_up_each_named [OF l]
  show "lu_holds lined = map (\<lambda>(j, to). \<lparr>h_queue = sc_queue cfg to, h_journey = journey_id j, h_body = body\<rparr>) dep"
    using spec by simp
  have adm: "lu_admitted lined = k" using ad by simp
  then show "lu_admitted lined \<le> room_in cfg st" "st' = st\<lparr>st_admitted := st_admitted st + lu_admitted lined\<rparr>"
    using st' by (simp_all add: k_def)
  have claimed: "map (\<lambda>(i, to, q, c). (i, to, q)) (lu_claimed lined) =
      map (\<lambda>(j, to). (journey_id j, to, sc_queue cfg to)) (take k ?here)" using spec by simp
  from arg_cong [OF this, of length] adm show "length (lu_claimed lined) = lu_admitted lined" by (simp add: k_def)
  have cl: "lu_claims lined = map (\<lambda>(i, to, q, c). c) (lu_claimed lined)" using spec by simp
  have "map cl_journey (lu_claims lined) = map (\<lambda>(i, to, q, c). cl_journey c) (lu_claimed lined)"
    unfolding cl by (simp add: comp_def case_prod_unfold)
  also have "\<dots> = map (\<lambda>(i, to, q). i) (map (\<lambda>(i, to, q, c). (i, to, q)) (lu_claimed lined))"
    using nm by (auto simp: list_all_iff)
  also have "\<dots> = map (\<lambda>(j, to). journey_id j) (take k ?here)" unfolding claimed by auto
  finally have journeys: "map cl_journey (lu_claims lined) = map (\<lambda>(j, to). journey_id j) (take k ?here)" .
  show "set (map cl_journey (lu_claims lined)) \<subseteq>
      (\<lambda>(j, to). journey_id j) ` set (filter (\<lambda>(j, to). sends_serves s to \<and> \<not> sequential s to) dep)"
    unfolding journeys sh_def set_map by (rule image_mono) (rule set_take_subset)
qed

lemma disposed_facts:
  assumes "disposed p now wall pk location held routing um body os n st = ((hg, lined, dead), n', st')"
  shows "hg_holds hg @ lu_holds lined = map (kept_hold (pu_config p) pk body) (filter (sub_holds pk) os @ filter (\<lambda>o1. \<not> sub_holds pk o1) os)"
    and "dead = None \<longleftrightarrow> os \<noteq> []"
    and "length (lu_claimed lined) = lu_admitted lined" and "lu_admitted lined \<le> room_in (pu_config p) st"
    and "st' = st\<lparr>st_admitted := st_admitted st + lu_admitted lined\<rparr>"
    and "set (map cl_journey (lu_claims lined)) \<subseteq> (\<lambda>o1. journey_id (op_journey o1)) `
      set (filter (\<lambda>o1. \<not> sub_holds pk o1 \<and> sends_serves (pu_sends p) (op_to o1) \<and> \<not> sequential (pu_sends p) (op_to o1)) os)"
proof -
  let ?goal = "hg_holds hg @ lu_holds lined = map (kept_hold (pu_config p) pk body) (filter (sub_holds pk) os @ filter (\<lambda>o1. \<not> sub_holds pk o1) os) \<and>
    (dead = None \<longleftrightarrow> os \<noteq> []) \<and> length (lu_claimed lined) = lu_admitted lined \<and> lu_admitted lined \<le> room_in (pu_config p) st \<and>
    st' = st\<lparr>st_admitted := st_admitted st + lu_admitted lined\<rparr> \<and>
    set (map cl_journey (lu_claims lined)) \<subseteq> (\<lambda>o1. journey_id (op_journey o1)) `
      set (filter (\<lambda>o1. \<not> sub_holds pk o1 \<and> sends_serves (pu_sends p) (op_to o1) \<and> \<not> sequential (pu_sends p) (op_to o1)) os)"
  have ?goal
  proof (cases "os = []")
    case True
    with assms show ?thesis by (auto simp: disposed_def holding_none_def lined_none_def)
  next
    case False
    let ?rest = "filter (\<lambda>o1. \<not> sub_holds pk o1) os"
    obtain l: "line_up (pu_config p) (pu_sends p) (map (\<lambda>o1. (op_journey o1, op_to o1)) ?rest) body (pu_ids p) n now st = ((lined, n'), st')"
      and hg: "hg = held_of pk body False os" "dead = None"
      using assms False by (auto simp: disposed_def Let_def departing_rest split: prod.splits)
    note up = line_up_facts [OF l]
    have kept: "lu_holds lined = map (kept_hold (pu_config p) pk body) ?rest"
      unfolding up(1) by (simp add: kept_hold_def kept_in_def)
    have claims: "filter (\<lambda>(j, to). sends_serves (pu_sends p) to \<and> \<not> sequential (pu_sends p) to)
        (map (\<lambda>o1. (op_journey o1, op_to o1)) ?rest) = map (\<lambda>o1. (op_journey o1, op_to o1))
          (filter (\<lambda>o1. \<not> sub_holds pk o1 \<and> sends_serves (pu_sends p) (op_to o1) \<and> \<not> sequential (pu_sends p) (op_to o1)) os)"
      by (simp add: filter_map comp_def conj_ac)
    have "(\<lambda>(j, to). journey_id j) ` set (map (\<lambda>o1. (op_journey o1, op_to o1)) xs) = (\<lambda>o1. journey_id (op_journey o1)) ` set xs" for xs
      by (simp add: image_image)
    note up(5) [unfolded claims this]
    with up(2-4) hg kept False held_of_holds [THEN conjunct1, of pk body os "pu_config p"] show ?thesis by simp
  qed
  then show "hg_holds hg @ lu_holds lined = map (kept_hold (pu_config p) pk body) (filter (sub_holds pk) os @ filter (\<lambda>o1. \<not> sub_holds pk o1) os)"
    and "dead = None \<longleftrightarrow> os \<noteq> []"
    and "length (lu_claimed lined) = lu_admitted lined" and "lu_admitted lined \<le> room_in (pu_config p) st"
    and "st' = st\<lparr>st_admitted := st_admitted st + lu_admitted lined\<rparr>"
    and "set (map cl_journey (lu_claims lined)) \<subseteq> (\<lambda>o1. journey_id (op_journey o1)) `
      set (filter (\<lambda>o1. \<not> sub_holds pk o1 \<and> sends_serves (pu_sends p) (op_to o1) \<and> \<not> sequential (pu_sends p) (op_to o1)) os)"
    by blast+
qed

lemma confirmed_claimed:
  assumes "send_confirmed hs l st = (l', st')" and "length (lu_claimed l) = lu_admitted l"
  shows "length (lu_claimed l') = lu_admitted l' \<and> lu_admitted l' \<le> lu_admitted l \<and> st_owned st' = st_owned st \<and>
    st_admitted st' = st_admitted st - (lu_admitted l - lu_admitted l')"
proof -
  let ?c = "List.map_filter (\<lambda>(i, to, q, c). map_option (\<lambda>h. (i, to, q, h)) (claim_held hs c)) (lu_claimed l)"
  have "length ?c \<le> length (lu_claimed l)" by (simp add: List.map_filter_def)
  with assms confirmed_places [OF assms(1)] show ?thesis by (auto simp: send_confirmed_def Let_def)
qed

lemma ways_distinct:
  assumes "inj ids" and "map way_of os = map (\<lambda>(k, ev, to). (ids k, ev_subscription ev, to)) (enumerate n ws)"
  shows "distinct (map (\<lambda>o1. journey_id (op_journey o1)) os)"
proof -
  have "map (\<lambda>o1. journey_id (op_journey o1)) os = map fst (map way_of os)" by (simp add: way_of_def comp_def)
  also have "\<dots> = map ids (map fst (enumerate n ws))" unfolding assms(2) by (simp add: comp_def case_prod_unfold del: map_fst_enumerate)
  finally show ?thesis using inj_on_subset [OF assms(1), of "{n..<n + length ws}"] by (simp add: distinct_map)
qed

text \<open>A Publication by its steps: refused before it is written, or written as what is opened, placed and
  disposed of make it.\<close>

lemma publish_cases [consumes 2, case_names unplaced untaken taken]:
  assumes "publish p now wall pk location (received, stream_places) m routing um body n st = (r, pub, n', st')" and "journeys_named p"
  obtains e where "r = Inl e" "pub = None" "st' = st"
  | os hs hg lined dead n2 n3 st1 why where
      "map way_of os = map (\<lambda>(k, ev, to). (pu_ids p k, ev_subscription ev, to)) (enumerate n (ways pk routing))"
      "disposed p now wall pk location (mg_id m, fst (mg_first m)) routing um body os n2 st = ((hg, lined, dead), n3, st1)"
      "pub = Some (publication_of p location stream_places m os hs (hg, lined, dead) n3)"
      "r = Inl (StorageError why)" "st' = send_withdrawn lined st1"
  | os hs hg lined dead n2 n3 st1 answer lined' where
      "map way_of os = map (\<lambda>(k, ev, to). (pu_ids p k, ev_subscription ev, to)) (enumerate n (ways pk routing))"
      "rec_sequences received \<noteq> [] \<longrightarrow> hs = []"
      "disposed p now wall pk location (mg_id m, fst (mg_first m)) routing um body os n2 st = ((hg, lined, dead), n3, st1)"
      "pub = Some (publication_of p location stream_places m os hs (hg, lined, dead) n3)"
      "pu_publish p (publication_of p location stream_places m os hs (hg, lined, dead) n3) = Inr answer"
      "send_confirmed (fst answer) lined st1 = (lined', st')"
      "r = Inr \<lparr>pd_journeys = map op_journey os, pd_holding = hg, pd_lined = lined', pd_durable = snd answer\<rparr>"
proof -
  let ?held = "(mg_id m, fst (mg_first m))"
  obtain os0 n0 where o: "opened_of (pu_matched p) (pu_ids p) pk ?held routing n = (os0, n0)" by fastforce
  define os1 where "os1 = map (\<lambda>one. one\<lparr>op_journey := pu_received_as p received (op_journey one)\<rparr>) os0"
  obtain os2 n2 where d: "delivered (pu_sends p) (pu_ids p) n0 os1 = (os2, n2)" by fastforce
  have "way_of (one\<lparr>op_journey := pu_received_as p received (op_journey one)\<rparr>) = way_of one" for one
    using assms(2) by (simp add: journeys_named_def way_of_def)
  then have ways2: "map way_of os2 = map way_of os0" using delivered_ways [OF d] by (simp add: os1_def comp_def)
  note step = assms(1) [unfolded publish_def Let_def, simplified o, simplified, folded os1_def, simplified d, simplified]
  show thesis
  proof (cases "send_places_of p received m os2")
    case (Inl e)
    then show ?thesis using step by (intro that(1) [of e]) simp_all
  next
    case (Inr a)
    then obtain os hs where places: "send_places_of p received m os2 = Inr (os, hs)" by (cases a) simp
    obtain hg lined dead n3 st1 where dis: "disposed p now wall pk location ?held routing um body os n2 st = ((hg, lined, dead), n3, st1)"
      by (metis prod.collapse)
    have named: "map way_of os = map (\<lambda>(k, ev, to). (pu_ids p k, ev_subscription ev, to)) (enumerate n (ways pk routing))"
      using send_places_ways [OF places] ways2 opened_ways [OF assms(2) o] by simp
    let ?w = "publication_of p location stream_places m os hs (hg, lined, dead) n3"
    show ?thesis
    proof (cases "pu_publish p ?w")
      case (Inl why)
      with step places dis have "pub = Some ?w" "r = Inl (StorageError why)" "st' = send_withdrawn lined st1"
        by simp_all
      then show ?thesis by (rule that(2) [OF named dis])
    next
      case (Inr answer)
      obtain lined' where "send_confirmed (fst answer) lined st1 = (lined', st')"
        and "r = Inr \<lparr>pd_journeys = map op_journey os, pd_holding = hg, pd_lined = lined', pd_durable = snd answer\<rparr>" "pub = Some ?w"
        using step places dis Inr by (auto split: prod.splits)
      with Inr send_places_ways [OF places] show ?thesis by (intro that(3) [OF named _ dis]) simp_all
    qed
  qed
qed

text \<open>C4: a Publication is one write, in which every Journey opened, one for each Send Port a matched
  Subscription reaches, in order and each under an identifier of its own, is kept in exactly one queue:
  its Subscription's where that is paused or holds anything, the queue of where it leads otherwise; the
  Message goes to the Dead Message Queue exactly where nothing matched. Only a Journey that no
  Subscription holds and this node sends is claimed, within the Send pool's room, and what is admitted
  afterwards is what is claimed still; where the write is not taken every place is given back.\<close>

theorem publication_keeps_each_once:
  assumes "journeys_named p" and "inj (pu_ids p)"
    and "publish p now wall pk location (received, stream_places) m routing um body n st = (r, pub, n', st')"
  shows "st_owned st' = st_owned st \<and>
    (case r of
       Inl _ \<Rightarrow> st_admitted st' = st_admitted st
     | Inr out \<Rightarrow> \<exists>w os hs answer. pub = Some w \<and> pu_publish p w = Inr answer \<and> pn_journeys w = map op_journey os \<and>
         map way_of os = map (\<lambda>(k, ev, to). (pu_ids p k, ev_subscription ev, to)) (enumerate n (ways pk routing)) \<and>
         distinct (map (\<lambda>o1. journey_id (op_journey o1)) os) \<and>
         pn_held w = map (kept_hold (pu_config p) pk body) (filter (sub_holds pk) os @ filter (\<lambda>o1. \<not> sub_holds pk o1) os) @
           (if os = [] then [] else stream_places) @ hs \<and>
         (rec_sequences received \<noteq> [] \<longrightarrow> hs = []) \<and> (pn_dead w = None \<longleftrightarrow> os \<noteq> []) \<and>
         set (map cl_journey (pn_claims w)) \<subseteq> (\<lambda>o1. journey_id (op_journey o1)) ` set (filter (\<lambda>o1. \<not> sub_holds pk o1 \<and>
           sends_serves (pu_sends p) (op_to o1) \<and> \<not> sequential (pu_sends p) (op_to o1)) os) \<and>
         length (lu_claimed (pd_lined out)) \<le> room_in (pu_config p) st \<and>
         st_admitted st' = st_admitted st + length (lu_claimed (pd_lined out)))"
  using assms(3,1)
proof (cases rule: publish_cases)
  case (unplaced e)
  then show ?thesis by (simp only: sum.case simp_thms)
next
  case (untaken os hs hg lined dead n2 n3 st1 why)
  from disposed_facts(5) [OF untaken(2)] untaken(4,5) show ?thesis by (simp only: sum.case) (simp add: send_withdrawn_def)
next
  case (taken os hs hg lined dead n2 n3 st1 answer lined')
  let ?w = "publication_of p location stream_places m os hs (hg, lined, dead) n3"
  note dp = disposed_facts [OF taken(3)]
  have "pn_held ?w = map (kept_hold (pu_config p) pk body) (filter (sub_holds pk) os @ filter (\<lambda>o1. \<not> sub_holds pk o1) os) @
      (if os = [] then [] else stream_places) @ hs"
    by (simp only: publication_of_def prod.case publication.simps append_assoc [symmetric] dp(1) map_is_Nil_conv)
  moreover have "pn_journeys ?w = map op_journey os" "pn_dead ?w = dead" "pn_claims ?w = lu_claims lined"
    by (simp_all add: publication_of_def)
  ultimately show ?thesis
    using taken dp confirmed_claimed [OF taken(6) dp(3)] ways_distinct [OF assms(2) taken(1)]
    by (intro conjI) (simp, simp only: sum.case, intro exI [of _ ?w] exI [of _ os] exI [of _ hs] exI [of _ answer], simp)
qed

text \<open>A node with one Subscription, which holds one Message already, and a Message matched by it and by
  another that is not configured there.\<close>

definition sample_publisher :: publisher where
  "sample_publisher = \<lparr>pu_config = two_threads, pu_sends = sample_sends, pu_named = length, pu_cluster = ''c'', pu_ids = (\<lambda>n. n),
     pu_shown = (\<lambda>_. ''i''), pu_matched = (\<lambda>i c held. bare_journey\<lparr>journey_id := i\<rparr>),
     pu_received_as = (\<lambda>r j. j\<lparr>j_received := Some r\<rparr>), pu_promote = (\<lambda>_. Inr Map.empty), pu_dead_queue = length,
     pu_publish = (\<lambda>_. Inr ([], 0))\<rparr>"

definition sample_pickup :: pickup where
  "sample_pickup = \<lparr>pk_node = ''n'', pk_entries = [resumed_entry\<lparr>pe_queue := 6\<rparr>]\<rparr>"

definition sample_routing :: "evaluation list" where
  "sample_routing =
     [\<lparr>ev_subscription = ''s'', ev_destination = ToSendPort ''p'', ev_matched = True, ev_reason = None\<rparr>,
      \<lparr>ev_subscription = ''u'', ev_destination = ToSendPort ''p'', ev_matched = False, ev_reason = None\<rparr>,
      \<lparr>ev_subscription = ''t'', ev_destination = ToSendPort ''out'', ev_matched = True, ev_reason = None\<rparr>]"

definition sample_received :: received where
  "sample_received = \<lparr>rec_location = ''l'', rec_port = ''r'', rec_origin = 4, rec_sequences = [], rec_skips = False\<rparr>"

definition sample_published :: "(seq_error + published_write) \<times> publication option \<times> nat \<times> send_state" where
  "sample_published = publish sample_publisher 0 0 sample_pickup ''l'' (sample_received, [])
     \<lparr>mg_id = 2, mg_first = (3, 10), mg_rest = []\<rparr> sample_routing \<lparr>um_promoted = None, um_facts = None\<rparr> [] 7 send_new"

lemma sample_publisher_sel [simp]:
  "pu_ids sample_publisher = (\<lambda>n. n)" "pu_sends sample_publisher = sample_sends"
  "pu_received_as sample_publisher r j = j\<lparr>j_received := Some r\<rparr>" "pu_publish sample_publisher w = Inr ([], 0)"
  by (simp_all add: sample_publisher_def)

definition sample_opened :: "opened list" where
  "sample_opened = map (\<lambda>one. one\<lparr>op_journey := (op_journey one)\<lparr>j_received := Some sample_received\<rparr>\<rparr>)
     (fst (opened_of (pu_matched sample_publisher) (\<lambda>n. n) sample_pickup (2, 3) sample_routing 7))"

lemma sample_opened_parts:
  "snd (opened_of (pu_matched sample_publisher) (\<lambda>n. n) sample_pickup (2, 3) sample_routing 7) = 9"
  "delivered sample_sends (\<lambda>n. n) 9 sample_opened = (sample_opened, 9)"
  "send_places_of sample_publisher sample_received m sample_opened = Inr (sample_opened, [])"
  "length (ways sample_pickup sample_routing) = 2"
  by code_simp+

lemma sample_published_taken: "\<not> isl (fst sample_published)"
proof -
  have o: "opened_of (pu_matched sample_publisher) (\<lambda>n. n) sample_pickup (2, 3) sample_routing 7 =
      (fst (opened_of (pu_matched sample_publisher) (\<lambda>n. n) sample_pickup (2, 3) sample_routing 7), 9)"
    using sample_opened_parts(1) by (simp add: prod_eq_iff)
  show ?thesis unfolding sample_published_def publish_def
    by (simp add: Let_def sample_opened_parts, subst o, simp add: sample_opened_def [symmetric] sample_opened_parts Let_def case_prod_unfold)
qed

theorem publication_keeps_each_once_witness:
  "\<exists>w. fst (snd sample_published) = Some w \<and> length (pn_journeys w) = 2 \<and> distinct (map journey_id (pn_journeys w)) \<and>
     pn_dead w = None"
proof -
  obtain r pub n' st' where run: "sample_published = (r, pub, n', st')" by (metis prod.collapse)
  have "\<not> isl r" using sample_published_taken unfolding run by simp
  then obtain out where r: "r = Inr out" by (cases r) simp_all
  have named: "journeys_named sample_publisher" by (simp add: journeys_named_def sample_publisher_def)
  have "inj (pu_ids sample_publisher)" by simp
  from publication_keeps_each_once [OF named this run [unfolded sample_published_def]] r
  obtain w os where w: "pub = Some w" "pn_journeys w = map op_journey os" "(pn_dead w = None) = (os \<noteq> [])"
    "distinct (map (\<lambda>o1. journey_id (op_journey o1)) os)" and
    ways: "map way_of os = map (\<lambda>(k, ev, to). (pu_ids sample_publisher k, ev_subscription ev, to))
      (enumerate 7 (ways sample_pickup sample_routing))"
    by (simp only: sum.case, elim conjE exE) (rule that)
  have "length os = 2" using arg_cong [OF ways, of length] sample_opened_parts(4) by simp
  moreover from this have "os \<noteq> []" by (metis list.size(3) zero_neq_numeral)
  ultimately have "fst (snd sample_published) = Some w \<and> length (pn_journeys w) = 2 \<and>
      distinct (map journey_id (pn_journeys w)) \<and> pn_dead w = None"
    using w unfolding run by (simp add: comp_def)
  then show ?thesis by (rule exI)
qed

section \<open>A Replay holds everything it opens\<close>

definition entry_of :: "pickup \<Rightarrow> opened \<Rightarrow> nat" where
  "entry_of pk o1 = the (pickup_index (op_subscription o1) pk)"

lemma configured_entry:
  assumes "op_subscription o1 \<in> pe_name ` set (pk_entries pk)"
  shows "pickup_index (op_subscription o1) pk = Some (entry_of pk o1)" and "entry_of pk o1 < length (pk_entries pk)"
proof -
  obtain i where i: "pickup_index (op_subscription o1) pk = Some i"
    using assms by (cases "pickup_index (op_subscription o1) pk") (auto simp: pickup_index_def position_none)
  then show "pickup_index (op_subscription o1) pk = Some (entry_of pk o1)" by (simp add: entry_of_def)
  with i show "entry_of pk o1 < length (pk_entries pk)" by (auto simp: pickup_index_def dest: position_some)
qed

lemma held_every:
  assumes "\<And>o1. o1 \<in> set os \<Longrightarrow> op_subscription o1 \<in> pe_name ` set (pk_entries pk)"
  shows "held_of pk body True os = \<lparr>hg_holds = map (\<lambda>o1. \<lparr>h_queue = pe_queue (pk_entries pk ! entry_of pk o1),
      h_journey = journey_id (op_journey o1), h_body = body\<rparr>) os,
    hg_held = map (\<lambda>o1. (entry_of pk o1, op_subscription o1)) os, hg_picked = []\<rparr>"
proof -
  have "fold (holding_one pk body True) os hg = hg\<lparr>hg_holds := hg_holds hg @ map (\<lambda>o1. \<lparr>h_queue = pe_queue (pk_entries pk ! entry_of pk o1),
      h_journey = journey_id (op_journey o1), h_body = body\<rparr>) os,
    hg_held := hg_held hg @ map (\<lambda>o1. (entry_of pk o1, op_subscription o1)) os\<rparr>" for hg
    using assms
  proof (induction os arbitrary: hg)
    case (Cons o1 os)
    have "pickup_index (op_subscription o1) pk = Some (entry_of pk o1)" using Cons.prems by (intro configured_entry(1)) simp
    with Cons.IH [of "holding_one pk body True o1 hg"] Cons.prems show ?case
      by (simp add: holding_one_def Let_def)
  qed simp
  then show ?thesis by (simp add: held_of_def holding_none_def)
qed

lemma published_counts:
  assumes "\<And>x. x \<in> set held \<Longrightarrow> fst x < length (pk_entries pk)"
  shows "sum_list (map pe_held (pk_entries (fold (\<lambda>(i, _). entry_at i entry_published) held pk))) =
    sum_list (map pe_held (pk_entries pk)) + length held"
  using assms
proof (induction held arbitrary: pk)
  case (Cons x held)
  obtain i name where x: "x = (i, name)" by (cases x)
  have i: "i < length (pk_entries pk)" using Cons.prems [of x] x by simp
  have "pe_held (entry_published (pk_entries pk ! i)) = pe_held (pk_entries pk ! i) + 1"
    by (simp add: entry_published_def Let_def)
  then have "sum_list (map pe_held (pk_entries (entry_at i entry_published pk))) = sum_list (map pe_held (pk_entries pk)) + 1"
    using sum_list_map_update [OF i, of pe_held "entry_published (pk_entries pk ! i)"] by (simp add: entry_at_def)
  then show ?case using Cons.IH [of "entry_at i entry_published pk"] Cons.prems x by (simp add: entry_at_def)
qed simp

lemma opened_configured:
  assumes "ev_subscription ` set routing \<subseteq> pe_name ` set (pk_entries pk)"
    and "opened_of matched ids pk held routing n = (os, n')" and "o1 \<in> set os"
  shows "op_subscription o1 \<in> pe_name ` set (pk_entries pk)"
proof -
  obtain k way where kw: "(k, way) \<in> set (enumerate n (ways pk routing))" "o1 = opened_one matched held (ids k) way"
    using assms(2,3) by (auto simp: opened_of_def Let_def)
  have "way \<in> set (map snd (enumerate n (ways pk routing)))" using imageI [OF kw(1), of snd] by (simp only: set_map snd_conv)
  then have "fst way \<in> set routing" by (auto simp: ways_def)
  moreover have "op_subscription o1 = ev_subscription (fst way)" using kw(2) by (simp add: opened_one_def Let_def case_prod_unfold)
  ultimately have "op_subscription o1 \<in> ev_subscription ` set routing" by simp
  then show ?thesis using assms(1) by blast
qed

text \<open>A Replay changes nothing unless Xmip Storage says it was taken now. What it asks to be written holds
  every Journey it opens, and it opens one at least, in its Subscription's queue with what the Dead Message
  Queue kept beside the Message; once taken, what the Subscriptions count as held grows by just those.\<close>

theorem replay_holds_every:
  assumes "\<forall>promoted subscriptions. ev_subscription ` set (rp_route env promoted subscriptions) \<subseteq> sb_id ` set subscriptions"
    and "pickup_replay env text who n pk = (r, w, pk')"
  shows "(case w of
      None \<Rightarrow> pk' = pk
    | Some x \<Rightarrow> (\<exists>entry os. rp_read_dead env (rp_dead_queue env (pk_node pk)) (rw_message x) = Inr (DKept entry) \<and> os \<noteq> [] \<and>
        rw_journeys x = map op_journey os \<and>
        rw_held x = map (\<lambda>o1. \<lparr>h_queue = pe_queue (pk_entries pk ! entry_of pk o1),
          h_journey = journey_id (op_journey o1), h_body = dm_body entry\<rparr>) os \<and>
        (\<forall>o1 \<in> set os. pe_name (pk_entries pk ! entry_of pk o1) = op_subscription o1)) \<and>
      (if rp_replay env x = Inr RNow
       then sum_list (map pe_held (pk_entries pk')) = sum_list (map pe_held (pk_entries pk)) + length (rw_journeys x)
       else pk' = pk))"
proof (cases w)
  case None
  then show ?thesis using assms(2)
    by (auto simp: pickup_replay_def Let_def split: option.splits sum.splits dead_read.splits replayed.splits prod.splits if_splits)
next
  case (Some x)
  note run = assms(2) [unfolded Some pickup_replay_def]
  obtain i where parse: "rp_parse env text = Some i" using run by (cases "rp_parse env text") simp_all
  note run = run [unfolded parse option.case Let_def]
  obtain entry where read: "rp_read_dead env (rp_dead_queue env (pk_node pk)) i = Inr (DKept entry)"
    using run by (simp split: sum.splits dead_read.splits)
  note run = run [unfolded read sum.case dead_read.case]
  obtain os n' where opened: "opened_of (rp_matched env) (rp_ids env) pk (i, dm_stream entry)
      (rp_route env (fold (\<lambda>(name, v) m. m(name \<mapsto> v)) (dm_promoted entry) Map.empty)
        (map (\<lambda>e. cs_subscription (pe_configured e)) (pk_entries pk))) n = (os, n')" by fastforce
  note run = run [unfolded opened prod.case]
  have os: "os \<noteq> []" using run by (cases "os = []") simp_all
  note run = run [unfolded if_not_P [OF os]]
  obtain body where body: "rp_read_message env i = Inr (Some body)" using run by (simp split: sum.splits option.splits)
  note run = run [unfolded body sum.case option.case]
  obtain m where m: "rp_message_of env body = Inr m" using run by (simp split: sum.splits)
  define x0 where "x0 = replay_write_of env who pk i entry os m n'"
  note run = run [unfolded m sum.case, folded x0_def]
  have "x = x0 \<and> pk' = (if rp_replay env x0 = Inr RNow then pickup_published (held_of pk (dm_body entry) True os) pk else pk)"
  proof (cases "rp_replay env x0")
    case (Inr a)
    with run show ?thesis by (cases a) simp_all
  qed (use run in simp)
  then have x: "x = replay_write_of env who pk i entry os m n'"
    and pk': "pk' = (if rp_replay env x = Inr RNow then pickup_published (held_of pk (dm_body entry) True os) pk else pk)"
    by (simp_all add: x0_def)
  have names: "pe_name ` set (pk_entries pk) = sb_id ` set (map (\<lambda>e. cs_subscription (pe_configured e)) (pk_entries pk))"
    by (simp add: image_image pe_name_def cs_name_def)
  have conf: "op_subscription o1 \<in> pe_name ` set (pk_entries pk)" if "o1 \<in> set os" for o1
    by (rule opened_configured [OF _ opened that]) (unfold names, rule assms(1) [rule_format])
  note held = held_every [OF conf, where body = "dm_body entry"]
  have named: "\<forall>o1 \<in> set os. pe_name (pk_entries pk ! entry_of pk o1) = op_subscription o1"
    using configured_entry(1) [OF conf] by (auto simp: pickup_index_def dest!: position_some)
  have "sum_list (map pe_held (pk_entries (pickup_published (held_of pk (dm_body entry) True os) pk))) =
      sum_list (map pe_held (pk_entries pk)) + length os"
  proof -
    let ?held = "map (\<lambda>o1. (entry_of pk o1, op_subscription o1)) os"
    have "fst x < length (pk_entries pk)" if "x \<in> set ?held" for x
      using that configured_entry(2) [OF conf] by auto
    from published_counts [of ?held, OF this] show ?thesis by (simp add: pickup_published_def held)
  qed
  with Some read os x pk' named show ?thesis by (auto simp: replay_write_of_def held)
qed

definition sample_dead :: dead_message where
  "sample_dead = \<lparr>dm_queue = 1, dm_message = 2, dm_stream = 3, dm_node = ''n'', dm_location = ''l'', dm_received = 0,
     dm_validation = [], dm_promoted = [(''k'', ''v'')], dm_declines = [], dm_body = ''b''\<rparr>"

definition sample_replay :: replay_env where
  "sample_replay = \<lparr>rp_parse = (\<lambda>_. Some 2), rp_shown = (\<lambda>_. ''i''), rp_ids = (\<lambda>n. n),
     rp_matched = (\<lambda>i c held. bare_journey\<lparr>journey_id := i\<rparr>), rp_dead_queue = length,
     rp_route = (\<lambda>promoted. map (\<lambda>sb. \<lparr>ev_subscription = sb_id sb, ev_destination = sb_destination sb, ev_matched = True, ev_reason = None\<rparr>)),
     rp_declines = (\<lambda>_. []), rp_read_dead = (\<lambda>_ _. Inr (DKept sample_dead)), rp_read_message = (\<lambda>_. Inr (Some ''m'')),
     rp_message_of = (\<lambda>_. Inr \<lparr>mg_id = 2, mg_first = (3, 10), mg_rest = []\<rparr>), rp_replay = (\<lambda>_. Inr RNow)\<rparr>"

theorem replay_holds_every_witness:
  "\<exists>w pk'. snd (pickup_replay sample_replay ''2'' ''op'' 7 sample_pickup) = (Some w, pk') \<and>
     map (\<lambda>h. (h_queue h, h_journey h)) (rw_held w) = [(6, 7)] \<and>
     sum_list (map pe_held (pk_entries pk')) = sum_list (map pe_held (pk_entries sample_pickup)) + 1"
proof -
  obtain r w pk' where run: "pickup_replay sample_replay ''2'' ''op'' 7 sample_pickup = (r, w, pk')" by (metis prod.collapse)
  have law: "\<forall>promoted subscriptions. ev_subscription ` set (rp_route sample_replay promoted subscriptions) \<subseteq> sb_id ` set subscriptions"
    by (auto simp: sample_replay_def)
  have "map_option (\<lambda>w. (map (\<lambda>h. (h_queue h, h_journey h)) (rw_held w), length (rw_journeys w)))
      (fst (snd (pickup_replay sample_replay ''2'' ''op'' 7 sample_pickup))) = Some ([(6, 7)], 1)" by code_simp
  then obtain x where x: "w = Some x" "map (\<lambda>h. (h_queue h, h_journey h)) (rw_held x) = [(6, 7)]" "length (rw_journeys x) = 1"
    unfolding run by (cases w) simp_all
  have now: "rp_replay sample_replay x = Inr RNow" by (simp add: sample_replay_def)
  have "sum_list (map pe_held (pk_entries pk')) = sum_list (map pe_held (pk_entries sample_pickup)) + 1"
    using replay_holds_every [OF law run] x(3) by (simp only: x(1) option.case now if_P)
  with x run show ?thesis by (intro exI [of _ x] exI [of _ pk']) simp
qed

end
