(* ===== verification/Arrival.thy ===== *)
theory Arrival
  imports Ledger_Stream Publication
begin

text \<open>
  \<open>src/arrival.rs\<close> with \<open>arrival/identity_context.rs\<close>, \<open>src/receiving/gate.rs\<close>, \<open>src/message_path.rs\<close> and
  \<open>src/outcome.rs\<close>: the receive cycle. A Stream's sender is identified, authenticated and authorized on
  the transport before a byte of it is kept; the Stream is written to the Ledger, a Message made of it
  and the message layer passed through the same gates; then it is routed, published in one write, and
  acknowledged once that is durable. What the gates' libraries conclude is an argument, as are the
  library's facts, the contexts' reserved names and Xmip Storage's answers.
\<close>

section \<open>What arrives, and the gate it comes in at\<close>

datatype layer = TransportLayer | MessageLayer

record presented =
  cd_mechanism :: string
  cd_value :: string
  cd_established :: string
  cd_layer :: layer
  cd_proof :: "string option"
  cd_evidence :: "(string \<times> string) list"

record unchecked_claim =
  uc_mechanism :: string
  uc_value :: string
  uc_established :: string

definition unchecked_of :: "presented \<Rightarrow> unchecked_claim" where
  "unchecked_of c = \<lparr>uc_mechanism = cd_mechanism c, uc_value = cd_value c, uc_established = cd_established c\<rparr>"

text \<open>An identity as authentication concluded it, and the facts both layers came to.\<close>

record auth_identity = identity_said +
  ai_class :: string
  ai_proven :: bool
  ai_established :: string
  ai_at :: int

record arrival_facts =
  fa_transport :: auth_identity
  fa_message :: "auth_identity option"
  fa_alignment :: string
  fa_misaligned :: bool
  fa_party :: "string option"
  fa_unchecked :: "unchecked_claim list"

record decision =
  dc_allowed :: bool
  dc_said :: string

record identity_policy =
  ip_alignment :: string
  ip_on_misalignment :: string
  ip_minimum :: string

record 'a receive_gate =
  rg_location :: string
  rg_accept :: 'a
  rg_identity :: identity_policy
  rg_port :: string
  rg_points :: "point list"

datatype scalar = SText string | SBool bool | SOther string

record received_stream =
  sm_arriving :: string
  sm_source :: string
  sm_observed :: "(string \<times> string) list"
  sm_headers :: "(string \<times> scalar) list"
  sm_presented :: "presented option"
  sm_body :: reader

text \<open>A Message just received: one Section over its Stream, and its context.\<close>

record received_message = message +
  mg_section :: ident
  mg_context :: "string \<rightharpoonup> scalar"

record work =
  wk_journey :: journey
  wk_message :: received_message

text \<open>What the gates and libraries answer; \<open>ae_inferred\<close> is the circumstance of a source, where nothing
  identified anything.\<close>

record ('a, 'd) arrival_env =
  ae_identify_transport :: "string \<Rightarrow> string \<Rightarrow> (string \<times> string) list \<Rightarrow> string + presented list"
  ae_inferred :: "string \<Rightarrow> presented"
  ae_without_proof :: "presented \<Rightarrow> presented"
  ae_authenticate :: "'a \<Rightarrow> presented \<Rightarrow> string + auth_identity"
  ae_evaluate :: "string \<Rightarrow> auth_identity \<Rightarrow> auth_identity option \<Rightarrow> arrival_facts"
  ae_authorize :: "arrival_facts \<Rightarrow> string \<Rightarrow> int \<Rightarrow> string \<Rightarrow> string \<Rightarrow> decision"
  ae_kept_names :: "string list"
  ae_party_name :: string
  ae_identify_message :: "received_message \<Rightarrow> string + presented list"
  ae_promote :: "received_message \<Rightarrow> string + promoted"
  ae_unread :: "received_message \<Rightarrow> string option"
  ae_route :: "promoted \<Rightarrow> subscription list \<Rightarrow> evaluation list"
  ae_routed :: "evaluation list \<Rightarrow> bool"
  ae_names :: "promoted \<Rightarrow> (string \<times> string) list"
  ae_facts_record :: "arrival_facts \<Rightarrow> string"
  ae_journey :: "ident \<Rightarrow> message_ref \<Rightarrow> journey"
  ae_ids :: "nat \<Rightarrow> ident"
  ae_digest :: "'d stream_digest"
  ae_refuses :: "stream_write \<Rightarrow> string option"
  ae_chunk :: nat
  ae_subscriptions :: "subscription list"
  ae_wait :: "ident \<Rightarrow> string option"

text \<open>\<open>ReceiveGate::of\<close>: a Location's closed set, refused where nothing verifies what it accepts; the
  acceptance is built by the authentication library.\<close>

record configured_location =
  co_name :: string
  co_parties :: "string list"
  co_mechanisms :: "string list"
  co_minimum :: string

definition unverified :: "string list \<Rightarrow> configured_location \<Rightarrow> string list" where
  "unverified authenticators c =
     map (\<lambda>name. ''the Receive Location '' @ quoted (co_name c) @ '' accepts '' @ quoted name @
            '', and no authenticator this node was built with verifies it'')
       (filter (\<lambda>name. name \<notin> set authenticators) (co_mechanisms c))"

definition receive_gate_of ::
  "'a \<Rightarrow> ('p \<Rightarrow> 'a \<Rightarrow> 'a) \<Rightarrow> (string \<Rightarrow> 'a \<Rightarrow> 'a) \<Rightarrow> (string \<Rightarrow> 'p option) \<Rightarrow> string list \<Rightarrow> identity_policy \<Rightarrow> (string \<Rightarrow> point) \<Rightarrow>
     string list \<Rightarrow> configured_location \<Rightarrow> string list + 'a receive_gate" where
  "receive_gate_of closed from_party accepting party_named party_problems policy own_point authenticators c =
     (let problems = party_problems @ unverified authenticators c;
          accept = fold from_party (List.map_filter party_named (co_parties c)) closed;
          accept = fold accepting (filter (\<lambda>name. name \<in> set authenticators) (co_mechanisms c)) accept in
      if problems = []
      then Inr \<lparr>rg_location = co_name c, rg_accept = accept, rg_identity = policy\<lparr>ip_minimum := co_minimum c\<rparr>,
                rg_port = [], rg_points = [own_point (co_name c)]\<rparr>
      else Inl problems)"

section \<open>What the gates concluded, where routing reads it\<close>

definition identity_values :: "string \<Rightarrow> auth_identity \<Rightarrow> (string \<times> scalar) list" where
  "identity_values layer i =
     [(''xmip.'' @ layer @ ''.mechanism'', SText (is_mechanism i)), (''xmip.'' @ layer @ ''.identity'', SText (is_value i)),
      (''xmip.'' @ layer @ ''.class'', SText (ai_class i)), (''xmip.'' @ layer @ ''.proven'', SBool (ai_proven i)),
      (''xmip.'' @ layer @ ''.verified'', SText (is_verified i)), (''xmip.'' @ layer @ ''.established'', SText (ai_established i))]"

definition identity_context :: "('a, 'd) arrival_env \<Rightarrow> arrival_facts \<Rightarrow> received_stream \<Rightarrow> (string \<times> scalar) list" where
  "identity_context env facts received =
     sm_headers received @
     map (\<lambda>(name, v). (name, SText v)) (filter (\<lambda>(name, _). name \<in> set (ae_kept_names env)) (sm_observed received)) @
     [(''xmip.arriving'', SText (sm_arriving received))] @
     identity_values ''transport'' (fa_transport facts) @
     (case fa_message facts of None \<Rightarrow> [] | Some i \<Rightarrow> identity_values ''message'' i) @
     [(''xmip.identity.misaligned'', SBool (fa_misaligned facts))] @
     (case fa_party facts of None \<Rightarrow> [] | Some party \<Rightarrow> [(ae_party_name env, SText party)])"

definition promote_identity :: "('a, 'd) arrival_env \<Rightarrow> arrival_facts \<Rightarrow> received_stream \<Rightarrow> string \<rightharpoonup> scalar" where
  "promote_identity env facts received =
     fold (\<lambda>(name, v) c. c(name \<mapsto> v)) (identity_context env facts received) Map.empty"

section \<open>An arrival\<close>

datatype refused = RIdentification string | RAuthentication string presented | RAuthorization decision | RPromotion string

datatype failure = NotWritten stream_error | NotRead string | NotPublished seq_error | NotDurable string

datatype arrived =
    ARefused refused
  | ARouted work arrival_facts "evaluation list"
  | AUnroutable work arrival_facts "evaluation list" promoted
  | AFailed failure

definition retains :: "arrived \<Rightarrow> bool" where
  "retains a = (case a of AUnroutable _ _ _ _ \<Rightarrow> True | _ \<Rightarrow> False)"

text \<open>The claim the transport gate is handed, and those recorded beside it.\<close>

definition transport_claim :: "('a, 'd) arrival_env \<Rightarrow> received_stream \<Rightarrow> presented list \<Rightarrow> presented" where
  "transport_claim env received claims =
     (case claims of
        c # _ \<Rightarrow> c
      | [] \<Rightarrow> (case sm_presented received of Some c \<Rightarrow> c | None \<Rightarrow> ae_inferred env (sm_source received)))"

definition transport_unchecked :: "received_stream \<Rightarrow> presented list \<Rightarrow> unchecked_claim list" where
  "transport_unchecked received claims =
     (case claims of
        [] \<Rightarrow> []
      | _ # rest \<Rightarrow> map unchecked_of (rest @ (case sm_presented received of None \<Rightarrow> [] | Some c \<Rightarrow> [c])))"

definition permitted :: "('a, 'd) arrival_env \<Rightarrow> 'a receive_gate \<Rightarrow> int \<Rightarrow> arrival_facts \<Rightarrow> decision" where
  "permitted env gate now facts =
     ae_authorize env facts (rg_location gate) now (ip_on_misalignment (rg_identity gate)) (ip_minimum (rg_identity gate))"

definition message_received :: "ident \<Rightarrow> ident \<Rightarrow> ident \<times> nat \<Rightarrow> (string \<rightharpoonup> scalar) \<Rightarrow> received_message" where
  "message_received i section stream context = \<lparr>mg_id = i, mg_first = stream, mg_rest = [], mg_section = section, mg_context = context\<rparr>"

text \<open>\<open>settle_message_identity\<close>: the gates again, over the Message.\<close>

definition settle_message_identity ::
  "('a, 'd) arrival_env \<Rightarrow> 'a receive_gate \<Rightarrow> arrival_facts \<Rightarrow> received_message \<Rightarrow> received_stream \<Rightarrow> int \<Rightarrow>
     refused + arrival_facts \<times> received_message" where
  "settle_message_identity env gate facts m received now =
     (case ae_identify_message env m of
        Inl why \<Rightarrow> Inl (RIdentification why)
      | Inr claims \<Rightarrow>
         let claimed = filter (\<lambda>c. cd_layer c = MessageLayer) claims;
             others = filter (\<lambda>c. cd_layer c \<noteq> MessageLayer) claims;
             unchecked = fa_unchecked facts @ map unchecked_of (drop 1 claimed @ others) in
         case claimed of
           [] \<Rightarrow> Inr (facts\<lparr>fa_unchecked := unchecked\<rparr>, m)
         | c # _ \<Rightarrow>
            (case ae_authenticate env (rg_accept gate) c of
               Inl why \<Rightarrow> Inl (RAuthentication why (ae_without_proof env c))
             | Inr i \<Rightarrow>
                let settled = (ae_evaluate env (ip_alignment (rg_identity gate)) (fa_transport facts) (Some (i\<lparr>ai_at := now\<rparr>)))
                      \<lparr>fa_unchecked := unchecked\<rparr> in
                if \<not> dc_allowed (permitted env gate now settled) then Inl (RAuthorization (permitted env gate now settled))
                else Inr (settled, message_received (mg_id m) (mg_section m) (mg_first m) (promote_identity env settled received))))"

text \<open>From the Message on: the second pass, promotion and routing.\<close>

definition arrive_message ::
  "('a, 'd) arrival_env \<Rightarrow> 'a receive_gate \<Rightarrow> received_stream \<Rightarrow> int \<Rightarrow> arrival_facts \<Rightarrow> received_message \<Rightarrow> nat \<Rightarrow> arrived \<times> nat" where
  "arrive_message env gate received now facts m n =
     (case settle_message_identity env gate facts m received now of
        Inl why \<Rightarrow> (ARefused why, n)
      | Inr (facts, m) \<Rightarrow>
         (case ae_promote env m of
            Inl why \<Rightarrow> (ARefused (RPromotion why), n)
          | Inr promoted \<Rightarrow>
             (case ae_unread env m of
                Some why \<Rightarrow> (AFailed (NotRead why), n)
              | None \<Rightarrow>
                 let w = \<lparr>wk_journey = ae_journey env (ae_ids env n) (mg_id m, fst (mg_first m)), wk_message = m\<rparr>;
                     routing = ae_route env promoted (ae_subscriptions env) in
                 (if ae_routed env routing then ARouted w facts routing else AUnroutable w facts routing promoted, n + 1))))"

definition arrive ::
  "('a, 'd) arrival_env \<Rightarrow> 'a receive_gate \<Rightarrow> received_stream \<Rightarrow> int \<Rightarrow> nat \<Rightarrow> arrived \<times> stream_write list \<times> nat" where
  "arrive env gate received now n =
     (case ae_identify_transport env (sm_arriving received) (sm_source received) (sm_observed received) of
        Inl why \<Rightarrow> (ARefused (RIdentification why), [], n)
      | Inr claims \<Rightarrow>
         let c = transport_claim env received claims in
         case ae_authenticate env (rg_accept gate) c of
           Inl why \<Rightarrow> (ARefused (RAuthentication why (ae_without_proof env c)), [], n)
         | Inr i \<Rightarrow>
            let facts = (ae_evaluate env (ip_alignment (rg_identity gate)) (i\<lparr>ai_at := now\<rparr>) None)
                  \<lparr>fa_unchecked := transport_unchecked received claims\<rparr> in
            if \<not> dc_allowed (permitted env gate now facts) then (ARefused (RAuthorization (permitted env gate now facts)), [], n)
            else
              let stream = ae_ids env n in
              case write_stream (ae_digest env) (ae_refuses env) stream (sm_body received) (ae_chunk env) of
                (writes, Inl why) \<Rightarrow> (AFailed (NotWritten why), writes, n + 1)
              | (writes, Inr kept) \<Rightarrow>
                  let m = message_received (ae_ids env (n + 1)) (ae_ids env (n + 2)) (stream, unat (kp_length kept))
                        (promote_identity env facts received) in
                  (case arrive_message env gate received now facts m (n + 3) of (a, n) \<Rightarrow> (a, writes, n)))"

section \<open>The receive cycle\<close>

datatype receive_cycle = CycleCompleted | CycleRefused | CycleFailed

record carried =
  ca_arrived :: arrived
  ca_held :: nat
  ca_journeys :: "journey list"

definition cycle_of :: "carried \<Rightarrow> receive_cycle" where
  "cycle_of c =
     (case ca_arrived c of
        ARouted _ _ _ \<Rightarrow> CycleCompleted
      | AUnroutable _ _ _ _ \<Rightarrow> CycleCompleted
      | ARefused _ \<Rightarrow> CycleRefused
      | AFailed _ \<Rightarrow> CycleFailed)"

text \<open>What the cycle keeps of the node: its send step, its Subscriptions, the identifiers minted and the
  queues the Work Process step is asked to read.\<close>

record node_state =
  nd_send :: send_state
  nd_pickup :: pickup
  nd_ids :: nat
  nd_asked :: "ident list"

definition said_facts :: "arrival_facts \<Rightarrow> identity_facts" where
  "said_facts facts = \<lparr>if_transport = identity_said.truncate (fa_transport facts),
     if_message = map_option identity_said.truncate (fa_message facts), if_alignment = fa_alignment facts\<rparr>"

fun unmatched_of :: "('a, 'd) arrival_env \<Rightarrow> arrived \<Rightarrow> unmatched" where
  "unmatched_of env (AUnroutable _ facts _ promoted) = \<lparr>um_promoted = Some (ae_names env promoted), um_facts = Some (said_facts facts)\<rparr>"
| "unmatched_of env _ = \<lparr>um_promoted = None, um_facts = None\<rparr>"

text \<open>\<open>published\<close>, for a Message that was routed or not: its places, then its Publication.\<close>

definition published_of ::
  "('a, 'd) arrival_env \<Rightarrow> publisher \<Rightarrow> 'a receive_gate \<Rightarrow> instant \<Rightarrow> int \<Rightarrow> arrived \<Rightarrow> work \<Rightarrow> arrival_facts \<Rightarrow> evaluation list \<Rightarrow> node_state \<Rightarrow>
     (arrived \<times> published_write option) \<times> publication option \<times> node_state" where
  "published_of env p gate now wall a w facts routing nd =
     (let m = wk_message w; promoted = ae_promote env m in
      case received_of (pu_named p) (pu_cluster p) (rg_location gate) (rg_port gate) (rg_points gate) promoted (mg_id m) of
        Inl why \<Rightarrow> ((AFailed (NotPublished why), None), None, nd)
      | Inr arrival \<Rightarrow>
         (case publish (p\<lparr>pu_promote := (\<lambda>_. promoted)\<rparr>) now wall (nd_pickup nd) (rg_location gate) arrival
                 (message.truncate m) routing (unmatched_of env a) (ae_facts_record env facts) (nd_ids nd) (nd_send nd) of
            (r, pub, n, st) \<Rightarrow>
              (case r of
                 Inl why \<Rightarrow> ((AFailed (NotPublished why), None), pub, nd\<lparr>nd_ids := n, nd_send := st\<rparr>)
               | Inr out \<Rightarrow> ((a, Some out), pub, nd\<lparr>nd_ids := n, nd_send := st\<rparr>))))"

definition publishing ::
  "('a, 'd) arrival_env \<Rightarrow> publisher \<Rightarrow> 'a receive_gate \<Rightarrow> instant \<Rightarrow> int \<Rightarrow> arrived \<Rightarrow> node_state \<Rightarrow>
     (arrived \<times> published_write option) \<times> publication option \<times> node_state" where
  "publishing env p gate now wall a nd =
     (case a of
        ARouted w facts routing \<Rightarrow> published_of env p gate now wall a w facts routing nd
      | AUnroutable w facts routing _ \<Rightarrow> published_of env p gate now wall a w facts routing nd
      | ARefused _ \<Rightarrow> ((a, None), None, nd)
      | AFailed _ \<Rightarrow> ((a, None), None, nd))"

text \<open>\<open>carry\<close>: what became of the Stream, what was written of it, its Publication, and the node after it.\<close>

definition handing_on :: "('a, 'd) arrival_env \<Rightarrow> publisher \<Rightarrow> instant \<Rightarrow> arrived \<Rightarrow> published_write \<Rightarrow> node_state \<Rightarrow> node_state" where
  "handing_on env p now a out nd =
     (case a of
        ARouted w facts _ \<Rightarrow>
          nd\<lparr>nd_asked := nd_asked nd @ map h_queue (lu_holds (pd_lined out)),
             nd_send := send_handed (pu_config p) (pd_lined out) (pd_journeys out) (mg_id (wk_message w)) (ae_facts_record env facts)
               (pd_durable out) now (nd_send nd)\<rparr>
      | _ \<Rightarrow> nd\<lparr>nd_send := send_withdrawn (pd_lined out) (nd_send nd)\<rparr>)"

definition carry ::
  "('a, 'd) arrival_env \<Rightarrow> publisher \<Rightarrow> 'a receive_gate \<Rightarrow> received_stream \<Rightarrow> instant \<Rightarrow> int \<Rightarrow> node_state \<Rightarrow>
     carried \<times> stream_write list \<times> publication option \<times> node_state" where
  "carry env p gate received now wall nd =
     (case arrive env gate received wall (nd_ids nd) of
        (a, writes, n) \<Rightarrow>
          (case publishing env p gate now wall a (nd\<lparr>nd_ids := n\<rparr>) of
             ((a, None), pub, nd) \<Rightarrow> (\<lparr>ca_arrived = a, ca_held = 0, ca_journeys = []\<rparr>, writes, pub, nd)
           | ((a, Some out), pub, nd) \<Rightarrow>
               let nd = handing_on env p now a out nd in
               (case ae_wait env (pd_durable out) of
                  Some why \<Rightarrow> (\<lparr>ca_arrived = AFailed (NotDurable why), ca_held = 0, ca_journeys = []\<rparr>, writes, pub, nd)
                | None \<Rightarrow>
                    (\<lparr>ca_arrived = a, ca_held = length (hg_holds (pd_holding out)), ca_journeys = pd_journeys out\<rparr>, writes, pub,
                     nd\<lparr>nd_pickup := pickup_published (pd_holding out) (nd_pickup nd)\<rparr>))))"

section \<open>The tally\<close>

record tally =
  ta_received :: u64
  ta_routed :: u64
  ta_unroutable :: u64
  ta_held :: u64
  ta_refused :: u64
  ta_failed :: u64
  ta_sent :: u64
  ta_not_sent :: u64
  ta_failures :: "(string \<times> string) list"

definition tally_record :: "carried \<Rightarrow> tally \<Rightarrow> tally" where
  "tally_record c t =
     (let t = t\<lparr>ta_received := ta_received t + 1\<rparr>;
          t = (case ca_arrived c of
                 ARouted _ _ _ \<Rightarrow> t\<lparr>ta_routed := ta_routed t + 1\<rparr>
               | AUnroutable _ _ _ _ \<Rightarrow> t\<lparr>ta_unroutable := ta_unroutable t + 1\<rparr>
               | ARefused _ \<Rightarrow> t\<lparr>ta_refused := ta_refused t + 1\<rparr>
               | AFailed _ \<Rightarrow> t\<lparr>ta_failed := ta_failed t + 1\<rparr>) in
      t\<lparr>ta_held := ta_held t + of_nat (ca_held c)\<rparr>)"

definition tally_sent :: "tally \<Rightarrow> tally" where "tally_sent t = t\<lparr>ta_sent := ta_sent t + 1\<rparr>"

definition tally_not_sent :: "tally \<Rightarrow> tally" where "tally_not_sent t = t\<lparr>ta_not_sent := ta_not_sent t + 1\<rparr>"

definition tally_fail :: "string \<Rightarrow> string \<Rightarrow> tally \<Rightarrow> tally" where
  "tally_fail location why t = t\<lparr>ta_failures := ta_failures t @ [(location, why)]\<rparr>"

section \<open>Nothing is kept of a sender not permitted\<close>

definition transport_passed :: "('a, 'd) arrival_env \<Rightarrow> 'a receive_gate \<Rightarrow> received_stream \<Rightarrow> int \<Rightarrow> auth_identity \<Rightarrow> arrival_facts \<Rightarrow> bool" where
  "transport_passed env gate received now i facts \<longleftrightarrow>
     (\<exists>claims. ae_identify_transport env (sm_arriving received) (sm_source received) (sm_observed received) = Inr claims \<and>
        ae_authenticate env (rg_accept gate) (transport_claim env received claims) = Inr i \<and>
        facts = (ae_evaluate env (ip_alignment (rg_identity gate)) (i\<lparr>ai_at := now\<rparr>) None)
          \<lparr>fa_unchecked := transport_unchecked received claims\<rparr> \<and>
        dc_allowed (permitted env gate now facts))"

definition message_passed :: "('a, 'd) arrival_env \<Rightarrow> 'a receive_gate \<Rightarrow> int \<Rightarrow> ident \<Rightarrow> arrival_facts \<Rightarrow> bool" where
  "message_passed env gate now i facts \<longleftrightarrow>
     (\<exists>m claims. mg_id m = i \<and> ae_identify_message env m = Inr claims \<and>
        (case filter (\<lambda>c. cd_layer c = MessageLayer) claims of
           [] \<Rightarrow> fa_message facts = None
         | c # _ \<Rightarrow> \<exists>k. ae_authenticate env (rg_accept gate) c = Inr k \<and> fa_message facts = Some (k\<lparr>ai_at := now\<rparr>) \<and>
             dc_allowed (permitted env gate now facts)))"

fun arrived_work :: "arrived \<Rightarrow> (work \<times> arrival_facts) option" where
  "arrived_work (ARouted w facts _) = Some (w, facts)"
| "arrived_work (AUnroutable w facts _ _) = Some (w, facts)"
| "arrived_work _ = None"

text \<open>What is relied on of the facts' evaluation: it records the two layers it is handed.\<close>

definition facts_recorded :: "('a, 'd) arrival_env \<Rightarrow> bool" where
  "facts_recorded env \<longleftrightarrow>
     (\<forall>rule t m. fa_transport (ae_evaluate env rule t m) = t \<and> fa_message (ae_evaluate env rule t m) = m)"

lemma settle_passed:
  assumes "settle_message_identity env gate facts m received now = Inr (facts', m')" and "facts_recorded env" and "fa_message facts = None"
  shows "message_passed env gate now (mg_id m') facts' \<and> fa_transport facts' = fa_transport facts \<and>
    mg_id m' = mg_id m \<and> mg_first m' = mg_first m"
proof -
  obtain claims where c: "ae_identify_message env m = Inr claims"
    using assms(1) by (cases "ae_identify_message env m") (simp_all add: settle_message_identity_def)
  show ?thesis
  proof (cases "filter (\<lambda>c. cd_layer c = MessageLayer) claims")
    case Nil
    with assms c have "m' = m" "facts' = facts\<lparr>fa_unchecked := fa_unchecked facts @ map unchecked_of (filter (\<lambda>c. cd_layer c \<noteq> MessageLayer) claims)\<rparr>"
      by (simp_all add: settle_message_identity_def Let_def)
    with c Nil assms(3) show ?thesis unfolding message_passed_def by (auto intro!: exI [of _ m])
  next
    case (Cons x rest)
    then obtain k where k: "ae_authenticate env (rg_accept gate) x = Inr k"
      using assms(1) c by (cases "ae_authenticate env (rg_accept gate) x") (simp_all add: settle_message_identity_def Let_def)
    with assms(1) c Cons have "dc_allowed (permitted env gate now facts')" "mg_id m' = mg_id m" "mg_first m' = mg_first m"
      "fa_transport facts' = fa_transport facts" "fa_message facts' = Some (k\<lparr>ai_at := now\<rparr>)"
      using assms(2) by (auto simp: settle_message_identity_def Let_def message_received_def facts_recorded_def split: if_splits)
    with c Cons k show ?thesis unfolding message_passed_def by (auto intro!: exI [of _ m])
  qed
qed

lemma arrive_message_passed:
  assumes "arrive_message env gate received now facts m n = (a, n')" and "facts_recorded env" and "fa_message facts = None"
    and "arrived_work a = Some (w, facts')"
  shows "message_passed env gate now (mg_id (wk_message w)) facts' \<and> fa_transport facts' = fa_transport facts \<and>
    mg_first (wk_message w) = mg_first m"
proof -
  obtain m' where s: "settle_message_identity env gate facts m received now = Inr (facts', m')" and w: "wk_message w = m'"
    using assms(1,4) by (auto simp: arrive_message_def Let_def split: sum.splits option.splits prod.splits if_splits)
  from settle_passed [OF s assms(2,3)] show ?thesis unfolding w by blast
qed

lemma arrive_cases [consumes 1, case_names stopped failed written]:
  assumes "arrive env gate received now n = (a, writes, n')"
  obtains why where "a = ARefused why" "writes = []" "n' = n"
  | i facts why where "transport_passed env gate received now i facts" "a = AFailed (NotWritten why)"
  | i facts k m n1 where "transport_passed env gate received now i facts"
      "write_stream (ae_digest env) (ae_refuses env) (ae_ids env n) (sm_body received) (ae_chunk env) = (writes, Inr k)"
      "fst (mg_first m) = ae_ids env n" "arrive_message env gate received now facts m n1 = (a, n')"
proof (cases "ae_identify_transport env (sm_arriving received) (sm_source received) (sm_observed received)")
  case (Inl why)
  with assms show ?thesis by (intro that(1) [of "RIdentification why"]) (simp_all add: arrive_def)
next
  case claims: (Inr claims)
  let ?c = "transport_claim env received claims"
  show ?thesis
  proof (cases "ae_authenticate env (rg_accept gate) ?c")
    case (Inl why)
    with assms claims show ?thesis
      by (intro that(1) [of "RAuthentication why (ae_without_proof env ?c)"]) (simp_all add: arrive_def Let_def)
  next
    case i: (Inr i)
    define facts where "facts = (ae_evaluate env (ip_alignment (rg_identity gate)) (i\<lparr>ai_at := now\<rparr>) None)
      \<lparr>fa_unchecked := transport_unchecked received claims\<rparr>"
    note run = assms [unfolded arrive_def claims sum.case Let_def i, folded facts_def]
    show ?thesis
    proof (cases "dc_allowed (permitted env gate now facts)")
      case False
      with run show ?thesis by (intro that(1) [of "RAuthorization (permitted env gate now facts)"]) simp_all
    next
      case True
      with claims i have passed: "transport_passed env gate received now i facts" by (simp add: transport_passed_def facts_def)
      obtain ws k where w: "write_stream (ae_digest env) (ae_refuses env) (ae_ids env n) (sm_body received) (ae_chunk env) = (ws, k)"
        by fastforce
      show ?thesis
      proof (cases k)
        case (Inl why)
        with run True w show ?thesis by (intro that(2) [OF passed, of why]) simp_all
      next
        case (Inr kept)
        let ?m = "message_received (ae_ids env (n + 1)) (ae_ids env (n + 2)) (ae_ids env n, unat (kp_length kept)) (promote_identity env facts received)"
        obtain a1 n1 where m: "arrive_message env gate received now facts ?m (n + 3) = (a1, n1)" by fastforce
        have "a = a1" "writes = ws" "n' = n1" using run True w Inr m by simp_all
        with m w Inr show ?thesis by (intro that(3) [OF passed, of kept ?m "n + 3"]) (simp_all add: message_received_def)
      qed
    qed
  qed
qed

text \<open>C2: nothing of a Stream is kept, and it is refused, unless its sender was identified, authenticated against the
  Location's closed set and permitted to post there; a Message is only routed or kept unrouted with the
  whole Stream taken by the Ledger, its facts recording that identity, and every claim of the message
  layer, where it carried one, authenticated against the same set and permitted.\<close>

theorem nothing_kept_unpermitted:
  assumes "facts_recorded env" and "digest_streams (ae_digest env)" and "arrive env gate received now n = (a, writes, n')"
  shows "(\<exists>why. a = ARefused why \<and> writes = []) \<or>
    (\<exists>i facts. transport_passed env gate received now i facts \<and>
      (\<forall>w facts'. arrived_work a = Some (w, facts') \<longrightarrow>
         fa_transport facts' = i\<lparr>ai_at := now\<rparr> \<and> message_passed env gate now (mg_id (wk_message w)) facts' \<and>
         fst (mg_first (wk_message w)) = ae_ids env n \<and>
         list_all (\<lambda>x. ae_refuses env x = None) writes \<and> concat (map written_bytes writes) = rd_bytes (sm_body received)))"
  using assms(3)
proof (cases rule: arrive_cases)
  case (failed i facts why)
  then show ?thesis by (intro disjI2 exI [of _ i] exI [of _ facts]) simp
next
  case (written i facts k m n1)
  have f: "fa_message facts = None" "fa_transport facts = i\<lparr>ai_at := now\<rparr>"
    using written(1) assms(1) by (auto simp: transport_passed_def facts_recorded_def)
  show ?thesis
  proof (intro disjI2 exI [of _ i] exI [of _ facts] conjI allI impI written(1))
    fix w facts'
    assume "arrived_work a = Some (w, facts')"
    note arrive_message_passed [OF written(4) assms(1) f(1) this]
    then show "fa_transport facts' = i\<lparr>ai_at := now\<rparr>" "message_passed env gate now (mg_id (wk_message w)) facts'"
      "fst (mg_first (wk_message w)) = ae_ids env n" using f(2) written(3) by simp_all
  qed (use written_whole [OF assms(2) written(2)] in simp_all)
qed simp

section \<open>Only what is durable is acknowledged\<close>

lemma reaches_some: "reaches name destination pk \<noteq> []"
  by (simp add: reaches_def Let_def)

lemma ways_none: "ways pk routing = [] \<longleftrightarrow> \<not> list_ex ev_matched routing"
  by (auto simp: ways_def reaches_some list_ex_iff filter_empty_conv)

definition routing_of :: "arrived \<Rightarrow> evaluation list" where
  "routing_of a = (case a of ARouted _ _ routing \<Rightarrow> routing | AUnroutable _ _ routing _ \<Rightarrow> routing | _ \<Rightarrow> [])"

lemma arrive_message_routed:
  "arrive_message env gate received now facts m n = (a, n') \<Longrightarrow> arrived_work a \<noteq> None \<Longrightarrow> ae_routed env (routing_of a) \<longleftrightarrow> \<not> retains a"
  by (auto simp: arrive_message_def routing_of_def retains_def Let_def split: sum.splits prod.splits option.splits if_splits)

lemma arrive_routed:
  assumes "arrive env gate received now n = (a, writes, n')" and "arrived_work a \<noteq> None"
  shows "ae_routed env (routing_of a) \<longleftrightarrow> \<not> retains a"
  using assms(1)
  by (cases rule: arrive_cases) (use assms(2) in \<open>auto dest: arrive_message_routed\<close>)

lemma journeys_named_promote [simp]: "journeys_named (p\<lparr>pu_promote := f\<rparr>) = journeys_named p"
  by (simp add: journeys_named_def)

lemma publish_written:
  assumes "publish p now wall pk location (received, stream_places) m routing um body n st = (Inr out, pub, n', st')" and "journeys_named p"
  shows "\<exists>x answer. pub = Some x \<and> pu_publish p x = Inr answer \<and> pd_durable out = snd answer \<and> pd_journeys out = pn_journeys x \<and>
    (pn_dead x = None \<longleftrightarrow> ways pk routing \<noteq> [])"
  using assms
proof (cases rule: publish_cases)
  case (taken os hs hg lined dead n2 n3 st1 answer lined')
  have "length os = length (ways pk routing)" using arg_cong [OF taken(1), of length] by simp
  then have "os = [] \<longleftrightarrow> ways pk routing = []" by (metis length_0_conv)
  with taken disposed_facts(2) [OF taken(3)] show ?thesis
    by (intro exI [of _ "publication_of p location stream_places m os hs (hg, lined, dead) n3"] exI [of _ answer])
      (simp add: publication_of_def)
qed simp_all

lemma publish_unwritten:
  assumes "publish p now wall pk location (received, stream_places) m routing um body n st = (Inl e, pub, n', st')" and "journeys_named p"
  shows "st_owned st' = st_owned st \<and> st_admitted st' = st_admitted st"
  using assms
proof (cases rule: publish_cases)
  case (untaken os hs hg lined dead n2 n3 st1 why)
  with disposed_facts(5) [OF untaken(2)] show ?thesis by (simp add: send_withdrawn_def)
qed simp_all

lemma publishing_none:
  "arrived_work a = None \<Longrightarrow> publishing env p gate now wall a nd = ((a, None), None, nd)"
  by (cases a) (simp_all add: publishing_def)

lemma publishing_some:
  assumes "publishing env p gate now wall a nd = ((a', out), pub, nd')" and "arrived_work a = Some (w, facts)" and "journeys_named p"
  shows "nd_pickup nd' = nd_pickup nd \<and> nd_asked nd' = nd_asked nd \<and>
    (case out of
       None \<Rightarrow> (\<exists>why. a' = AFailed (NotPublished why)) \<and> st_owned (nd_send nd') = st_owned (nd_send nd) \<and>
         st_admitted (nd_send nd') = st_admitted (nd_send nd)
     | Some o1 \<Rightarrow> a' = a \<and> (\<exists>x answer. pub = Some x \<and> pu_publish p x = Inr answer \<and> pd_durable o1 = snd answer \<and>
         pd_journeys o1 = pn_journeys x \<and> (pn_dead x = None \<longleftrightarrow> ways (nd_pickup nd) (routing_of a) \<noteq> [])))"
proof -
  have "(\<exists>routing. a = ARouted w facts routing) \<or> (\<exists>routing promoted. a = AUnroutable w facts routing promoted)"
    using assms(2) by (cases a) simp_all
  then have run: "published_of env p gate now wall a w facts (routing_of a) nd = ((a', out), pub, nd')"
    using assms(1) by (elim disjE exE) (simp_all add: publishing_def routing_of_def)
  let ?m = "wk_message w"
  let ?p = "p\<lparr>pu_promote := (\<lambda>_. ae_promote env ?m)\<rparr>"
  show ?thesis
  proof (cases "received_of (pu_named p) (pu_cluster p) (rg_location gate) (rg_port gate) (rg_points gate) (ae_promote env ?m) (mg_id ?m)")
    case (Inl why)
    with run show ?thesis by (auto simp: published_of_def Let_def)
  next
    case (Inr b)
    obtain received places where b: "b = (received, places)" by (cases b)
    obtain r pub1 n st where pb: "publish ?p now wall (nd_pickup nd) (rg_location gate) (received, places) (message.truncate ?m)
        (routing_of a) (unmatched_of env a) (ae_facts_record env facts) (nd_ids nd) (nd_send nd) = (r, pub1, n, st)"
      by (metis prod.collapse)
    have nd': "nd' = nd\<lparr>nd_ids := n, nd_send := st\<rparr>" "pub = pub1"
      "a' = (case r of Inl why \<Rightarrow> AFailed (NotPublished why) | Inr _ \<Rightarrow> a)" "out = (case r of Inl _ \<Rightarrow> None | Inr o1 \<Rightarrow> Some o1)"
      using run Inr b pb by (auto simp: published_of_def Let_def split: sum.splits)
    show ?thesis
    proof (cases r)
      case (Inl why)
      with publish_unwritten [of ?p] pb assms(3) nd' show ?thesis by simp
    next
      case (Inr o1)
      with publish_written [of ?p] pb assms(3) have "\<exists>x answer. pub1 = Some x \<and> pu_publish p x = Inr answer \<and> pd_durable o1 = snd answer \<and>
          pd_journeys o1 = pn_journeys x \<and> (pn_dead x = None \<longleftrightarrow> ways (nd_pickup nd) (routing_of a) \<noteq> [])" by simp
      with nd' Inr show ?thesis by simp
    qed
  qed
qed

lemma handing_on_same [simp]:
  "nd_pickup (handing_on env p now a out nd) = nd_pickup nd"
  by (simp add: handing_on_def split: arrived.split)

lemma arrive_whole:
  assumes "arrive env gate received now n = (a, writes, n')" and "arrived_work a \<noteq> None" and "digest_streams (ae_digest env)"
  shows "list_all (\<lambda>x. ae_refuses env x = None) writes \<and> concat (map written_bytes writes) = rd_bytes (sm_body received)"
  using assms(1)
  by (cases rule: arrive_cases) (use assms(2,3) in \<open>auto dest: written_whole\<close>)

lemma no_work_cycle:
  "arrived_work a = None \<Longrightarrow> (\<exists>why. a = ARefused why) \<or> (\<exists>why. a = AFailed why)"
  by (cases a) simp_all

lemma work_cycle:
  "arrived_work a \<noteq> None \<Longrightarrow> cycle_of \<lparr>ca_arrived = a, ca_held = h, ca_journeys = js\<rparr> = CycleCompleted"
  by (cases a) (simp_all add: cycle_of_def)

text \<open>C1: the sender is acknowledged only where the whole Stream was taken by the Ledger and its Publication taken
  and durable, in the Dead Message Queue exactly where nothing matched; a refused Stream leaves the node as it
  was; and a cycle that failed tells the Subscriptions nothing, and either was published without becoming
  durable or holds nothing of the Send pool.\<close>

theorem acknowledged_only_durable:
  assumes "journeys_named p" and "digest_streams (ae_digest env)" and "\<forall>routing. ae_routed env routing \<longleftrightarrow> list_ex ev_matched routing"
    and "carry env p gate received now wall nd = (c, writes, pub, nd')"
  shows "case cycle_of c of
      CycleCompleted \<Rightarrow>
        list_all (\<lambda>x. ae_refuses env x = None) writes \<and> concat (map written_bytes writes) = rd_bytes (sm_body received) \<and>
        (\<exists>x answer. pub = Some x \<and> pu_publish p x = Inr answer \<and> ae_wait env (snd answer) = None \<and>
           ca_journeys c = pn_journeys x \<and> (pn_dead x = None \<longleftrightarrow> \<not> retains (ca_arrived c)))
    | CycleRefused \<Rightarrow> pub = None \<and> nd' = nd\<lparr>nd_ids := nd_ids nd'\<rparr> \<and> ca_journeys c = []
    | CycleFailed \<Rightarrow> nd_pickup nd' = nd_pickup nd \<and> ca_journeys c = [] \<and> ca_held c = 0 \<and>
        ((\<exists>x answer. pub = Some x \<and> pu_publish p x = Inr answer \<and> ae_wait env (snd answer) \<noteq> None) \<or>
         st_owned (nd_send nd') = st_owned (nd_send nd) \<and> st_admitted (nd_send nd') = st_admitted (nd_send nd))"
proof -
  obtain a ws n where arr: "arrive env gate received wall (nd_ids nd) = (a, ws, n)" by (metis prod.collapse)
  obtain a' out pub' nd1 where pb: "publishing env p gate now wall a (nd\<lparr>nd_ids := n\<rparr>) = ((a', out), pub', nd1)"
    by (metis prod.collapse)
  note run = assms(4) [unfolded carry_def arr prod.case pb]
  show ?thesis
  proof (cases "arrived_work a")
    case None
    from publishing_none [OF None, of env p gate now wall] pb have "a' = a" "out = None" "pub' = None" "nd1 = nd\<lparr>nd_ids := n\<rparr>" by simp_all
    with run have c: "c = \<lparr>ca_arrived = a, ca_held = 0, ca_journeys = []\<rparr>" "pub = None" "nd' = nd\<lparr>nd_ids := n\<rparr>" by simp_all
    from no_work_cycle [OF None] c show ?thesis by (elim disjE exE) (simp_all add: cycle_of_def)
  next
    case (Some wf)
    obtain w facts where wf: "arrived_work a = Some (w, facts)" using Some by (cases wf) simp
    note ps = publishing_some [OF pb wf assms(1)]
    show ?thesis
    proof (cases out)
      case None
      with run ps have c: "c = \<lparr>ca_arrived = a', ca_held = 0, ca_journeys = []\<rparr>" "nd' = nd1" by simp_all
      obtain why where "a' = AFailed (NotPublished why)" using ps None by auto
      with c ps None show ?thesis by (simp add: cycle_of_def)
    next
      case (Some o1)
      from ps Some have a': "a' = a" and "\<exists>x answer. pub' = Some x \<and> pu_publish p x = Inr answer \<and> pd_durable o1 = snd answer \<and>
        pd_journeys o1 = pn_journeys x \<and> (pn_dead x = None \<longleftrightarrow> ways (nd_pickup nd) (routing_of a) \<noteq> [])" by simp_all
      then obtain x answer where x: "pub' = Some x" "pu_publish p x = Inr answer" "pd_durable o1 = snd answer"
        "pd_journeys o1 = pn_journeys x" "pn_dead x = None \<longleftrightarrow> ways (nd_pickup nd) (routing_of a) \<noteq> []" by (elim exE conjE)
      show ?thesis
      proof (cases "ae_wait env (pd_durable o1)")
        case (Some why)
        with run \<open>out = Some o1\<close> ps x show ?thesis by (auto simp: Let_def cycle_of_def)
      next
        case None
        have c: "c = \<lparr>ca_arrived = a, ca_held = length (hg_holds (pd_holding o1)), ca_journeys = pn_journeys x\<rparr>" "pub = Some x" "writes = ws"
          using run \<open>out = Some o1\<close> None x a' by (auto simp: Let_def)
        have "pn_dead x = None \<longleftrightarrow> \<not> retains a"
          using arrive_routed [OF arr] wf x(5) assms(3) by (simp add: ways_none)
        moreover have "cycle_of c = CycleCompleted" unfolding c(1) by (rule work_cycle) (simp add: wf)
        moreover have "ae_wait env (snd answer) = None" using None x(3) by simp
        ultimately have "\<exists>x answer. pub = Some x \<and> pu_publish p x = Inr answer \<and> ae_wait env (snd answer) = None \<and>
            ca_journeys c = pn_journeys x \<and> (pn_dead x = None \<longleftrightarrow> \<not> retains (ca_arrived c))"
          using x(2) c(1,2) by (intro exI [of _ x] exI [of _ answer]) simp
        then show ?thesis using arrive_whole [OF arr _ assms(2)] wf c(3) \<open>cycle_of c = CycleCompleted\<close> by simp
      qed
    qed
  qed
qed

section \<open>The tally accounts for every Stream\<close>

inductive tally_step :: "tally \<Rightarrow> tally \<Rightarrow> bool" where
  "tally_step t (tally_record c t)"
| "tally_step t (tally_sent t)"
| "tally_step t (tally_not_sent t)"
| "tally_step t (tally_fail location why t)"

definition tally_start :: "tally \<Rightarrow> bool" where
  "tally_start t \<longleftrightarrow> t = \<lparr>ta_received = 0, ta_routed = 0, ta_unroutable = 0, ta_held = 0, ta_refused = 0, ta_failed = 0,
     ta_sent = 0, ta_not_sent = 0, ta_failures = []\<rparr>"

definition tally_balances :: "tally \<Rightarrow> bool" where
  "tally_balances t \<longleftrightarrow> ta_received t = ta_routed t + ta_unroutable t + ta_refused t + ta_failed t"

interpretation tallying: invariant_system tally_start tally_step tally_balances
proof
  show "tally_start t \<Longrightarrow> tally_balances t" for t by (simp add: tally_start_def tally_balances_def)
  show "tally_balances t \<Longrightarrow> tally_step t u \<Longrightarrow> tally_balances u" for t u
    by (erule tally_step.cases)
      (simp_all add: tally_balances_def tally_record_def tally_sent_def tally_not_sent_def tally_fail_def Let_def split: arrived.split)
qed

text \<open>The counts a node keeps add up, wrapping as its 64-bit counters do: every Stream received is routed,
  unroutable, refused or failed.\<close>

theorem tally_accounts: "reach tally_start tally_step t \<Longrightarrow> ta_received t = ta_routed t + ta_unroutable t + ta_refused t + ta_failed t"
  using tallying.reach_inv [unfolded tally_balances_def] by blast

section \<open>A Stream carried\<close>

definition sample_identity :: auth_identity where
  "sample_identity = \<lparr>is_verified = ''proven'', is_mechanism = ''x'', is_value = ''v'', ai_class = ''c'', ai_proven = True,
     ai_established = ''t'', ai_at = 0\<rparr>"

definition sample_claim :: "layer \<Rightarrow> string \<Rightarrow> presented" where
  "sample_claim l v = \<lparr>cd_mechanism = ''x'', cd_value = v, cd_established = ''t'', cd_layer = l, cd_proof = None, cd_evidence = []\<rparr>"

definition sample_env :: "(unit, string) arrival_env" where
  "sample_env = \<lparr>ae_identify_transport = (\<lambda>_ _ _. Inr []), ae_inferred = sample_claim TransportLayer, ae_without_proof = id,
     ae_authenticate = (\<lambda>_ _. Inr sample_identity),
     ae_evaluate = (\<lambda>rule t m. \<lparr>fa_transport = t, fa_message = m, fa_alignment = ''aligned'', fa_misaligned = False, fa_party = None,
       fa_unchecked = []\<rparr>),
     ae_authorize = (\<lambda>_ _ _ _ _. \<lparr>dc_allowed = True, dc_said = []\<rparr>), ae_kept_names = [], ae_party_name = ''party'',
     ae_identify_message = (\<lambda>_. Inr [sample_claim MessageLayer ''m'']), ae_promote = (\<lambda>_. Inr Map.empty), ae_unread = (\<lambda>_. None),
     ae_route = (\<lambda>_ _. []), ae_routed = list_ex ev_matched, ae_names = (\<lambda>_. []), ae_facts_record = (\<lambda>_. []),
     ae_journey = (\<lambda>i held. bare_journey\<lparr>journey_id := i\<rparr>), ae_ids = (\<lambda>n. n), ae_digest = text_digest, ae_refuses = (\<lambda>_. None),
     ae_chunk = 2, ae_subscriptions = [], ae_wait = (\<lambda>_. None)\<rparr>"

definition sample_gate :: "unit receive_gate" where
  "sample_gate = \<lparr>rg_location = ''l'', rg_accept = (), rg_identity = \<lparr>ip_alignment = [], ip_on_misalignment = [], ip_minimum = []\<rparr>,
     rg_port = ''r'', rg_points = []\<rparr>"

definition sample_stream :: received_stream where
  "sample_stream = \<lparr>sm_arriving = ''pushed'', sm_source = ''s'', sm_observed = [], sm_headers = [], sm_presented = None,
     sm_body = \<lparr>rd_bytes = ''abc'', rd_fault = None\<rparr>\<rparr>"

lemma sample_env_laws: "facts_recorded sample_env" "digest_streams (ae_digest sample_env)"
  "\<forall>routing. ae_routed sample_env routing \<longleftrightarrow> list_ex ev_matched routing"
  by (simp_all add: facts_recorded_def sample_env_def digest_streams_def text_digest_def)

lemma sample_arrived: "arrived_work (fst (arrive sample_env sample_gate sample_stream 0 7)) \<noteq> None"
  "retains (fst (arrive sample_env sample_gate sample_stream 0 7))"
  by code_simp+

theorem nothing_kept_unpermitted_witness:
  "\<exists>a writes n' i facts. arrive sample_env sample_gate sample_stream 0 7 = (a, writes, n') \<and> arrived_work a \<noteq> None \<and>
     transport_passed sample_env sample_gate sample_stream 0 i facts \<and> concat (map written_bytes writes) = ''abc''"
proof -
  obtain a writes n' where run: "arrive sample_env sample_gate sample_stream 0 7 = (a, writes, n')" by (metis prod.collapse)
  have aw: "arrived_work a \<noteq> None" using sample_arrived(1) unfolding run by simp
  then obtain w facts' where w: "arrived_work a = Some (w, facts')" by auto
  have "\<nexists>why. a = ARefused why \<and> writes = []" using aw by auto
  with nothing_kept_unpermitted [OF sample_env_laws(1,2) run] obtain i facts where
    "transport_passed sample_env sample_gate sample_stream 0 i facts" "concat (map written_bytes writes) = rd_bytes (sm_body sample_stream)"
    using w by blast
  moreover have "rd_bytes (sm_body sample_stream) = ''abc''" by (simp add: sample_stream_def)
  ultimately show ?thesis using run aw by metis
qed

definition sample_node :: node_state where
  "sample_node = \<lparr>nd_send = send_new, nd_pickup = sample_pickup, nd_ids = 7, nd_asked = []\<rparr>"

lemma sample_published_unmatched:
  "arrived_work a = Some (w, facts) \<Longrightarrow> routing_of a = [] \<Longrightarrow>
   \<exists>out pub nd. publishing sample_env sample_publisher sample_gate 0 0 a (sample_node\<lparr>nd_ids := n\<rparr>) = ((a, Some out), pub, nd)"
proof -
  assume "arrived_work a = Some (w, facts)" and none: "routing_of a = []"
  then have "publishing sample_env sample_publisher sample_gate 0 0 a (sample_node\<lparr>nd_ids := n\<rparr>) =
      published_of sample_env sample_publisher sample_gate 0 0 a w facts [] (sample_node\<lparr>nd_ids := n\<rparr>)"
    by (cases a) (simp_all add: publishing_def routing_of_def)
  then show ?thesis
    by (simp add: published_of_def received_of_def publish_def opened_of_def ways_def send_places_of_def disposed_def
        sample_env_def sample_gate_def Let_def case_prod_unfold)
qed

theorem acknowledged_only_durable_witness:
  "\<exists>c writes pub nd' x. carry sample_env sample_publisher sample_gate sample_stream 0 0 sample_node = (c, writes, pub, nd') \<and>
     cycle_of c = CycleCompleted \<and> pub = Some x \<and> pn_dead x \<noteq> None"
proof -
  obtain a ws n where arr: "arrive sample_env sample_gate sample_stream 0 7 = (a, ws, n)" by (metis prod.collapse)
  obtain w facts where w: "arrived_work a = Some (w, facts)" using sample_arrived(1) unfolding arr by auto
  have "routing_of (fst (arrive sample_env sample_gate sample_stream 0 7)) = []" by code_simp
  then have "routing_of a = []" unfolding arr by simp
  from sample_published_unmatched [OF w this] obtain out pub nd1 where
    pb: "publishing sample_env sample_publisher sample_gate 0 0 a (sample_node\<lparr>nd_ids := n\<rparr>) = ((a, Some out), pub, nd1)" by blast
  obtain c writes pub' nd' where run: "carry sample_env sample_publisher sample_gate sample_stream 0 0 sample_node = (c, writes, pub', nd')"
    by (metis prod.collapse)
  have ca: "ca_arrived c = a"
    using run arr pb by (auto simp: carry_def sample_node_def Let_def sample_env_def split: option.splits)
  have completed: "cycle_of c = CycleCompleted"
    using work_cycle [of a "ca_held c" "ca_journeys c"] w ca by (simp add: cycle_of_def)
  have named: "journeys_named sample_publisher" by (simp add: journeys_named_def sample_publisher_def)
  have "retains a" using sample_arrived(2) unfolding arr by simp
  with acknowledged_only_durable [OF named sample_env_laws(2,3) run] ca completed obtain x where "pub' = Some x" "pn_dead x \<noteq> None"
    by (simp only: receive_cycle.case) blast
  with run completed show ?thesis by metis
qed

end
