(* ===== verification/Budget.thy ===== *)
theory Budget
  imports Prelude
begin

text \<open>
  \<open>src/budget.rs\<close>: what a node holds at once. A \<open>budget\<close> is a quantity of which at most
  \<open>most\<close> is held; \<open>hold\<close> and \<open>hold_up_to\<close> wait on the budget's own wake where there is no room,
  which the model says as \<open>None\<close>: the caller's guard is read again after a holder let go. A
  \<open>Held\<close> is its charge, and dropping it gives the charge back. The quantities are \<open>u64\<close> and
  their sums wrap; the invariant is therefore stated with the bound under which they do not,
  and the node's own budgets are proved to be within it.
\<close>

section \<open>A budget and its holds\<close>

record budget =
  most :: u64
  held :: u64

definition budget_new :: "u64 \<Rightarrow> budget" where [step_defs]:
  "budget_new m = \<lparr>most = max m 1, held = 0\<rparr>"

definition budget_hold :: "budget \<Rightarrow> u64 \<Rightarrow> (u64 \<times> budget) option" where [step_defs]:
  "budget_hold b charge =
     (let charge = min charge (most b) in
      if 0 < held b \<and> most b < held b + charge then None
      else Some (charge, b\<lparr>held := held b + charge\<rparr>))"

definition budget_hold_up_to :: "budget \<Rightarrow> u64 \<Rightarrow> (u64 \<times> budget) option" where [step_defs]:
  "budget_hold_up_to b wanted =
     (let wanted = max 1 (min wanted (most b)) in
      if most b \<le> held b then None
      else let charge = min wanted (most b - held b)
           in Some (charge, b\<lparr>held := held b + charge\<rparr>))"

definition budget_release :: "budget \<Rightarrow> u64 \<Rightarrow> budget" where [step_defs]:
  "budget_release b charge =
     (if charge = 0 then b else b\<lparr>held := u64_saturating_sub (held b) charge\<rparr>)"

text \<open>\<open>Held::split\<close>: the charge split off, and what the hold keeps.\<close>

definition held_split :: "u64 \<Rightarrow> u64 \<Rightarrow> u64 \<times> u64" where [step_defs]:
  "held_split own charge = (let charge = min charge own in (charge, own - charge))"

section \<open>A node's budgets\<close>

definition carry_chunks :: u64 where "carry_chunks = 8"

definition stream_chunks :: u64 where "stream_chunks = 6"

record node_budget =
  carries :: budget
  received :: budget
  sent :: budget
  chunk :: u64

text \<open>\<open>NodeBudget::of\<close>: the arguments are what it reads of \<open>Tuning\<close> \<^emph>\<open>on this machine\<close>
  (\<open>chunk()\<close>, \<open>node_receive().most\<close>, \<open>send().most\<close> and the two counts of chunks).\<close>

definition node_budget_of :: "u64 \<Rightarrow> u64 \<Rightarrow> u64 \<Rightarrow> u64 \<Rightarrow> u64 \<Rightarrow> node_budget" where
  "node_budget_of chunk_size node_most send_most receive_chunks send_chunks =
     \<lparr>carries = budget_new node_most,
      received = budget_new (node_most * receive_chunks * chunk_size),
      sent = budget_new (send_most * send_chunks * chunk_size),
      chunk = chunk_size\<rparr>"

definition node_carry :: "node_budget \<Rightarrow> u64" where
  "node_carry n = carry_chunks * chunk n"

definition node_send :: "node_budget \<Rightarrow> u64 \<Rightarrow> bool \<Rightarrow> u64" where
  "node_send n len gathered =
     (let reading = stream_chunks * min len (chunk n) in
      if gathered then u64_saturating_add len reading else reading)"

section \<open>Holders and the invariant\<close>

text \<open>The holders of one budget on all threads: each \<open>Held\<close> alive, by its charge. A step is one
  of the calls, atomic under the budget's lock.\<close>

type_synonym holders = "budget \<times> u64 list"

inductive budget_step :: "holders \<Rightarrow> holders \<Rightarrow> bool" where
  holds: "budget_hold b charge = Some (c, b') \<Longrightarrow> budget_step (b, hs) (b', hs @ [c])"
| holds_up_to: "budget_hold_up_to b wanted = Some (c, b') \<Longrightarrow> budget_step (b, hs) (b', hs @ [c])"
| splits: "i < length hs \<Longrightarrow> held_split (hs ! i) charge = (c, rest) \<Longrightarrow>
    budget_step (b, hs) (b, hs[i := rest] @ [c])"
| drops: "i < length hs \<Longrightarrow>
    budget_step (b, hs) (budget_release b (hs ! i), take i hs @ drop (Suc i) hs)"

inductive_cases budget_stepE: "budget_step s t"

definition budget_fits :: "u64 \<Rightarrow> bool" where
  "budget_fits m \<longleftrightarrow> m < 2 ^ 63"

definition budget_start :: "u64 \<Rightarrow> holders \<Rightarrow> bool" where
  "budget_start m s \<longleftrightarrow> budget_fits m \<and> s = (budget_new m, [])"

definition holds_inv :: "u64 \<Rightarrow> holders \<Rightarrow> bool" where [inv_defs]:
  "holds_inv m s \<longleftrightarrow> (case s of (b, hs) \<Rightarrow>
     most b = max m 1 \<and> unat (held b) = sum_list (map unat hs) \<and> held b \<le> most b)"

lemma budget_fits_nat: "budget_fits m \<longleftrightarrow> unat m < 2 ^ 63"
  by (simp add: budget_fits_def word_less_nat_alt)

lemma max_1_fits: "budget_fits m \<Longrightarrow> budget_fits (max m 1)"
  by (auto simp: max_def budget_fits_def)

lemma hold_sum:
  "unat (held b + min charge (most b)) = unat (held b) + min (unat charge) (unat (most b))"
  if "budget_fits (most b)" "held b \<le> most b"
  using that by (subst unat_add_no_wrap) (auto simp: budget_fits_nat word_nat)

lemma hold_cases:
  assumes "budget_fits (most b)" and "held b \<le> most b"
  shows "budget_hold b charge =
     (let c = min charge (most b) in
      if 0 < unat (held b) \<and> unat (most b) < unat (held b) + unat c then None
      else Some (c, b\<lparr>held := held b + c\<rparr>))"
  using hold_sum [OF assms] by (simp add: step_defs Let_def word_nat)

lemma hold_keeps:
  assumes "budget_hold b charge = Some (c, b')" and "budget_fits (most b)" and "held b \<le> most b"
  shows "most b' = most b \<and> unat (held b') = unat (held b) + unat c \<and> held b' \<le> most b"
  using assms hold_sum [OF assms(2,3)]
  by (auto simp: hold_cases [OF assms(2,3)] Let_def word_nat split: if_splits)

lemma hold_up_to_charge:
  assumes "budget_hold_up_to b wanted = Some (c, b')" and "most b \<ge> 1"
  shows "held b < most b" and "most b' = most b" and "unat (held b') = unat (held b) + unat c"
    and "unat c = min (max 1 (unat wanted)) (unat (most b) - unat (held b))"
    and "held b' \<le> most b"
proof -
  from assms show lt: "held b < most b"
    by (auto simp: step_defs Let_def split: if_splits)
  from assms lt have c: "c = min (max 1 (min wanted (most b))) (most b - held b)"
    and b': "b' = b\<lparr>held := held b + c\<rparr>"
    by (auto simp: step_defs Let_def split: if_splits)
  from b' show "most b' = most b" by simp
  have sub: "unat (most b - held b) = unat (most b) - unat (held b)"
    using lt by (simp add: unat_sub_if' word_nat)
  show u: "unat c = min (max 1 (unat wanted)) (unat (most b) - unat (held b))"
    using assms(2) unfolding c by (auto simp: word_nat sub min_def max_def)
  have "unat (held b + c) = unat (held b) + unat c"
    using u lt unat_u64_less [of "most b"] by (subst unat_add_no_wrap) (auto simp: word_nat)
  with b' show h: "unat (held b') = unat (held b) + unat c" by simp
  with u lt show "held b' \<le> most b" by (auto simp: word_nat)
qed

lemma split_sum:
  "held_split own charge = (c, rest) \<Longrightarrow> unat own = unat c + unat rest"
  by (auto simp: step_defs Let_def word_nat unat_sub_if' min_def)

lemma release_held: "unat (held (budget_release b c)) = unat (held b) - unat c"
  and release_most [simp]: "most (budget_release b c) = most b"
  by (simp_all add: step_defs)

interpretation budgets: invariant_system "budget_start m" budget_step
  "\<lambda>s. budget_fits m \<and> holds_inv m s" for m
proof
  show "budget_start m s \<Longrightarrow> budget_fits m \<and> holds_inv m s" for s
    by (auto simp: budget_start_def inv_defs step_defs)
next
  fix s t
  assume inv: "budget_fits m \<and> holds_inv m s" and "budget_step s t"
  from this(2) have "holds_inv m t"
  proof (cases rule: budget_step.cases)
    case (holds b charge c b' hs)
    then show ?thesis using inv hold_keeps [of b charge c b'] max_1_fits [of m]
      by (auto simp: inv_defs)
  next
    case (holds_up_to b wanted c b' hs)
    then show ?thesis using inv hold_up_to_charge(2,3,5) [of b wanted c b']
      by (auto simp: inv_defs)
  next
    case (splits i hs charge c rest b)
    then show ?thesis
      using inv split_sum [of "hs ! i" charge c rest] sum_list_update_nat [of i "map unat hs" "unat rest"]
      by (auto simp: inv_defs map_update)
  next
    case (drops i hs b)
    then show ?thesis using inv sum_list_drop_nth [of i "map unat hs"]
      by (auto simp: inv_defs take_map drop_map release_held word_nat)
  qed
  with inv show "budget_fits m \<and> holds_inv m t" by simp
qed

text \<open>The places a receive asks for (\<open>hold_up_to\<close>, where there is room) and gives back, as the
  \<open>places\<close> contract: lending counts in whole charges of the budget.\<close>

definition budget_lend :: "nat \<Rightarrow> budget \<Rightarrow> nat \<times> budget" where
  "budget_lend n b =
     (if n = 0 then (0, b)
      else case budget_hold_up_to b (of_nat (min n (2 ^ 64 - 1))) of
             None \<Rightarrow> (0, b) | Some (c, b') \<Rightarrow> (unat c, b'))"

lemma budget_lend_cases:
  assumes "budget_lend n b = (k, b')" and "1 \<le> most b" and "held b \<le> most b"
  shows "most b' = most b \<and> unat (held b') = unat (held b) + k \<and>
    k = min n (unat (most b) - unat (held b))"
proof (cases "n = 0 \<or> budget_hold_up_to b (of_nat (min n (2 ^ 64 - 1))) = None")
  case True
  with assms show ?thesis
    by (auto simp: budget_lend_def step_defs Let_def word_nat split: if_splits)
next
  case False
  then obtain c b1 where h: "budget_hold_up_to b (of_nat (min n (2 ^ 64 - 1))) = Some (c, b1)"
    by auto
  have w: "unat (of_nat (min n (2 ^ 64 - 1)) :: u64) = min n (2 ^ 64 - 1)"
    by (simp add: unat_of_nat)
  have "unat (most b) < 2 ^ 64" using unat_u64_less [of "most b"] by simp
  with h False assms w hold_up_to_charge [OF h assms(2)] show ?thesis
    by (auto simp: budget_lend_def max_def)
qed

interpretation carry_places: places
  "\<lambda>b. 1 \<le> most b \<and> held b \<le> most b" "\<lambda>b. unat (most b)" "\<lambda>b. unat (held b)"
  budget_lend "\<lambda>k b. budget_release b (of_nat k)"
proof
  fix s :: budget and k assume "1 \<le> most s \<and> held s \<le> most s" and "k \<le> unat (held s)"
  moreover from this have "unat (of_nat k :: u64) = k"
    using unat_u64_less [of "held s"] by (simp add: unat_of_nat)
  ultimately show "(1 \<le> most (budget_release s (of_nat k)) \<and>
      held (budget_release s (of_nat k)) \<le> most (budget_release s (of_nat k))) \<and>
      unat (most (budget_release s (of_nat k))) = unat (most s) \<and>
      unat (held (budget_release s (of_nat k))) = unat (held s) - k"
    by (auto simp: release_held word_nat)
qed (auto simp: word_nat dest: budget_lend_cases [unfolded word_nat, simplified])

section \<open>Properties\<close>

text \<open>C13: on every thread interleaving, what the holders of a budget hold adds up to what it says
  is held, and is never more than its most.\<close>

theorem budget_never_exceeded:
  assumes "reach (budget_start m) budget_step (b, hs)"
  shows "unat (held b) = sum_list (map unat hs) \<and> sum_list (map unat hs) \<le> max (unat m) 1"
  using budgets.reach_inv [OF assms] by (auto simp: inv_defs word_nat)

theorem budget_never_exceeded_witness:
  "sum_list (map unat [3, 7 :: u64]) \<le> max (unat (10 :: u64)) 1"
proof -
  have "reach (budget_start 10) budget_step (budget_new 10, [])"
    by (rule reach_init) (simp add: budget_start_def budget_fits_def)
  then have "reach (budget_start 10) budget_step (\<lparr>most = 10, held = 3\<rparr>, [] @ [3])"
    by (rule reach_step) (rule budget_step.holds [of _ 3], simp add: step_defs max_def min_def word_le_nat_alt)
  then have "reach (budget_start 10) budget_step (\<lparr>most = 10, held = 10\<rparr>, ([] @ [3]) @ [7])"
    by (rule reach_step) (rule budget_step.holds_up_to [of _ 8], simp add: step_defs max_def min_def word_le_nat_alt)
  from budget_never_exceeded [OF this] show ?thesis by simp
qed

text \<open>A hold is granted exactly where the budget is empty or has room for the whole charge; a
  charge above the whole budget is cut to it, so it goes once it is alone, and then holds all of
  it: nothing is too large to go.\<close>

theorem budget_hold_granted:
  assumes "reach (budget_start m) budget_step (b, hs)"
  shows "budget_hold b charge =
     (let c = min charge (most b) in
      if held b = 0 \<or> unat (held b) + unat c \<le> unat (most b)
      then Some (c, b\<lparr>held := held b + c\<rparr>) else None)
   \<and> (most b \<le> charge \<longrightarrow> (budget_hold b charge \<noteq> None \<longleftrightarrow> held b = 0))"
proof -
  from budgets.reach_inv [OF assms] have fits: "budget_fits (most b)" "held b \<le> most b"
    using max_1_fits [of m] by (auto simp: inv_defs)
  have pos: "0 < unat (held b) \<longleftrightarrow> held b \<noteq> 0" by (simp add: unat_gt_0)
  have alone: "most b \<le> charge \<Longrightarrow> min charge (most b) = most b" by (simp add: min_def)
  show ?thesis
    by (auto simp: hold_cases [OF fits] Let_def pos alone not_less dest: leD)
qed

theorem budget_hold_granted_witness:
  "budget_hold \<lparr>most = 10, held = 3\<rparr> 1000 = None"
proof -
  have "reach (budget_start 10) budget_step (budget_new 10, [])"
    by (rule reach_init) (simp add: budget_start_def budget_fits_def)
  then have "reach (budget_start 10) budget_step (\<lparr>most = 10, held = 3\<rparr>, [] @ [3])"
    by (rule reach_step)
      (rule budget_step.holds [of _ 3], simp add: step_defs max_def min_def word_le_nat_alt)
  from budget_hold_granted [OF this, of 1000] show ?thesis by (simp add: word_le_nat_alt)
qed

text \<open>\<open>hold_up_to\<close> waits exactly while the budget is full, and otherwise lends at least one
  place and at most what was wanted and what there is room for.\<close>

theorem budget_hold_up_to_lends:
  assumes "1 \<le> most b" and "held b \<le> most b"
  shows "(budget_hold_up_to b wanted = None \<longleftrightarrow> held b = most b)
   \<and> (\<forall>c b'. budget_hold_up_to b wanted = Some (c, b') \<longrightarrow>
        1 \<le> unat c \<and> unat c \<le> max 1 (unat wanted) \<and> unat c \<le> unat (most b) - unat (held b)
        \<and> unat (held b') = unat (held b) + unat c)"
proof -
  have full: "budget_hold_up_to b wanted = None \<longleftrightarrow> held b = most b"
    using assms by (auto simp: step_defs Let_def)
  { fix c b' assume h: "budget_hold_up_to b wanted = Some (c, b')"
    note hold_up_to_charge(1,3,4) [OF h assms(1)]
    then have "1 \<le> unat c \<and> unat c \<le> max 1 (unat wanted) \<and>
        unat c \<le> unat (most b) - unat (held b) \<and> unat (held b') = unat (held b) + unat c"
      by (simp add: word_less_nat_alt) }
  with full show ?thesis by blast
qed

theorem budget_hold_up_to_lends_witness:
  "budget_hold_up_to \<lparr>most = 5, held = 5\<rparr> 8 = None \<and>
   budget_hold_up_to \<lparr>most = 5, held = 3\<rparr> 8 \<noteq> None"
  using budget_hold_up_to_lends [of "\<lparr>most = 5, held = 5\<rparr>" 8]
    budget_hold_up_to_lends [of "\<lparr>most = 5, held = 3\<rparr>" 8]
  by (simp add: word_le_nat_alt)

text \<open>What a send holds of the byte budget is the whole Message only where its transport
  gathers it; one that streams holds six chunks at most, whatever the Message's length, and no
  charge wraps where six chunks fit a word.\<close>

theorem node_send_charge:
  assumes "6 * unat (chunk n) < 2 ^ 64"
  shows "unat (node_send n len False) = 6 * min (unat len) (unat (chunk n))
   \<and> unat (node_send n len True) = min (unat len + 6 * min (unat len) (unat (chunk n))) (2 ^ 64 - 1)"
proof -
  have "unat (stream_chunks * min len (chunk n)) = 6 * min (unat len) (unat (chunk n))"
    using assms by (simp add: stream_chunks_def unat_word_ariths word_nat min_def)
  then show ?thesis by (simp add: node_send_def Let_def unat_u64_saturating_add)
qed

theorem node_send_charge_witness:
  "unat (node_send (node_budget_of 65536 8 4 8 16) 1073741824 False) = 393216"
  using node_send_charge [of "node_budget_of 65536 8 4 8 16" 1073741824]
  by (simp add: node_budget_of_def)

end
