(* ===== verification/Receiving.thy ===== *)
theory Receiving
  imports Arrival Budget
begin

text \<open>
  \<open>src/receiving.rs\<close> with \<open>turn.rs\<close>, \<open>telling.rs\<close>, \<open>drain.rs\<close>, \<open>pace.rs\<close>, \<open>refusal.rs\<close> and \<open>watched.rs\<close> under it,
  and \<open>src/stopping.rs\<close>: a Receive Location's serve. The transport is asked for as many arrivals as there is room
  for, each is carried on a thread of the pool, its far end is told the cycle's verdict - in the order they came
  where its transport is ordered - and what became of it is settled. The serving thread and the carrying threads
  are an interleaving; a carry, or a telling, may panic wherever it runs. The clock's readings and the
  transport's answers are arguments.
\<close>

section \<open>What a far end is told\<close>

datatype refusal_kind = Unidentified | Forbidden | Unacceptable

datatype verdict = VAccepted | VRefused refusal_kind | VFailed

definition refusal_of :: "arrived \<Rightarrow> refusal_kind" where
  "refusal_of a =
     (case a of
        ARefused (RIdentification _) \<Rightarrow> Unidentified
      | ARefused (RAuthentication _ _) \<Rightarrow> Unidentified
      | ARefused (RAuthorization _) \<Rightarrow> Forbidden
      | _ \<Rightarrow> Unacceptable)"

definition verdict_of :: "carried \<Rightarrow> verdict" where
  "verdict_of c =
     (case cycle_of c of
        CycleCompleted \<Rightarrow> VAccepted
      | CycleRefused \<Rightarrow> VRefused (refusal_of (ca_arrived c))
      | CycleFailed \<Rightarrow> VFailed)"

fun layer_prefix :: "layer \<Rightarrow> string" where
  "layer_prefix TransportLayer = ''xmip.transport''"
| "layer_prefix MessageLayer = ''xmip.message''"

definition claimed_of :: "presented \<Rightarrow> (string \<times> string) list" where
  "claimed_of p =
     (let prefix = layer_prefix (cd_layer p) in
      [(prefix @ ''.established'', cd_established p), (prefix @ ''.identity'', cd_value p), (prefix @ ''.mechanism'', cd_mechanism p)])"

text \<open>\<open>audit_refused\<close>: the words of a refusal are the gate's.\<close>

definition audit_refused :: "(refused \<Rightarrow> string) \<Rightarrow> string \<Rightarrow> bool \<Rightarrow> carried \<Rightarrow> (string \<times> (string \<times> string) list) option" where
  "audit_refused words location audits c =
     (case ca_arrived c of
        ARefused (RAuthentication why p) \<Rightarrow>
          if audits
          then Some (''the Receive Location '' @ quoted location @ '' refused a Stream at authentication: '' @ words (RAuthentication why p),
                 (''location'', location) # claimed_of p)
          else None
      | _ \<Rightarrow> None)"

section \<open>The pace and the drain\<close>

record pace =
  pc_poll :: duration
  pc_sweep :: duration
  pc_backoff :: duration
  pc_drain :: duration

definition pace_default :: pace where
  "pace_default = \<lparr>pc_poll = 10 ^ 9, pc_sweep = 10 ^ 9, pc_backoff = 5 * 10 ^ 9, pc_drain = 10 ^ 9\<rparr>"

datatype asking = Waits | Polled | Told

datatype receive_ended = Found | Nothing | Mendable

definition pace_rest :: "pace \<Rightarrow> asking \<Rightarrow> receive_ended \<Rightarrow> duration \<Rightarrow> duration" where
  "pace_rest p asking ended took =
     (if ended = Found \<or> asking = Waits then 0
      else (case (ended, asking) of
              (Nothing, Polled) \<Rightarrow> pc_poll p
            | (Nothing, Told) \<Rightarrow> pc_sweep p
            | _ \<Rightarrow> pc_backoff p) - took)"

text \<open>\<open>Watched::asking\<close>: the watch begun where there is none and the far end has a directory to watch.\<close>

definition watched_asking :: "bool \<Rightarrow> string option \<Rightarrow> (string \<Rightarrow> bool) \<Rightarrow> bool \<Rightarrow> asking \<times> bool" where
  "watched_asking polled notice spawns watching =
     (if \<not> polled then (Waits, watching)
      else let watching = (watching \<or> (case notice of None \<Rightarrow> False | Some directory \<Rightarrow> spawns directory)) in
           (if watching then Told else Polled, watching))"

record drain =
  dn_waits :: bool
  dn_let_go :: bool
  dn_bound :: duration
  dn_until :: "instant option"
  dn_quiet :: bool

definition drain_new :: "bool \<Rightarrow> duration \<Rightarrow> drain" where
  "drain_new waits bound = \<lparr>dn_waits = waits, dn_let_go = False, dn_bound = bound, dn_until = None, dn_quiet = False\<rparr>"

definition drain_asks :: "bool \<Rightarrow> instant \<Rightarrow> instant \<Rightarrow> drain \<Rightarrow> bool \<times> drain" where
  "drain_asks raised now later d =
     (if \<not> raised then (True, d)
      else if \<not> dn_waits d \<or> \<not> dn_let_go d \<or> dn_quiet d then (False, d)
      else let until = (case dn_until d of None \<Rightarrow> now + dn_bound d | Some at \<Rightarrow> at) in
           (later < until, d\<lparr>dn_until := Some until\<rparr>))"

definition drain_handed :: "bool \<Rightarrow> drain \<Rightarrow> drain" where
  "drain_handed went d = d\<lparr>dn_let_go := dn_let_go d \<or> went\<rparr>"

definition drain_received :: "receive_ended \<Rightarrow> drain \<Rightarrow> drain" where
  "drain_received ended d = (if dn_until d \<noteq> None \<and> ended \<noteq> Found then d\<lparr>dn_quiet := True\<rparr> else d)"

text \<open>A stop raised: nothing is asked past its bound, nor once a receive found nothing.\<close>

lemma drain_bounded:
  assumes "drain_asks True now later d = (asks, d')"
  shows "asks \<longrightarrow> dn_waits d \<and> dn_let_go d \<and> \<not> dn_quiet d \<and> (\<exists>until. dn_until d' = Some until \<and> later < until \<and>
    (case dn_until d of None \<Rightarrow> until = now + dn_bound d | Some at \<Rightarrow> until = at))"
  using assms by (auto simp: drain_asks_def Let_def split: if_splits option.splits)

lemma drain_once_bounded:
  assumes "drain_asks True now later d = (asks, d')" and "dn_until d = Some until" and "until \<le> later"
  shows "\<not> asks"
  using assms by (auto simp: drain_asks_def Let_def split: if_splits)

lemma drain_quiet: "ended \<noteq> Found \<Longrightarrow> dn_until d \<noteq> None \<Longrightarrow> fst (drain_asks True now later (drain_received ended d)) = False"
  by (simp add: drain_asks_def drain_received_def)

section \<open>The stop\<close>

text \<open>A Location's rest on its node's stop: ended by the stop, by a word, or by its time. A word told while it was
  not resting is kept for the next.\<close>

record stopping =
  sp_raised :: bool
  sp_told :: bool

definition stop_raise :: "stopping \<Rightarrow> stopping" where "stop_raise s = s\<lparr>sp_raised := True\<rparr>"

definition nudge_tell :: "stopping \<Rightarrow> stopping" where "nudge_tell s = s\<lparr>sp_told := True\<rparr>"

definition rest_begins :: "duration \<Rightarrow> bool \<Rightarrow> stopping \<Rightarrow> bool option \<times> stopping" where
  "rest_begins rest nudged s =
     (if rest = 0 then (Some (sp_raised s), s)
      else if nudged \<and> sp_told s then (Some (sp_raised s), s\<lparr>sp_told := False\<rparr>)
      else (None, s))"

text \<open>What a look of a rest under way comes to: over, or on.\<close>

definition rest_looks :: "bool \<Rightarrow> bool \<Rightarrow> stopping \<Rightarrow> bool option \<times> stopping" where
  "rest_looks nudged timed_out s =
     (if sp_raised s then (Some True, s)
      else if nudged \<and> sp_told s then (Some False, s\<lparr>sp_told := False\<rparr>)
      else if timed_out then (Some False, s) else (None, s))"

lemma no_word_lost: "0 < rest \<Longrightarrow> fst (rest_begins rest True (nudge_tell s)) \<noteq> None \<and> fst (rest_looks True False (nudge_tell s)) \<noteq> None"
  by (auto simp: rest_begins_def rest_looks_def nudge_tell_def)

section \<open>Arrivals under way\<close>

record failure_told =
  ft_retryable :: bool
  ft_message :: string

text \<open>What is settled of an arrival: the cycle it was carried through, or that its thread panicked.\<close>

datatype settling = SCarried carried | SPanicked

fun settling_verdict :: "settling \<Rightarrow> verdict" where
  "settling_verdict (SCarried c) = verdict_of c"
| "settling_verdict SPanicked = VFailed"

type_synonym telling = "settling \<times> failure_told option"

datatype arrival_phase = PCarrying | PEnded settling | PTold telling | PSent | PSettled

record arrival_entry =
  en_receive :: nat
  en_place :: nat
  en_phase :: arrival_phase

record serving =
  sg_arrivals :: "arrival_entry list"
  sg_turn :: "nat \<Rightarrow> nat"
  sg_receives :: nat
  sg_channel :: "(nat \<times> telling) list"
  sg_told :: "(nat \<times> verdict) list"
  sg_each :: "(nat \<times> settling) list"
  sg_count :: nat
  sg_heard :: "string set"
  sg_ended :: "string option"

definition serving_new :: serving where
  "serving_new = \<lparr>sg_arrivals = [], sg_turn = (\<lambda>_. 0), sg_receives = 0, sg_channel = [], sg_told = [], sg_each = [],
     sg_count = 0, sg_heard = {}, sg_ended = None\<rparr>"

record location =
  lo_name :: string
  lo_node :: string
  lo_ordered :: bool
  lo_most :: nat

definition serve_busy :: "location \<Rightarrow> nat" where
  "serve_busy lo = (if lo_ordered lo then 0 else max (lo_most lo) 1 - 1)"

definition serve_room :: "location \<Rightarrow> serving \<Rightarrow> nat" where
  "serve_room lo s = max (lo_most lo) 1 - sg_count s"

definition serve_stopped :: "location \<Rightarrow> string \<Rightarrow> string" where
  "serve_stopped lo why = ''the Receive Location '' @ quoted (lo_name lo) @ '' stopped: '' @ why"

text \<open>\<open>not_told\<close>: audited the first time its reason is heard.\<close>

definition not_told :: "location \<Rightarrow> string \<Rightarrow> string set \<Rightarrow> string option \<times> string set" where
  "not_told lo why heard =
     (if why \<in> heard then (None, heard)
      else (Some (lo_node lo @ '': the Receive Location '' @ quoted (lo_name lo) @
              '' could not tell its far end, which sends it again: '' @ why), insert why heard))"

definition set_phase :: "nat \<Rightarrow> arrival_phase \<Rightarrow> serving \<Rightarrow> serving" where
  "set_phase i p s = s\<lparr>sg_arrivals := (sg_arrivals s)[i := (sg_arrivals s ! i)\<lparr>en_phase := p\<rparr>]\<rparr>"

text \<open>\<open>carry_all\<close>: what one receive handed over, each with its place in that receive's turn.\<close>

definition serve_hands :: "nat \<Rightarrow> serving \<Rightarrow> serving" where
  "serve_hands n s =
     s\<lparr>sg_arrivals := sg_arrivals s @ map (\<lambda>p. \<lparr>en_receive = sg_receives s, en_place = p, en_phase = PCarrying\<rparr>) [0..<n],
       sg_receives := sg_receives s + 1, sg_count := sg_count s + n\<rparr>"

text \<open>\<open>settled\<close>: one arrival told, and whether the Location goes on; the first error is kept.\<close>

definition serve_settled :: "location \<Rightarrow> nat \<Rightarrow> telling \<Rightarrow> serving \<Rightarrow> serving" where
  "serve_settled lo i te s =
     (let s = (set_phase i PSettled s)\<lparr>sg_count := sg_count s - 1, sg_each := sg_each s @ [(i, fst te)]\<rparr> in
      case snd te of
        None \<Rightarrow> s
      | Some failure \<Rightarrow>
          if ft_retryable failure then s\<lparr>sg_heard := snd (not_told lo (ft_message failure) (sg_heard s))\<rparr>
          else s\<lparr>sg_ended := (case sg_ended s of None \<Rightarrow> Some (serve_stopped lo (ft_message failure)) | Some e \<Rightarrow> Some e)\<rparr>)"

text \<open>The turn of an arrival to tell: its receive's, where its Location's arrivals are ordered.\<close>

definition in_turn :: "location \<Rightarrow> nat \<Rightarrow> serving \<Rightarrow> bool" where
  "in_turn lo i s \<longleftrightarrow> (let e = sg_arrivals s ! i in lo_ordered lo \<longrightarrow> sg_turn s (en_receive e) = en_place e)"

definition turn_passes :: "location \<Rightarrow> nat \<Rightarrow> serving \<Rightarrow> serving" where
  "turn_passes lo i s =
     (let e = sg_arrivals s ! i in
      if lo_ordered lo then s\<lparr>sg_turn := (sg_turn s)(en_receive e := en_place e + 1)\<rparr> else s)"

inductive serve_step :: "location \<Rightarrow> serving \<Rightarrow> serving \<Rightarrow> bool" for lo where
  receives: "sg_ended s = None \<Longrightarrow> sg_count s \<le> serve_busy lo \<Longrightarrow>
    1 \<le> most b \<Longrightarrow> serve_room lo s < 2 ^ 64 \<Longrightarrow>
    budget_hold_up_to b (of_nat (serve_room lo s)) = Some (c, b') \<Longrightarrow> 0 < n \<Longrightarrow> n \<le> unat c \<Longrightarrow> serve_step lo s (serve_hands n s)"
| receive_fails: "sg_ended s = None \<Longrightarrow> serve_step lo s (s\<lparr>sg_ended := Some (serve_stopped lo why)\<rparr>)"
| carries: "i < length (sg_arrivals s) \<Longrightarrow> en_phase (sg_arrivals s ! i) = PCarrying \<Longrightarrow> serve_step lo s (set_phase i (PEnded sl) s)"
| tells: "i < length (sg_arrivals s) \<Longrightarrow> en_phase (sg_arrivals s ! i) = PEnded sl \<Longrightarrow> in_turn lo i s \<Longrightarrow>
    serve_step lo s (turn_passes lo i (set_phase i (PTold (sl, failed)) (s\<lparr>sg_told := sg_told s @ [(i, settling_verdict sl)]\<rparr>)))"
| tell_panics: "i < length (sg_arrivals s) \<Longrightarrow> en_phase (sg_arrivals s ! i) = PEnded sl \<Longrightarrow> in_turn lo i s \<Longrightarrow>
    serve_step lo s (turn_passes lo i (set_phase i (PTold (SPanicked, None)) (s\<lparr>sg_told := sg_told s @ [(i, settling_verdict sl)]\<rparr>)))"
| sends: "i < length (sg_arrivals s) \<Longrightarrow> en_phase (sg_arrivals s ! i) = PTold te \<Longrightarrow>
    serve_step lo s (set_phase i PSent (s\<lparr>sg_channel := sg_channel s @ [(i, te)]\<rparr>))"
| settles: "sg_channel s = (i, te) # rest \<Longrightarrow> serve_step lo s (serve_settled lo i te (s\<lparr>sg_channel := rest\<rparr>))"

section \<open>Every arrival told once\<close>

definition phases :: "serving \<Rightarrow> arrival_phase list" where
  "phases s = map en_phase (sg_arrivals s)"

definition slots :: "serving \<Rightarrow> (nat \<times> nat) list" where
  "slots s = map (\<lambda>e. (en_receive e, en_place e)) (sg_arrivals s)"

definition arrivals_in :: "(arrival_phase \<Rightarrow> bool) \<Rightarrow> arrival_phase list \<Rightarrow> nat set" where
  "arrivals_in P ps = {i. i < length ps \<and> P (ps ! i)}"

fun is_told :: "arrival_phase \<Rightarrow> bool" where
  "is_told (PTold _) = True"
| "is_told PSent = True"
| "is_told PSettled = True"
| "is_told _ = False"

lemma arrivals_in_update: "i < length ps \<Longrightarrow> arrivals_in P (ps[i := p]) = (if P p then insert i (arrivals_in P ps) else arrivals_in P ps - {i})"
  by (auto simp: arrivals_in_def nth_list_update)

lemma arrivals_in_append: "arrivals_in P (ps @ qs) = arrivals_in P ps \<union> (\<lambda>i. length ps + i) ` arrivals_in P qs"
proof -
  have "i \<in> arrivals_in P (ps @ qs) \<longleftrightarrow> i \<in> arrivals_in P ps \<union> (\<lambda>i. length ps + i) ` arrivals_in P qs" for i
    by (cases "i < length ps") (auto simp: arrivals_in_def nth_append image_iff intro: exI [of _ "i - length ps"])
  then show ?thesis by blast
qed

lemma set_phase_simps [simp]:
  "i < length (sg_arrivals s) \<Longrightarrow> phases (set_phase i p s) = (phases s)[i := p]"
  "slots (set_phase i p s) = slots s"
  "sg_told (set_phase i p s) = sg_told s" "sg_channel (set_phase i p s) = sg_channel s" "sg_each (set_phase i p s) = sg_each s"
  "sg_count (set_phase i p s) = sg_count s" "sg_turn (set_phase i p s) = sg_turn s" "sg_receives (set_phase i p s) = sg_receives s"
  "sg_ended (set_phase i p s) = sg_ended s" "length (sg_arrivals (set_phase i p s)) = length (sg_arrivals s)"
proof -
  show "slots (set_phase i p s) = slots s"
    by (cases "i < length (sg_arrivals s)") (auto simp: slots_def set_phase_def map_update intro!: nth_equalityI simp: nth_list_update)
qed (simp_all add: phases_def set_phase_def map_update)

lemma turn_passes_arrivals [simp]: "sg_arrivals (turn_passes lo i s) = sg_arrivals s"
  by (simp add: turn_passes_def Let_def)

lemma turn_passes_simps [simp]:
  "phases (turn_passes lo i s) = phases s" "slots (turn_passes lo i s) = slots s" "sg_told (turn_passes lo i s) = sg_told s"
  "sg_channel (turn_passes lo i s) = sg_channel s" "sg_each (turn_passes lo i s) = sg_each s" "sg_count (turn_passes lo i s) = sg_count s"
  "sg_receives (turn_passes lo i s) = sg_receives s"
  by (simp_all add: turn_passes_def phases_def slots_def Let_def)

lemma phases_more [simp]:
  "phases (s\<lparr>sg_told := x\<rparr>) = phases s" "slots (s\<lparr>sg_told := x\<rparr>) = slots s"
  "phases (s\<lparr>sg_channel := y\<rparr>) = phases s" "slots (s\<lparr>sg_channel := y\<rparr>) = slots s"
  "phases (s\<lparr>sg_ended := z\<rparr>) = phases s" "slots (s\<lparr>sg_ended := z\<rparr>) = slots s"
  by (simp_all add: phases_def slots_def)

text \<open>Who was told, whose settling is in the channel, and who is settled, are the arrivals in those phases, each once;
  and what is settled of one is what it was told, but where a panic came between.\<close>

definition agrees :: "(nat \<times> verdict) list \<Rightarrow> nat \<Rightarrow> settling \<Rightarrow> bool" where
  "agrees log i sl \<longleftrightarrow> (\<exists>v. (i, v) \<in> set log \<and> (sl = SPanicked \<or> v = settling_verdict sl))"

definition told_inv :: "location \<Rightarrow> serving \<Rightarrow> bool" where
  "told_inv lo s \<longleftrightarrow>
     distinct (map fst (sg_told s)) \<and> fst ` set (sg_told s) = arrivals_in is_told (phases s) \<and>
     distinct (map fst (sg_channel s)) \<and> fst ` set (sg_channel s) = arrivals_in (\<lambda>p. p = PSent) (phases s) \<and>
     distinct (map fst (sg_each s)) \<and> fst ` set (sg_each s) = arrivals_in (\<lambda>p. p = PSettled) (phases s) \<and>
     sg_count s + length (sg_each s) = length (phases s) \<and> sg_count s \<le> max (lo_most lo) 1 \<and>
     (\<forall>i te. i < length (phases s) \<and> phases s ! i = PTold te \<longrightarrow> agrees (sg_told s) i (fst te)) \<and>
     (\<forall>i te. (i, te) \<in> set (sg_channel s) \<longrightarrow> agrees (sg_told s) i (fst te)) \<and>
     (\<forall>i sl. (i, sl) \<in> set (sg_each s) \<longrightarrow> agrees (sg_told s) i sl)"

lemma agrees_more: "agrees ts i sl \<Longrightarrow> agrees (ts @ us) i sl"
  by (auto simp: agrees_def)

lemma serve_settled_simps [simp]:
  "i < length (sg_arrivals s) \<Longrightarrow> phases (serve_settled lo i te s) = (phases s)[i := PSettled]"
  "slots (serve_settled lo i te s) = slots s" "sg_told (serve_settled lo i te s) = sg_told s"
  "sg_channel (serve_settled lo i te s) = sg_channel s" "sg_each (serve_settled lo i te s) = sg_each s @ [(i, fst te)]"
  "sg_count (serve_settled lo i te s) = sg_count s - 1" "sg_turn (serve_settled lo i te s) = sg_turn s"
  "sg_receives (serve_settled lo i te s) = sg_receives s"
  using set_phase_simps(1) [of i s PSettled] set_phase_simps(2) [of i PSettled s]
  by (auto simp: serve_settled_def Let_def phases_def slots_def split: option.split)

lemma length_phases [simp]: "length (phases s) = length (sg_arrivals s)" "length (slots s) = length (sg_arrivals s)"
  by (simp_all add: phases_def slots_def)

lemma serve_settled_arrivals [simp]: "length (sg_arrivals (serve_settled lo i te s)) = length (sg_arrivals s)"
  using set_phase_simps(10) [of i PSettled s] by (auto simp: serve_settled_def Let_def split: option.split)

lemma phase_at: "i < length (sg_arrivals s) \<Longrightarrow> phases s ! i = en_phase (sg_arrivals s ! i)"
  by (simp add: phases_def)

lemma room_bound:
  assumes "1 \<le> most b" and "serve_room lo s < 2 ^ 64" and "budget_hold_up_to b (of_nat (serve_room lo s)) = Some (c, b')"
    and "sg_count s \<le> serve_busy lo" and "n \<le> unat c"
  shows "sg_count s + n \<le> max (lo_most lo) 1"
proof -
  have "unat (of_nat (serve_room lo s) :: u64) = serve_room lo s" using assms(2) by (simp add: unat_of_nat take_bit_nat_eq_self)
  then have "n \<le> max 1 (serve_room lo s)" using hold_up_to_charge(4) [OF assms(3,1)] assms(5) by simp
  moreover have "1 \<le> serve_room lo s" "serve_room lo s = max (lo_most lo) 1 - sg_count s"
    using assms(4) by (auto simp: serve_room_def serve_busy_def split: if_splits)
  ultimately show ?thesis by simp
qed

lemma told_step:
  assumes "told_inv lo s" and "i < length (sg_arrivals s)" and "phases s ! i = PEnded sl" and "sl' = sl \<or> sl' = SPanicked"
    and "phases t = (phases s)[i := PTold (sl', failed)]" and "sg_told t = sg_told s @ [(i, settling_verdict sl)]"
    and "sg_channel t = sg_channel s" "sg_each t = sg_each s" "sg_count t = sg_count s"
  shows "told_inv lo t"
proof -
  have i: "i \<notin> arrivals_in is_told (phases s)" "i \<notin> arrivals_in (\<lambda>p. p = PSent) (phases s)" "i \<notin> arrivals_in (\<lambda>p. p = PSettled) (phases s)"
    using assms(3) by (auto simp: arrivals_in_def)
  have "agrees (sg_told t) i sl'" using assms(4,6) by (auto simp: agrees_def)
  moreover have "agrees (sg_told t) k x" if "agrees (sg_told s) k x" for k x using agrees_more [OF that] assms(6) by simp
  ultimately show ?thesis using assms i unfolding told_inv_def
    by (auto simp: arrivals_in_update nth_list_update)
qed

lemma told_inv_step: "serve_step lo s t \<Longrightarrow> told_inv lo s \<Longrightarrow> told_inv lo t"
proof (induction rule: serve_step.induct)
  case (receives s b c b' n)
  have p: "phases (serve_hands n s) = phases s @ replicate n PCarrying"
    by (simp add: phases_def serve_hands_def comp_def map_replicate_const)
  have "arrivals_in P (replicate n PCarrying) = {}" if "\<not> P PCarrying" for P using that by (auto simp: arrivals_in_def)
  then have k: "arrivals_in is_told (phases (serve_hands n s)) = arrivals_in is_told (phases s)"
    "arrivals_in (\<lambda>p. p = PSent) (phases (serve_hands n s)) = arrivals_in (\<lambda>p. p = PSent) (phases s)"
    "arrivals_in (\<lambda>p. p = PSettled) (phases (serve_hands n s)) = arrivals_in (\<lambda>p. p = PSettled) (phases s)"
    by (simp_all add: p arrivals_in_append)
  have at: "phases s ! i = PTold te \<and> i < length (phases s)" if "i < length (phases (serve_hands n s))" "phases (serve_hands n s) ! i = PTold te" for i te
    using that by (auto simp: p nth_append split: if_splits)
  have "sg_told (serve_hands n s) = sg_told s" "sg_channel (serve_hands n s) = sg_channel s" "sg_each (serve_hands n s) = sg_each s"
    "sg_count (serve_hands n s) = sg_count s + n" by (simp_all add: serve_hands_def)
  moreover have "sg_count s + n \<le> max (lo_most lo) 1" using receives by (intro room_bound) auto
  moreover have "length (phases (serve_hands n s)) = length (phases s) + n" by (simp add: p)
  ultimately show ?case using receives(8) at unfolding told_inv_def k by auto
next
  case (receive_fails s why)
  then show ?case by (simp add: told_inv_def)
next
  case (carries i s sl)
  then have "i \<notin> arrivals_in is_told (phases s)" "i \<notin> arrivals_in (\<lambda>p. p = PSent) (phases s)" "i \<notin> arrivals_in (\<lambda>p. p = PSettled) (phases s)"
    by (auto simp: arrivals_in_def phase_at)
  with carries show ?case unfolding told_inv_def by (auto simp: arrivals_in_update nth_list_update)
next
  case (tells i s sl failed)
  show ?case by (rule told_step [OF tells(4,1), where sl = sl and sl' = sl and failed = failed]) (use tells in \<open>simp_all add: phase_at\<close>)
next
  case (tell_panics i s sl)
  show ?case by (rule told_step [OF tell_panics(4,1), where sl = sl and sl' = SPanicked and failed = None]) (use tell_panics in \<open>simp_all add: phase_at\<close>)
next
  case (sends i s te)
  then have at: "phases s ! i = PTold te" by (simp add: phase_at)
  then have told: "i \<in> arrivals_in is_told (phases s)" "i \<notin> arrivals_in (\<lambda>p. p = PSent) (phases s)" "i \<notin> arrivals_in (\<lambda>p. p = PSettled) (phases s)"
    using sends(1) by (auto simp: arrivals_in_def)
  have "agrees (sg_told s) i (fst te)" using sends(1,3) at length_phases(1) unfolding told_inv_def by metis
  with sends told show ?case unfolding told_inv_def by (auto simp: arrivals_in_update nth_list_update insert_absorb)
next
  case (settles s i te rest)
  then have sent: "i \<in> arrivals_in (\<lambda>p. p = PSent) (phases s)" "i \<notin> fst ` set rest" unfolding told_inv_def by auto
  then have i: "i < length (sg_arrivals s)" "i \<notin> arrivals_in (\<lambda>p. p = PSettled) (phases s)" "i \<in> arrivals_in is_told (phases s)"
    by (auto simp: arrivals_in_def)
  have "length (sg_each s) < length (phases s)"
  proof -
    have "arrivals_in (\<lambda>p. p = PSettled) (phases s) \<subset> {..<length (phases s)}" using i by (auto simp: arrivals_in_def)
    then have "card (arrivals_in (\<lambda>p. p = PSettled) (phases s)) < card {..<length (phases s)}" by (intro psubset_card_mono) simp_all
    moreover have "card (fst ` set (sg_each s)) = length (sg_each s)"
      using settles(2) distinct_card [of "map fst (sg_each s)"] by (simp add: told_inv_def)
    moreover have "fst ` set (sg_each s) = arrivals_in (\<lambda>p. p = PSettled) (phases s)" using settles(2) by (simp add: told_inv_def)
    ultimately show ?thesis by simp
  qed
  then have "0 < sg_count s" using settles(2) unfolding told_inv_def by linarith
  have "agrees (sg_told s) i (fst te)" using settles unfolding told_inv_def by (metis list.set_intros(1))
  with settles sent i \<open>0 < sg_count s\<close> show ?case unfolding told_inv_def
    by (auto simp: arrivals_in_update nth_list_update insert_absorb)
qed

section \<open>Told in order\<close>

text \<open>Where arrivals are ordered, everything before the last receive is settled, its own arrivals follow in their
  places, and those told are all up to its turn.\<close>

definition turn_now :: "serving \<Rightarrow> nat" where
  "turn_now s = (if sg_receives s = 0 then 0 else sg_turn s (sg_receives s - 1))"

definition order_inv :: "serving \<Rightarrow> bool" where
  "order_inv s \<longleftrightarrow>
     (\<forall>r \<ge> sg_receives s. sg_turn s r = 0) \<and>
     (\<exists>start \<le> length (sg_arrivals s). (\<forall>i < start. phases s ! i = PSettled) \<and>
        (\<forall>i. start \<le> i \<longrightarrow> i < length (sg_arrivals s) \<longrightarrow> 0 < sg_receives s \<and> slots s ! i = (sg_receives s - 1, i - start)) \<and>
        map fst (sg_told s) = [0..<start + turn_now s])"

lemma all_settled:
  assumes "told_inv lo s" and "sg_count s = 0"
  shows "\<forall>i < length (sg_arrivals s). phases s ! i = PSettled"
proof -
  have "card (arrivals_in (\<lambda>p. p = PSettled) (phases s)) = length (phases s)"
    using assms distinct_card [of "map fst (sg_each s)"] by (simp add: told_inv_def)
  moreover have "arrivals_in (\<lambda>p. p = PSettled) (phases s) \<subseteq> {..<length (phases s)}" by (auto simp: arrivals_in_def)
  ultimately have "arrivals_in (\<lambda>p. p = PSettled) (phases s) = {..<length (phases s)}" by (intro card_subset_eq) simp_all
  then show ?thesis by (auto simp: arrivals_in_def)
qed

lemma order_inv_update:
  assumes "order_inv s" and "i < length (sg_arrivals s)" and "phases s ! i \<noteq> PSettled \<or> p = PSettled"
    and "phases t = (phases s)[i := p]" "slots t = slots s" "sg_told t = sg_told s" "sg_turn t = sg_turn s" "sg_receives t = sg_receives s"
    and "length (sg_arrivals t) = length (sg_arrivals s)"
  shows "order_inv t"
proof -
  from assms(1) obtain start where o: "start \<le> length (sg_arrivals s)" "\<forall>k < start. phases s ! k = PSettled"
    "\<forall>k. start \<le> k \<longrightarrow> k < length (sg_arrivals s) \<longrightarrow> 0 < sg_receives s \<and> slots s ! k = (sg_receives s - 1, k - start)"
    "map fst (sg_told s) = [0..<start + turn_now s]" by (auto simp: order_inv_def)
  have "\<forall>k < start. phases t ! k = PSettled" using o(2) assms(2,3,4) by (auto simp: nth_list_update)
  moreover have "turn_now t = turn_now s" using assms(7,8) by (simp add: turn_now_def)
  ultimately show ?thesis using o assms by (auto simp: order_inv_def)
qed

lemma order_tells:
  assumes "order_inv s" and "i < length (sg_arrivals s)" and "phases s ! i = PEnded sl" and "lo_ordered lo" and "in_turn lo i s"
  shows "order_inv (turn_passes lo i (set_phase i (PTold te) (s\<lparr>sg_told := sg_told s @ [(i, v)]\<rparr>)))" (is "order_inv ?t")
proof -
  from assms(1) obtain start where o: "start \<le> length (sg_arrivals s)" "\<forall>k < start. phases s ! k = PSettled"
    "\<forall>k. start \<le> k \<longrightarrow> k < length (sg_arrivals s) \<longrightarrow> 0 < sg_receives s \<and> slots s ! k = (sg_receives s - 1, k - start)"
    "map fst (sg_told s) = [0..<start + turn_now s]" "\<forall>r \<ge> sg_receives s. sg_turn s r = 0" by (auto simp: order_inv_def)
  have i: "start \<le> i" using o(2) assms(3) by (cases "i < start") auto
  then have at: "0 < sg_receives s" "en_receive (sg_arrivals s ! i) = sg_receives s - 1" "en_place (sg_arrivals s ! i) = i - start"
    using o(3) assms(2) by (auto simp: slots_def)
  then have k: "turn_now s = i - start" using assms(4,5) by (simp add: in_turn_def turn_now_def Let_def)
  have e: "en_receive (sg_arrivals (set_phase i (PTold te) (s\<lparr>sg_told := sg_told s @ [(i, v)]\<rparr>)) ! i) = sg_receives s - 1"
    "en_place (sg_arrivals (set_phase i (PTold te) (s\<lparr>sg_told := sg_told s @ [(i, v)]\<rparr>)) ! i) = i - start"
    using at assms(2) by (simp_all add: set_phase_def)
  have turn: "sg_turn ?t = (sg_turn s)(sg_receives s - 1 := Suc (i - start))"
    using assms(4) e unfolding turn_passes_def Let_def by simp
  have "turn_now ?t = Suc (i - start)" using turn at(1) by (simp add: turn_now_def)
  then have "map fst (sg_told ?t) = [0..<start + turn_now ?t]" using o(4) k i by simp
  moreover have "length (sg_arrivals ?t) = length (sg_arrivals s)" by (simp add: turn_passes_def Let_def)
  moreover have "\<forall>k < start. phases ?t ! k = PSettled" using o(2) i assms(2) by (auto simp: nth_list_update)
  moreover have "\<forall>r \<ge> sg_receives s. sg_turn ?t r = 0" using o(5) turn at(1) by auto
  ultimately show ?thesis using o(1,3) unfolding order_inv_def by (intro conjI exI [of _ start]) simp_all
qed

lemma order_hands:
  assumes "order_inv s" and "told_inv lo s" and "sg_count s = 0"
  shows "order_inv (serve_hands n s)"
proof -
  let ?t = "serve_hands n s" and ?len = "length (sg_arrivals s)"
  from assms(1) obtain k where o: "map fst (sg_told s) = [0..<k]" "\<forall>r \<ge> sg_receives s. sg_turn s r = 0" by (auto simp: order_inv_def)
  have settled: "\<forall>i < ?len. phases s ! i = PSettled" by (rule all_settled [OF assms(2,3)])
  then have "arrivals_in is_told (phases s) = {..<?len}" by (auto simp: arrivals_in_def)
  then have "set (map fst (sg_told s)) = {..<?len}" using assms(2) by (simp add: told_inv_def)
  then have k: "k = ?len" unfolding o(1) by (metis atLeast0LessThan atLeastLessThan_upt card_lessThan)
  have "phases ?t = phases s @ replicate n PCarrying" "slots ?t = slots s @ map (\<lambda>p. (sg_receives s, p)) [0..<n]"
    by (simp_all add: phases_def slots_def serve_hands_def comp_def map_replicate_const)
  then have "\<forall>i < ?len. phases ?t ! i = PSettled" "\<forall>i. ?len \<le> i \<longrightarrow> i < ?len + n \<longrightarrow> slots ?t ! i = (sg_receives s, i - ?len)"
    using settled by (auto simp: nth_append)
  moreover have "sg_receives ?t = Suc (sg_receives s)" "sg_turn ?t = sg_turn s" "sg_told ?t = sg_told s" "length (sg_arrivals ?t) = ?len + n"
    by (simp_all add: serve_hands_def)
  moreover from this have "turn_now ?t = 0" using o(2) by (simp add: turn_now_def)
  ultimately show ?thesis using o k unfolding order_inv_def by (intro conjI exI [of _ ?len]) auto
qed

lemma order_inv_step: "serve_step lo s t \<Longrightarrow> lo_ordered lo \<Longrightarrow> told_inv lo s \<Longrightarrow> order_inv s \<Longrightarrow> order_inv t"
proof (induction rule: serve_step.induct)
  case (receives s b c b' n)
  then show ?case by (intro order_hands) (auto simp: serve_busy_def)
next
  case (receive_fails s why)
  moreover have "turn_now (s\<lparr>sg_ended := Some (serve_stopped lo why)\<rparr>) = turn_now s" by (simp add: turn_now_def)
  ultimately show ?case by (simp add: order_inv_def)
next
  case (carries i s sl)
  show ?case by (rule order_inv_update [OF carries(5,1), where p = "PEnded sl"]) (use carries in \<open>simp_all add: phase_at\<close>)
next
  case (tells i s sl failed)
  then show ?case by (intro order_tells [where sl = sl]) (simp_all add: phase_at)
next
  case (tell_panics i s sl)
  then show ?case by (intro order_tells [where sl = sl]) (simp_all add: phase_at)
next
  case (sends i s te)
  show ?case by (rule order_inv_update [OF sends(5,1), where p = PSent]) (use sends in \<open>simp_all add: phase_at\<close>)
next
  case (settles s i te rest)
  then have "i \<in> arrivals_in (\<lambda>p. p = PSent) (phases s)" unfolding told_inv_def by auto
  then have i: "i < length (sg_arrivals s)" by (simp add: arrivals_in_def)
  then have "length (sg_arrivals (serve_settled lo i te (s\<lparr>sg_channel := rest\<rparr>))) = length (sg_arrivals s)"
    using length_phases(1) [of "serve_settled lo i te (s\<lparr>sg_channel := rest\<rparr>)"] by simp
  then show ?case by (intro order_inv_update [OF settles(4) i, where p = PSettled]) (use i in simp_all)
qed

definition serving_inv :: "location \<Rightarrow> serving \<Rightarrow> bool" where
  "serving_inv lo s \<longleftrightarrow> told_inv lo s \<and> (lo_ordered lo \<longrightarrow> order_inv s)"

lemma serving_new_inv: "serving_inv lo serving_new"
  by (simp add: serving_inv_def told_inv_def order_inv_def serving_new_def phases_def slots_def arrivals_in_def turn_now_def)

interpretation serve: invariant_system "\<lambda>s. s = serving_new" "serve_step lo" "serving_inv lo"
  by unfold_locales (auto simp: serving_new_inv, auto simp: serving_inv_def intro: told_inv_step order_inv_step)

section \<open>Never left waiting\<close>

fun phase_left :: "arrival_phase \<Rightarrow> nat" where
  "phase_left PCarrying = 4"
| "phase_left (PEnded _) = 3"
| "phase_left (PTold _) = 2"
| "phase_left PSent = 1"
| "phase_left PSettled = 0"

definition left_to_do :: "serving \<Rightarrow> nat" where
  "left_to_do s = sum_list (map phase_left (phases s))"

lemma left_fewer:
  assumes "i < length (sg_arrivals s)" and "phases t = (phases s)[i := p]" and "phase_left p < phase_left (phases s ! i)"
  shows "left_to_do t < left_to_do s"
proof -
  have len: "i < length (map phase_left (phases s))" using assms(1) by simp
  have "phase_left (phases s ! i) \<le> sum_list (map phase_left (phases s))"
    using member_le_sum_list [of "phase_left (phases s ! i)" "map phase_left (phases s)"] assms(1) by simp
  then show ?thesis unfolding left_to_do_def assms(2) map_update using sum_list_update [OF len, of "phase_left p"] assms(1,3) by simp
qed

lemma unsettled:
  assumes "told_inv lo s" and "0 < sg_count s"
  obtains i where "i < length (sg_arrivals s)" "phases s ! i \<noteq> PSettled"
proof -
  have "\<exists>i < length (sg_arrivals s). phases s ! i \<noteq> PSettled"
  proof (rule ccontr)
    assume "\<not> ?thesis"
    then have "arrivals_in (\<lambda>p. p = PSettled) (phases s) = {..<length (phases s)}" by (auto simp: arrivals_in_def)
    then have "length (sg_each s) = length (phases s)"
      using assms(1) distinct_card [of "map fst (sg_each s)"] by (simp add: told_inv_def)
    with assms show False by (simp add: told_inv_def)
  qed
  then show thesis using that by blast
qed

text \<open>An arrival whose carry ended has, where its Location is ordered, one at its turn before it or is at its own.\<close>

lemma turn_is_someones:
  assumes "order_inv s" and "told_inv lo s" and "i < length (sg_arrivals s)" and "phases s ! i = PEnded sl"
  obtains k where "k < length (sg_arrivals s)" "\<not> is_told (phases s ! k)" "lo_ordered lo \<Longrightarrow> in_turn lo k s"
proof -
  from assms(1) obtain start where o: "\<forall>k < start. phases s ! k = PSettled"
    "\<forall>k. start \<le> k \<longrightarrow> k < length (sg_arrivals s) \<longrightarrow> 0 < sg_receives s \<and> slots s ! k = (sg_receives s - 1, k - start)"
    "map fst (sg_told s) = [0..<start + turn_now s]" by (auto simp: order_inv_def)
  have told: "{..<start + turn_now s} = arrivals_in is_told (phases s)"
    using assms(2) o(3) unfolding told_inv_def by (metis atLeast_upt set_map)
  let ?k = "start + turn_now s"
  have "i \<notin> arrivals_in is_told (phases s)" using assms(4) by (simp add: arrivals_in_def)
  then have k: "?k < length (sg_arrivals s)" using assms(3) by (auto simp: told [symmetric])
  moreover have "\<not> is_told (phases s ! ?k)"
  proof
    assume "is_told (phases s ! ?k)"
    then have "?k \<in> {..<?k}" unfolding told using k by (simp add: arrivals_in_def)
    then show False by simp
  qed
  moreover have "in_turn lo ?k s" using o(2) [rule_format, of ?k] k by (auto simp: in_turn_def slots_def turn_now_def Let_def)
  ultimately show thesis using that by blast
qed

lemma serve_progress:
  assumes "serving_inv lo s" and "0 < sg_count s"
  shows "\<exists>t. serve_step lo s t \<and> left_to_do t < left_to_do s \<and> length (sg_arrivals t) = length (sg_arrivals s)"
proof -
  have inv: "told_inv lo s" using assms(1) by (simp add: serving_inv_def)
  have carry: ?thesis if "i < length (sg_arrivals s)" "phases s ! i = PCarrying" for i
    using that left_fewer [OF that(1), of "set_phase i (PEnded SPanicked) s" "PEnded SPanicked"]
    by (intro exI [of _ "set_phase i (PEnded SPanicked) s"]) (auto simp: phase_at intro: serve_step.carries)
  have tell: ?thesis if "i < length (sg_arrivals s)" "phases s ! i = PEnded sl" "in_turn lo i s" for i sl
    using that left_fewer [OF that(1), of "turn_passes lo i (set_phase i (PTold (sl, None)) (s\<lparr>sg_told := sg_told s @ [(i, settling_verdict sl)]\<rparr>))" "PTold (sl, None)"]
    by (intro exI [of _ "turn_passes lo i (set_phase i (PTold (sl, None)) (s\<lparr>sg_told := sg_told s @ [(i, settling_verdict sl)]\<rparr>))"])
      (auto simp: phase_at intro: serve_step.tells)
  obtain i where i: "i < length (sg_arrivals s)" "phases s ! i \<noteq> PSettled" by (rule unsettled [OF inv assms(2)])
  show ?thesis
  proof (cases "phases s ! i")
    case PCarrying
    with i carry show ?thesis by blast
  next
    case (PEnded sl)
    show ?thesis
    proof (cases "lo_ordered lo")
      case True
      then have "order_inv s" using assms(1) by (simp add: serving_inv_def)
      then obtain k where "k < length (sg_arrivals s)" "\<not> is_told (phases s ! k)" "in_turn lo k s"
        using turn_is_someones [OF _ inv i(1) PEnded] True by metis
      then show ?thesis using carry tell by (cases "phases s ! k") auto
    next
      case False
      then have "in_turn lo i s" by (simp add: in_turn_def Let_def)
      with i PEnded tell show ?thesis by blast
    qed
  next
    case (PTold te)
    with i show ?thesis using left_fewer [OF i(1), of "set_phase i PSent (s\<lparr>sg_channel := sg_channel s @ [(i, te)]\<rparr>)" PSent]
      by (intro exI [of _ "set_phase i PSent (s\<lparr>sg_channel := sg_channel s @ [(i, te)]\<rparr>)"]) (auto simp: phase_at intro: serve_step.sends)
  next
    case PSent
    then have "i \<in> fst ` set (sg_channel s)" using i inv by (auto simp: told_inv_def arrivals_in_def)
    then obtain k te rest where ch: "sg_channel s = (k, te) # rest" by (cases "sg_channel s") auto
    then have k: "k < length (sg_arrivals s)" "phases s ! k = PSent" using inv by (auto simp: told_inv_def arrivals_in_def)
    with ch show ?thesis using left_fewer [OF k(1), of "serve_settled lo k te (s\<lparr>sg_channel := rest\<rparr>)" PSettled]
      by (intro exI [of _ "serve_settled lo k te (s\<lparr>sg_channel := rest\<rparr>)"]) (auto intro: serve_step.settles)
  qed (use i in simp)
qed

lemma serve_settles_all:
  "serving_inv lo s \<Longrightarrow> \<exists>t. (serve_step lo)\<^sup>*\<^sup>* s t \<and> sg_count t = 0 \<and> length (sg_arrivals t) = length (sg_arrivals s)"
proof (induction "left_to_do s" arbitrary: s rule: less_induct)
  case less
  show ?case
  proof (cases "sg_count s = 0")
    case False
    then obtain t where t: "serve_step lo s t" "left_to_do t < left_to_do s" "length (sg_arrivals t) = length (sg_arrivals s)"
      using serve_progress [OF less.prems] by auto
    from less.hyps [OF t(2) serve.step_inv [OF less.prems t(1)]] t show ?thesis by (metis converse_rtranclp_into_rtranclp)
  qed auto
qed

text \<open>C7: a Location's far ends are told once each and none is left waiting. On every interleaving of its serving and its
  carrying threads, panics included, no arrival is told twice or settled twice, what is settled was told and
  agrees with what its far end heard but where a panic came between, what is counted as carrying is what is
  not settled yet and never more than the pool has threads, and an ordered Location's far ends are told in
  the order their arrivals came. And with nothing more received, everything handed over can be settled.\<close>

theorem arrivals_told_once:
  assumes "reach (\<lambda>s. s = serving_new) (serve_step lo) s"
  shows "distinct (map fst (sg_told s)) \<and> distinct (map fst (sg_each s)) \<and>
    (\<forall>i sl. (i, sl) \<in> set (sg_each s) \<longrightarrow> (\<exists>v. (i, v) \<in> set (sg_told s) \<and> (sl = SPanicked \<or> v = settling_verdict sl))) \<and>
    sg_count s + length (sg_each s) = length (sg_arrivals s) \<and> sg_count s \<le> max (lo_most lo) 1 \<and>
    (lo_ordered lo \<longrightarrow> map fst (sg_told s) = [0..<length (sg_told s)]) \<and>
    (\<exists>t. (serve_step lo)\<^sup>*\<^sup>* s t \<and> length (sg_arrivals t) = length (sg_arrivals s) \<and> sg_count t = 0 \<and> length (sg_each t) = length (sg_arrivals s))"
proof -
  have inv: "serving_inv lo s" by (rule serve.reach_inv [OF assms])
  then have told: "told_inv lo s" by (simp add: serving_inv_def)
  obtain t where t: "(serve_step lo)\<^sup>*\<^sup>* s t" "sg_count t = 0" "length (sg_arrivals t) = length (sg_arrivals s)"
    using serve_settles_all [OF inv] by blast
  have "told_inv lo t" using serve.steps_inv [OF t(1) inv] by (simp add: serving_inv_def)
  with t have "length (sg_each t) = length (sg_arrivals s)" by (simp add: told_inv_def)
  moreover have "map fst (sg_told s) = [0..<length (sg_told s)]" if ord: "lo_ordered lo"
  proof -
    obtain k where k: "map fst (sg_told s) = [0..<k]" using inv ord by (auto simp: serving_inv_def order_inv_def)
    from arg_cong [OF k, of length] have "length (sg_told s) = k" by simp
    with k show ?thesis by simp
  qed
  ultimately show ?thesis using told t unfolding told_inv_def agrees_def by (intro conjI exI [of _ t]) simp_all
qed

text \<open>An ordered Location handed one arrival, its carry panicked and its far end told.\<close>

definition drop_directory :: location where
  "drop_directory = \<lparr>lo_name = ''l'', lo_node = ''n'', lo_ordered = True, lo_most = 2\<rparr>"

definition one_told :: serving where
  "one_told = turn_passes drop_directory 0 (set_phase 0 (PTold (SPanicked, None)) ((set_phase 0 (PEnded SPanicked) (serve_hands 1 serving_new))\<lparr>sg_told := [(0, VFailed)]\<rparr>))"

lemma one_told_reached: "reach (\<lambda>s. s = serving_new) (serve_step drop_directory) one_told"
proof -
  let ?h = "serve_hands 1 serving_new" and ?e = "set_phase 0 (PEnded SPanicked) (serve_hands 1 serving_new)"
  have "budget_hold_up_to (budget_new 4) 2 = Some (2, (budget_new 4)\<lparr>held := 2\<rparr>)" by code_simp
  then have "serve_step drop_directory serving_new ?h"
    by (intro serve_step.receives [of _ _ "budget_new 4" 2 _ 1])
      (simp_all add: serving_new_def serve_busy_def serve_room_def drop_directory_def budget_new_def max_def)
  then have "reach (\<lambda>s. s = serving_new) (serve_step drop_directory) ?h" by (intro reach_step [OF reach_init]) simp_all
  moreover have "serve_step drop_directory ?h ?e" by (rule serve_step.carries) (simp_all add: serve_hands_def serving_new_def)
  ultimately have e: "reach (\<lambda>s. s = serving_new) (serve_step drop_directory) ?e" by (rule reach_step)
  have "serve_step drop_directory ?e (turn_passes drop_directory 0 (set_phase 0 (PTold (SPanicked, None))
      (?e\<lparr>sg_told := sg_told ?e @ [(0, settling_verdict SPanicked)]\<rparr>)))"
    by (rule serve_step.tells) (simp_all add: set_phase_def serve_hands_def serving_new_def in_turn_def)
  with e have "reach (\<lambda>s. s = serving_new) (serve_step drop_directory) (turn_passes drop_directory 0 (set_phase 0 (PTold (SPanicked, None))
      (?e\<lparr>sg_told := sg_told ?e @ [(0, settling_verdict SPanicked)]\<rparr>)))" by (rule reach_step)
  moreover have "sg_told ?e = []" by (simp add: serve_hands_def serving_new_def)
  ultimately show ?thesis by (simp add: one_told_def)
qed

theorem arrivals_told_once_witness:
  "sg_told one_told = [(0, VFailed)] \<and> distinct (map fst (sg_told one_told)) \<and> sg_count one_told = 1 \<and> sg_count one_told \<le> max (lo_most drop_directory) 1"
proof -
  have "distinct (map fst (sg_told one_told))" "sg_count one_told \<le> max (lo_most drop_directory) 1"
    using arrivals_told_once [OF one_told_reached] by blast+
  then show ?thesis by (simp add: one_told_def serve_hands_def serving_new_def)
qed

end
