(* ===== verification/Tuning.thy ===== *)
theory Tuning
  imports Budget Receiving Ledger_Stream
begin

text \<open>
  \<open>src/tuning.rs\<close> and \<open>src/tuning/declared.rs\<close>: what a node runs by, read of its configuration's \<open>[tuning]\<close>. The
  declaration is here key by key, its kind, bounds and default; reading a table through it is the settings
  library's, an argument with what it promises (\<open>reads_declared\<close>), and the defaults that other libraries
  declare are a record of theirs. From what is read come the node's pools, its pace and its budgets, which are
  shown to be within their words.
\<close>

section \<open>The declaration\<close>

datatype tuning_key = TcpSegment | Segments | ReceiveThreads | ReceiveIdle | ReceivePoll | ReceiveSweep | ReceiveBackoff
  | ReceiveDrain | ReceiveHandshake | NodeReceiveThreads | ReceiveChunks | SendThreads | SendIdle | SendLease | SendScan
  | FailedWindow | SendChunks | StreamStall | StorageTimeout | StoragePassOver | StorageBeat | StorageSilence | StorageKept
  | LocalTimeout

fun key_name :: "tuning_key \<Rightarrow> string" where
  "key_name TcpSegment = ''tcp_segment''"
| "key_name Segments = ''segments''"
| "key_name ReceiveThreads = ''receive_threads_per_hardware_thread''"
| "key_name ReceiveIdle = ''receive_idle''"
| "key_name ReceivePoll = ''receive_poll''"
| "key_name ReceiveSweep = ''receive_sweep''"
| "key_name ReceiveBackoff = ''receive_backoff''"
| "key_name ReceiveDrain = ''receive_drain''"
| "key_name ReceiveHandshake = ''receive_handshake''"
| "key_name NodeReceiveThreads = ''node_receive_threads_per_hardware_thread''"
| "key_name ReceiveChunks = ''receive_chunks_per_thread''"
| "key_name SendThreads = ''send_threads_per_hardware_thread''"
| "key_name SendIdle = ''send_idle''"
| "key_name SendLease = ''send_lease''"
| "key_name SendScan = ''send_scan''"
| "key_name FailedWindow = ''failed_window''"
| "key_name SendChunks = ''send_chunks_per_thread''"
| "key_name StreamStall = ''stream_stall''"
| "key_name StorageTimeout = ''storage_timeout''"
| "key_name StoragePassOver = ''storage_pass_over''"
| "key_name StorageBeat = ''storage_beat''"
| "key_name StorageSilence = ''storage_silence''"
| "key_name StorageKept = ''storage_kept''"
| "key_name LocalTimeout = ''local_timeout''"

datatype setting_kind = IntegerKind int int | DurationKind

text \<open>The defaults other libraries declare: the transport's and Xmip Storage's.\<close>

record outside_defaults =
  od_tcp_segment :: int
  od_handshake :: duration
  od_timeout :: duration
  od_pass_over :: duration
  od_beat :: duration
  od_silence :: duration
  od_kept :: int

fun declared_kind :: "tuning_key \<Rightarrow> setting_kind" where
  "declared_kind TcpSegment = IntegerKind 536 9000"
| "declared_kind Segments = IntegerKind 1 1024"
| "declared_kind ReceiveThreads = IntegerKind 1 64"
| "declared_kind NodeReceiveThreads = IntegerKind 1 256"
| "declared_kind ReceiveChunks = IntegerKind 1 4096"
| "declared_kind SendThreads = IntegerKind 1 64"
| "declared_kind FailedWindow = IntegerKind 1 10000"
| "declared_kind SendChunks = IntegerKind 1 65536"
| "declared_kind StorageKept = IntegerKind 1048576 68719476736"
| "declared_kind _ = DurationKind"

definition second :: duration where "second = 10 ^ 9"

fun default_integer :: "outside_defaults \<Rightarrow> tuning_key \<Rightarrow> int" where
  "default_integer od TcpSegment = od_tcp_segment od"
| "default_integer od Segments = int segments"
| "default_integer od ReceiveThreads = 2"
| "default_integer od NodeReceiveThreads = 4"
| "default_integer od ReceiveChunks = uint carry_chunks"
| "default_integer od SendThreads = 2"
| "default_integer od FailedWindow = 100"
| "default_integer od SendChunks = 16"
| "default_integer od StorageKept = od_kept od"
| "default_integer od _ = 0"

fun default_duration :: "outside_defaults \<Rightarrow> tuning_key \<Rightarrow> duration" where
  "default_duration od ReceiveIdle = 60 * second"
| "default_duration od ReceivePoll = pc_poll pace_default"
| "default_duration od ReceiveSweep = pc_sweep pace_default"
| "default_duration od ReceiveBackoff = pc_backoff pace_default"
| "default_duration od ReceiveDrain = pc_drain pace_default"
| "default_duration od ReceiveHandshake = od_handshake od"
| "default_duration od SendIdle = 60 * second"
| "default_duration od SendLease = 30 * second"
| "default_duration od SendScan = second"
| "default_duration od StreamStall = second div 10"
| "default_duration od StorageTimeout = od_timeout od"
| "default_duration od StoragePassOver = od_pass_over od"
| "default_duration od StorageBeat = od_beat od"
| "default_duration od StorageSilence = od_silence od"
| "default_duration od LocalTimeout = 2 * second"
| "default_duration od _ = 0"

section \<open>What is read\<close>

record tuning =
  tu_tcp_segment :: nat
  tu_segments :: nat
  tu_receive_threads_per_hardware_thread :: nat
  tu_receive_idle :: duration
  tu_receive_poll :: duration
  tu_receive_sweep :: duration
  tu_receive_backoff :: duration
  tu_receive_drain :: duration
  tu_receive_handshake :: duration
  tu_node_receive_threads_per_hardware_thread :: nat
  tu_receive_chunks_per_thread :: nat
  tu_send_threads_per_hardware_thread :: nat
  tu_send_idle :: duration
  tu_send_lease :: duration
  tu_send_scan :: duration
  tu_failed_window :: nat
  tu_send_chunks_per_thread :: nat
  tu_stream_stall :: duration
  tu_storage_timeout :: duration
  tu_storage_pass_over :: duration
  tu_storage_beat :: duration
  tu_storage_silence :: duration
  tu_storage_kept :: nat
  tu_local_timeout :: duration

definition longest :: duration where "longest = 3600 * second"

text \<open>A table read through the declaration: every refusal, or each key's integer or duration.\<close>

type_synonym settings_read = "string list + (tuning_key \<Rightarrow> int) \<times> (tuning_key \<Rightarrow> duration)"

definition read_count :: "(tuning_key \<Rightarrow> int) \<Rightarrow> tuning_key \<Rightarrow> nat" where
  "read_count integer k = (if 0 \<le> integer k \<and> integer k < 2 ^ 64 then nat (integer k) else 1)"

definition duration_keys :: "tuning_key list" where
  "duration_keys = [ReceiveIdle, ReceivePoll, ReceiveSweep, ReceiveBackoff, ReceiveDrain, ReceiveHandshake, SendIdle, SendLease,
     SendScan, StreamStall, StorageTimeout, StoragePassOver, StorageBeat, StorageSilence, LocalTimeout]"

definition duration_refused :: "(tuning_key \<Rightarrow> duration) \<Rightarrow> tuning_key \<Rightarrow> bool" where
  "duration_refused dur k \<longleftrightarrow> dur k = 0 \<or> longest < dur k"

definition duration_problem :: "tuning_key \<Rightarrow> string" where
  "duration_problem k = ''[tuning] reads '' @ [CHR 0x22] @ key_name k @ [CHR 0x22] @ '' as a duration above nothing and at most an hour''"

definition tuning_of :: "(tuning_key \<Rightarrow> int) \<Rightarrow> (tuning_key \<Rightarrow> duration) \<Rightarrow> tuning" where
  "tuning_of integer dur =
     \<lparr>tu_tcp_segment = read_count integer TcpSegment, tu_segments = read_count integer Segments,
      tu_receive_threads_per_hardware_thread = read_count integer ReceiveThreads, tu_receive_idle = dur ReceiveIdle,
      tu_receive_poll = dur ReceivePoll, tu_receive_sweep = dur ReceiveSweep, tu_receive_backoff = dur ReceiveBackoff,
      tu_receive_drain = dur ReceiveDrain, tu_receive_handshake = dur ReceiveHandshake,
      tu_node_receive_threads_per_hardware_thread = read_count integer NodeReceiveThreads,
      tu_receive_chunks_per_thread = read_count integer ReceiveChunks,
      tu_send_threads_per_hardware_thread = read_count integer SendThreads, tu_send_idle = dur SendIdle,
      tu_send_lease = dur SendLease, tu_send_scan = dur SendScan, tu_failed_window = read_count integer FailedWindow,
      tu_send_chunks_per_thread = read_count integer SendChunks, tu_stream_stall = dur StreamStall,
      tu_storage_timeout = dur StorageTimeout, tu_storage_pass_over = dur StoragePassOver, tu_storage_beat = dur StorageBeat,
      tu_storage_silence = dur StorageSilence, tu_storage_kept = read_count integer StorageKept, tu_local_timeout = dur LocalTimeout\<rparr>"

definition tuning_read :: "settings_read \<Rightarrow> string list + tuning" where
  "tuning_read rd =
     (case rd of
        Inl refused \<Rightarrow> Inl refused
      | Inr (integer, dur) \<Rightarrow>
         let problems = map duration_problem (filter (duration_refused dur) duration_keys) in
         if problems = [] then Inr (tuning_of integer dur) else Inl problems)"

section \<open>What a node runs by\<close>

record timings =
  tm_beat :: duration
  tm_silence :: duration
  tm_timeout :: duration
  tm_pass_over :: duration
  tm_kept :: nat

definition tuning_storage :: "tuning \<Rightarrow> timings" where
  "tuning_storage t = \<lparr>tm_beat = tu_storage_beat t, tm_silence = tu_storage_silence t, tm_timeout = tu_storage_timeout t,
     tm_pass_over = tu_storage_pass_over t, tm_kept = tu_storage_kept t\<rparr>"

definition tuning_chunk :: "tuning \<Rightarrow> nat" where
  "tuning_chunk t = tu_segments t * tu_tcp_segment t"

text \<open>\<open>Limits::per_hardware_thread\<close>, the product saturated at a \<open>usize\<close>.\<close>

definition per_hardware_thread :: "nat \<Rightarrow> nat \<Rightarrow> duration \<Rightarrow> nat \<times> duration" where
  "per_hardware_thread hardware threads idle = (min (threads * hardware) (2 ^ 64 - 1), idle)"

definition tuning_receive :: "nat \<Rightarrow> tuning \<Rightarrow> nat \<times> duration" where
  "tuning_receive hardware t = per_hardware_thread hardware (tu_receive_threads_per_hardware_thread t) (tu_receive_idle t)"

definition tuning_node_receive :: "nat \<Rightarrow> tuning \<Rightarrow> nat \<times> duration" where
  "tuning_node_receive hardware t = per_hardware_thread hardware (tu_node_receive_threads_per_hardware_thread t) (tu_receive_idle t)"

definition tuning_pace :: "tuning \<Rightarrow> pace" where
  "tuning_pace t = \<lparr>pc_poll = tu_receive_poll t, pc_sweep = tu_receive_sweep t, pc_backoff = tu_receive_backoff t, pc_drain = tu_receive_drain t\<rparr>"

definition tuning_send :: "nat \<Rightarrow> tuning \<Rightarrow> nat \<times> duration" where
  "tuning_send hardware t = per_hardware_thread hardware (tu_send_threads_per_hardware_thread t) (tu_send_idle t)"

text \<open>\<open>NodeBudget::of\<close> a tuning: its 64-bit products.\<close>

definition tuned_budget :: "nat \<Rightarrow> tuning \<Rightarrow> node_budget" where
  "tuned_budget hardware t =
     node_budget_of (of_nat (tuning_chunk t)) (of_nat (fst (tuning_node_receive hardware t))) (of_nat (fst (tuning_send hardware t)))
       (of_nat (tu_receive_chunks_per_thread t)) (of_nat (tu_send_chunks_per_thread t))"

section \<open>What the settings library promises\<close>

definition reads_declared :: "settings_read \<Rightarrow> bool" where
  "reads_declared rd \<longleftrightarrow>
     (case rd of
        Inl _ \<Rightarrow> True
      | Inr (integer, dur) \<Rightarrow> (\<forall>k. case declared_kind k of IntegerKind lo hi \<Rightarrow> lo \<le> integer k \<and> integer k \<le> hi | DurationKind \<Rightarrow> True))"

lemma read_count_bounds:
  assumes "reads_declared (Inr (integer, dur))" and "declared_kind k = IntegerKind lo hi" and "0 \<le> lo" and "hi < 2 ^ 64"
  shows "nat lo \<le> read_count integer k \<and> read_count integer k \<le> nat hi"
proof -
  have "lo \<le> integer k \<and> integer k \<le> hi" using assms(1) unfolding reads_declared_def sum.case prod.case
    by (elim allE [of _ k]) (simp add: assms(2))
  then show ?thesis using assms(3,4) by (auto simp: read_count_def)
qed

text \<open>What a table read and not refused gives: every count within its declared bounds, every duration above nothing
  and at most an hour.\<close>

lemma tuning_read_ok:
  assumes "tuning_read rd = Inr t"
  obtains integer dur where "rd = Inr (integer, dur)" and "t = tuning_of integer dur"
    and "list_all (\<lambda>k. 0 < dur k \<and> dur k \<le> longest) duration_keys"
  using assms
  by (auto simp: tuning_read_def Let_def duration_refused_def list_all_iff filter_empty_conv not_less intro!: that
      split: sum.splits prod.splits if_splits)

lemma tuning_counts:
  assumes "tuning_read rd = Inr t" and "reads_declared rd"
  shows "536 \<le> tu_tcp_segment t \<and> tu_tcp_segment t \<le> 9000" and "1 \<le> tu_segments t \<and> tu_segments t \<le> 1024"
    and "1 \<le> tu_node_receive_threads_per_hardware_thread t \<and> tu_node_receive_threads_per_hardware_thread t \<le> 256"
    and "1 \<le> tu_receive_chunks_per_thread t \<and> tu_receive_chunks_per_thread t \<le> 4096"
    and "1 \<le> tu_send_threads_per_hardware_thread t \<and> tu_send_threads_per_hardware_thread t \<le> 64"
    and "1 \<le> tu_send_chunks_per_thread t \<and> tu_send_chunks_per_thread t \<le> 65536"
proof -
  obtain integer dur where rd: "rd = Inr (integer, dur)" and t: "t = tuning_of integer dur"
    using tuning_read_ok [OF assms(1)] by metis
  note b = read_count_bounds [OF assms(2) [unfolded rd]]
  show "536 \<le> tu_tcp_segment t \<and> tu_tcp_segment t \<le> 9000" using b [of TcpSegment] by (simp add: t tuning_of_def)
  show "1 \<le> tu_segments t \<and> tu_segments t \<le> 1024" using b [of Segments] by (simp add: t tuning_of_def)
  show "1 \<le> tu_node_receive_threads_per_hardware_thread t \<and> tu_node_receive_threads_per_hardware_thread t \<le> 256"
    using b [of NodeReceiveThreads] by (simp add: t tuning_of_def)
  show "1 \<le> tu_receive_chunks_per_thread t \<and> tu_receive_chunks_per_thread t \<le> 4096"
    using b [of ReceiveChunks] by (simp add: t tuning_of_def)
  show "1 \<le> tu_send_threads_per_hardware_thread t \<and> tu_send_threads_per_hardware_thread t \<le> 64"
    using b [of SendThreads] by (simp add: t tuning_of_def)
  show "1 \<le> tu_send_chunks_per_thread t \<and> tu_send_chunks_per_thread t \<le> 65536"
    using b [of SendChunks] by (simp add: t tuning_of_def)
qed

lemma three_bounded:
  fixes a b c :: nat
  assumes "a \<le> 2 ^ i" and "b \<le> 2 ^ j" and "c \<le> 2 ^ k"
  shows "a * b * c \<le> 2 ^ (i + j + k)"
  using mult_le_mono [OF mult_le_mono [OF assms(1,2)] assms(3)] by (simp add: power_add)

text \<open>A budget of a product that is within its word: the product itself, unwrapped.\<close>

lemma budget_of_product:
  fixes a b c :: nat
  assumes "a * b * c \<le> 2 ^ 62" and "1 \<le> a" and "1 \<le> b" and "1 \<le> c"
  shows "unat (most (budget_new (of_nat a * of_nat b * of_nat c))) = a * b * c"
    and "budget_fits (most (budget_new (of_nat a * of_nat b * of_nat c)))"
proof -
  have small: "a * b * c < 2 ^ 63" using assms(1) by simp
  have eq: "(of_nat a * of_nat b * of_nat c :: u64) = of_nat (a * b * c)" by simp
  have un: "unat (of_nat (a * b * c) :: u64) = a * b * c" using small by (simp only: unat_of_nat) simp
  have pos: "1 \<le> a * b * c" using assms(2-4) by (simp add: Suc_le_eq)
  have "(1::u64) \<le> of_nat (a * b * c)" using pos un by (simp only: word_le_nat_alt un) simp
  then have m: "most (budget_new (of_nat a * of_nat b * of_nat c)) = of_nat (a * b * c)"
    by (simp only: eq) (simp add: budget_new_def max_def)
  show "unat (most (budget_new (of_nat a * of_nat b * of_nat c))) = a * b * c" by (simp only: m un)
  show "budget_fits (most (budget_new (of_nat a * of_nat b * of_nat c)))" using small by (simp only: budget_fits_nat m un)
qed

lemma tuned_budget_words:
  assumes "tuning_read rd = Inr t" and "reads_declared rd" and "0 < hardware" and "hardware \<le> 2 ^ 16"
  shows "unat (most (received (tuned_budget hardware t))) =
           fst (tuning_node_receive hardware t) * tu_receive_chunks_per_thread t * tuning_chunk t"
    and "unat (most (sent (tuned_budget hardware t))) =
           fst (tuning_send hardware t) * tu_send_chunks_per_thread t * tuning_chunk t"
    and "unat (most (carries (tuned_budget hardware t))) = fst (tuning_node_receive hardware t)"
    and "budget_fits (most (received (tuned_budget hardware t)))"
    and "budget_fits (most (sent (tuned_budget hardware t)))"
    and "budget_fits (most (carries (tuned_budget hardware t)))"
    and "chunk (tuned_budget hardware t) \<le> most (received (tuned_budget hardware t))"
    and "chunk (tuned_budget hardware t) \<le> most (sent (tuned_budget hardware t))"
proof -
  note c = tuning_counts [OF assms(1,2)]
  define n where "n = tu_node_receive_threads_per_hardware_thread t * hardware"
  define s where "s = tu_send_threads_per_hardware_thread t * hardware"
  have n: "1 \<le> n" "n \<le> 2 ^ 24" using c(3) assms(3) mult_le_mono [OF conjunct2 [OF c(3)] assms(4)] by (auto simp: n_def Suc_le_eq)
  have s: "1 \<le> s" "s \<le> 2 ^ 22" using c(5) assms(3) mult_le_mono [OF conjunct2 [OF c(5)] assms(4)] by (auto simp: s_def Suc_le_eq)
  have ch: "1 \<le> tuning_chunk t" "tuning_chunk t \<le> 2 ^ 24"
    using c(1,2) mult_le_mono [OF conjunct2 [OF c(2)] conjunct2 [OF c(1)]] by (auto simp: tuning_chunk_def Suc_le_eq)
  have nm: "fst (tuning_node_receive hardware t) = n" using n(2) by (simp add: tuning_node_receive_def per_hardware_thread_def n_def)
  have sm: "fst (tuning_send hardware t) = s" using s(2) by (simp add: tuning_send_def per_hardware_thread_def s_def)
  have r: "n * tu_receive_chunks_per_thread t * tuning_chunk t \<le> 2 ^ 62"
    using three_bounded [of n 24 "tu_receive_chunks_per_thread t" 12 "tuning_chunk t" 24] n(2) c(4) ch(2) by simp
  have d: "s * tu_send_chunks_per_thread t * tuning_chunk t \<le> 2 ^ 62"
    using three_bounded [of s 22 "tu_send_chunks_per_thread t" 16 "tuning_chunk t" 24] s(2) c(6) ch(2) by simp
  note R = budget_of_product [OF r n(1) conjunct1 [OF c(4)] ch(1)]
  note D = budget_of_product [OF d s(1) conjunct1 [OF c(6)] ch(1)]
  note N = budget_of_product [of n 1 1, simplified] 
  have cw: "unat (of_nat (tuning_chunk t) :: u64) = tuning_chunk t" using ch(2) by (simp add: unat_of_nat)
  show 1: "unat (most (received (tuned_budget hardware t))) =
           fst (tuning_node_receive hardware t) * tu_receive_chunks_per_thread t * tuning_chunk t"
    using R(1) by (simp only: tuned_budget_def node_budget_of_def node_budget.simps nm)
  show 2: "unat (most (sent (tuned_budget hardware t))) =
           fst (tuning_send hardware t) * tu_send_chunks_per_thread t * tuning_chunk t"
    using D(1) by (simp only: tuned_budget_def node_budget_of_def node_budget.simps sm)
  show "unat (most (carries (tuned_budget hardware t))) = fst (tuning_node_receive hardware t)"
    using N n by (simp add: tuned_budget_def node_budget_of_def nm)
  show "budget_fits (most (received (tuned_budget hardware t)))"
    using R(2) by (simp only: tuned_budget_def node_budget_of_def node_budget.simps nm)
  show "budget_fits (most (sent (tuned_budget hardware t)))"
    using D(2) by (simp only: tuned_budget_def node_budget_of_def node_budget.simps sm)
  show "budget_fits (most (carries (tuned_budget hardware t)))"
    using N n by (simp add: tuned_budget_def node_budget_of_def nm)
  have ce: "unat (chunk (tuned_budget hardware t)) = tuning_chunk t" using cw by (simp add: tuned_budget_def node_budget_of_def)
  show "chunk (tuned_budget hardware t) \<le> most (received (tuned_budget hardware t))"
    using n(1) c(4) by (simp add: word_le_nat_alt ce 1 nm Suc_le_eq)
  show "chunk (tuned_budget hardware t) \<le> most (sent (tuned_budget hardware t))"
    using s(1) c(6) by (simp add: word_le_nat_alt ce 2 sm Suc_le_eq)
qed

text \<open>C29: On a machine of up to 65,536 hardware threads, whatever a \<open>[tuning]\<close> that was not refused says, none of
  the node's budgets wraps: the 64-bit products are the products of the counts read, each within the bound the
  budgets' own sums need (\<open>budget_fits\<close>), and each budget holds at least the chunk of one departure or arrival.\<close>

theorem tuned_budgets_fit:
  assumes "tuning_read rd = Inr t" and "reads_declared rd" and "0 < hardware" and "hardware \<le> 2 ^ 16"
  shows "unat (most (received (tuned_budget hardware t))) =
           fst (tuning_node_receive hardware t) * tu_receive_chunks_per_thread t * tuning_chunk t \<and>
    unat (most (sent (tuned_budget hardware t))) =
           fst (tuning_send hardware t) * tu_send_chunks_per_thread t * tuning_chunk t \<and>
    unat (most (carries (tuned_budget hardware t))) = fst (tuning_node_receive hardware t) \<and>
    budget_fits (most (received (tuned_budget hardware t))) \<and> budget_fits (most (sent (tuned_budget hardware t))) \<and>
    budget_fits (most (carries (tuned_budget hardware t))) \<and>
    chunk (tuned_budget hardware t) \<le> most (received (tuned_budget hardware t)) \<and>
    chunk (tuned_budget hardware t) \<le> most (sent (tuned_budget hardware t))"
  by (intro conjI tuned_budget_words [OF assms])

section \<open>The defaults\<close>

text \<open>\<open>Tuning::default\<close>: a table that says nothing read, where the settings library gives each key its declared
  default. \<open>None\<close> is its \<open>unreachable!\<close>, which the declaration never reaches as long as the other libraries'
  defaults are within what is declared of them.\<close>

definition read_of_nothing :: "outside_defaults \<Rightarrow> settings_read" where
  "read_of_nothing od = Inr (default_integer od, default_duration od)"

definition tuning_default :: "settings_read \<Rightarrow> tuning option" where
  "tuning_default rd = (case tuning_read rd of Inr t \<Rightarrow> Some t | Inl _ \<Rightarrow> None)"

definition outside_declared :: "outside_defaults \<Rightarrow> bool" where
  "outside_declared od \<longleftrightarrow> 536 \<le> od_tcp_segment od \<and> od_tcp_segment od \<le> 9000 \<and> 1048576 \<le> od_kept od \<and> od_kept od \<le> 68719476736 \<and>
     list_all (\<lambda>d. 0 < d \<and> d \<le> longest) [od_handshake od, od_timeout od, od_pass_over od, od_beat od, od_silence od]"

lemma default_within:
  assumes "outside_declared od"
  shows "reads_declared (read_of_nothing od)"
proof -
  have "case declared_kind k of IntegerKind lo hi \<Rightarrow> lo \<le> default_integer od k \<and> default_integer od k \<le> hi | DurationKind \<Rightarrow> True" for k
    using assms by (cases k) (simp_all add: outside_declared_def segments_def carry_chunks_def)
  then show ?thesis by (simp add: reads_declared_def read_of_nothing_def)
qed

lemma default_not_refused:
  assumes "outside_declared od"
  shows "tuning_default (read_of_nothing od) = Some (tuning_of (default_integer od) (default_duration od))"
proof -
  have "list_all (\<lambda>k. \<not> duration_refused (default_duration od) k) duration_keys"
    using assms by (simp add: outside_declared_def duration_keys_def duration_refused_def longest_def second_def pace_default_def not_less)
  then have "filter (duration_refused (default_duration od)) duration_keys = []" by (simp add: filter_empty_conv list_all_iff)
  then show ?thesis by (simp add: tuning_default_def tuning_read_def read_of_nothing_def)
qed

definition some_defaults :: outside_defaults where
  "some_defaults = \<lparr>od_tcp_segment = 1460, od_handshake = 10 ^ 10, od_timeout = 10 ^ 9, od_pass_over = 10 ^ 9, od_beat = 10 ^ 9,
     od_silence = 10 ^ 10, od_kept = 67108864\<rparr>"

lemma some_defaults_declared: "outside_declared some_defaults"
  by (simp add: outside_declared_def some_defaults_def longest_def second_def)

theorem tuned_budgets_fit_witness:
  "\<exists>t. tuning_default (read_of_nothing some_defaults) = Some t \<and>
     unat (most (received (tuned_budget 4 t))) = 8222720 \<and> budget_fits (most (received (tuned_budget 4 t)))"
proof -
  define t where "t = tuning_of (default_integer some_defaults) (default_duration some_defaults)"
  have d: "tuning_default (read_of_nothing some_defaults) = Some t"
    unfolding t_def by (rule default_not_refused [OF some_defaults_declared])
  then have read: "tuning_read (read_of_nothing some_defaults) = Inr t" by (simp add: tuning_default_def split: sum.splits)
  have v: "fst (tuning_node_receive 4 t) * tu_receive_chunks_per_thread t * tuning_chunk t = 8222720"
    by (simp add: t_def tuning_of_def read_count_def tuning_node_receive_def per_hardware_thread_def tuning_chunk_def segments_def
        carry_chunks_def some_defaults_def)
  have "unat (most (received (tuned_budget 4 t))) = 8222720 \<and> budget_fits (most (received (tuned_budget 4 t)))"
    using tuned_budgets_fit [OF read default_within [OF some_defaults_declared], of 4] by (simp only: v) simp
  with d show ?thesis by blast
qed

end
