(* ===== verification/Execution_Tree.thy ===== *)
theory Execution_Tree
  imports Arrival Tuning
begin

text \<open>
  \<open>src/execution_tree.rs\<close>, \<open>src/sequence/configured.rs\<close> and what of \<open>src/linked.rs\<close> chooses a transport: a node's
  document validated and bound to its Applications, what starts taken from both, and the sequences its points
  name. The configuration library reads the document, holds a Location to its technology's declaration and binds
  the Applications; it is the record \<open>configure_env\<close> of functions here, and the document is its records.
\<close>

section \<open>The document\<close>

datatype execution_host = NativeRust | DotNet | Java | Python | CAbi | Go | PowerShell | Bash

record capability =
  cb_capability :: string
  cb_trusted_required :: bool
  cb_execution_host :: execution_host

record manifest =
  mf_name :: string
  mf_capabilities :: "capability list"
  mf_symbol :: "string option"
  mf_library_path :: "string option"
  mf_executable_path :: "string option"

record module_configuration =
  mo_name :: string
  mo_start :: bool
  mo_manifest :: manifest

record extension_manifest =
  xm_name :: string
  xm_version :: string
  xm_entrypoint :: string

record work_process_configuration =
  wc_name :: string
  wc_start :: bool
  wc_required_modules :: "string list"
  wc_extensions :: "extension_manifest list"

record 'g started_location = configured_location +
  sc_address :: string
  sc_start :: bool
  sc_contract :: "string option"
  sc_settings :: 'g

record 'g application_binding =
  ab_receive_locations :: "'g started_location list"
  ab_send_ports :: "'g started_location list"

record domain_table =
  dt_storage :: string
  dt_connection :: string

record storage_table =
  sb_nodes :: "string list"
  sb_listen :: "string option"
  sb_password :: "string option"
  sb_presented :: "string + (string \<times> string \<times> string) option"

record declared_correlation =
  dq_name :: string
  dq_keys :: "string list"
  dq_on_failure :: "on_failure option"

datatype purpose = ForReceive | ForOperate | ForProcess | ForSend

record party_identity =
  pi_mechanism :: string
  pi_value :: string
  pi_purpose :: purpose
  pi_secret :: "string option"

record party_configuration =
  pf_id :: "ident option"
  pf_name :: string
  pf_identities :: "party_identity list"

text \<open>\<open>'x\<close> is what is handed on and not looked into: the service's table, a Subscription.\<close>

record ('g, 'x) document =
  dc_service :: 'x
  dc_roles :: "string option"
  dc_modules :: "module_configuration list"
  dc_work_processes :: "work_process_configuration list"
  dc_receive_locations :: "'g started_location list"
  dc_send_locations :: "'g started_location list"
  dc_applications :: "'g application_binding list"
  dc_tuning :: 'g
  dc_storage :: storage_table
  dc_domains :: "domain_table option \<times> domain_table option \<times> domain_table option"
  dc_parties :: "party_configuration list"
  dc_correlations :: "declared_correlation list"

type_synonym application = "(string \<times> string option) list"

record designed_receive =
  dr_name :: string
  dr_correlation :: "string option"

record receive_port =
  rp_name :: string
  rp_correlation :: "string option"
  rp_receive_locations :: "designed_receive list"

record correlated_port = designed_send_port +
  cp_correlation :: "string option"

record correlated_group = send_port_group +
  cg_correlation :: "string option"

record ('g, 'x) bound =
  bo_receive_locations :: "'g started_location list"
  bo_receive_ports :: "receive_port list"
  bo_send_locations :: "'g started_location list"
  bo_send_ports :: "correlated_port list"
  bo_designed_send_ports :: "correlated_port list"
  bo_send_location_sets :: "(string \<times> string) list"
  bo_subscriptions :: "'x list"
  bo_send_port_groups :: "correlated_group list"

datatype location_side = ReceiveSide | SendSide

datatype database = RuntimeDatabase | AdministrationDatabase | AuditDatabase

record domain =
  dm_database :: database
  dm_storage :: string
  dm_connection :: string

text \<open>\<open>domains\<close> of \<open>src/storage.rs\<close>: the tables the document holds, each with its database.\<close>

definition domains :: "('g, 'x) document \<Rightarrow> domain list" where
  "domains d =
     (case dc_domains d of
        (runtime, administration, audit) \<Rightarrow>
         List.map_filter (\<lambda>(database, table). map_option (\<lambda>t. \<lparr>dm_database = database, dm_storage = dt_storage t, dm_connection = dt_connection t\<rparr>) table)
           [(RuntimeDatabase, runtime), (AdministrationDatabase, administration), (AuditDatabase, audit)])"

text \<open>The configuration library: what it answers of a document; \<open>ce_settings\<close> reads a table through \<open>TUNING\<close>.\<close>

record ('g, 'x, 's) configure_env =
  ce_location_problems :: "'g started_location \<Rightarrow> location_side \<Rightarrow> (string \<times> 's) list \<Rightarrow> string list"
  ce_binding_problems :: "('g, 'x) document \<Rightarrow> string list"
  ce_step_problems :: "('g, 'x) document \<Rightarrow> string list"
  ce_storage_problems :: "storage_table \<Rightarrow> string list"
  ce_database_problems :: "domain list \<Rightarrow> string option \<Rightarrow> string list"
  ce_settings :: "'g \<Rightarrow> settings_read"
  ce_bind :: "('g, 'x) document \<Rightarrow> application list \<Rightarrow> string list + ('g, 'x) bound"
  ce_bound_problems :: "declared_correlation list \<Rightarrow> ('g, 'x) bound \<Rightarrow> (string \<times> string) list \<Rightarrow> string list"

section \<open>What would stop the node starting\<close>

record startup_report =
  sr_errors :: "string list"
  sr_warnings :: "string list"

definition report_is_valid :: "startup_report \<Rightarrow> bool" where
  "report_is_valid r \<longleftrightarrow> sr_errors r = []"

definition blank :: "string \<Rightarrow> bool" where
  "blank s \<longleftrightarrow> trim s = []"

definition validate_module :: "module_configuration \<Rightarrow> string list \<times> string list" where
  "validate_module m =
     (if blank (mo_name m) then [''configured module requires a name''] else [],
      if mf_capabilities (mo_manifest m) = [] then [''module '' @ quoted (mo_name m) @ '' declares no capabilities''] else [])"

definition validate_required_module :: "string set \<Rightarrow> string set \<Rightarrow> string \<Rightarrow> string \<Rightarrow> string list \<times> string list" where
  "validate_required_module configured started owner required =
     (if required \<notin> configured then ([owner @ '' requires missing module '' @ quoted required], [])
      else if required \<notin> started
        then ([], [owner @ '' requires module '' @ quoted required @ '', but it is configured not to start''])
      else ([], []))"

definition verify_extension_manifest :: "string \<Rightarrow> extension_manifest \<Rightarrow> string list" where
  "verify_extension_manifest owner x =
     (if blank (xm_name x) then [owner @ '' references an extension without a name''] else []) @
     (if blank (xm_version x) then [''extension '' @ quoted (xm_name x) @ '' requires a version''] else []) @
     (if blank (xm_entrypoint x) then [''extension '' @ quoted (xm_name x) @ '' requires an entrypoint path''] else [])"

definition validate_work_process :: "string set \<Rightarrow> string set \<Rightarrow> work_process_configuration \<Rightarrow> string list \<times> string list" where
  "validate_work_process configured started w =
     (let owner = ''Work Process '' @ quoted (wc_name w);
          required = map (validate_required_module configured started owner) (wc_required_modules w) in
      ((if blank (wc_name w) then [''configured Work Process requires a name''] else []) @
         concat (map fst required) @ concat (map (verify_extension_manifest owner) (wc_extensions w)),
       concat (map snd required)))"

definition validate_location :: "string \<Rightarrow> 'g started_location \<Rightarrow> string list" where
  "validate_location stage l =
     (if blank (co_name l) then [''configured '' @ stage @ '' requires a name''] else []) @
     (if blank (sc_address l) then [stage @ '' '' @ quoted (co_name l) @ '' requires an address''] else [])"

definition own_location_problems ::
  "('g, 'x, 's) configure_env \<Rightarrow> (string \<times> 's) list \<Rightarrow> string \<Rightarrow> location_side \<Rightarrow> 'g started_location list \<Rightarrow> string list" where
  "own_location_problems env declared stage side ls =
     concat (map (\<lambda>l. validate_location stage l @ ce_location_problems env l side declared) ls)"

definition bound_location_problems ::
  "('g, 'x, 's) configure_env \<Rightarrow> (string \<times> 's) list \<Rightarrow> 'g application_binding \<Rightarrow> string list" where
  "bound_location_problems env declared b =
     concat (map (\<lambda>l. ce_location_problems env l ReceiveSide declared) (ab_receive_locations b)) @
     concat (map (\<lambda>l. ce_location_problems env l SendSide declared) (ab_send_ports b))"

definition tuning_problems :: "settings_read \<Rightarrow> string list" where
  "tuning_problems rd = (case tuning_read rd of Inl problems \<Rightarrow> problems | Inr _ \<Rightarrow> [])"

definition validate_startup_configuration ::
  "('g, 'x, 's) configure_env \<Rightarrow> ('g, 'x) document \<Rightarrow> (string \<times> 's) list \<Rightarrow> startup_report" where
  "validate_startup_configuration env d declared =
     (let configured = set (map mo_name (dc_modules d));
          started = set (map mo_name (filter mo_start (dc_modules d)));
          modules = map validate_module (dc_modules d);
          processes = map (validate_work_process configured started) (dc_work_processes d) in
      \<lparr>sr_errors =
         concat (map fst modules) @ concat (map fst processes) @
         own_location_problems env declared ''Receive Location'' ReceiveSide (dc_receive_locations d) @
         own_location_problems env declared ''Send Location'' SendSide (dc_send_locations d) @
         concat (map (bound_location_problems env declared) (dc_applications d)) @
         ce_binding_problems env d @ ce_step_problems env d @ tuning_problems (ce_settings env (dc_tuning d)) @
         ce_storage_problems env (dc_storage d) @ ce_database_problems env (domains d) (sb_password (dc_storage d)),
       sr_warnings = concat (map snd modules) @ concat (map snd processes)\<rparr>)"

section \<open>What starts\<close>

record verified_extension =
  ve_name :: string
  ve_version :: string
  ve_loaded_during_startup :: bool

definition verified_extension_of :: "extension_manifest \<Rightarrow> verified_extension" where
  "verified_extension_of x = \<lparr>ve_name = xm_name x, ve_version = xm_version x, ve_loaded_during_startup = False\<rparr>"

record ('g, 'x) execution_tree =
  et_service :: 'x
  et_modules_to_start :: "module_configuration list"
  et_work_processes_to_start :: "work_process_configuration list"
  et_receive_locations_to_start :: "'g started_location list"
  et_receive_ports :: "receive_port list"
  et_send_locations_to_start :: "'g started_location list"
  et_send_ports :: "correlated_port list"
  et_designed_send_ports :: "correlated_port list"
  et_send_location_sets :: "(string \<times> string) list"
  et_receive_locations_not_started :: "string list"
  et_send_locations_not_started :: "string list"
  et_verified_extensions :: "verified_extension list"
  et_subscriptions :: "'x list"
  et_send_port_groups :: "correlated_group list"
  et_tuning :: tuning
  et_parties :: "party_configuration list"
  et_correlations :: "declared_correlation list"
  et_work_process_sets :: "(string \<times> string) list"

definition not_started :: "('g, 'x) execution_tree \<Rightarrow> (string \<times> string) list" where
  "not_started t =
     map (Pair ''receive'') (et_receive_locations_not_started t) @ map (Pair ''send'') (et_send_locations_not_started t)"

definition starting :: "'g started_location list \<Rightarrow> 'g started_location list \<times> string list" where
  "starting ls = (filter sc_start ls, map co_name (filter (\<lambda>l. \<not> sc_start l) ls))"

definition work_process_sets :: "application list \<Rightarrow> (string \<times> string) list" where
  "work_process_sets apps = List.map_filter (\<lambda>(name, correlation). map_option (Pair name) correlation) (concat apps)"

text \<open>The tree of a document that was validated and bound, and whose tuning was read.\<close>

definition tree_of :: "('g, 'x) document \<Rightarrow> application list \<Rightarrow> ('g, 'x) bound \<Rightarrow> tuning \<Rightarrow> ('g, 'x) execution_tree" where
  "tree_of d apps b t =
     (let processes = filter wc_start (dc_work_processes d);
          receives = starting (dc_receive_locations d @ bo_receive_locations b);
          sends = starting (dc_send_locations d @ bo_send_locations b) in
      \<lparr>et_service = dc_service d, et_modules_to_start = filter mo_start (dc_modules d), et_work_processes_to_start = processes,
       et_receive_locations_to_start = fst receives, et_receive_ports = bo_receive_ports b,
       et_send_locations_to_start = fst sends, et_send_ports = bo_send_ports b, et_designed_send_ports = bo_designed_send_ports b,
       et_send_location_sets = bo_send_location_sets b, et_receive_locations_not_started = snd receives,
       et_send_locations_not_started = snd sends,
       et_verified_extensions = map verified_extension_of (concat (map wc_extensions processes)),
       et_subscriptions = bo_subscriptions b, et_send_port_groups = bo_send_port_groups b, et_tuning = t,
       et_parties = dc_parties d, et_correlations = dc_correlations d, et_work_process_sets = work_process_sets apps\<rparr>)"

definition build_execution_tree ::
  "('g, 'x, 's) configure_env \<Rightarrow> ('g, 'x) document \<Rightarrow> application list \<Rightarrow> (string \<times> 's) list \<Rightarrow>
     startup_report + ('g, 'x) execution_tree \<times> startup_report" where
  "build_execution_tree env d apps declared =
     (let report = validate_startup_configuration env d declared in
      if \<not> report_is_valid report then Inl report
      else
        case ce_bind env d apps of
          Inl problems \<Rightarrow> Inl (report\<lparr>sr_errors := sr_errors report @ problems\<rparr>)
        | Inr b \<Rightarrow>
           let unset = ce_bound_problems env (dc_correlations d) b (work_process_sets apps) in
           if unset \<noteq> [] then Inl (report\<lparr>sr_errors := sr_errors report @ unset\<rparr>)
           else
             case tuning_read (ce_settings env (dc_tuning d)) of
               Inl problems \<Rightarrow> Inl \<lparr>sr_errors = problems, sr_warnings = []\<rparr>
             | Inr t \<Rightarrow> Inr (tree_of d apps b t, report))"

section \<open>What a built tree promises\<close>

lemma validate_location_none: "validate_location stage l = [] \<longleftrightarrow> \<not> blank (co_name l) \<and> \<not> blank (sc_address l)"
  by (simp add: validate_location_def)

lemma required_module_none: "fst (validate_required_module configured started owner required) = [] \<longleftrightarrow> required \<in> configured"
  by (simp add: validate_required_module_def)

lemma tuning_problems_none:
  assumes "\<And>problems. tuning_read rd = Inl problems \<Longrightarrow> problems \<noteq> []"
  shows "tuning_problems rd = [] \<longleftrightarrow> (\<exists>t. tuning_read rd = Inr t)"
  using assms by (cases "tuning_read rd") (auto simp: tuning_problems_def)

text \<open>What a valid report says of the document.\<close>

lemma validated:
  assumes "report_is_valid (validate_startup_configuration env d declared)"
  shows "list_all (\<lambda>l. \<not> blank (co_name l) \<and> \<not> blank (sc_address l)) (dc_receive_locations d @ dc_send_locations d)"
    and "list_all (\<lambda>w. set (wc_required_modules w) \<subseteq> mo_name ` set (dc_modules d)) (dc_work_processes d)"
    and "list_all (\<lambda>l. ce_location_problems env l ReceiveSide declared = []) (dc_receive_locations d)"
    and "list_all (\<lambda>l. ce_location_problems env l SendSide declared = []) (dc_send_locations d)"
    and "tuning_problems (ce_settings env (dc_tuning d)) = []"
proof -
  have e: "sr_errors (validate_startup_configuration env d declared) = []" using assms by (simp add: report_is_valid_def)
  show "list_all (\<lambda>l. \<not> blank (co_name l) \<and> \<not> blank (sc_address l)) (dc_receive_locations d @ dc_send_locations d)"
    using e by (auto simp: validate_startup_configuration_def Let_def own_location_problems_def list_all_iff validate_location_none)
  show "list_all (\<lambda>w. set (wc_required_modules w) \<subseteq> mo_name ` set (dc_modules d)) (dc_work_processes d)"
    using e by (auto simp: validate_startup_configuration_def Let_def validate_work_process_def list_all_iff required_module_none)
  show "list_all (\<lambda>l. ce_location_problems env l ReceiveSide declared = []) (dc_receive_locations d)"
    using e by (auto simp: validate_startup_configuration_def Let_def own_location_problems_def list_all_iff)
  show "list_all (\<lambda>l. ce_location_problems env l SendSide declared = []) (dc_send_locations d)"
    using e by (auto simp: validate_startup_configuration_def Let_def own_location_problems_def list_all_iff)
  show "tuning_problems (ce_settings env (dc_tuning d)) = []"
    using e by (simp add: validate_startup_configuration_def Let_def)
qed

text \<open>What the configuration library promises of a refusal: that it says why.\<close>

definition refusals_say_why :: "('g, 'x, 's) configure_env \<Rightarrow> bool" where
  "refusals_say_why env \<longleftrightarrow> (\<forall>d apps. ce_bind env d apps \<noteq> Inl []) \<and> (\<forall>g. ce_settings env g \<noteq> Inl [])"

lemma tuning_read_says_why:
  assumes "tuning_read rd = Inl problems" and "rd \<noteq> Inl []"
  shows "problems \<noteq> []"
  using assms by (auto simp: tuning_read_def Let_def split: sum.splits prod.splits if_splits)

lemma starting_partition:
  "mset (map (\<lambda>l. (stage, co_name l)) (fst (starting ls)) @ map (Pair stage) (snd (starting ls))) = mset (map (\<lambda>l. (stage, co_name l)) ls)"
  by (induction ls) (auto simp: starting_def)

text \<open>Every Location of a stage, those the document holds and those its bindings give it.\<close>

definition known_locations :: "('g, 'x) document \<Rightarrow> ('g, 'x) bound \<Rightarrow> (string \<times> string) list" where
  "known_locations d b =
     map (\<lambda>l. (''receive'', co_name l)) (dc_receive_locations d @ bo_receive_locations b) @
     map (\<lambda>l. (''send'', co_name l)) (dc_send_locations d @ bo_send_locations b)"

definition started_names :: "('g, 'x) execution_tree \<Rightarrow> (string \<times> string) list" where
  "started_names t =
     map (\<lambda>l. (''receive'', co_name l)) (et_receive_locations_to_start t) @
     map (\<lambda>l. (''send'', co_name l)) (et_send_locations_to_start t)"

lemma tree_partitions: "mset (started_names (tree_of d apps b t) @ not_started (tree_of d apps b t)) = mset (known_locations d b)"
proof -
  let ?r = "starting (dc_receive_locations d @ bo_receive_locations b)" and ?s = "starting (dc_send_locations d @ bo_send_locations b)"
  have "mset (started_names (tree_of d apps b t) @ not_started (tree_of d apps b t)) =
      mset (map (\<lambda>l. (''receive'', co_name l)) (fst ?r) @ map (Pair ''receive'') (snd ?r)) +
      mset (map (\<lambda>l. (''send'', co_name l)) (fst ?s) @ map (Pair ''send'') (snd ?s))"
    by (simp add: started_names_def not_started_def tree_of_def Let_def ac_simps)
  also have "\<dots> = mset (known_locations d b)" by (simp only: starting_partition) (simp add: known_locations_def)
  finally show ?thesis .
qed

text \<open>What holds of a tree that was built of the bindings \<open>b\<close>.\<close>

definition tree_promises ::
  "('g, 'x, 's) configure_env \<Rightarrow> ('g, 'x) document \<Rightarrow> (string \<times> 's) list \<Rightarrow> ('g, 'x) bound \<Rightarrow> ('g, 'x) execution_tree \<Rightarrow> bool" where
  "tree_promises env d declared b t \<longleftrightarrow>
     mset (started_names t @ not_started t) = mset (known_locations d b) \<and>
     list_all sc_start (et_receive_locations_to_start t @ et_send_locations_to_start t) \<and>
     list_all (\<lambda>l. l \<in> set (dc_receive_locations d) \<longrightarrow>
         \<not> blank (co_name l) \<and> \<not> blank (sc_address l) \<and> ce_location_problems env l ReceiveSide declared = [])
       (et_receive_locations_to_start t) \<and>
     list_all (\<lambda>l. l \<in> set (dc_send_locations d) \<longrightarrow>
         \<not> blank (co_name l) \<and> \<not> blank (sc_address l) \<and> ce_location_problems env l SendSide declared = [])
       (et_send_locations_to_start t) \<and>
     list_all (\<lambda>w. set (wc_required_modules w) \<subseteq> mo_name ` set (dc_modules d)) (et_work_processes_to_start t) \<and>
     tuning_read (ce_settings env (dc_tuning d)) = Inr (et_tuning t)"

lemma tree_keeps:
  assumes "report_is_valid (validate_startup_configuration env d declared)" and "tuning_read (ce_settings env (dc_tuning d)) = Inr tn"
  shows "tree_promises env d declared b (tree_of d apps b tn)"
  using validated [OF assms(1)] tree_partitions [of d apps b tn]
  by (auto simp: tree_promises_def tree_of_def Let_def starting_def list_all_iff assms(2))


text \<open>A document of one Receive Location that starts and one that does not, nothing bound.\<close>

definition nothing_bound :: "(unit, unit) bound" where
  "nothing_bound = \<lparr>bo_receive_locations = [], bo_receive_ports = [], bo_send_locations = [], bo_send_ports = [],
     bo_designed_send_ports = [], bo_send_location_sets = [], bo_subscriptions = [], bo_send_port_groups = []\<rparr>"

definition plain_env :: "(unit, unit, unit) configure_env" where
  "plain_env = \<lparr>ce_location_problems = \<lambda>_ _ _. [], ce_binding_problems = \<lambda>_. [], ce_step_problems = \<lambda>_. [], ce_storage_problems = \<lambda>_. [],
     ce_database_problems = \<lambda>_ _. [], ce_settings = \<lambda>_. read_of_nothing some_defaults,
     ce_bind = \<lambda>_ _. Inr nothing_bound, ce_bound_problems = \<lambda>_ _ _. []\<rparr>"

definition inbox :: "bool \<Rightarrow> string \<Rightarrow> unit started_location" where
  "inbox start name = \<lparr>co_name = name, co_parties = [], co_mechanisms = [], co_minimum = [], sc_address = ''file:///in'', sc_start = start,
     sc_contract = None, sc_settings = ()\<rparr>"

definition two_inboxes :: "(unit, unit) document" where
  "two_inboxes = \<lparr>dc_service = (), dc_roles = None, dc_modules = [], dc_work_processes = [],
     dc_receive_locations = [inbox True ''orders'', inbox False ''returns''], dc_send_locations = [], dc_applications = [], dc_tuning = (),
     dc_storage = \<lparr>sb_nodes = [], sb_listen = None, sb_password = None, sb_presented = Inr None\<rparr>, dc_domains = (None, None, None),
     dc_parties = [], dc_correlations = []\<rparr>"


section \<open>The sequences its points name\<close>

text \<open>\<open>words\<close> writes out what \<open>ResolvedSet::read\<close> refuses; \<open>read_word\<close> is the configuration library's.\<close>

definition configured_point ::
  "(string \<Rightarrow> string + key_word) \<Rightarrow> (key_error \<Rightarrow> string) \<Rightarrow> declared_correlation list \<Rightarrow> point_kind \<times> string \<Rightarrow> string \<Rightarrow> string + point" where
  "configured_point read_word words sets at named =
     (case find (\<lambda>c. dq_name c = named) sets of
        None \<Rightarrow> Inl (''the '' @ point_word (fst at) @ '' '' @ quoted (snd at) @ '' names the Correlation '' @ quoted named @
                     '', which the cluster does not declare'')
      | Some c \<Rightarrow>
         (case read_set read_word (dq_name c) (dq_keys c) of
            Inl e \<Rightarrow> Inl (words e)
          | Inr keys \<Rightarrow> Inr \<lparr>pt_kind = fst at, pt_name = snd at, pt_set = keys,
                             pt_on_failure = (case dq_on_failure c of None \<Rightarrow> Block | Some f \<Rightarrow> f)\<rparr>))"

fun receive_port_at :: "receive_port list \<Rightarrow> string \<Rightarrow> (receive_port \<times> designed_receive) option" where
  "receive_port_at [] location = None"
| "receive_port_at (port # ports) location =
     (case find (\<lambda>d. dr_name d = location) (rp_receive_locations port) of
        None \<Rightarrow> receive_port_at ports location
      | Some d \<Rightarrow> Some (port, d))"

definition received_at ::
  "(string \<Rightarrow> string + key_word) \<Rightarrow> (key_error \<Rightarrow> string) \<Rightarrow> ('g, 'x) execution_tree \<Rightarrow> string \<Rightarrow> string + string \<times> point list" where
  "received_at read_word words t location =
     (case receive_port_at (et_receive_ports t) location of
        None \<Rightarrow> Inr ([], [point_receive_location location])
      | Some (port, designed) \<Rightarrow>
         (case (case dr_correlation designed of
                  Some named \<Rightarrow> configured_point read_word words (et_correlations t) (ReceiveLocation, location) named
                | None \<Rightarrow> Inr (point_receive_location location)) of
            Inl why \<Rightarrow> Inl why
          | Inr own \<Rightarrow>
             (case rp_correlation port of
                None \<Rightarrow> Inr (rp_name port, [own])
              | Some named \<Rightarrow>
                 (case configured_point read_word words (et_correlations t) (ReceivePort, rp_name port) named of
                    Inl why \<Rightarrow> Inl why
                  | Inr p \<Rightarrow> Inr (rp_name port, [own, p])))))"

text \<open>Every destination that names a Correlation, in the order they are read.\<close>

definition destination_sets :: "('g, 'x) execution_tree \<Rightarrow> ((point_kind \<times> string) \<times> string) list" where
  "destination_sets t =
     List.map_filter (\<lambda>p. map_option (Pair (SendPort, dp_name p)) (cp_correlation p)) (et_designed_send_ports t) @
     List.map_filter (\<lambda>g. map_option (Pair (SendPortGroup, sg_name g)) (cg_correlation g)) (et_send_port_groups t) @
     map (\<lambda>(name, named). ((SendLocation, name), named)) (et_send_location_sets t) @
     map (\<lambda>(name, named). ((WorkProcess, name), named)) (et_work_process_sets t)"

primrec lefts :: "('e + 'a) list \<Rightarrow> 'e list" where
  "lefts [] = []"
| "lefts (r # rs) = (case r of Inl e \<Rightarrow> e # lefts rs | Inr _ \<Rightarrow> lefts rs)"

primrec rights :: "('e + 'a) list \<Rightarrow> 'a list" where
  "rights [] = []"
| "rights (r # rs) = (case r of Inl _ \<Rightarrow> rights rs | Inr x \<Rightarrow> x # rights rs)"

definition results :: "('e + 'a) list \<Rightarrow> 'e list + 'a list" where
  "results rs = (if lefts rs = [] then Inr (rights rs) else Inl (lefts rs))"

definition destinations ::
  "(string \<Rightarrow> string + key_word) \<Rightarrow> (key_error \<Rightarrow> string) \<Rightarrow> ('g, 'x) execution_tree \<Rightarrow> string list + point list" where
  "destinations read_word words t =
     results (map (\<lambda>(at, named). configured_point read_word words (et_correlations t) at named) (destination_sets t))"

lemma lefts_none: "lefts rs = [] \<longleftrightarrow> rs = map Inr (rights rs)"
  by (induction rs) (auto split: sum.splits)

lemma lefts_rights_Inr [simp]: "lefts (map Inr xs) = []" "rights (map Inr xs) = xs"
  by (induction xs) simp_all

lemma results_ok: "results rs = Inr xs \<longleftrightarrow> rs = map Inr xs"
  using lefts_none [of rs] by (auto simp: results_def)

lemma configured_point_at: "configured_point read_word words sets at named = Inr p \<Longrightarrow> (pt_kind p, pt_name p) = at"
  by (auto simp: configured_point_def split: option.splits sum.splits)

lemma destinations_every:
  assumes "destinations read_word words t = Inr points"
  shows "map (\<lambda>p. (pt_kind p, pt_name p)) points = map fst (destination_sets t)"
proof -
  have "map (\<lambda>p. (pt_kind p, pt_name p)) ps = map fst ds"
    if "map (\<lambda>(at, named). configured_point read_word words (et_correlations t) at named) ds = map Inr ps" for ps ds
    using that by (induction ds arbitrary: ps) (auto simp: Cons_eq_map_conv dest: configured_point_at)
  then show ?thesis using assms by (simp add: destinations_def results_ok)
qed

end
