(* ===== verification/Startup.thy ===== *)
theory Startup
  imports Execution_Tree "HOL-Library.Char_ord" "HOL-Library.List_Lexorder"
begin

text \<open>
  \<open>src/startup.rs\<close> with \<open>src/linked.rs\<close>, \<open>src/parties.rs\<close>, \<open>src/host.rs\<close>, \<open>src/capability_registry.rs\<close> and what of
  \<open>src/library.rs\<close> says where a Module's library is: startup phases 3 to 9, what a configuration names held to what
  the program was built with, the Host Services and capabilities that is, and each Location's transport built
  once. The technologies linked, the routing library's gathering and the gates' acceptance are arguments.
\<close>

section \<open>What a program linked\<close>

text \<open>A transport technology: \<open>lt_open\<close> builds it for a Location on the node, with the secret the Location names.\<close>

record ('g, 's, 'tr) linked_transport =
  lt_technology :: string
  lt_schemes :: "string list"
  lt_settings :: 's
  lt_target :: "'g started_location \<Rightarrow> string"
  lt_open :: "'g started_location \<Rightarrow> location_side \<Rightarrow> string option \<Rightarrow> string + 'tr"

record ('g, 's, 'tr) linked =
  lk_transports :: "('g, 's, 'tr) linked_transport list"
  lk_sources :: "string list"
  lk_authenticators :: "string list"
  lk_policies :: "string list"
  lk_transport_identifiers :: "string list"
  lk_message_identifiers :: "string list"

text \<open>\<open>scheme\<close> is the configuration library's reading of the scheme a Location's address is entered with.\<close>

definition chosen_by :: "('g started_location \<Rightarrow> string) \<Rightarrow> 'g started_location \<Rightarrow> ('g, 's, 'tr) linked_transport \<Rightarrow> bool" where
  "chosen_by scheme l t \<longleftrightarrow> scheme l \<in> set (lt_schemes t)"

definition transport_of :: "('g started_location \<Rightarrow> string) \<Rightarrow> ('g, 's, 'tr) linked \<Rightarrow> 'g started_location \<Rightarrow> ('g, 's, 'tr) linked_transport option" where
  "transport_of scheme lk l = find (chosen_by scheme l) (lk_transports lk)"

definition declarations :: "('g, 's, 'tr) linked \<Rightarrow> (string \<times> 's) list" where
  "declarations lk = concat (map (\<lambda>t. map (\<lambda>scheme. (scheme, lt_settings t)) (lt_schemes t)) (lk_transports lk))"

definition both_declare :: "('g, 's, 'tr) linked_transport \<Rightarrow> ('g, 's, 'tr) linked_transport \<Rightarrow> string list" where
  "both_declare first other =
     map (\<lambda>scheme. ''the scheme '' @ quoted scheme @ '' is declared by both '' @ lt_technology first @ '' and '' @ lt_technology other)
       (filter (\<lambda>scheme. scheme \<in> set (lt_schemes other)) (lt_schemes first))"

fun scheme_problems_of :: "('g, 's, 'tr) linked_transport list \<Rightarrow> string list" where
  "scheme_problems_of [] = []"
| "scheme_problems_of (first # rest) = concat (map (both_declare first) rest) @ scheme_problems_of rest"

definition scheme_problems :: "('g, 's, 'tr) linked \<Rightarrow> string list" where
  "scheme_problems lk = scheme_problems_of (lk_transports lk)"

lemma both_declare_none: "both_declare a b = [] \<longleftrightarrow> set (lt_schemes a) \<inter> set (lt_schemes b) = {}"
  by (auto simp: both_declare_def filter_empty_conv)

lemma scheme_problems_none:
  "scheme_problems_of ts = [] \<longleftrightarrow> sorted_wrt (\<lambda>a b. set (lt_schemes a) \<inter> set (lt_schemes b) = {}) ts"
  by (induction ts) (auto simp: both_declare_none)

lemma transport_only:
  assumes "scheme_problems lk = []" and "t \<in> set (lk_transports lk)" and "chosen_by scheme l t"
  shows "transport_of scheme lk l = Some t"
proof -
  have "find (chosen_by scheme l) ts = Some t"
    if "scheme_problems_of ts = []" and "t \<in> set ts" for ts
    using that assms(3) by (induction ts) (auto simp: chosen_by_def both_declare_none)
  then show ?thesis using assms(1,2) by (simp add: transport_of_def scheme_problems_def)
qed

section \<open>The Parties\<close>

text \<open>What the party and mechanism libraries do: a Party begun, given an identity, and what it holds.\<close>

record 'y party_env =
  pe_new :: "ident \<Rightarrow> string \<Rightarrow> 'y"
  pe_with :: "'y \<Rightarrow> party_identity \<Rightarrow> 'y"
  pe_holds :: "'y \<Rightarrow> string \<Rightarrow> purpose \<Rightarrow> string \<Rightarrow> bool"
  pe_id :: "'y \<Rightarrow> ident"
  pe_named :: "string \<Rightarrow> string option"
  pe_secret :: "string \<Rightarrow> string + string"

definition declared_mechanism :: "'y party_env \<Rightarrow> string \<Rightarrow> string list \<Rightarrow> string option" where
  "declared_mechanism env word authenticators =
     (case find (\<lambda>m. m = word) authenticators of Some m \<Rightarrow> Some m | None \<Rightarrow> pe_named env word)"

fun purpose_word :: "purpose \<Rightarrow> string" where
  "purpose_word ForReceive = ''receive''"
| "purpose_word ForOperate = ''operate''"
| "purpose_word ForProcess = ''process''"
| "purpose_word ForSend = ''send''"

definition identity_built :: "'y party_env \<Rightarrow> string list \<Rightarrow> party_identity \<Rightarrow> string + party_identity" where
  "identity_built env authenticators i =
     (case declared_mechanism env (pi_mechanism i) authenticators of
        None \<Rightarrow> Inl (''has an identity under '' @ quoted (pi_mechanism i) @
                     '', a mechanism neither this node'' @ [CHR 0x27] @ ''s authenticators nor Xmip declare'')
      | Some mechanism \<Rightarrow>
         (if pi_purpose i \<in> {ForReceive, ForOperate} then Inr (i\<lparr>pi_mechanism := mechanism, pi_secret := None\<rparr>)
          else
            case pe_secret env (case pi_secret i of None \<Rightarrow> [] | Some s \<Rightarrow> s) of
              Inl why \<Rightarrow> Inl (''has the '' @ pi_mechanism i @ '' identity '' @ quoted (pi_value i) @ '' for '' @
                              purpose_word (pi_purpose i) @ '', whose secret is not one: '' @ why)
            | Inr secret \<Rightarrow> Inr (i\<lparr>pi_mechanism := mechanism, pi_secret := Some secret\<rparr>)))"

definition parties_of :: "'y party_env \<Rightarrow> party_configuration list \<Rightarrow> string list \<Rightarrow> string list + 'y list" where
  "parties_of env configured authenticators =
     (let written = List.map_filter (\<lambda>p. map_option (\<lambda>i. (i, p)) (pf_id p)) configured;
          problems = concat (map (\<lambda>(_, p). map (\<lambda>why. ''the Party '' @ quoted (pf_name p) @ '' '' @ why)
                                             (lefts (map (identity_built env authenticators) (pf_identities p)))) written) in
      if problems = []
      then Inr (map (\<lambda>(i, p). fold (\<lambda>identity y. pe_with env y identity)
                                 (rights (map (identity_built env authenticators) (pf_identities p))) (pe_new env i (pf_name p))) written)
      else Inl problems)"

definition parties_resolve :: "'y party_env \<Rightarrow> 'y list \<Rightarrow> string \<Rightarrow> purpose \<Rightarrow> string \<Rightarrow> ident option" where
  "parties_resolve env ps mechanism purpose value = map_option (pe_id env) (find (\<lambda>p. pe_holds env p mechanism purpose value) ps)"

definition parties_party :: "'y party_env \<Rightarrow> 'y list \<Rightarrow> ident \<Rightarrow> 'y option" where
  "parties_party env ps i = find (\<lambda>p. pe_id env p = i) ps"

section \<open>Phase 3: what only the program can answer\<close>

text \<open>The libraries a check asks: the routing library's gathering, what a gate accepts, the key words.\<close>

record ('g, 'x, 'a, 'y, 'q) check_env =
  ck_scheme :: "'g started_location \<Rightarrow> string"
  ck_party :: "'y party_env"
  ck_closed :: 'a
  ck_from_party :: "ident \<Rightarrow> 'a \<Rightarrow> 'a"
  ck_accepting :: "string \<Rightarrow> 'a \<Rightarrow> 'a"
  ck_party_named :: "party_configuration list \<Rightarrow> string \<Rightarrow> ident option"
  ck_accepted_problems :: "party_configuration list \<Rightarrow> configured_location \<Rightarrow> string list"
  ck_policy :: identity_policy
  ck_read_word :: "string \<Rightarrow> string + key_word"
  ck_words :: "key_error \<Rightarrow> string"
  ck_gathering_of :: "string list \<Rightarrow> 'x list \<Rightarrow> 'q"
  ck_gathering_new :: "string list \<Rightarrow> string list \<Rightarrow> 'q"
  ck_properties :: "'q \<Rightarrow> string list"
  ck_refusals :: "'q \<Rightarrow> string list"
  ck_technology :: "string \<Rightarrow> string"
  ck_context :: string

definition started :: "('g, 'x) execution_tree \<Rightarrow> (string \<times> 'g started_location) list" where
  "started t = map (Pair ''Receive Location'') (et_receive_locations_to_start t) @ map (Pair ''Send Location'') (et_send_locations_to_start t)"

fun comma_joined :: "string list \<Rightarrow> string" where
  "comma_joined [] = []"
| "comma_joined [x] = x"
| "comma_joined (x # xs) = x @ '', '' @ comma_joined xs"

definition location_uncarried :: "('g, 'x, 'a, 'y, 'q) check_env \<Rightarrow> ('g, 's, 'tr) linked \<Rightarrow> string \<times> 'g started_location \<Rightarrow> string list" where
  "location_uncarried env lk at =
     (case at of (stage, l) \<Rightarrow>
       (if transport_of (ck_scheme env) lk l = None
        then [''the '' @ stage @ '' '' @ quoted (co_name l) @ '' is entered as '' @ sc_address l @ '', and this node carries no transport for '' @
              ck_scheme env l @ ''://; it carries '' @ comma_joined (concat (map lt_schemes (lk_transports lk)))]
        else []) @
       (case sc_contract l of
          None \<Rightarrow> []
        | Some contract \<Rightarrow> [''the '' @ stage @ '' '' @ quoted (co_name l) @ '' names the contract '' @ quoted contract @
            '', and this runtime holds no Stream to a contract at arrival yet'']))"

definition gate_at ::
  "('g, 'x, 'a, 'y, 'q) check_env \<Rightarrow> ('g, 's, 'tr) linked \<Rightarrow> ('g, 'x) execution_tree \<Rightarrow> 'g started_location \<Rightarrow> string list + 'a receive_gate" where
  "gate_at env lk t l =
     (let c = configured_location.truncate l in
      case receive_gate_of (ck_closed env) (ck_from_party env) (ck_accepting env) (ck_party_named env (et_parties t))
             (ck_accepted_problems env (et_parties t) c) (ck_policy env) point_receive_location (lk_authenticators lk) c of
        Inl refused \<Rightarrow> Inl refused
      | Inr gate \<Rightarrow>
         (case received_at (ck_read_word env) (ck_words env) t (co_name l) of
            Inl why \<Rightarrow> Inl [why]
          | Inr (port, points) \<Rightarrow> Inr (gate\<lparr>rg_port := port, rg_points := points\<rparr>)))"

text \<open>\<open>destinations(tree).unwrap_or_default()\<close>, here and where the sends are opened.\<close>

definition destinations_or_none :: "('g, 'x, 'a, 'y, 'q) check_env \<Rightarrow> ('g, 'x) execution_tree \<Rightarrow> point list" where
  "destinations_or_none env t = (case destinations (ck_read_word env) (ck_words env) t of Inl _ \<Rightarrow> [] | Inr points \<Rightarrow> points)"

definition context_names :: "point \<Rightarrow> string list" where
  "context_names p = List.map_filter (\<lambda>k. case k of ContextKey name \<Rightarrow> Some name | _ \<Rightarrow> None) (set_keys (pt_set p))"

definition check ::
  "('g, 'x, 'a, 'y, 'q) check_env \<Rightarrow> ('g, 's, 'tr) linked \<Rightarrow> ('g, 'x) execution_tree \<Rightarrow> string list + 'a receive_gate list \<times> 'q \<times> 'y list" where
  "check env lk t =
     (let parties = parties_of (ck_party env) (et_parties t) (lk_authenticators lk);
          gated = map (gate_at env lk t) (et_receive_locations_to_start t);
          gates = rights gated;
          points = concat (map rg_points gates) @ destinations_or_none env t;
          names = ck_properties env (ck_gathering_of env (lk_sources lk) (et_subscriptions t)) @ concat (map context_names points);
          gathering = ck_gathering_new env (lk_sources lk) names;
          problems = scheme_problems lk @ concat (map (location_uncarried env lk) (started t)) @
            (case parties of Inl refused \<Rightarrow> refused | Inr _ \<Rightarrow> []) @ concat (lefts gated) @
            map (\<lambda>refused. ''a Subscription'' @ [CHR 0x27] @ ''s filter cannot be read: '' @ refused) (ck_refusals env gathering) in
      if problems = [] then Inr (gates, gathering, case parties of Inl _ \<Rightarrow> [] | Inr ps \<Rightarrow> ps) else Inl problems)"

section \<open>Phases 4 and 5: the Host Services\<close>

fun execution_host_name :: "execution_host \<Rightarrow> string" where
  "execution_host_name NativeRust = ''native-rust''"
| "execution_host_name DotNet = ''dotnet''"
| "execution_host_name Java = ''java''"
| "execution_host_name Python = ''python''"
| "execution_host_name CAbi = ''c-abi''"
| "execution_host_name Go = ''go''"
| "execution_host_name PowerShell = ''powershell''"
| "execution_host_name Bash = ''bash''"

fun plus_joined :: "string list \<Rightarrow> string" where
  "plus_joined [] = []"
| "plus_joined [x] = x"
| "plus_joined (x # xs) = x @ ''+'' @ plus_joined xs"

definition host_type :: "manifest \<Rightarrow> string" where
  "host_type m =
     (case remdups_adj (sort (map (\<lambda>c. execution_host_name (cb_execution_host c)) (mf_capabilities m))) of
        [] \<Rightarrow> ''native-rust-host''
      | [only] \<Rightarrow> only @ ''-host''
      | many \<Rightarrow> ''mixed-host('' @ plus_joined many @ '')'')"

datatype host_state = Planned | Starting | Running | Stopped | FailedHost string

text \<open>A plan; its bitness and verified extensions are the same of every one as it is planned, native and none.\<close>

record host_service =
  ho_host_type :: string
  ho_trusted :: bool
  ho_modules :: "manifest list"
  ho_state :: host_state

definition in_process :: "host_service \<Rightarrow> bool" where
  "in_process h \<longleftrightarrow> ho_host_type h \<in> {''native-rust-host'', ''c-abi-host''}"

definition host_start :: "host_service \<Rightarrow> host_service" where
  "host_start h = h\<lparr>ho_state := Running\<rparr>"

definition host_stop :: "host_service \<Rightarrow> host_service" where
  "host_stop h = h\<lparr>ho_state := Stopped\<rparr>"

definition plan_module :: "manifest \<Rightarrow> (string \<rightharpoonup> host_service) \<Rightarrow> (string \<rightharpoonup> host_service)" where
  "plan_module m by_type =
     (let planned = (case by_type (host_type m) of
            None \<Rightarrow> \<lparr>ho_host_type = host_type m, ho_trusted = False, ho_modules = [], ho_state = Planned\<rparr>
          | Some h \<Rightarrow> h) in
      by_type(host_type m \<mapsto>
        planned\<lparr>ho_trusted := ho_trusted planned \<or> list_ex cb_trusted_required (mf_capabilities m), ho_modules := ho_modules planned @ [m]\<rparr>))"

text \<open>The map's values in the order of its keys, which are the modules' host types.\<close>

definition host_plan :: "manifest list \<Rightarrow> host_service list" where
  "host_plan modules =
     List.map_filter (fold plan_module modules Map.empty) (sorted_list_of_set (set (map host_type modules)))"

definition start_host_services :: "host_service list \<Rightarrow> string list + host_service list" where
  "start_host_services hs =
     (let problems = map (\<lambda>h. decimal (length (ho_modules h)) @ '' Module(s) need a '' @ ho_host_type h @
            '', a Host Service in a process of its own, and this node starts none yet'') (filter (\<lambda>h. \<not> in_process h) hs) in
      if problems = [] then Inr (map host_start hs) else Inl problems)"

section \<open>Phases 6 and 7: what was loaded, each capability once\<close>

datatype loaded_as = LinkedIn | FromLibrary string

record registered_capability =
  rc_capability :: string
  rc_module :: string
  rc_load :: loaded_as

type_synonym capability_registry = "string \<rightharpoonup> registered_capability"

definition registry_register :: "registered_capability \<Rightarrow> capability_registry \<Rightarrow> string option \<times> capability_registry" where
  "registry_register r reg =
     (case reg (rc_capability r) of
        Some h \<Rightarrow> (Some (''capability '' @ quoted (rc_capability r) @ '' is already registered, by '' @ quoted (rc_module h)), reg)
      | None \<Rightarrow> (None, reg(rc_capability r \<mapsto> r)))"

fun register_module :: "registered_capability list \<Rightarrow> capability_registry \<Rightarrow> string option \<times> capability_registry" where
  "register_module [] reg = (None, reg)"
| "register_module (r # rs) reg =
     (case registry_register r reg of
        (Some problem, reg) \<Rightarrow> (Some problem, reg)
      | (None, reg) \<Rightarrow> register_module rs reg)"

definition library_path :: "string \<Rightarrow> module_configuration \<Rightarrow> string + string" where
  "library_path entrypoint m =
     (case (case mf_symbol (mo_manifest m) of None \<Rightarrow> None | Some symbol \<Rightarrow> if symbol = entrypoint then None else Some symbol) of
        Some symbol \<Rightarrow> Inl (''the module '' @ quoted (mo_name m) @ '' names the entrypoint '' @ quoted symbol @
            ''; a conforming module exports exactly '' @ entrypoint @ '' (header section 7)'')
      | None \<Rightarrow>
         (case (mf_library_path (mo_manifest m), mf_executable_path (mo_manifest m)) of
            (Some path, executable) \<Rightarrow>
              if \<not> blank path then Inr path
              else if executable \<noteq> None
                then Inl (''the module '' @ quoted (mo_name m) @ '' runs as its own executable, and this runtime starts no Module out of process yet'')
              else Inl (''the module '' @ quoted (mo_name m) @ '' names no library to load'')
          | (None, Some _) \<Rightarrow>
              Inl (''the module '' @ quoted (mo_name m) @ '' runs as its own executable, and this runtime starts no Module out of process yet'')
          | (None, None) \<Rightarrow> Inl (''the module '' @ quoted (mo_name m) @ '' names no library to load'')))"

text \<open>What is registered, in order: each claim alone, then each Module's claims, which stop at its first refused.\<close>

definition linked_claim :: "string \<Rightarrow> string \<Rightarrow> registered_capability list" where
  "linked_claim kind name = [\<lparr>rc_capability = kind @ name, rc_module = name, rc_load = LinkedIn\<rparr>]"

definition module_claims :: "string \<Rightarrow> module_configuration \<Rightarrow> registered_capability list" where
  "module_claims entrypoint m =
     map (\<lambda>c. \<lparr>rc_capability = cb_capability c, rc_module = mf_name (mo_manifest m),
               rc_load = FromLibrary (case library_path entrypoint m of Inl _ \<Rightarrow> [] | Inr path \<Rightarrow> path)\<rparr>)
       (mf_capabilities (mo_manifest m))"

definition used_transports :: "('g, 'x, 'a, 'y, 'q) check_env \<Rightarrow> ('g, 's, 'tr) linked \<Rightarrow> ('g, 'x) execution_tree \<Rightarrow> ('g, 's, 'tr) linked_transport list" where
  "used_transports env lk t =
     (let used = lt_technology ` set (List.map_filter (\<lambda>(_, l). transport_of (ck_scheme env) lk l) (started t)) in
      filter (\<lambda>tr. lt_technology tr \<in> used) (lk_transports lk))"

definition claims :: "('g, 'x, 'a, 'y, 'q) check_env \<Rightarrow> ('g, 's, 'tr) linked \<Rightarrow> string \<Rightarrow> ('g, 'x) execution_tree \<Rightarrow> 'q \<Rightarrow> registered_capability list list" where
  "claims env lk entrypoint t gathering =
     (let read = filter (\<lambda>technology. technology \<noteq> ck_context env) (map (ck_technology env) (ck_properties env gathering)) in
      map (\<lambda>tr. linked_claim ''transport:'' (lt_technology tr)) (used_transports env lk t) @
      map (linked_claim ''route:'') (filter (\<lambda>s. s \<in> set read) (lk_sources lk)) @
      map (linked_claim ''authenticate:'') (sorted_list_of_set (set (concat (map co_mechanisms (et_receive_locations_to_start t))))) @
      map (linked_claim ''authorize:'') (lk_policies lk) @
      map (linked_claim ''identify:transport:'') (lk_transport_identifiers lk) @
      map (linked_claim ''identify:message:'') (lk_message_identifiers lk) @
      map (module_claims entrypoint) (et_modules_to_start t))"

fun register_each :: "registered_capability list list \<Rightarrow> string list \<times> capability_registry \<Rightarrow> string list \<times> capability_registry" where
  "register_each [] s = s"
| "register_each (rs # rss) (problems, reg) =
     (case register_module rs reg of
        (None, reg) \<Rightarrow> register_each rss (problems, reg)
      | (Some problem, reg) \<Rightarrow> register_each rss (problems @ [problem], reg))"

text \<open>\<open>load\<close>: what it carries into the catalogue of every surface, and the registry.\<close>

definition load ::
  "('g, 'x, 'a, 'y, 'q) check_env \<Rightarrow> ('g, 's, 'tr) linked \<Rightarrow> string \<Rightarrow> ('g, 'x) execution_tree \<Rightarrow> 'q \<Rightarrow>
     ('s \<times> string list) list \<times> (string list + capability_registry)" where
  "load env lk entrypoint t gathering =
     (case register_each (claims env lk entrypoint t gathering) ([], Map.empty) of
        (problems, reg) \<Rightarrow>
         (map (\<lambda>tr. (lt_settings tr, lt_schemes tr)) (used_transports env lk t), if problems = [] then Inr reg else Inl problems))"

section \<open>Phase 9: each Location's transport built once\<close>

record ('g, 'a, 'tr) opened_receiving =
  rv_configured :: "'g started_location"
  rv_gate :: "'a receive_gate"
  rv_transport :: 'tr
  rv_limits :: "nat \<times> duration"
  rv_pace :: pace

record ('g, 'tr) opened_sending =
  os_configured :: "'g started_location"
  os_target :: string
  os_transport :: 'tr

record ('g, 'tr) opened_sends =
  on_locations :: "('g, 'tr) opened_sending list"
  on_groups :: "correlated_group list"
  on_ports :: "correlated_port list"
  on_points :: "point list"

text \<open>\<open>secret_name\<close> is the configuration library's reading of the secret a Location names, and \<open>serves\<close> the directions its
  transport declares.\<close>

record ('g, 'tr) open_env =
  oe_secret_name :: "'g started_location \<Rightarrow> (string + string) option"
  oe_serves :: "'tr \<Rightarrow> location_side \<Rightarrow> bool"

definition side_word :: "location_side \<Rightarrow> string" where
  "side_word side = (case side of ReceiveSide \<Rightarrow> ''receive'' | SendSide \<Rightarrow> ''send'')"

text \<open>What building one gives: a problem, nothing said where no transport is chosen, or the transport and its target.\<close>

definition built :: "('g, 'x, 'a, 'y, 'q) check_env \<Rightarrow> ('g, 'tr) open_env \<Rightarrow> ('g, 's, 'tr) linked \<Rightarrow> location_side \<Rightarrow> 'g started_location \<Rightarrow>
     string + ('tr \<times> string) option" where
  "built env oe lk side l =
     (case transport_of (ck_scheme env) lk l of
        None \<Rightarrow> Inr None
      | Some technology \<Rightarrow>
         let opening = (\<lambda>secured.
           case lt_open technology l side secured of
             Inl failure \<Rightarrow> Inl (''the Location '' @ quoted (co_name l) @ '': '' @ failure)
           | Inr transport \<Rightarrow>
              if oe_serves oe transport side then Inr (Some (transport, lt_target technology l))
              else Inl (''the Location '' @ quoted (co_name l) @ '': '' @ lt_technology technology @ '' does not '' @ side_word side @ '' (ADR-0010)'')) in
         case oe_secret_name oe l of
           Some (Inl refused) \<Rightarrow> Inl refused
         | Some (Inr name) \<Rightarrow> opening (Some name)
         | None \<Rightarrow> opening None)"

definition opened_locations :: "('g \<Rightarrow> 'e + 'b option) \<Rightarrow> ('g \<Rightarrow> 'b \<Rightarrow> 'c) \<Rightarrow> 'g list \<Rightarrow> 'e list \<times> 'c list" where
  "opened_locations building made ls =
     (lefts (map building ls),
      List.map_filter (\<lambda>l. case building l of Inr (Some b) \<Rightarrow> Some (made l b) | _ \<Rightarrow> None) ls)"

definition open_all ::
  "('g, 'x, 'a, 'y, 'q) check_env \<Rightarrow> ('g, 'tr) open_env \<Rightarrow> ('g, 's, 'tr) linked \<Rightarrow> nat \<Rightarrow> ('g, 'x) execution_tree \<Rightarrow> 'a receive_gate list \<Rightarrow>
     string list + ('g, 'a, 'tr) opened_receiving list \<times> ('g, 'tr) opened_sends" where
  "open_all env oe lk hardware t gates =
     (case opened_locations (\<lambda>(l, _). built env oe lk ReceiveSide l)
             (\<lambda>(l, gate) (transport, _). \<lparr>rv_configured = l, rv_gate = gate, rv_transport = transport,
                rv_limits = tuning_receive hardware (et_tuning t), rv_pace = tuning_pace (et_tuning t)\<rparr>)
             (zip (et_receive_locations_to_start t) gates) of
        (receive_problems, receiving) \<Rightarrow>
         (case opened_locations (built env oe lk SendSide)
                 (\<lambda>l (transport, target). \<lparr>os_configured = l, os_target = target, os_transport = transport\<rparr>)
                 (et_send_locations_to_start t) of
            (send_problems, locations) \<Rightarrow>
             if receive_problems @ send_problems = []
             then Inr (receiving, \<lparr>on_locations = locations, on_groups = et_send_port_groups t, on_ports = et_designed_send_ports t,
                                   on_points = destinations_or_none env t\<rparr>)
             else Inl (receive_problems @ send_problems)))"

section \<open>Nothing dropped\<close>

lemma concat_lefts_none: "concat (lefts rs) = [] \<Longrightarrow> Inl [] \<notin> set rs \<Longrightarrow> lefts rs = []"
  by (induction rs) (auto split: sum.splits)

lemma gate_at_says_why: "gate_at env lk t l \<noteq> Inl []"
  by (auto simp: gate_at_def receive_gate_of_def Let_def split: sum.splits prod.splits if_splits)

text \<open>What a check that found no problem says of the tree and of what was linked.\<close>

lemma checked:
  assumes "check env lk t = Inr (gates, gathering, parties)"
  shows "scheme_problems lk = []"
    and "list_all (\<lambda>(_, l). transport_of (ck_scheme env) lk l \<noteq> None \<and> sc_contract l = None) (started t)"
    and "map (gate_at env lk t) (et_receive_locations_to_start t) = map Inr gates"
proof -
  let ?gated = "map (gate_at env lk t) (et_receive_locations_to_start t)"
  have none: "scheme_problems lk = []" "concat (map (location_uncarried env lk) (started t)) = []" "concat (lefts ?gated) = []"
    and gates: "gates = rights ?gated"
    using assms by (auto simp: check_def Let_def split: if_splits)
  show "scheme_problems lk = []" by (rule none(1))
  show "list_all (\<lambda>(_, l). transport_of (ck_scheme env) lk l \<noteq> None \<and> sc_contract l = None) (started t)"
    using none(2) by (auto simp: location_uncarried_def list_all_iff split: if_splits option.splits)
  have "Inl [] \<notin> set ?gated" using gate_at_says_why by (metis (no_types, lifting) ex_map_conv)
  then have "lefts ?gated = []" by (rule concat_lefts_none [OF none(3)])
  then show "?gated = map Inr gates" by (simp only: gates lefts_none [symmetric])
qed

lemma started_all: "list_all P (map snd (started t)) \<longleftrightarrow> list_all P (et_receive_locations_to_start t @ et_send_locations_to_start t)"
  by (simp add: started_def comp_def)

lemma checked_locations:
  assumes "check env lk t = Inr (gates, gathering, parties)"
  shows "l \<in> set (et_receive_locations_to_start t) \<union> set (et_send_locations_to_start t) \<Longrightarrow> transport_of (ck_scheme env) lk l \<noteq> None"
    and "list_all (\<lambda>l. sc_contract l = None) (et_receive_locations_to_start t @ et_send_locations_to_start t)"
proof -
  have "list_all (\<lambda>l. transport_of (ck_scheme env) lk l \<noteq> None \<and> sc_contract l = None) (map snd (started t))"
    using checked(2) [OF assms] by (auto simp: list_all_iff)
  then have all: "list_all (\<lambda>l. transport_of (ck_scheme env) lk l \<noteq> None \<and> sc_contract l = None)
      (et_receive_locations_to_start t @ et_send_locations_to_start t)" by (simp only: started_all)
  then show "l \<in> set (et_receive_locations_to_start t) \<union> set (et_send_locations_to_start t) \<Longrightarrow> transport_of (ck_scheme env) lk l \<noteq> None"
    by (auto simp: list_all_iff)
  show "list_all (\<lambda>l. sc_contract l = None) (et_receive_locations_to_start t @ et_send_locations_to_start t)"
    using all by (auto simp: list_all_iff)
qed

lemma gate_at_named: "gate_at env lk t l = Inr g \<Longrightarrow> rg_location g = co_name l"
  by (auto simp: gate_at_def receive_gate_of_def Let_def configured_location.truncate_def split: sum.splits prod.splits if_splits)

lemma opened_locations_all:
  assumes "opened_locations building made ls = ([], opened)" and "\<And>l. l \<in> set ls \<Longrightarrow> building l \<noteq> Inr None"
  shows "list_all2 (\<lambda>l x. \<exists>b. building l = Inr (Some b) \<and> x = made l b) ls opened"
proof -
  have "lefts (map building ls) = [] \<Longrightarrow>
      list_all2 (\<lambda>l x. \<exists>b. building l = Inr (Some b) \<and> x = made l b) ls
        (List.map_filter (\<lambda>l. case building l of Inr (Some b) \<Rightarrow> Some (made l b) | _ \<Rightarrow> None) ls)"
    using assms(2) by (induction ls) (auto simp: map_filter_simps split: sum.splits option.splits)
  then show ?thesis using assms(1) by (auto simp: opened_locations_def)
qed

text \<open>Where no two transports declare one scheme, a Location's scheme chooses one of them and no other.\<close>

lemma chosen_once:
  assumes "scheme_problems lk = []" and "transport_of scheme lk l = Some technology"
  shows "filter (chosen_by scheme l) (lk_transports lk) = [technology]"
proof -
  have "filter (chosen_by scheme l) ts = [technology]"
    if "scheme_problems_of ts = []" and "find (chosen_by scheme l) ts = Some technology" for ts
    using that
  proof (induction ts)
    case (Cons a ts)
    show ?case
    proof (cases "chosen_by scheme l a")
      case True
      then have "\<not> chosen_by scheme l b" if "b \<in> set ts" for b
        using that Cons.prems(1) by (auto simp: chosen_by_def both_declare_none)
      then show ?thesis using True Cons.prems(2) by (simp add: filter_empty_conv)
    next
      case False
      then show ?thesis using Cons by simp
    qed
  qed simp
  then show ?thesis using assms by (simp add: transport_of_def scheme_problems_def)
qed

text \<open>A transport that carries a Location: opened by the one technology its scheme chooses, with the secret it names,
  and serving its side.\<close>

definition carried_by ::
  "('g, 'x, 'a, 'y, 'q) check_env \<Rightarrow> ('g, 'tr) open_env \<Rightarrow> ('g, 's, 'tr) linked \<Rightarrow> location_side \<Rightarrow> 'g started_location \<Rightarrow> 'tr \<Rightarrow> string \<Rightarrow> bool" where
  "carried_by env oe lk side l transport target \<longleftrightarrow>
     (\<exists>technology secured. filter (chosen_by (ck_scheme env) l) (lk_transports lk) = [technology] \<and>
        lt_open technology l side secured = Inr transport \<and> map_option Inr secured = oe_secret_name oe l \<and>
        oe_serves oe transport side \<and> target = lt_target technology l)"

lemma built_carries:
  assumes "built env oe lk side l = Inr (Some (transport, target))" and "scheme_problems lk = []"
  shows "carried_by env oe lk side l transport target"
proof -
  obtain technology where t: "transport_of (ck_scheme env) lk l = Some technology"
    using assms(1) by (auto simp: built_def split: option.splits)
  then show ?thesis using assms(1) chosen_once [OF assms(2) t] unfolding carried_by_def
    by (intro exI [of _ technology] exI [of _ "case oe_secret_name oe l of Some (Inr name) \<Rightarrow> Some name | _ \<Rightarrow> None"])
      (auto simp: built_def Let_def split: option.splits sum.splits if_splits)
qed

lemma built_some: "transport_of (ck_scheme env) lk l \<noteq> None \<Longrightarrow> built env oe lk side l \<noteq> Inr None"
  by (auto simp: built_def Let_def split: option.splits sum.splits if_splits)

text \<open>C31: A node that passes phase 3 and opens its Locations has dropped none: each Receive Location it starts, in order,
  is served with the gate that Location itself declares and never its neighbour's, and each Send Location is opened;
  the transport of each was built by the one linked technology its scheme chooses, with the secret it names, and
  serves its direction; and none names a contract, which arrival does not hold a Stream to.\<close>

theorem startup_drops_no_location:
  assumes "check env lk t = Inr (gates, gathering, parties)" and "open_all env oe lk hardware t gates = Inr (receiving, sends)"
  shows "list_all2 (\<lambda>l r. rv_configured r = l \<and> gate_at env lk t l = Inr (rv_gate r) \<and> rg_location (rv_gate r) = co_name l \<and>
        (\<exists>target. carried_by env oe lk ReceiveSide l (rv_transport r) target)) (et_receive_locations_to_start t) receiving \<and>
    list_all2 (\<lambda>l s. os_configured s = l \<and> carried_by env oe lk SendSide l (os_transport s) (os_target s))
      (et_send_locations_to_start t) (on_locations sends) \<and>
    list_all (\<lambda>l. sc_contract l = None) (et_receive_locations_to_start t @ et_send_locations_to_start t)"
proof -
  note ck = checked [OF assms(1)]
  note chosen = checked_locations(1) [OF assms(1)]
  have len: "length gates = length (et_receive_locations_to_start t)" using arg_cong [OF ck(3), of length] by simp
  have gate: "gate_at env lk t l = Inr g" if "(l, g) \<in> set (zip (et_receive_locations_to_start t) gates)" for l g
    using that ck(3) by (auto simp: in_set_zip list_eq_iff_nth_eq)
  have built: "built env oe lk ReceiveSide l \<noteq> Inr None" if "(l, g) \<in> set (zip (et_receive_locations_to_start t) gates)" for l g
    by (intro built_some chosen) (use that in \<open>auto dest: set_zip_leftD\<close>)
  let ?made = "\<lambda>(l, gate) (transport, _ :: string). \<lparr>rv_configured = l, rv_gate = gate, rv_transport = transport,
     rv_limits = tuning_receive hardware (et_tuning t), rv_pace = tuning_pace (et_tuning t)\<rparr>"
  let ?sent = "\<lambda>l (transport, target). \<lparr>os_configured = l, os_target = target, os_transport = transport\<rparr>"
  have r: "opened_locations (\<lambda>(l, _). built env oe lk ReceiveSide l) ?made (zip (et_receive_locations_to_start t) gates) = ([], receiving)"
    and s: "opened_locations (built env oe lk SendSide) ?sent (et_send_locations_to_start t) = ([], on_locations sends)"
    using assms(2) by (auto simp: open_all_def split: prod.splits if_splits)
  have "list_all2 (\<lambda>lg x. \<exists>b. (case lg of (l, _) \<Rightarrow> built env oe lk ReceiveSide l) = Inr (Some b) \<and> x = ?made lg b)
      (zip (et_receive_locations_to_start t) gates) receiving"
    by (rule opened_locations_all [OF r]) (use built in auto)
  then have "list_all2 (\<lambda>lg x. rv_configured x = fst lg \<and> gate_at env lk t (fst lg) = Inr (rv_gate x) \<and> rg_location (rv_gate x) = co_name (fst lg) \<and>
        (\<exists>target. carried_by env oe lk ReceiveSide (fst lg) (rv_transport x) target)) (zip (et_receive_locations_to_start t) gates) receiving"
    by (rule list.rel_mono_strong) (use gate gate_at_named built_carries [OF _ ck(1)] in fastforce)
  then have 1: "list_all2 (\<lambda>l r. rv_configured r = l \<and> gate_at env lk t l = Inr (rv_gate r) \<and> rg_location (rv_gate r) = co_name l \<and>
        (\<exists>target. carried_by env oe lk ReceiveSide l (rv_transport r) target)) (et_receive_locations_to_start t) receiving"
    using len by (auto simp: list_all2_conv_all_nth)
  have "list_all2 (\<lambda>l x. \<exists>b. built env oe lk SendSide l = Inr (Some b) \<and> x = ?sent l b) (et_send_locations_to_start t) (on_locations sends)"
    by (rule opened_locations_all [OF s]) (intro built_some chosen, blast)
  then have 2: "list_all2 (\<lambda>l s. os_configured s = l \<and> carried_by env oe lk SendSide l (os_transport s) (os_target s))
      (et_send_locations_to_start t) (on_locations sends)"
    by (rule list.rel_mono_strong) (use built_carries [OF _ ck(1)] in fastforce)
  with 1 show ?thesis using checked_locations(2) [OF assms(1)] by blast
qed

text \<open>A node of the Receive Location \<open>orders\<close>, its address entered as a file's, and one transport linked.\<close>

definition plain_check :: "(unit, unit, unit, unit, unit) check_env" where
  "plain_check = \<lparr>ck_scheme = \<lambda>_. ''file'',
     ck_party = \<lparr>pe_new = \<lambda>_ _. (), pe_with = \<lambda>_ _. (), pe_holds = \<lambda>_ _ _ _. False, pe_id = \<lambda>_. 0, pe_named = \<lambda>_. None, pe_secret = Inr\<rparr>,
     ck_closed = (), ck_from_party = \<lambda>_ _. (), ck_accepting = \<lambda>_ _. (), ck_party_named = \<lambda>_ _. None, ck_accepted_problems = \<lambda>_ _. [],
     ck_policy = \<lparr>ip_alignment = [], ip_on_misalignment = [], ip_minimum = []\<rparr>, ck_read_word = \<lambda>w. Inl w, ck_words = \<lambda>_. ''broken'',
     ck_gathering_of = \<lambda>_ _. (), ck_gathering_new = \<lambda>_ _. (), ck_properties = \<lambda>_. [], ck_refusals = \<lambda>_. [], ck_technology = id, ck_context = []\<rparr>"

definition file_linked :: "(unit, unit, nat) linked" where
  "file_linked = \<lparr>lk_transports = [\<lparr>lt_technology = ''file'', lt_schemes = [''file''], lt_settings = (), lt_target = sc_address, lt_open = \<lambda>_ _ _. Inr 7\<rparr>],
     lk_sources = [], lk_authenticators = [], lk_policies = [], lk_transport_identifiers = [], lk_message_identifiers = []\<rparr>"

definition plain_open :: "(unit, nat) open_env" where
  "plain_open = \<lparr>oe_secret_name = \<lambda>_. None, oe_serves = \<lambda>_ _. True\<rparr>"

definition orders_tree :: "(unit, unit) execution_tree" where
  "orders_tree = tree_of two_inboxes [] nothing_bound (tuning_of (default_integer some_defaults) (default_duration some_defaults))"

definition orders_gate :: "unit receive_gate" where
  "orders_gate = \<lparr>rg_location = ''orders'', rg_accept = (), rg_identity = \<lparr>ip_alignment = [], ip_on_misalignment = [], ip_minimum = []\<rparr>, rg_port = [],
     rg_points = [point_receive_location ''orders'']\<rparr>"

lemma orders_receives:
  "et_receive_locations_to_start orders_tree = [inbox True ''orders'']" "et_send_locations_to_start orders_tree = []"
  "et_receive_ports orders_tree = []" "et_parties orders_tree = []" "destination_sets orders_tree = []"
  by (simp_all add: orders_tree_def tree_of_def two_inboxes_def nothing_bound_def starting_def inbox_def destination_sets_def work_process_sets_def
      map_filter_simps)

lemma orders_checked: "check plain_check file_linked orders_tree = Inr ([orders_gate], (), [])"
  by (simp add: check_def started_def orders_receives gate_at_def receive_gate_of_def received_at_def parties_of_def scheme_problems_def
      location_uncarried_def transport_of_def chosen_by_def plain_check_def file_linked_def inbox_def configured_location.truncate_def unverified_def
      orders_gate_def map_filter_simps destinations_or_none_def destinations_def results_def)

theorem startup_drops_no_location_witness:
  "\<exists>receiving sends. open_all plain_check plain_open file_linked 4 orders_tree [orders_gate] = Inr (receiving, sends) \<and>
     map (\<lambda>r. (co_name (rv_configured r), rg_location (rv_gate r), rv_transport r)) receiving = [(''orders'', ''orders'', 7)]"
proof -
  obtain receiving sends where o: "open_all plain_check plain_open file_linked 4 orders_tree [orders_gate] = Inr (receiving, sends)"
    by (simp add: open_all_def orders_receives opened_locations_def built_def transport_of_def chosen_by_def plain_check_def file_linked_def plain_open_def)
  have "list_all2 (\<lambda>l r. rv_configured r = l \<and> gate_at plain_check file_linked orders_tree l = Inr (rv_gate r) \<and> rg_location (rv_gate r) = co_name l \<and>
      (\<exists>target. carried_by plain_check plain_open file_linked ReceiveSide l (rv_transport r) target)) [inbox True ''orders''] receiving"
    using startup_drops_no_location [OF orders_checked o] by (simp add: orders_receives)
  then have "map (\<lambda>r. (co_name (rv_configured r), rg_location (rv_gate r), rv_transport r)) receiving = [(''orders'', ''orders'', 7)]"
    by (auto simp: list_all2_Cons1 carried_by_def file_linked_def inbox_def split: if_splits)
  with o show ?thesis by (intro exI conjI)
qed

text \<open>The points the sends are opened with: one for each destination that names a Correlation, in order.\<close>

lemma opened_points:
  assumes "open_all env oe lk hardware t gates = Inr (receiving, sends)" and "destinations (ck_read_word env) (ck_words env) t = Inr points"
  shows "map (\<lambda>p. (pt_kind p, pt_name p)) (on_points sends) = map fst (destination_sets t)"
proof -
  have "on_points sends = points" using assms by (auto simp: open_all_def destinations_or_none_def split: prod.splits if_splits)
  then show ?thesis using destinations_every [OF assms(2)] by simp
qed

section \<open>Each capability served by one Module\<close>

text \<open>The registry a list of claims makes where none is claimed twice.\<close>

definition registry_of :: "registered_capability list \<Rightarrow> capability_registry" where
  "registry_of rs = (\<lambda>c. find (\<lambda>r. rc_capability r = c) rs)"

lemma registry_of_none: "registry_of rs c = None \<longleftrightarrow> c \<notin> set (map rc_capability rs)"
  by (auto simp: registry_of_def find_None_iff)

lemma registry_of_snoc:
  assumes "rc_capability r \<notin> set (map rc_capability rs)"
  shows "(registry_of rs)(rc_capability r \<mapsto> r) = registry_of (rs @ [r])"
proof -
  have "find P (rs @ [r]) = (case find P rs of Some y \<Rightarrow> Some y | None \<Rightarrow> if P r then Some r else None)" for P
    by (induction rs) auto
  moreover have "find (\<lambda>x. rc_capability x = rc_capability r) rs = None" using assms by (simp add: find_None_iff image_iff) metis
  ultimately show ?thesis by (auto simp: registry_of_def fun_eq_iff split: option.splits)
qed

lemma registry_register_of:
  "registry_register r (registry_of rs) =
     (if rc_capability r \<in> set (map rc_capability rs)
      then (Some (''capability '' @ quoted (rc_capability r) @ '' is already registered, by '' @ quoted (rc_module (the (registry_of rs (rc_capability r))))),
            registry_of rs)
      else (None, registry_of (rs @ [r])))"
  using registry_of_none [of rs "rc_capability r"] registry_of_snoc [of r rs]
  by (auto simp: registry_register_def split: option.splits)

lemma register_module_of:
  assumes "distinct (map rc_capability xs)"
  shows "(fst (register_module rs (registry_of xs)) = None \<longleftrightarrow> distinct (map rc_capability (xs @ rs))) \<and>
    (distinct (map rc_capability (xs @ rs)) \<longrightarrow> snd (register_module rs (registry_of xs)) = registry_of (xs @ rs))"
  using assms
proof (induction rs arbitrary: xs)
  case (Cons r rs)
  show ?case
  proof (cases "rc_capability r \<in> set (map rc_capability xs)")
    case False
    then show ?thesis using Cons.IH [of "xs @ [r]"] Cons.prems by (simp add: registry_register_of)
  qed (auto simp: registry_register_of)
qed simp

lemma register_each_keeps: "\<exists>more. fst (register_each rss (problems, reg)) = problems @ more"
  by (induction rss arbitrary: problems reg) (auto split: prod.splits option.splits, metis append.assoc)

lemma register_each_of:
  assumes "distinct (map rc_capability xs)"
  shows "(fst (register_each rss ([], registry_of xs)) = [] \<longleftrightarrow> distinct (map rc_capability (xs @ concat rss))) \<and>
    (distinct (map rc_capability (xs @ concat rss)) \<longrightarrow> snd (register_each rss ([], registry_of xs)) = registry_of (xs @ concat rss))"
  using assms
proof (induction rss arbitrary: xs)
  case (Cons rs rss)
  note m = register_module_of [OF Cons.prems, of rs]
  obtain p reg where p: "register_module rs (registry_of xs) = (p, reg)" by force
  show ?case
  proof (cases "distinct (map rc_capability (xs @ rs))")
    case True
    then have "register_module rs (registry_of xs) = (None, registry_of (xs @ rs))" using m p by simp
    then show ?thesis using Cons.IH [OF True] by simp
  next
    case False
    then obtain why where "p = Some why" using m p by auto
    then have "fst (register_each (rs # rss) ([], registry_of xs)) \<noteq> []"
      using p register_each_keeps [of rss "[why]" reg] by auto
    then show ?thesis using False by auto
  qed
qed simp

text \<open>Startup loads a node exactly where no capability is claimed twice, whether by a technology that was linked, by
  a route source, by an accepted mechanism, by a policy, by an identifier or by a Module's manifest; the registry is
  then every claim, each under its own capability, and where one is claimed twice the node is refused and told why.\<close>

theorem capabilities_registered_once:
  "case snd (load env lk entrypoint t gathering) of
     Inr reg \<Rightarrow> distinct (map rc_capability (concat (claims env lk entrypoint t gathering))) \<and>
       reg = registry_of (concat (claims env lk entrypoint t gathering))
   | Inl problems \<Rightarrow> problems \<noteq> [] \<and> \<not> distinct (map rc_capability (concat (claims env lk entrypoint t gathering)))"
proof -
  have "registry_of [] = Map.empty" by (simp add: registry_of_def)
  then show ?thesis using register_each_of [of "[]" "claims env lk entrypoint t gathering"]
    by (auto simp: load_def split: prod.splits)
qed

section \<open>Each Module in one Host Service\<close>

definition hosted :: "manifest list \<Rightarrow> string \<Rightarrow> host_service" where
  "hosted ms ty = (let ours = filter (\<lambda>m. host_type m = ty) ms in
     \<lparr>ho_host_type = ty, ho_trusted = list_ex (\<lambda>m. list_ex cb_trusted_required (mf_capabilities m)) ours, ho_modules = ours, ho_state = Planned\<rparr>)"

definition hosts_of :: "manifest list \<Rightarrow> string \<rightharpoonup> host_service" where
  "hosts_of ms = (\<lambda>ty. if ty \<in> host_type ` set ms then Some (hosted ms ty) else None)"

lemma plan_module_hosts: "plan_module m (hosts_of ms) = hosts_of (ms @ [m])"
proof
  fix ty
  have none: "filter (\<lambda>x. host_type x = host_type m) ms = []" if "host_type m \<notin> host_type ` set ms"
    using that by (auto simp: filter_empty_conv image_iff)
  show "plan_module m (hosts_of ms) ty = hosts_of (ms @ [m]) ty"
  proof (cases "host_type m \<in> host_type ` set ms")
    case True
    then show ?thesis by (auto simp: plan_module_def hosts_of_def hosted_def Let_def)
  next
    case False
    then show ?thesis using none by (auto simp: plan_module_def hosts_of_def hosted_def Let_def)
  qed
qed

lemma plan_modules: "fold plan_module ms Map.empty = hosts_of ms"
proof (induction ms rule: rev_induct)
  case (snoc m ms)
  then show ?case by (simp only: fold_append comp_apply fold_simps plan_module_hosts)
qed (simp add: hosts_of_def)

text \<open>The Host Services planned are one for each host type the Modules have, in the order of their names, each holding
  exactly the Modules of its type in the order they were given, trusted where one of them needs it; and they start
  exactly where every Module is written for this process, native Rust or the C ABI.\<close>

theorem host_plan_groups:
  "host_plan ms = map (hosted ms) (sorted_list_of_set (host_type ` set ms)) \<and>
   (\<exists>hs. start_host_services (host_plan ms) = Inr hs \<and> map ho_state hs = replicate (card (host_type ` set ms)) Running) =
     (host_type ` set ms \<subseteq> {''native-rust-host'', ''c-abi-host''})"
proof -
  have "List.map_filter (\<lambda>ty. if ty \<in> A then Some (f ty) else None) xs = map f xs" if "set xs \<subseteq> A" for xs :: "string list" and A and f :: "string \<Rightarrow> host_service"
    using that by (induction xs) (auto simp: map_filter_simps)
  from this [of "sorted_list_of_set (host_type ` set ms)" "host_type ` set ms" "hosted ms"]
  have plan: "host_plan ms = map (hosted ms) (sorted_list_of_set (host_type ` set ms))"
    by (simp add: host_plan_def plan_modules hosts_of_def)
  have "filter (\<lambda>h. \<not> in_process h) (host_plan ms) = [] \<longleftrightarrow> host_type ` set ms \<subseteq> {''native-rust-host'', ''c-abi-host''}"
    by (auto simp: plan filter_empty_conv in_process_def hosted_def Let_def)
  moreover have "map ho_state (map host_start (host_plan ms)) = replicate (card (host_type ` set ms)) Running"
    by (simp add: plan host_start_def comp_def map_replicate_const)
  ultimately show ?thesis using plan by (auto simp: start_host_services_def Let_def)
qed

end
