(* ===== verification/Storage_Plan.thy ===== *)
theory Storage_Plan
  imports Startup
begin

text \<open>
  \<open>src/storage.rs\<close>, \<open>src/storage/opened.rs\<close> and \<open>src/presented.rs\<close>: how a node reaches Xmip Storage. Phase 3 plans it of
  the document and of what the program linked; phase 9 opens what was planned. Paths, files and the
  identity made of three of them are the platform's, and the Storage node, its server and its client the storage
  library's: arguments.
\<close>

section \<open>What the platform and the libraries answer\<close>

datatype node_role = StorageRole | OtherRole string

datatype technology = EmbeddedTechnology | ServerTechnology string

record ('g, 'x, 'p, 'i) storage_env =
  st_declared_roles :: "string \<Rightarrow> string + node_role list"
  st_parent :: "'p \<Rightarrow> 'p"
  st_join :: "'p \<Rightarrow> string \<Rightarrow> 'p"
  st_display :: "'p \<Rightarrow> string"
  st_read :: "'p \<Rightarrow> string + string"
  st_from_pem :: "string \<Rightarrow> string \<Rightarrow> string \<Rightarrow> string + 'i"
  st_database_problems :: "domain list \<Rightarrow> string option \<Rightarrow> string list"
  st_technology :: "string \<Rightarrow> technology option"
  st_data_directory :: "'x \<Rightarrow> 'p \<Rightarrow> 'p"
  st_resolve :: "('g, 'x) document \<Rightarrow> 'p \<Rightarrow> 'p \<Rightarrow> string \<times> 'p"
  st_engine :: string
  st_database_word :: "database \<Rightarrow> string"

text \<open>What of \<open>Linked\<close> reaches storage: the program's own, its two engines and its key stores, each by name.\<close>

record 'w storage_linked =
  sk_storage :: "'w option"
  sk_engine :: "string option"
  sk_administration :: "string option"
  sk_key_stores :: "string list"

definition key_store_linked :: "'w storage_linked \<Rightarrow> string \<Rightarrow> string option" where
  "key_store_linked lk technology = find (\<lambda>k. k = technology) (sk_key_stores lk)"

section \<open>What a node presents\<close>

definition presented_file :: "('g, 'x, 'p, 'i) storage_env \<Rightarrow> 'p \<Rightarrow> string \<Rightarrow> string \<Rightarrow> string + string" where
  "presented_file env configuration part path =
     (let file = st_join env (st_parent env configuration) path in
      case st_read env file of
        Inl e \<Rightarrow> Inl (''['' @ part @ ''] '' @ st_display env file @ '': '' @ e)
      | Inr bytes \<Rightarrow> Inr bytes)"

definition presented_identity :: "('g, 'x, 'p, 'i) storage_env \<Rightarrow> 'p \<Rightarrow> string \<Rightarrow> string \<times> string \<times> string \<Rightarrow> string + 'i" where
  "presented_identity env configuration part files =
     (case files of (certificate, key, anchors) \<Rightarrow>
       case presented_file env configuration part certificate of Inl e \<Rightarrow> Inl e
       | Inr c \<Rightarrow> (case presented_file env configuration part key of Inl e \<Rightarrow> Inl e
         | Inr k \<Rightarrow> (case presented_file env configuration part anchors of Inl e \<Rightarrow> Inl e
           | Inr a \<Rightarrow> (case st_from_pem env c k a of Inl failed \<Rightarrow> Inl (''['' @ part @ ''] '' @ failed) | Inr i \<Rightarrow> Inr i))))"

section \<open>Phase 3: what is planned\<close>

record 'i serving_storage =
  sv_listen :: string
  sv_presents :: 'i
  sv_listed :: "string list"

datatype ('w, 'p, 'i) planned =
    GivenStorage 'w
  | KeptStorage "'p list" string 'p "'i serving_storage option"
  | ReachingStorage "string list" 'i

definition storage_place :: string where "storage_place = ''storage''"

definition storage_files :: "string list" where "storage_files = [''runtime'', ''administration.sqlite'', ''audit.sqlite'']"

definition administration_engine :: string where "administration_engine = ''xmip-core-persist-sqlite''"

definition server_problems :: "('g, 'x, 'p, 'i) storage_env \<Rightarrow> domain \<Rightarrow> string list" where
  "server_problems env d =
     (case st_technology env (dm_storage d) of
        Some (ServerTechnology server) \<Rightarrow>
          [''['' @ st_database_word env (dm_database d) @ ''] storage names '' @ server @ '', and Xmip Storage has no '' @ server @
           '' backend built yet; it follows as its own technology of xmip-core-persist'']
      | _ \<Rightarrow> [])"

definition engine_problem :: "string option \<Rightarrow> string \<Rightarrow> string \<Rightarrow> string list" where
  "engine_problem engine technology database =
     (if engine = None
      then [''this node keeps Xmip Storage itself (the storage role), and was not built with '' @ technology @ '', its '' @ database @
            '' databases'' @ [CHR 0x27] @ '' engine'']
      else [])"

definition kept_problems :: "('g, 'x, 'p, 'i) storage_env \<Rightarrow> 'w storage_linked \<Rightarrow> ('g, 'x) document \<Rightarrow> string \<Rightarrow> string list" where
  "kept_problems env lk d key_store =
     st_database_problems env (domains d) (sb_password (dc_storage d)) @ concat (map (server_problems env) (domains d)) @
     engine_problem (sk_engine lk) (st_engine env) ''runtime'' @
     engine_problem (sk_administration lk) administration_engine ''administration and audit'' @
     (if key_store_linked lk key_store = None
      then [''[store] names the key store '' @ quoted key_store @ '', which this node was not built with''] else [])"

definition kept_place :: "('g, 'x, 'p, 'i) storage_env \<Rightarrow> 'p \<Rightarrow> 'p \<Rightarrow> domain_table option \<Rightarrow> string \<Rightarrow> 'p" where
  "kept_place env base place table file =
     (case table of None \<Rightarrow> st_join env place file | Some t \<Rightarrow> st_join env base (dt_connection t))"

definition storage_kept ::
  "('g, 'x, 'p, 'i) storage_env \<Rightarrow> 'w storage_linked \<Rightarrow> ('g, 'x) document \<Rightarrow> 'p \<Rightarrow> 'i serving_storage option \<Rightarrow> string list + ('w, 'p, 'i) planned" where
  "storage_kept env lk d file serving =
     (let data = st_data_directory env (dc_service d) file; base = st_parent env file; store = st_resolve env d data base;
          problems = kept_problems env lk d (fst store); place = st_join env data storage_place in
      if problems \<noteq> [] then Inl problems
      else
        case dc_domains d of
          (runtime, administration, audit) \<Rightarrow>
            Inr (KeptStorage [kept_place env base place runtime (storage_files ! 0), kept_place env base place administration (storage_files ! 1),
                              kept_place env base place audit (storage_files ! 2)] (fst store) (snd store) serving))"

definition storage_presents :: "('g, 'x, 'p, 'i) storage_env \<Rightarrow> ('g, 'x) document \<Rightarrow> 'p \<Rightarrow> string + 'i" where
  "storage_presents env d file =
     (case sb_presented (dc_storage d) of
        Inl problem \<Rightarrow> Inl problem
      | Inr None \<Rightarrow> Inl (''[storage] names no certificate, key and anchors: what this node presents to the Storage nodes and trusts of them over '' @
          ''Xmip'' @ [CHR 0x27] @ ''s mutual TLS'')
      | Inr (Some files) \<Rightarrow> presented_identity env file ''storage'' files)"

definition storage_plan ::
  "('g, 'x, 'p, 'i) storage_env \<Rightarrow> 'w storage_linked \<Rightarrow> ('g, 'x) document \<Rightarrow> 'p \<Rightarrow> string list + ('w, 'p, 'i) planned" where
  "storage_plan env lk d file =
     (case sk_storage lk of
        Some given \<Rightarrow> Inr (GivenStorage given)
      | None \<Rightarrow>
         (case st_declared_roles env (case dc_roles d of None \<Rightarrow> [] | Some r \<Rightarrow> r) of
            Inl problem \<Rightarrow> Inl [problem]
          | Inr roles \<Rightarrow>
             let nodes_listed = sb_nodes (dc_storage d) in
             if StorageRole \<notin> set roles then
               (if nodes_listed = []
                then Inl [''this node does not declare the storage role and [storage] nodes lists no Storage node: only a node with the storage '' @
                          ''role keeps Xmip Storage, and any other reaches it through [storage] nodes'']
                else
                  case storage_presents env d file of
                    Inl problem \<Rightarrow> Inl [problem]
                  | Inr presented \<Rightarrow> Inr (ReachingStorage nodes_listed presented))
             else
               (case sb_listen (dc_storage d) of
                  None \<Rightarrow>
                    if nodes_listed = [] then storage_kept env lk d file None
                    else Inl [''this node declares the storage role and [storage] nodes lists the cluster'' @ [CHR 0x27] @
                              ''s Storage nodes, and [storage] names no listen to serve the others on'']
                | Some listen \<Rightarrow>
                    (case storage_presents env d file of
                       Inl problem \<Rightarrow> Inl [problem]
                     | Inr presented \<Rightarrow>
                         storage_kept env lk d file (Some \<lparr>sv_listen = listen, sv_presents = presented, sv_listed = nodes_listed\<rparr>)))))"

section \<open>Phase 9: what was planned, opened\<close>

text \<open>What is opened: \<open>'e\<close> an engine, \<open>'k\<close> the key store, \<open>'b\<close> a bound listener, \<open>'w\<close> Xmip Storage, \<open>'n\<close> a Storage node of
  several, \<open>'c\<close> a client and \<open>'r\<close> a server; \<open>op_start\<close> settles with the others within the time given.\<close>

record ('p, 'i, 'e, 'k, 'b, 'w, 'n, 'c, 'r) opening_env =
  op_directory :: "'p \<Rightarrow> 'p"
  op_create :: "'p \<Rightarrow> string option"
  op_keys :: "string \<Rightarrow> 'p \<Rightarrow> 'k"
  op_engine :: "string \<Rightarrow> 'p \<Rightarrow> string + 'e"
  op_kek :: "string option"
  op_bind :: "string \<Rightarrow> string + 'b"
  op_embedded :: "'e list \<Rightarrow> 'k \<Rightarrow> string + 'w \<times> string list"
  op_serve :: "'w \<Rightarrow> 'b \<Rightarrow> 'i \<Rightarrow> string + 'r"
  op_node :: "'e list \<Rightarrow> 'k \<Rightarrow> string list \<Rightarrow> 'i \<Rightarrow> timings \<Rightarrow> string + 'n"
  op_several :: "'n \<Rightarrow> 'b \<Rightarrow> 'i \<Rightarrow> string + 'r"
  op_start :: "'n \<Rightarrow> duration \<Rightarrow> string option"
  op_reaching :: "'n \<Rightarrow> 'w"
  op_client :: "string list \<Rightarrow> 'i \<Rightarrow> duration \<Rightarrow> duration \<Rightarrow> string + 'w \<times> 'c"
  op_display :: "'p \<Rightarrow> string"

datatype ('n, 'c) behind = BehindGiven | BehindAlone string | BehindSeveral 'n | BehindReaching 'c

record ('w, 'n, 'c, 'r) reached =
  re_storage :: 'w
  re_chunk :: nat
  re_behind :: "('n, 'c) behind"
  re_serving :: "'r option"

fun first_error :: "('a \<Rightarrow> string option) \<Rightarrow> 'a list \<Rightarrow> string option" where
  "first_error f [] = None"
| "first_error f (x # xs) = (case f x of Some e \<Rightarrow> Some e | None \<Rightarrow> first_error f xs)"

definition engines_unlinked :: string where "engines_unlinked = ''its engines or its key store are not linked''"

definition storage_engines ::
  "('p, 'i, 'e, 'k, 'b, 'w, 'n, 'c, 'r) opening_env \<Rightarrow> 'w storage_linked \<Rightarrow> 'p list \<Rightarrow> string \<Rightarrow> 'p \<Rightarrow> string + 'e list \<times> 'k" where
  "storage_engines env lk stores key_store keys =
     (case (sk_engine lk, sk_administration lk, key_store_linked lk key_store) of
        (Some runtime, Some administration, Some store) \<Rightarrow>
          (case first_error (\<lambda>p. op_create env (op_directory env p)) stores of
             Some e \<Rightarrow> Inl e
           | None \<Rightarrow>
              (case results (map2 (op_engine env) [runtime, administration, administration] stores) of
                 Inl es \<Rightarrow> Inl (hd es)
               | Inr engines \<Rightarrow> Inr (engines, op_keys env store keys)))
      | _ \<Rightarrow> Inl engines_unlinked)"

definition did_not_open :: "string \<Rightarrow> string \<Rightarrow> string" where
  "did_not_open at problem = ''its own Storage node, '' @ at @ '', did not open: '' @ problem"

text \<open>\<open>alone\<close>: each version as its database's word and its evidence.\<close>

definition storage_alone :: "string \<Rightarrow> string \<Rightarrow> string list \<Rightarrow> string" where
  "storage_alone at key_store versions = ''its own Storage node, '' @ at @ '', sealed under '' @ key_store @ '': '' @ comma_joined versions"

definition kept_opened ::
  "('p, 'i, 'e, 'k, 'b, 'w, 'n, 'c, 'r) opening_env \<Rightarrow> timings \<Rightarrow> string \<Rightarrow> string \<Rightarrow> 'e list \<Rightarrow> 'k \<Rightarrow> ('i serving_storage \<times> 'b) option \<Rightarrow>
     string + 'w \<times> ('n, 'c) behind \<times> 'r option" where
  "kept_opened env tm at key_store engines keys serving =
     (case (case serving of Some (sv, b) \<Rightarrow> if sv_listed sv \<noteq> [] then Some (sv, b) else None | None \<Rightarrow> None) of
        Some (sv, b) \<Rightarrow>
          (case op_node env engines keys (sv_listed sv) (sv_presents sv) tm of
             Inl problem \<Rightarrow> Inl (did_not_open at problem)
           | Inr node \<Rightarrow>
              (case op_several env node b (sv_presents sv) of
                 Inl problem \<Rightarrow> Inl problem
               | Inr server \<Rightarrow>
                  (case op_start env node (tm_silence tm + tm_timeout tm) of
                     Some problem \<Rightarrow> Inl problem
                   | None \<Rightarrow> Inr (op_reaching env node, BehindSeveral node, Some server))))
      | None \<Rightarrow>
          (case op_embedded env engines keys of
             Inl problem \<Rightarrow> Inl (did_not_open at problem)
           | Inr (opened, versions) \<Rightarrow>
              (case serving of
                 None \<Rightarrow> Inr (opened, BehindAlone (storage_alone at key_store versions), None)
               | Some (sv, b) \<Rightarrow>
                  (case op_serve env opened b (sv_presents sv) of
                     Inl problem \<Rightarrow> Inl problem
                   | Inr server \<Rightarrow> Inr (opened, BehindAlone (storage_alone at key_store versions), Some server)))))"

definition storage_open ::
  "('p, 'i, 'e, 'k, 'b, 'w, 'n, 'c, 'r) opening_env \<Rightarrow> 'w storage_linked \<Rightarrow> tuning \<Rightarrow> ('w, 'p, 'i) planned \<Rightarrow> string + ('w, 'n, 'c, 'r) reached" where
  "storage_open env lk t planned =
     (let tm = tuning_storage t;
          opened = (case planned of
             GivenStorage w \<Rightarrow> Inr (w, BehindGiven, None)
           | ReachingStorage nodes_listed presents \<Rightarrow>
              (case op_client env nodes_listed presents (tm_timeout tm) (tm_pass_over tm) of
                 Inl problem \<Rightarrow> Inl problem
               | Inr (w, client) \<Rightarrow> Inr (w, BehindReaching client, None))
           | KeptStorage stores key_store keys serving \<Rightarrow>
              (let at = ''runtime at '' @ op_display env (stores ! 0) @ '', administration at '' @ op_display env (stores ! 1) @ '', audit at '' @
                     op_display env (stores ! 2) in
               case storage_engines env lk stores key_store keys of
                 Inl problem \<Rightarrow> Inl (did_not_open at problem)
               | Inr (engines, store) \<Rightarrow>
                  (case op_kek env of
                     Some e \<Rightarrow> Inl (did_not_open at e)
                   | None \<Rightarrow>
                      (case serving of
                         None \<Rightarrow> kept_opened env tm at key_store engines store None
                       | Some sv \<Rightarrow>
                          (case op_bind env (sv_listen sv) of
                             Inl e \<Rightarrow> Inl (''[storage] listen = '' @ [CHR 0x22] @ sv_listen sv @ [CHR 0x22] @ '': '' @ e)
                           | Inr b \<Rightarrow> kept_opened env tm at key_store engines store (Some (sv, b))))))) in
      case opened of
        Inl problem \<Rightarrow> Inl problem
      | Inr (w, b, serving) \<Rightarrow> Inr \<lparr>re_storage = w, re_chunk = tuning_chunk t, re_behind = b, re_serving = serving\<rparr>)"

section \<open>A node reaches Xmip Storage as it declares\<close>

definition planned_as_declared ::
  "('g, 'x, 'p, 'i) storage_env \<Rightarrow> 'w storage_linked \<Rightarrow> ('g, 'x) document \<Rightarrow> ('w, 'p, 'i) planned \<Rightarrow> bool" where
  "planned_as_declared env lk d planned \<longleftrightarrow>
     (case planned of
        GivenStorage w \<Rightarrow> sk_storage lk = Some w
      | ReachingStorage nodes_listed presents \<Rightarrow>
          sk_storage lk = None \<and> nodes_listed = sb_nodes (dc_storage d) \<and> nodes_listed \<noteq> [] \<and>
          (\<exists>roles. st_declared_roles env (case dc_roles d of None \<Rightarrow> [] | Some r \<Rightarrow> r) = Inr roles \<and> StorageRole \<notin> set roles)
      | KeptStorage stores key_store keys serving \<Rightarrow>
          sk_storage lk = None \<and> length stores = 3 \<and> sk_engine lk \<noteq> None \<and> sk_administration lk \<noteq> None \<and> key_store \<in> set (sk_key_stores lk) \<and>
          list_all (\<lambda>dm. \<forall>server. st_technology env (dm_storage dm) \<noteq> Some (ServerTechnology server)) (domains d) \<and>
          map_option sv_listen serving = sb_listen (dc_storage d) \<and>
          (case serving of None \<Rightarrow> sb_nodes (dc_storage d) = [] | Some sv \<Rightarrow> sv_listed sv = sb_nodes (dc_storage d)) \<and>
          (\<exists>roles. st_declared_roles env (case dc_roles d of None \<Rightarrow> [] | Some r \<Rightarrow> r) = Inr roles \<and> StorageRole \<in> set roles))"

lemma first_error_in: "first_error f xs = Some e \<Longrightarrow> e \<in> set (List.map_filter f xs)"
  by (induction xs) (auto simp: map_filter_simps split: option.splits)

lemma server_problems_none: "server_problems env dm = [] \<longleftrightarrow> (\<forall>server. st_technology env (dm_storage dm) \<noteq> Some (ServerTechnology server))"
  by (auto simp: server_problems_def split: option.splits technology.splits)

lemma key_store_linked_in: "key_store_linked lk k \<noteq> None \<longleftrightarrow> k \<in> set (sk_key_stores lk)"
  by (auto simp: key_store_linked_def find_None_iff)

lemma storage_kept_ok:
  assumes "storage_kept env lk d file serving = Inr planned"
  obtains stores key_store keys where "planned = KeptStorage stores key_store keys serving" and "length stores = 3"
    and "sk_engine lk \<noteq> None" and "sk_administration lk \<noteq> None" and "key_store \<in> set (sk_key_stores lk)"
    and "list_all (\<lambda>dm. \<forall>server. st_technology env (dm_storage dm) \<noteq> Some (ServerTechnology server)) (domains d)"
proof -
  let ?ks = "fst (st_resolve env d (st_data_directory env (dc_service d) file) (st_parent env file))"
  have none: "kept_problems env lk d ?ks = []" using assms by (auto simp: storage_kept_def Let_def split: if_splits)
  obtain stores keys where planned: "planned = KeptStorage stores ?ks keys serving" "length stores = 3"
    using assms none by (auto simp: storage_kept_def Let_def split: prod.splits)
  have "sk_engine lk \<noteq> None" "sk_administration lk \<noteq> None" "?ks \<in> set (sk_key_stores lk)" "concat (map (server_problems env) (domains d)) = []"
    using none key_store_linked_in [of lk ?ks] by (auto simp: kept_problems_def engine_problem_def split: if_splits)
  then show ?thesis using that [OF planned] by (auto simp: server_problems_none list_all_iff)
qed

lemma storage_plan_as_declared:
  assumes "storage_plan env lk d file = Inr planned"
  shows "planned_as_declared env lk d planned"
proof (cases "sk_storage lk")
  case (Some w)
  then show ?thesis using assms by (auto simp: storage_plan_def planned_as_declared_def)
next
  case None
  obtain roles where roles: "st_declared_roles env (case dc_roles d of None \<Rightarrow> [] | Some r \<Rightarrow> r) = Inr roles"
    using assms None by (auto simp: storage_plan_def split: sum.splits)
  show ?thesis
  proof (cases "StorageRole \<in> set roles")
    case False
    then show ?thesis using assms None roles
      by (auto simp: storage_plan_def planned_as_declared_def Let_def split: if_splits sum.splits)
  next
    case True
    obtain serving where kept: "storage_kept env lk d file serving = Inr planned" and serving: "map_option sv_listen serving = sb_listen (dc_storage d)"
        "case serving of None \<Rightarrow> sb_nodes (dc_storage d) = [] | Some sv \<Rightarrow> sv_listed sv = sb_nodes (dc_storage d)"
      using assms None roles True that
      by (cases "sb_listen (dc_storage d)") (force simp: storage_plan_def Let_def split: if_splits sum.splits)+
    show ?thesis by (rule storage_kept_ok [OF kept]) (use None roles True serving in \<open>simp add: planned_as_declared_def\<close>)
  qed
qed

lemma storage_plan_says_why:
  assumes "storage_plan env lk d file = Inl problems"
  shows "problems \<noteq> []"
  using assms
  by (auto simp: storage_plan_def storage_kept_def Let_def split: option.splits sum.splits if_splits prod.splits)

text \<open>A node that is not its program's own to give Xmip Storage reaches it as its document declares: without the storage role
  over the Storage nodes it lists, and with it by keeping it, with both engines and its key store linked, on no database
  server, serving where it says and only alone where it lists no other. A plan that is refused says why, and what was
  planned opens without ever finding an engine or its key store not linked: the branch of the opening that says so is
  never taken.\<close>

theorem storage_reached_as_declared:
  "case storage_plan env lk d file of
     Inl problems \<Rightarrow> problems \<noteq> []
   | Inr planned \<Rightarrow> planned_as_declared env lk d planned \<and>
       (case planned of
          KeptStorage stores key_store keys serving \<Rightarrow>
            (case storage_engines oe lk stores key_store keys of
               Inl problem \<Rightarrow> problem \<in> set (List.map_filter (\<lambda>p. op_create oe (op_directory oe p)) stores) \<union>
                 set (lefts (map2 (op_engine oe) [the (sk_engine lk), the (sk_administration lk), the (sk_administration lk)] stores))
             | Inr (engines, _) \<Rightarrow> length engines = 3)
        | _ \<Rightarrow> True)"
proof (cases "storage_plan env lk d file")
  case (Inl problems)
  then show ?thesis using storage_plan_says_why [OF Inl] by simp
next
  case (Inr planned)
  note declared = storage_plan_as_declared [OF Inr]
  have "case storage_engines oe lk stores key_store keys of
               Inl problem \<Rightarrow> problem \<in> set (List.map_filter (\<lambda>p. op_create oe (op_directory oe p)) stores) \<union>
                 set (lefts (map2 (op_engine oe) [the (sk_engine lk), the (sk_administration lk), the (sk_administration lk)] stores))
             | Inr (engines, _) \<Rightarrow> length engines = 3"
    if kept: "planned = KeptStorage stores key_store keys serving" for stores key_store keys serving
  proof -
    obtain runtime administration store where lk: "sk_engine lk = Some runtime" "sk_administration lk = Some administration"
        "key_store_linked lk key_store = Some store" and three: "length stores = 3"
      using declared key_store_linked_in [of lk key_store] by (auto simp: planned_as_declared_def kept)
    let ?rs = "map2 (op_engine oe) [runtime, administration, administration] stores"
    show ?thesis
    proof (cases "results ?rs")
      case (Inl es)
      then have "es = lefts ?rs" "es \<noteq> []" by (auto simp: results_def split: if_splits)
      then show ?thesis using first_error_in Inl by (auto simp: storage_engines_def lk split: option.splits)
    next
      case (Inr engines)
      then have "?rs = map Inr engines" by (simp only: results_ok)
      from arg_cong [OF this, of length] three have "length engines = 3" by simp
      then show ?thesis using first_error_in Inr by (auto simp: storage_engines_def lk split: option.splits)
    qed
  qed
  then show ?thesis using declared Inr by (auto split: planned.splits)
qed

end
