(* ===== verification/Node_Start.thy ===== *)
theory Node_Start
  imports Storage_Plan "HOL-Library.Char_ord" "HOL-Library.List_Lexorder" "HOL-Library.Sublist"
begin

text \<open>
  \<open>src/signed.rs\<close>, \<open>src/start.rs\<close>, \<open>src/catalogue.rs\<close> and \<open>src/service.rs\<close>: a node's configuration file held to its
  cluster authority's signature, the slice accepted kept and run in place of one that does not verify; the
  configuration read, planned and validated for a surface; and the technologies a runtime carries. Signatures,
  digests and the reading of a document are their libraries', arguments; the files are a map from paths to what
  they hold, with what a write is refused by.
\<close>

section \<open>A slice signed\<close>

record signature =
  sn_cluster :: string
  sn_by :: string
  sn_value :: string

record ('p, 'k) signed_env =
  sd_split :: "string \<Rightarrow> string + string \<times> signature option"
  sd_joined :: "string \<Rightarrow> signature \<Rightarrow> string"
  sd_message :: "string \<Rightarrow> string \<Rightarrow> string"
  sd_sha256_hex :: "string \<Rightarrow> string"
  sd_certificates :: "string \<Rightarrow> string + string list"
  sd_sign :: "'k \<Rightarrow> string \<Rightarrow> string + string"
  sd_verifies :: "string \<Rightarrow> string \<Rightarrow> string \<Rightarrow> string + bool"
  sd_base64 :: "string \<Rightarrow> string"
  sd_unbase64 :: "string \<Rightarrow> string option"
  sd_beside :: "'p \<Rightarrow> 'p"
  sd_named :: "string \<Rightarrow> string option \<times> string option"
  sd_data_directory :: "string option \<Rightarrow> 'p \<Rightarrow> 'p"
  sd_join :: "'p \<Rightarrow> string \<Rightarrow> 'p"
  sd_display :: "'p \<Rightarrow> string"
  sd_unread :: "'p \<Rightarrow> string"
  sd_unmade :: "'p \<Rightarrow> string option"
  sd_unwritten :: "'p \<Rightarrow> string option"

definition slice_digest :: "('p, 'k) signed_env \<Rightarrow> string \<Rightarrow> string" where
  "slice_digest env bytes = ''sha256:'' @ sd_sha256_hex env bytes"

definition certificate_der :: "('p, 'k) signed_env \<Rightarrow> string \<Rightarrow> string + string" where
  "certificate_der env pem =
     (case sd_certificates env pem of
        Inl e \<Rightarrow> Inl e
      | Inr [] \<Rightarrow> Inl (''the authority'' @ [CHR 0x27] @ ''s certificate holds no CERTIFICATE'')
      | Inr (d # _) \<Rightarrow> Inr d)"

text \<open>\<open>sign\<close>: by an authority's key and its certificate.\<close>

definition sign_slice :: "('p, 'k) signed_env \<Rightarrow> 'k \<Rightarrow> string \<Rightarrow> string \<Rightarrow> string \<Rightarrow> string + string" where
  "sign_slice env key certificate cluster given =
     (case sd_split env given of
        Inl e \<Rightarrow> Inl e
      | Inr (contents, _) \<Rightarrow>
         (case sd_sign env key (sd_message env contents (slice_digest env cluster)) of
           Inl e \<Rightarrow> Inl e
         | Inr v \<Rightarrow>
            (case certificate_der env certificate of
               Inl e \<Rightarrow> Inl e
             | Inr d \<Rightarrow> Inr (sd_joined env contents \<lparr>sn_cluster = slice_digest env cluster, sn_by = slice_digest env d, sn_value = sd_base64 env v\<rparr>))))"

definition slice_verified :: "('p, 'k) signed_env \<Rightarrow> string \<Rightarrow> string \<Rightarrow> string + string \<times> signature" where
  "slice_verified env file anchor =
     (case sd_split env file of
        Inl e \<Rightarrow> Inl e
      | Inr (contents, None) \<Rightarrow> Inl ''it is not signed''
      | Inr (contents, Some sg) \<Rightarrow>
         (case certificate_der env anchor of
            Inl e \<Rightarrow> Inl e
          | Inr d \<Rightarrow>
             if sn_by sg \<noteq> slice_digest env d then Inl (''it is signed by an authority other than this node'' @ [CHR 0x27] @ ''s'')
             else
               case sd_unbase64 env (sn_value sg) of
                 None \<Rightarrow> Inl ''its signature is not base64''
               | Some v \<Rightarrow>
                  (case sd_verifies env anchor (sd_message env contents (sn_cluster sg)) v of
                     Inl e \<Rightarrow> Inl e
                   | Inr True \<Rightarrow> Inr (contents, sg)
                   | Inr False \<Rightarrow> Inl ''its signature does not verify: it was changed after it was signed'')))"

section \<open>The slice a node runs\<close>

type_synonym 'p files = "'p \<rightharpoonup> string"

definition authority_folder :: string where "authority_folder = ''authority''"

definition accepted_name :: string where "accepted_name = ''accepted.xmip''"

definition anchor_at :: "('p, 'k) signed_env \<Rightarrow> string \<Rightarrow> 'p \<Rightarrow> 'p" where
  "anchor_at env certificate path = sd_join env (sd_join env (sd_beside env path) authority_folder) certificate"

definition slice_anchor :: "('p, 'k) signed_env \<Rightarrow> string \<Rightarrow> 'p files \<Rightarrow> 'p \<Rightarrow> string + string" where
  "slice_anchor env certificate fs path =
     (case fs (anchor_at env certificate path) of
        Some pem \<Rightarrow> Inr pem
      | None \<Rightarrow> Inl (''no cluster authority'' @ [CHR 0x27] @ ''s certificate at '' @ sd_display env (anchor_at env certificate path) @ '': '' @
          sd_unread env (anchor_at env certificate path) @ ''; a node runs only a slice its cluster'' @ [CHR 0x27] @ ''s authority signed''))"

text \<open>Where the node that \<open>file\<close> names keeps its accepted slice.\<close>

definition kept_at :: "('p, 'k) signed_env \<Rightarrow> 'p \<Rightarrow> string \<Rightarrow> 'p" where
  "kept_at env path file =
     sd_join env (sd_data_directory env (snd (sd_named env file)) path)
       ((case fst (sd_named env file) of None \<Rightarrow> ''node'' | Some n \<Rightarrow> n) @ ''.'' @ accepted_name)"

text \<open>What refuses the accepted slice being written: its folder not made, else the file.\<close>

definition data_at :: "('p, 'k) signed_env \<Rightarrow> 'p \<Rightarrow> string \<Rightarrow> 'p" where
  "data_at env path file = sd_data_directory env (snd (sd_named env file)) path"

definition unkept :: "('p, 'k) signed_env \<Rightarrow> 'p \<Rightarrow> string \<Rightarrow> string option" where
  "unkept env path file =
     (case sd_unmade env (data_at env path file) of
        Some e \<Rightarrow> Some e
      | None \<Rightarrow> sd_unwritten env (kept_at env path file))"

definition slice_accepted ::
  "('p, 'k) signed_env \<Rightarrow> string \<Rightarrow> 'p files \<Rightarrow> 'p \<Rightarrow> string \<Rightarrow> (string + string \<times> string option) \<times> 'p files" where
  "slice_accepted env certificate fs path file =
     (case slice_anchor env certificate fs path of
        Inl e \<Rightarrow> (Inl e, fs)
      | Inr anchor \<Rightarrow>
         let at = kept_at env path file in
         case slice_verified env file anchor of
           Inr (contents, _) \<Rightarrow>
             (if fs at = Some file then (Inr (contents, None), fs)
              else
                case unkept env path file of
                  Some e \<Rightarrow> (Inl (''cannot keep the accepted slice at '' @ sd_display env at @ '': '' @ e), fs)
                | None \<Rightarrow> (Inr (contents, None), fs(at \<mapsto> file)))
         | Inl why \<Rightarrow>
            let refused = sd_display env path @ '' is refused: '' @ why in
            case Option.bind (fs at) (\<lambda>kept. case slice_verified env kept anchor of Inl _ \<Rightarrow> None | Inr (contents, _) \<Rightarrow> Some contents) of
              Some contents \<Rightarrow> (Inr (contents, Some (refused @ ''; the node runs its accepted slice, '' @ sd_display env at)), fs)
            | None \<Rightarrow> (Inl (refused @ '', and the node has no accepted slice to run''), fs))"

text \<open>\<open>delivered\<close>: a slice placed on its node, with the authority's certificate where the node checks it. A write refused
  leaves what was written before it.\<close>

definition slice_delivered ::
  "('p, 'k) signed_env \<Rightarrow> string \<Rightarrow> 'k \<Rightarrow> string \<Rightarrow> string \<Rightarrow> string \<Rightarrow> 'p files \<Rightarrow> 'p \<Rightarrow> string option \<times> 'p files" where
  "slice_delivered env name key certificate cluster given fs path =
     (case sign_slice env key certificate cluster given of
        Inl e \<Rightarrow> (Some e, fs)
      | Inr written \<Rightarrow>
         let folder = sd_join env (sd_beside env path) authority_folder; at = sd_join env folder name in
         case sd_unmade env folder of
           Some e \<Rightarrow> (Some (sd_display env folder @ '': '' @ e), fs)
         | None \<Rightarrow>
            (case sd_unwritten env at of
               Some e \<Rightarrow> (Some (sd_display env at @ '': '' @ e), fs)
             | None \<Rightarrow>
                (case sd_unwritten env path of
                   Some e \<Rightarrow> (Some (sd_display env path @ '': '' @ e), fs(at \<mapsto> certificate))
                 | None \<Rightarrow> (None, fs(at \<mapsto> certificate, path \<mapsto> written)))))"

section \<open>The technologies a runtime carries\<close>

datatype carried_as = TransportCarried | ContractCarried

record 's carried_technology =
  cy_capability :: carried_as
  cy_schemes :: "string list"
  cy_settings :: 's

text \<open>\<open>carry\<close>: a technology again changes nothing. \<open>technology\<close> names what a declaration declares.\<close>

definition carry_technology ::
  "('s \<Rightarrow> string) \<Rightarrow> carried_as \<times> 's \<times> string list \<Rightarrow> 's carried_technology list \<Rightarrow> 's carried_technology list" where
  "carry_technology technology = (\<lambda>(capability, settings, schemes) carried.
     if list_all (\<lambda>held. technology (cy_settings held) \<noteq> technology settings) carried
     then sort_key (technology \<circ> cy_settings) (carried @ [\<lparr>cy_capability = capability, cy_schemes = schemes, cy_settings = settings\<rparr>])
     else carried)"

definition catalogue_declarations :: "('s \<Rightarrow> string) \<Rightarrow> 's carried_technology list \<Rightarrow> (string \<times> 's) list" where
  "catalogue_declarations technology carried =
     concat (map (\<lambda>held. case cy_capability held of
        TransportCarried \<Rightarrow> map (\<lambda>scheme. (scheme, cy_settings held)) (cy_schemes held)
      | ContractCarried \<Rightarrow> [(technology (cy_settings held), cy_settings held)]) carried)"

text \<open>\<open>catalogue\<close>, as the list its answer is serialized from.\<close>

definition catalogue_of :: "('s \<Rightarrow> string) \<Rightarrow> 's carried_technology list \<Rightarrow> string \<Rightarrow> string + 's carried_technology list" where
  "catalogue_of technology carried asked =
     (let technologies = filter (\<lambda>held. asked = [] \<or> technology (cy_settings held) = asked) carried in
      if technologies = [] \<and> asked \<noteq> []
      then Inl (''this runtime carries no technology '' @ [CHR 0x27] @ asked @ [CHR 0x27])
      else Inr technologies)"

section \<open>A node's configuration read\<close>

datatype startup_phase = ReadConfiguration | BuildExecutionTree | ValidateStartup | PlanHostServices | StartHostServices | LoadModules
  | RegisterCapabilities | VerifyExtensions | AcceptWork

fun phase_id :: "startup_phase \<Rightarrow> string" where
  "phase_id ReadConfiguration = ''read-configuration''"
| "phase_id BuildExecutionTree = ''build-execution-tree''"
| "phase_id ValidateStartup = ''validate-startup''"
| "phase_id PlanHostServices = ''plan-host-services''"
| "phase_id StartHostServices = ''start-host-services''"
| "phase_id LoadModules = ''load-modules''"
| "phase_id RegisterCapabilities = ''register-capabilities''"
| "phase_id VerifyExtensions = ''verify-extensions''"
| "phase_id AcceptWork = ''accept-work''"

definition startup_phases :: "startup_phase list" where
  "startup_phases = [ReadConfiguration, BuildExecutionTree, ValidateStartup, PlanHostServices, StartHostServices, LoadModules,
     RegisterCapabilities, VerifyExtensions, AcceptWork]"

definition startup_sequence :: "string list" where
  "startup_sequence = map phase_id startup_phases"

datatype document_kind = NodeDocument | ClusterDocument

datatype health = Fine | Working | Stressed | Exhausted | Holding | Paused | Done

record health_record =
  hr_scope :: string
  hr_health :: health
  hr_severity :: nat
  hr_evidence :: string
  hr_observed :: nat

type_synonym snapshot = "health_record list"

text \<open>What the configuration and observation libraries answer, beside \<open>configure_env\<close>: the document a text is and its
  Applications' sections, a cluster's file sliced, and the records a snapshot holds at and below a scope.\<close>

record ('g, 'x, 's) start_env =
  st_configure :: "('g, 'x, 's) configure_env"
  st_parse_failed :: string
  st_parse_toml :: "string \<Rightarrow> string + ('g, 'x) document"
  st_node_name :: "'x \<Rightarrow> string"
  st_cluster_name :: "'x \<Rightarrow> string"
  st_binding_name :: "'g application_binding \<Rightarrow> string"
  st_section :: "('g, 'x) document \<Rightarrow> string \<Rightarrow> (string + application) option"
  st_version :: "manifest \<Rightarrow> string"
  st_kind :: "string \<Rightarrow> document_kind"
  st_slices :: "string \<Rightarrow> string + (string \<times> string) list"
  st_not_started :: string
  st_health :: "snapshot \<Rightarrow> string \<Rightarrow> health_record list"

definition read_node :: "('g, 'x, 's) start_env \<Rightarrow> string \<Rightarrow> startup_report + ('g, 'x) document" where
  "read_node se source =
     (case st_parse_toml se source of
        Inl e \<Rightarrow> Inl \<lparr>sr_errors = [st_parse_failed se @ '': '' @ e], sr_warnings = []\<rparr>
      | Inr d \<Rightarrow> Inr d)"

record application_file =
  af_name :: string
  af_file :: string
  af_text :: string

text \<open>\<open>collect\<close> of results: the first refused, else all of them.\<close>

primrec collected :: "('e + 'a) list \<Rightarrow> 'e + 'a list" where
  "collected [] = Inr []"
| "collected (r # rs) = (case r of Inl e \<Rightarrow> Inl e | Inr x \<Rightarrow> (case collected rs of Inl e \<Rightarrow> Inl e | Inr xs \<Rightarrow> Inr (x # xs)))"

definition bound_applications ::
  "('g, 'x, 's) start_env \<Rightarrow> string \<Rightarrow> string \<Rightarrow> ('g, 'x) document \<Rightarrow> string + application list \<times> application_file list" where
  "bound_applications se path source d =
     (case collected (map (\<lambda>binding.
         case st_section se d (st_binding_name se binding) of
           None \<Rightarrow> Inl (path @ '' binds the Xmip Application '' @ [CHR 0x27] @ st_binding_name se binding @ [CHR 0x27] @ '' and holds no section of it'')
         | Some (Inl e) \<Rightarrow> Inl e
         | Some (Inr app) \<Rightarrow> Inr (app, \<lparr>af_name = st_binding_name se binding, af_file = path, af_text = source\<rparr>)) (dc_applications d)) of
        Inl e \<Rightarrow> Inl e
      | Inr rs \<Rightarrow> Inr (map fst rs, map snd rs))"

record unread =
  un_scope :: string
  un_reason :: string

fun semicolon_joined :: "string list \<Rightarrow> string" where
  "semicolon_joined [] = []"
| "semicolon_joined [x] = x"
| "semicolon_joined (x # xs) = x @ ''; '' @ semicolon_joined xs"

abbreviation root_scope :: string where "root_scope \<equiv> ''xmip:///''"

type_synonym ('g, 'x) node_read = "('g, 'x) document \<times> application list \<times> application_file list"

text \<open>\<open>read_accepted\<close>: the slice accepted, parsed, and the Applications it binds. The first argument is the
  authority's certificate's file name.\<close>

definition read_accepted ::
  "('p, 'k) signed_env \<Rightarrow> ('g, 'x, 's) start_env \<Rightarrow> string \<Rightarrow> 'p files \<Rightarrow> 'p \<Rightarrow>
     (unread + ('g, 'x) node_read \<times> string option) \<times> 'p files" where
  "read_accepted env se certificate fs path =
     (case fs path of
        None \<Rightarrow> (Inl \<lparr>un_scope = root_scope, un_reason = ''cannot read '' @ sd_display env path @ '': '' @ sd_unread env path\<rparr>, fs)
      | Some file \<Rightarrow>
         (case slice_accepted env certificate fs path file of
            (Inl e, fs') \<Rightarrow> (Inl \<lparr>un_scope = root_scope, un_reason = e\<rparr>, fs')
          | (Inr (source, refused), fs') \<Rightarrow>
             ((case read_node se source of
                 Inl report \<Rightarrow> Inl \<lparr>un_scope = root_scope, un_reason = sd_display env path @ '' does not parse: '' @ semicolon_joined (sr_errors report)\<rparr>
               | Inr d \<Rightarrow>
                  (case bound_applications se (sd_display env path) source d of
                     Inl reason \<Rightarrow> Inl \<lparr>un_scope = root_scope @ st_node_name se (dc_service d), un_reason = ''configuration refused: '' @ reason\<rparr>
                   | Inr (applications, af) \<Rightarrow> Inr ((d, applications, af), refused))), fs')))"

section \<open>A node planned, as a surface asks\<close>

definition unconfigured :: "nat \<Rightarrow> snapshot" where
  "unconfigured now = [\<lparr>hr_scope = root_scope, hr_health = Stressed, hr_severity = 50,
     hr_evidence = ''runtime loaded, no node started '' @ [CHR 0xE2, CHR 0x80, CHR 0x94] @ '' give xmip_start_v1 a node TOML'', hr_observed = now\<rparr>]"

definition start_refused :: "nat \<Rightarrow> string \<Rightarrow> string \<Rightarrow> health_record" where
  "start_refused now scope evidence = \<lparr>hr_scope = scope, hr_health = Done, hr_severity = 90, hr_evidence = evidence, hr_observed = now\<rparr>"

definition planned_record :: "nat \<Rightarrow> string \<Rightarrow> string \<Rightarrow> health_record" where
  "planned_record now scope evidence = \<lparr>hr_scope = scope, hr_health = Stressed, hr_severity = 50, hr_evidence = evidence, hr_observed = now\<rparr>"

text \<open>What a tree that was built would start, in the order its records are made.\<close>

definition planned_snapshot :: "('g, 'x, 's) start_env \<Rightarrow> nat \<Rightarrow> string \<Rightarrow> ('g, 'x) execution_tree \<Rightarrow> snapshot" where
  "planned_snapshot se now node t =
     planned_record now node (decimal (length (et_modules_to_start t)) @ '' module(s), '' @ decimal (length (et_work_processes_to_start t)) @
       '' process(es), '' @ decimal (length (et_subscriptions t)) @ '' Subscription(s) validated and planned; not running '' @
       [CHR 0xE2, CHR 0x80, CHR 0x94] @ '' a node runs in the program that links its technologies'') #
     map (\<lambda>m. planned_record now (node @ ''/module/'' @ mo_name m) (''planned, not loaded ('' @ st_version se (mo_manifest m) @ '')''))
       (et_modules_to_start t) @
     map (\<lambda>w. planned_record now (node @ ''/process/'' @ wc_name w) (''planned, not started; needs '' @ comma_joined (wc_required_modules w)))
       (et_work_processes_to_start t) @
     concat (map (\<lambda>(stage, locations). map (\<lambda>l. planned_record now (node @ ''/'' @ stage @ ''/'' @ co_name l)
         (''planned, not started at '' @ sc_address l)) locations)
       [(''receive'', et_receive_locations_to_start t), (''send'', et_send_locations_to_start t)]) @
     map (\<lambda>(stage, name). \<lparr>hr_scope = node @ ''/'' @ stage @ ''/'' @ name, hr_health = Done, hr_severity = 0, hr_evidence = st_not_started se,
         hr_observed = now\<rparr>) (not_started t)"

definition start_node ::
  "('p, 'k) signed_env \<Rightarrow> ('g, 'x, 's) start_env \<Rightarrow> (string \<times> 's) list \<Rightarrow> string \<Rightarrow> nat \<Rightarrow> 'p files \<Rightarrow> 'p \<Rightarrow> snapshot \<times> 'p files" where
  "start_node env se declared certificate now fs path =
     (case read_accepted env se certificate fs path of
        (Inl u, fs') \<Rightarrow> ([start_refused now (un_scope u) (un_reason u)], fs')
      | (Inr ((d, applications, _), _), fs') \<Rightarrow>
         let node = root_scope @ st_node_name se (dc_service d) in
         case build_execution_tree (st_configure se) d applications declared of
           Inl report \<Rightarrow> ([start_refused now node (''configuration refused: '' @ semicolon_joined (sr_errors report))], fs')
         | Inr (t, _) \<Rightarrow> (planned_snapshot se now node t, fs'))"

text \<open>\<open>start_published\<close>: the snapshot published, and whether the node validated.\<close>

definition start_published ::
  "('p, 'k) signed_env \<Rightarrow> ('g, 'x, 's) start_env \<Rightarrow> (string \<times> 's) list \<Rightarrow> string \<Rightarrow> nat \<Rightarrow> 'p files \<Rightarrow> 'p \<Rightarrow> bool \<times> snapshot \<times> 'p files" where
  "start_published env se declared certificate now fs path =
     (case start_node env se declared certificate now fs path of
        (found, fs') \<Rightarrow> (\<not> list_ex (\<lambda>h. hr_health h = Done) (st_health se found root_scope), found, fs'))"

definition validate_node :: "('g, 'x, 's) start_env \<Rightarrow> (string \<times> 's) list \<Rightarrow> string \<Rightarrow> string list" where
  "validate_node se declared source =
     (case read_node se source of
        Inl report \<Rightarrow> sr_errors report
      | Inr d \<Rightarrow> sr_errors (validate_startup_configuration (st_configure se) d declared))"

definition node_location :: "string \<Rightarrow> string \<Rightarrow> string" where
  "node_location cluster node = root_scope @ cluster @ ''/node/'' @ node"

definition validate_document :: "('g, 'x, 's) start_env \<Rightarrow> (string \<times> 's) list \<Rightarrow> string \<Rightarrow> string list" where
  "validate_document se declared source =
     (case st_kind se source of
        NodeDocument \<Rightarrow> validate_node se declared source
      | ClusterDocument \<Rightarrow>
         (case st_slices se source of
            Inl problem \<Rightarrow> [problem]
          | Inr parts \<Rightarrow>
             concat (map (\<lambda>(node, part).
                let cluster = (case st_parse_toml se part of Inl _ \<Rightarrow> [] | Inr d \<Rightarrow> st_cluster_name se (dc_service d)) in
                map (\<lambda>problem. node_location cluster node @ '': '' @ problem) (validate_node se declared part)) parts)))"

section \<open>Only what was signed runs\<close>

text \<open>A text that its node's authority signed: named by the digest of the anchor, and verifying under it.\<close>

definition signed_by_anchor :: "('p, 'k) signed_env \<Rightarrow> string \<Rightarrow> string \<Rightarrow> string \<Rightarrow> bool" where
  "signed_by_anchor env anchor file contents \<longleftrightarrow>
     (\<exists>sg d v. sd_split env file = Inr (contents, Some sg) \<and> certificate_der env anchor = Inr d \<and> sn_by sg = slice_digest env d \<and>
        sd_unbase64 env (sn_value sg) = Some v \<and> sd_verifies env anchor (sd_message env contents (sn_cluster sg)) v = Inr True)"

lemma verified_signed: "slice_verified env file anchor = Inr (contents, sg) \<Longrightarrow> signed_by_anchor env anchor file contents"
  by (auto simp: slice_verified_def signed_by_anchor_def split: sum.splits prod.splits option.splits bool.splits if_splits)

lemma signed_verified: "signed_by_anchor env anchor file contents \<Longrightarrow> \<exists>sg. slice_verified env file anchor = Inr (contents, sg)"
  by (auto simp: slice_verified_def signed_by_anchor_def)

text \<open>C34: A node runs only what its cluster's authority signed: whatever file stands at its configuration's path, the text it
  runs is that of a file that verifies under the certificate kept beside it, its own file where that verifies, and
  then kept as its accepted slice, or the accepted slice kept before, with why its own was refused, and nothing written.
  Where it runs nothing, nothing is written.\<close>

theorem runs_only_signed_slices:
  "case slice_accepted env certificate fs path file of
     (Inr (contents, refused), fs') \<Rightarrow>
       (\<exists>anchor. fs (anchor_at env certificate path) = Some anchor \<and>
          (if refused = None then signed_by_anchor env anchor file contents \<and> fs' = fs(kept_at env path file \<mapsto> file)
           else (\<exists>kept. fs (kept_at env path file) = Some kept \<and> signed_by_anchor env anchor kept contents) \<and>
             (\<forall>t. \<not> signed_by_anchor env anchor file t) \<and> fs' = fs))
   | (Inl _, fs') \<Rightarrow> fs' = fs"
proof -
  have same: "fs at = Some file \<Longrightarrow> fs = fs(at \<mapsto> file)" for at by (auto simp: fun_eq_iff)
  show ?thesis
  proof (cases "fs (anchor_at env certificate path)")
    case None
    then show ?thesis by (simp add: slice_accepted_def slice_anchor_def)
  next
    case (Some anchor)
    then have a: "slice_anchor env certificate fs path = Inr anchor" by (simp add: slice_anchor_def)
    show ?thesis
    proof (cases "slice_verified env file anchor")
      case (Inr r)
      then obtain contents sg where r: "slice_verified env file anchor = Inr (contents, sg)" by (cases r) simp
      show ?thesis using Some a r verified_signed [OF r] same
        by (auto simp: slice_accepted_def Let_def split: option.splits)
    next
      case (Inl why)
      then have no: "\<not> signed_by_anchor env anchor file t" for t using signed_verified [of env anchor "file" t] by auto
      show ?thesis
      proof (cases "Option.bind (fs (kept_at env path file)) (\<lambda>kept. case slice_verified env kept anchor of Inl _ \<Rightarrow> None | Inr (contents, _) \<Rightarrow> Some contents)")
        case None
        then show ?thesis using a Inl by (simp add: slice_accepted_def Let_def)
      next
        case (Some contents)
        then obtain kept where kept: "fs (kept_at env path file) = Some kept"
            "(case slice_verified env kept anchor of Inl _ \<Rightarrow> None | Inr (contents, _) \<Rightarrow> Some contents) = Some contents"
          by (auto simp: bind_eq_Some_conv)
        then obtain sg where "slice_verified env kept anchor = Inr (contents, sg)" by (cases "slice_verified env kept anchor") auto
        with kept have "fs (kept_at env path file) = Some kept" "slice_verified env kept anchor = Inr (contents, sg)" by simp_all
        then show ?thesis using Some a Inl no verified_signed \<open>fs (anchor_at env certificate path) = Some anchor\<close>
          by (auto simp: slice_accepted_def Let_def)
      qed
    qed
  qed
qed

section \<open>A slice delivered runs\<close>

text \<open>What is relied on of the libraries: a text split from a file and joined with a signature splits into both again, base64
  reads back, and what a key signs verifies under its certificate.\<close>

definition signature_laws :: "('p, 'k) signed_env \<Rightarrow> 'k \<Rightarrow> string \<Rightarrow> bool" where
  "signature_laws env key certificate \<longleftrightarrow>
     (\<forall>given contents s a b v. sd_split env given = Inr (contents, s) \<longrightarrow>
        sd_split env (sd_joined env contents \<lparr>sn_cluster = slice_digest env a, sn_by = slice_digest env b, sn_value = v\<rparr>) =
          Inr (contents, Some \<lparr>sn_cluster = slice_digest env a, sn_by = slice_digest env b, sn_value = v\<rparr>)) \<and>
     (\<forall>v. sd_unbase64 env (sd_base64 env v) = Some v) \<and>
     (\<forall>m v. sd_sign env key m = Inr v \<longrightarrow> sd_verifies env certificate m v = Inr True)"

lemma signed_slice_verifies:
  assumes laws: "signature_laws env key certificate" and split: "sd_split env given = Inr (contents, s)"
    and signed: "sign_slice env key certificate cluster given = Inr written"
  shows "\<exists>sg. slice_verified env written certificate = Inr (contents, sg) \<and> sn_cluster sg = slice_digest env cluster"
proof -
  obtain v d where sign: "sd_sign env key (sd_message env contents (slice_digest env cluster)) = Inr v"
      and der: "certificate_der env certificate = Inr d"
      and w: "written = sd_joined env contents \<lparr>sn_cluster = slice_digest env cluster, sn_by = slice_digest env d, sn_value = sd_base64 env v\<rparr>"
    using signed split by (auto simp: sign_slice_def split: sum.splits)
  have "sd_split env written = Inr (contents, Some \<lparr>sn_cluster = slice_digest env cluster, sn_by = slice_digest env d, sn_value = sd_base64 env v\<rparr>)"
    using laws split unfolding signature_laws_def w by blast
  moreover have "sd_unbase64 env (sd_base64 env v) = Some v" using laws unfolding signature_laws_def by blast
  moreover have "sd_verifies env certificate (sd_message env contents (slice_digest env cluster)) v = Inr True"
    using laws sign unfolding signature_laws_def by blast
  ultimately show ?thesis using der by (simp add: slice_verified_def)
qed

text \<open>A slice delivered runs on its node: where \<open>delivered\<close> signed it and wrote it with the authority's certificate, the
  node that reads the file at its path finds it signed, by its own authority, accepts it and runs the text that was
  delivered and no other; and what it accepted is kept for when a later file is refused.\<close>

theorem delivered_slice_runs:
  assumes laws: "signature_laws env key certificate" and split: "sd_split env given = Inr (contents, s)"
    and delivered: "slice_delivered env name key certificate cluster given fs path = (None, fs')"
    and apart: "path \<noteq> anchor_at env name path"
  shows "\<exists>written. fs' path = Some written \<and>
    (unkept env path written = None \<longrightarrow>
       slice_accepted env name fs' path written = (Inr (contents, None), fs'(kept_at env path written \<mapsto> written)))"
proof -
  have at: "anchor_at env name path = sd_join env (sd_join env (sd_beside env path) authority_folder) name" by (simp add: anchor_at_def)
  obtain written where w: "sign_slice env key certificate cluster given = Inr written"
      and fs': "fs' = fs(anchor_at env name path \<mapsto> certificate, path \<mapsto> written)"
    using delivered unfolding slice_delivered_def Let_def at by (auto split: sum.splits option.splits)
  obtain sg where v: "slice_verified env written certificate = Inr (contents, sg)" using signed_slice_verifies [OF laws split w] by blast
  have anchor: "slice_anchor env name fs' path = Inr certificate" using apart by (simp add: slice_anchor_def fs')
  have same: "fs' p = Some written \<Longrightarrow> fs'(p \<mapsto> written) = fs'" for p by (auto simp: fun_eq_iff)
  have "unkept env path written = None \<Longrightarrow>
      slice_accepted env name fs' path written = (Inr (contents, None), fs'(kept_at env path written \<mapsto> written))"
    using anchor v same by (simp add: slice_accepted_def Let_def)
  then show ?thesis using fs' by (intro exI [of _ written]) simp
qed

text \<open>Signatures of a toy authority, whose key is its certificate, over files whose text ends at the first null.\<close>

definition toy_signed :: "(string, string) signed_env" where
  "toy_signed =
     (let ends = (\<lambda>c. c \<noteq> CHR 0x00); digest = ''sha256:00'' in
      \<lparr>sd_split = \<lambda>whole. Inr (takeWhile ends whole, case dropWhile ends whole of [] \<Rightarrow> None | _ # v \<Rightarrow>
         Some \<lparr>sn_cluster = digest, sn_by = digest, sn_value = v\<rparr>),
       sd_joined = \<lambda>contents sg. contents @ [CHR 0x00] @ sn_value sg, sd_message = (@), sd_sha256_hex = \<lambda>_. ''00'', sd_certificates = \<lambda>pem. Inr [pem],
       sd_sign = \<lambda>key m. Inr (key @ m), sd_verifies = \<lambda>pem m v. Inr (v = pem @ m), sd_base64 = \<lambda>v. v, sd_unbase64 = Some,
       sd_beside = \<lambda>_. ''/etc'', sd_named = \<lambda>whole. (Some (takeWhile ends whole), None), sd_data_directory = \<lambda>_ _. ''/data'',
       sd_join = \<lambda>folder name. folder @ ''/'' @ name, sd_display = \<lambda>p. p, sd_unread = \<lambda>_. ''not found'', sd_unmade = \<lambda>_. None,
       sd_unwritten = \<lambda>_. None\<rparr>)"

lemmas toy_simps = toy_signed_def Let_def

lemma toy_laws: "signature_laws toy_signed key key"
proof -
  have t: "list_all (\<lambda>c. c \<noteq> CHR 0x00) (takeWhile (\<lambda>c. c \<noteq> CHR 0x00) xs)" for xs :: string
    by (induction xs) auto
  have tw: "list_all P xs \<Longrightarrow> \<not> P y \<Longrightarrow> takeWhile P (xs @ y # ys) = xs \<and> dropWhile P (xs @ y # ys) = y # ys" for P and xs ys :: string and y
    by (induction xs) auto
  show ?thesis using tw [OF t] by (simp add: signature_laws_def toy_simps slice_digest_def)
qed

theorem delivered_slice_runs_witness:
  "\<exists>written. written = ''here'' @ [CHR 0x00] @ ''keyheresha256:00'' \<and>
     slice_delivered toy_signed ''ca'' ''key'' ''key'' ''all'' ''here'' Map.empty ''/etc/n'' =
       (None, [''/etc/authority/ca'' \<mapsto> ''key'', ''/etc/n'' \<mapsto> written]) \<and>
     slice_accepted toy_signed ''ca'' [''/etc/authority/ca'' \<mapsto> ''key'', ''/etc/n'' \<mapsto> written] ''/etc/n'' written =
       (Inr (''here'', None), [''/etc/authority/ca'' \<mapsto> ''key'', ''/etc/n'' \<mapsto> written, ''/data/here.accepted.xmip'' \<mapsto> written])"
proof -
  define w where "w = ''here'' @ [CHR 0x00] @ ''keyheresha256:00''"
  have d: "slice_delivered toy_signed ''ca'' ''key'' ''key'' ''all'' ''here'' Map.empty ''/etc/n'' =
       (None, [''/etc/authority/ca'' \<mapsto> ''key'', ''/etc/n'' \<mapsto> w])"
    by (simp add: slice_delivered_def sign_slice_def certificate_der_def toy_simps slice_digest_def authority_folder_def w_def)
  have split: "sd_split toy_signed ''here'' = Inr (''here'', None)" by (simp add: toy_simps)
  have apart: "''/etc/n'' \<noteq> anchor_at toy_signed ''ca'' ''/etc/n''" by (simp add: anchor_at_def toy_simps authority_folder_def)
  have "unkept toy_signed ''/etc/n'' w = None" "kept_at toy_signed ''/etc/n'' w = ''/data/here.accepted.xmip''"
    by (simp_all add: unkept_def kept_at_def toy_simps w_def accepted_name_def)
  then have "slice_accepted toy_signed ''ca'' [''/etc/authority/ca'' \<mapsto> ''key'', ''/etc/n'' \<mapsto> w] ''/etc/n'' w =
       (Inr (''here'', None), [''/etc/authority/ca'' \<mapsto> ''key'', ''/etc/n'' \<mapsto> w, ''/data/here.accepted.xmip'' \<mapsto> w])"
    using delivered_slice_runs [OF toy_laws split d apart] by simp
  with d show ?thesis by (intro exI [of _ w]) (simp add: w_def)
qed

text \<open>A file refused is not always answered by the accepted slice: where the accepted slice is kept is read from the file
  that did not verify, so an edit that changes the node's name leaves the node with nothing to run, although its
  accepted slice is kept and still verifies.\<close>

theorem refused_edit_hides_accepted:
  "\<exists>fs kept edited. fs ''/etc/authority/ca'' = Some ''key'' \<and> slice_verified toy_signed kept ''key'' \<noteq> slice_verified toy_signed edited ''key'' \<and>
     slice_accepted toy_signed ''ca'' fs ''/etc/n'' kept = (Inr (''here'', None), fs) \<and>
     slice_accepted toy_signed ''ca'' fs ''/etc/n'' edited =
       (Inl (''/etc/n is refused: its signature does not verify: it was changed after it was signed, and the node has no accepted slice to run''), fs)"
proof -
  define kept where "kept = ''here'' @ [CHR 0x00] @ ''keyheresha256:00''"
  define edited where "edited = ''there'' @ [CHR 0x00] @ ''keyheresha256:00''"
  define fs where "fs = [''/etc/authority/ca'' \<mapsto> ''key'', ''/data/here.accepted.xmip'' \<mapsto> kept]"
  have at: "kept_at toy_signed ''/etc/n'' kept = ''/data/here.accepted.xmip''" "kept_at toy_signed ''/etc/n'' edited = ''/data/there.accepted.xmip''"
    by (simp_all add: kept_at_def toy_simps kept_def edited_def accepted_name_def)
  have v: "\<exists>sg. slice_verified toy_signed kept ''key'' = Inr (''here'', sg)"
    by (simp add: slice_verified_def certificate_der_def toy_simps kept_def slice_digest_def)
  have nv: "slice_verified toy_signed edited ''key'' = Inl ''its signature does not verify: it was changed after it was signed''"
    by (simp add: slice_verified_def certificate_der_def toy_simps edited_def slice_digest_def)
  have anchor: "slice_anchor toy_signed ''ca'' fs ''/etc/n'' = Inr ''key''"
    by (simp add: slice_anchor_def anchor_at_def toy_simps authority_folder_def fs_def)
  have "slice_accepted toy_signed ''ca'' fs ''/etc/n'' kept = (Inr (''here'', None), fs)"
    using v anchor at by (auto simp: slice_accepted_def Let_def fs_def)
  moreover have "sd_display toy_signed p = p" for p by (simp add: toy_simps)
  then have "slice_accepted toy_signed ''ca'' fs ''/etc/n'' edited =
       (Inl (''/etc/n is refused: its signature does not verify: it was changed after it was signed, and the node has no accepted slice to run''), fs)"
    using nv anchor at by (simp add: slice_accepted_def Let_def fs_def)
  ultimately show ?thesis using v nv by (intro exI [of _ fs] exI [of _ kept] exI [of _ edited]) (auto simp: fs_def)
qed

section \<open>What a surface is told of a node\<close>

text \<open>What is relied on of a snapshot: the records at and below the root are all those whose scope begins with it.\<close>

definition health_below_root :: "('g, 'x, 's) start_env \<Rightarrow> bool" where
  "health_below_root se \<longleftrightarrow> (\<forall>found. list_all (\<lambda>h. prefix root_scope (hr_scope h)) found \<longrightarrow> set (st_health se found root_scope) = set found)"

lemma planned_below_root: "list_all (\<lambda>h. prefix root_scope (hr_scope h)) (planned_snapshot se now (root_scope @ node) t)"
  by (auto simp: planned_snapshot_def planned_record_def list_all_iff)

lemma unread_below_root: "fst (read_accepted env se certificate fs path) = Inl u \<Longrightarrow> prefix root_scope (un_scope u)"
  by (auto simp: read_accepted_def split: option.splits prod.splits sum.splits)

lemma start_below_root: "list_all (\<lambda>h. prefix root_scope (hr_scope h)) (fst (start_node env se declared certificate now fs path))"
  using unread_below_root [of env se certificate fs path] planned_below_root
  by (auto simp: start_node_def start_refused_def Let_def split: prod.splits sum.splits)

lemma planned_failing: "list_ex (\<lambda>h. hr_health h = Done) (planned_snapshot se now node t) \<longleftrightarrow> not_started t \<noteq> []"
  by (auto simp: planned_snapshot_def planned_record_def list_ex_iff) (cases "not_started t"; auto)

text \<open>A node's plan: what was read and the tree built from it.\<close>

definition planned_tree ::
  "('p, 'k) signed_env \<Rightarrow> ('g, 'x, 's) start_env \<Rightarrow> (string \<times> 's) list \<Rightarrow> string \<Rightarrow> 'p files \<Rightarrow> 'p \<Rightarrow> ('g, 'x) execution_tree option" where
  "planned_tree env se declared certificate fs path =
     (case fst (read_accepted env se certificate fs path) of
        Inl _ \<Rightarrow> None
      | Inr ((d, applications, _), _) \<Rightarrow>
         (case build_execution_tree (st_configure se) d applications declared of Inl _ \<Rightarrow> None | Inr (t, _) \<Rightarrow> Some t))"

lemma start_failing:
  "list_ex (\<lambda>h. hr_health h = Done) (fst (start_node env se declared certificate now fs path)) \<longleftrightarrow>
     (case planned_tree env se declared certificate fs path of None \<Rightarrow> True | Some t \<Rightarrow> not_started t \<noteq> [])"
  by (auto simp: start_node_def planned_tree_def start_refused_def planned_failing Let_def split: prod.splits sum.splits)

lemma start_valid_iff:
  assumes "health_below_root se"
  shows "fst (start_published env se declared certificate now fs path) \<longleftrightarrow>
    (\<exists>t. planned_tree env se declared certificate fs path = Some t \<and> not_started t = [])"
proof -
  let ?found = "fst (start_node env se declared certificate now fs path)"
  have "set (st_health se ?found root_scope) = set ?found"
    using assms start_below_root [of env se declared certificate now fs path] unfolding health_below_root_def by blast
  then have "list_ex (\<lambda>h. hr_health h = Done) (st_health se ?found root_scope) \<longleftrightarrow> list_ex (\<lambda>h. hr_health h = Done) ?found"
    by (simp add: list_ex_iff)
  then show ?thesis
    using start_failing [of env se declared certificate now fs path]
    by (auto simp: start_published_def split: prod.splits option.splits)
qed

text \<open>C36: \<open>start_published\<close> says that a node validated only where its configuration was read, its tree was built and every
  Location it knows starts: a configuration that validates, and whose Location says not to start, is told to the surface as
  one that did not validate, since the Location it does not start is recorded as failing.\<close>

theorem start_says_valid_when_all_start:
  assumes "health_below_root se"
  shows "fst (start_published env se declared certificate now fs path) \<longleftrightarrow>
    (\<exists>t. planned_tree env se declared certificate fs path = Some t \<and> not_started t = [])"
  using start_valid_iff [OF assms] .

lemma two_inboxes_built:
  "sr_errors (validate_startup_configuration plain_env two_inboxes []) = []"
  "build_execution_tree plain_env two_inboxes [] [] = Inr (orders_tree, validate_startup_configuration plain_env two_inboxes [])"
proof -
  have tn: "tuning_read (read_of_nothing some_defaults) = Inr (tuning_of (default_integer some_defaults) (default_duration some_defaults))"
    using default_not_refused [OF some_defaults_declared] by (simp add: tuning_default_def split: sum.splits)
  have names: "\<not> blank ''orders''" "\<not> blank ''returns''" "\<not> blank ''file:///in''" by (simp_all add: blank_def trim_plain plain_char_def)
  show valid: "sr_errors (validate_startup_configuration plain_env two_inboxes []) = []"
    using tn names
    by (simp add: validate_startup_configuration_def two_inboxes_def plain_env_def own_location_problems_def
        validate_location_def inbox_def tuning_problems_def)
  show "build_execution_tree plain_env two_inboxes [] [] = Inr (orders_tree, validate_startup_configuration plain_env two_inboxes [])"
    using valid tn by (simp add: build_execution_tree_def report_is_valid_def Let_def orders_tree_def plain_env_def)
qed

definition toy_start :: "(unit, unit, unit) start_env" where
  "toy_start = \<lparr>st_configure = plain_env, st_parse_failed = ''parse failed'', st_parse_toml = \<lambda>_. Inr two_inboxes, st_node_name = \<lambda>_. ''here'',
     st_cluster_name = \<lambda>_. ''all'', st_binding_name = \<lambda>_. [], st_section = \<lambda>_ _. None, st_version = \<lambda>_. ''1'', st_kind = \<lambda>_. NodeDocument,
     st_slices = \<lambda>_. Inr [], st_not_started = ''not started'', st_health = \<lambda>found scope. filter (\<lambda>h. prefix scope (hr_scope h)) found\<rparr>"

text \<open>The document of two Receive Locations, one that does not start: it validates, and \<open>start_published\<close> says it did not.\<close>

theorem start_says_valid_when_all_start_witness:
  "\<exists>fs. validate_document toy_start [] ''here'' = [] \<and>
     \<not> fst (start_published toy_signed toy_start [] ''ca'' 0 fs ''/etc/n'') \<and>
     map_option started_names (planned_tree toy_signed toy_start [] ''ca'' fs ''/etc/n'') = Some [(''receive'', ''orders'')]"
proof -
  define w where "w = ''here'' @ [CHR 0x00] @ ''keyheresha256:00''"
  define fs where "fs = [''/etc/authority/ca'' \<mapsto> ''key'', ''/etc/n'' \<mapsto> w]"
  have acc: "fst (slice_accepted toy_signed ''ca'' fs ''/etc/n'' w) = Inr (''here'', None)"
    by (simp add: slice_accepted_def slice_anchor_def anchor_at_def authority_folder_def kept_at_def accepted_name_def unkept_def slice_verified_def
        certificate_der_def slice_digest_def toy_simps fs_def w_def)
  have read: "fst (read_accepted toy_signed toy_start ''ca'' fs ''/etc/n'') = Inr ((two_inboxes, [], []), None)"
    using acc by (cases "slice_accepted toy_signed ''ca'' fs ''/etc/n'' w")
      (simp add: read_accepted_def fs_def read_node_def toy_start_def bound_applications_def two_inboxes_def)
  have valid: "sr_errors (validate_startup_configuration plain_env two_inboxes []) = []"
    and built: "build_execution_tree plain_env two_inboxes [] [] = Inr (orders_tree, validate_startup_configuration plain_env two_inboxes [])"
    using two_inboxes_built by simp_all
  have pt: "planned_tree toy_signed toy_start [] ''ca'' fs ''/etc/n'' = Some orders_tree"
    using read built by (simp add: planned_tree_def toy_start_def)
  have names: "not_started orders_tree = [(''receive'', ''returns'')]" "started_names orders_tree = [(''receive'', ''orders'')]"
    by (simp_all add: orders_tree_def tree_of_def nothing_bound_def two_inboxes_def starting_def inbox_def started_names_def not_started_def)
  have "health_below_root toy_start" by (auto simp: health_below_root_def toy_start_def list_all_iff)
  then have "\<not> fst (start_published toy_signed toy_start [] ''ca'' 0 fs ''/etc/n'')"
    using start_says_valid_when_all_start [of toy_start toy_signed "[]" "''ca''" 0 fs "''/etc/n''"] pt names by simp
  moreover have "validate_document toy_start [] ''here'' = []"
    using valid by (simp add: validate_document_def validate_node_def read_node_def toy_start_def)
  ultimately show ?thesis using pt names by (intro exI [of _ fs]) simp
qed

section \<open>Each technology carried once\<close>

lemma filter_one_key: "distinct (map f xs) \<Longrightarrow> y \<in> set xs \<Longrightarrow> filter (\<lambda>x. f x = f y) xs = [y]"
  by (induction xs) (auto simp: filter_empty_conv intro: rev_image_eqI)

lemma carry_names:
  "set (map (technology \<circ> cy_settings) (carry_technology technology c carried)) = insert (technology (fst (snd c))) (set (map (technology \<circ> cy_settings) carried))"
  by (cases c) (auto simp: carry_technology_def list_all_iff intro: rev_image_eqI)

lemma carry_sorted:
  assumes "sorted (map (technology \<circ> cy_settings) carried)" "distinct (map (technology \<circ> cy_settings) carried)"
  shows "sorted (map (technology \<circ> cy_settings) (carry_technology technology c carried))" "distinct (map (technology \<circ> cy_settings) (carry_technology technology c carried))"
proof -
  obtain k s zs where c: "c = (k, s, zs)" by (cases c)
  show "sorted (map (technology \<circ> cy_settings) (carry_technology technology c carried))" using assms by (simp add: carry_technology_def c)
  show "distinct (map (technology \<circ> cy_settings) (carry_technology technology c carried))"
  proof (cases "list_all (\<lambda>held. technology (cy_settings held) \<noteq> technology s) carried")
    case True
    define all where "all = carried @ [\<lparr>cy_capability = k, cy_schemes = zs, cy_settings = s\<rparr>]"
    have "distinct (map (technology \<circ> cy_settings) all)" using assms(2) True by (auto simp: all_def list_all_iff)
    then have "distinct (map (technology \<circ> cy_settings) (sort_key (technology \<circ> cy_settings) all))"
      by (simp add: distinct_map)
    then show ?thesis using True by (simp add: carry_technology_def c all_def)
  qed (use assms in \<open>simp add: carry_technology_def c\<close>)
qed

text \<open>However often technologies are carried, the catalogue names each of them once, in order, and is refused for exactly the
  names that were never carried.\<close>

theorem catalogue_names_each_once:
  fixes technology :: "'s \<Rightarrow> string"
  defines "carried \<equiv> \<lambda>cs. fold (carry_technology technology) cs []"
  shows "sorted (map (technology \<circ> cy_settings) (carried cs)) \<and> distinct (map (technology \<circ> cy_settings) (carried cs)) \<and>
    set (map (technology \<circ> cy_settings) (carried cs)) = (\<lambda>c. technology (fst (snd c))) ` set cs \<and>
    (if asked \<noteq> [] \<and> asked \<notin> (\<lambda>c. technology (fst (snd c))) ` set cs then isl (catalogue_of technology (carried cs) asked)
     else \<exists>found. catalogue_of technology (carried cs) asked = Inr found \<and>
       (if asked = [] then found = carried cs else \<exists>held. found = [held] \<and> technology (cy_settings held) = asked))"
proof -
  let ?n = "technology \<circ> cy_settings"
  have inv: "sorted (map ?n (carried cs)) \<and> distinct (map ?n (carried cs)) \<and> set (map ?n (carried cs)) = (\<lambda>c. technology (fst (snd c))) ` set cs"
  proof (induction cs rule: rev_induct)
    case (snoc c cs)
    then show ?case using carry_sorted [of technology "carried cs" c] carry_names [of technology c "carried cs"] by (simp add: carried_def comp_def)
  qed (simp add: carried_def)
  have one: "\<exists>held. filter (\<lambda>held. technology (cy_settings held) = asked) (carried cs) = [held] \<and> technology (cy_settings held) = asked"
    if among: "asked \<in> set (map ?n (carried cs))"
  proof -
    obtain held where h: "held \<in> set (carried cs)" "technology (cy_settings held) = asked" using among by auto
    then show ?thesis using inv filter_one_key [of ?n "carried cs" held] by auto
  qed
  show ?thesis
  proof (cases "asked = [] \<or> asked \<in> set (map ?n (carried cs))")
    case True
    then show ?thesis using inv one by (cases "asked = []") (auto simp: catalogue_of_def Let_def)
  next
    case False
    then have "filter (\<lambda>held. technology (cy_settings held) = asked) (carried cs) = []" by (auto simp: filter_empty_conv)
    then show ?thesis using inv False by (simp add: catalogue_of_def)
  qed
qed

end
