(* ===== verification/Port_Figures.thy ===== *)
theory Port_Figures
  imports Send_State "HOL-Library.Char_ord" "HOL-Library.List_Lexorder"
begin

text \<open>
  The reading of \<open>src/send_step/figures.rs\<close>: a node's figures of its Send Ports, read from the send step's state. Each of the state's
  maps is given as the list of its entries; a map ordered by its keys is a list kept in order. The texts of times and Journeys are
  their libraries', arguments.
\<close>

section \<open>The figures of the Send Ports\<close>

record port_figures =
  pg_sent :: nat
  pg_failed :: nat
  pg_waiting :: nat
  pg_last_failure :: "(ident \<times> string) option"
  pg_failing :: nat
  pg_blocked :: bool
  pg_oldest_failing :: "(ident \<times> nat \<times> string) list"
  pg_unconfirmed :: nat
  pg_unanswered_since :: "int option"
  pg_lost :: nat
  pg_unread :: "(instant \<times> string) option"

definition no_figures :: port_figures where
  "no_figures = \<lparr>pg_sent = 0, pg_failed = 0, pg_waiting = 0, pg_last_failure = None, pg_failing = 0, pg_blocked = False, pg_oldest_failing = [],
     pg_unconfirmed = 0, pg_unanswered_since = None, pg_lost = 0, pg_unread = None\<rparr>"

definition counted_figures :: "port_counts \<Rightarrow> port_figures" where
  "counted_figures c = no_figures\<lparr>pg_sent := pc_sent c, pg_failed := pc_failed c, pg_lost := pc_lost c, pg_last_failure := pc_last_failure c,
     pg_unread := pc_unread c\<rparr>"

type_synonym 'v ordered = "(string \<times> 'v) list"

text \<open>\<open>BTreeMap::entry(..).or_default()\<close>, changed.\<close>

fun port_entry :: "string \<Rightarrow> (port_figures \<Rightarrow> port_figures) \<Rightarrow> port_figures ordered \<Rightarrow> port_figures ordered" where
  "port_entry p f [] = [(p, f no_figures)]"
| "port_entry p f ((q, g) # rest) =
     (if p = q then (q, f g) # rest else if p < q then (p, f no_figures) # (q, g) # rest else (q, g) # port_entry p f rest)"

definition due_counted :: "due \<Rightarrow> port_figures ordered \<Rightarrow> port_figures ordered" where
  "due_counted d = port_entry (du_port d) (\<lambda>g. g\<lparr>pg_waiting := pg_waiting g + du_waiting d\<rparr>)"

definition owned_counted :: "instant \<Rightarrow> int \<Rightarrow> owned \<Rightarrow> port_figures ordered \<Rightarrow> port_figures ordered" where
  "owned_counted now wall ow figures =
     (case unanswered_since (ow_standing ow) of
        None \<Rightarrow> figures
      | Some asked \<Rightarrow>
         let since = wall - int (now - asked) in
         port_entry (ow_port ow) (\<lambda>g. g\<lparr>pg_unconfirmed := pg_unconfirmed g + 1,
           pg_unanswered_since := Some (case pg_unanswered_since g of None \<Rightarrow> since | Some was \<Rightarrow> min was since)\<rparr>) figures)"

definition failing_counted :: "(string \<rightharpoonup> bool) \<Rightarrow> string \<times> failed_window \<Rightarrow> port_figures ordered \<Rightarrow> port_figures ordered" where
  "failing_counted ports = (\<lambda>(port, window). port_entry port (\<lambda>g. g\<lparr>pg_failing := fw_count window, pg_oldest_failing := fw_oldest window,
     pg_blocked := (0 < fw_count window \<and> ports port = Some True)\<rparr>))"

definition figures_read ::
  "instant \<Rightarrow> int \<Rightarrow> port_counts ordered \<Rightarrow> (string \<times> bool) list \<Rightarrow> due list \<Rightarrow> owned list \<Rightarrow> (string \<times> failed_window) list \<Rightarrow> port_figures ordered" where
  "figures_read now wall counts ports dues owneds failing =
     fold (failing_counted (map_of ports)) failing
       (fold (owned_counted now wall) owneds
         (fold due_counted dues
           (fold (\<lambda>(port, _). port_entry port id) ports
             (map (\<lambda>(port, c). (port, counted_figures c)) counts))))"

definition figures_evidence :: "(int \<Rightarrow> string) \<Rightarrow> (ident \<Rightarrow> string) \<Rightarrow> port_figures \<Rightarrow> string" where
  "figures_evidence time name g =
     ''sent '' @ decimal (pg_sent g) @ '', failed '' @ decimal (pg_failed g) @ '', waiting '' @ decimal (pg_waiting g) @
     '', failed in its queue '' @ decimal (pg_failing g) @
     (if pg_blocked g then '', its sequence blocked behind them'' else []) @
     (if 0 < pg_unconfirmed g
      then '', Xmip Storage has not answered the renewal of its claims '' @ decimal (pg_unconfirmed g) @
        (case pg_unanswered_since g of None \<Rightarrow> [] | Some since \<Rightarrow> '' since '' @ time since)
      else []) @
     (case pg_unread g of None \<Rightarrow> [] | Some (since, why) \<Rightarrow>
        '', Xmip Storage has not answered a read of its queue since '' @ time (int since) @ '' ('' @ why @ '')'') @
     (if 0 < pg_lost g then '', claims lost to another holder '' @ decimal (pg_lost g) else []) @
     (case pg_last_failure g of None \<Rightarrow> [] | Some (journey, why) \<Rightarrow>
        ''; the Message of the Journey '' @ name journey @ '' failed: '' @ why)"

section \<open>The figures are those of the state\<close>

definition ordered_keys :: "'v ordered \<Rightarrow> bool" where
  "ordered_keys m \<longleftrightarrow> sorted_wrt (<) (map fst m)"

definition figures_at :: "port_figures ordered \<Rightarrow> string \<Rightarrow> port_figures" where
  "figures_at m p = (case map_of m p of None \<Rightarrow> no_figures | Some g \<Rightarrow> g)"

lemma port_entry_keys: "fst ` set (port_entry p f m) = insert p (fst ` set m)"
  by (induction p f m rule: port_entry.induct) (simp_all add: insert_commute)

lemma port_entry_ordered: "ordered_keys m \<Longrightarrow> ordered_keys (port_entry p f m)"
proof (induction m)
  case (Cons x m)
  obtain q g where x: "x = (q, g)" by (cases x)
  have m: "ordered_keys m" "\<forall>y \<in> fst ` set m. q < y" using Cons.prems by (auto simp: ordered_keys_def x)
  have keys: "set (map fst (port_entry p f m)) = insert p (fst ` set m)" using port_entry_keys [of p f m] by simp
  show ?case using Cons.IH [OF m(1)] m keys by (auto simp: ordered_keys_def x)
qed (simp add: ordered_keys_def)

lemma port_entry_at: "ordered_keys m \<Longrightarrow> figures_at (port_entry p f m) q = (if q = p then f (figures_at m p) else figures_at m q)"
proof (induction m)
  case (Cons x m)
  obtain k g where x: "x = (k, g)" by (cases x)
  have m: "ordered_keys m" "\<forall>y \<in> fst ` set m. k < y" using Cons.prems by (auto simp: ordered_keys_def x)
  have gone: "p < k \<Longrightarrow> map_of m p = None" using m(2) by (auto simp: map_of_eq_None_iff)
  show ?case using Cons.IH [OF m(1)] gone by (auto simp: figures_at_def x split: if_splits)
qed (simp add: figures_at_def)

text \<open>A fold of changes keeps the order and the Ports, and keeps of a Port's figures what each change keeps.\<close>

lemma fold_figures:
  assumes "ordered_keys m" "\<And>x m. x \<in> set xs \<Longrightarrow> ordered_keys m \<Longrightarrow> ordered_keys (step x m) \<and> fst ` set m \<subseteq> fst ` set (step x m)"
  shows "ordered_keys (fold step xs m) \<and> fst ` set m \<subseteq> fst ` set (fold step xs m)"
  using assms
proof (induction xs arbitrary: m)
  case (Cons x xs)
  have x: "ordered_keys (step x m)" "fst ` set m \<subseteq> fst ` set (step x m)" using Cons.prems by simp_all
  have "ordered_keys (fold step xs (step x m)) \<and> fst ` set (step x m) \<subseteq> fst ` set (fold step xs (step x m))"
    by (rule Cons.IH [OF x(1)]) (rule Cons.prems(2), simp_all)
  then show ?case using x(2) order_trans [OF x(2)] by simp
qed simp

lemma fold_keeps:
  assumes "ordered_keys m" "P (figures_at m p)"
    and "\<And>x m. x \<in> set xs \<Longrightarrow> ordered_keys m \<Longrightarrow> P (figures_at m p) \<Longrightarrow> ordered_keys (step x m) \<and> P (figures_at (step x m) p)"
  shows "P (figures_at (fold step xs m) p)"
  using assms by (induction xs arbitrary: m) (simp_all)

lemma fold_makes:
  assumes "ordered_keys m" "x \<in> set xs"
    and makes: "\<And>m. ordered_keys m \<Longrightarrow> P (figures_at (step x m) p)"
    and keeps: "\<And>y m. y \<in> set xs \<Longrightarrow> ordered_keys m \<Longrightarrow> P (figures_at m p) \<Longrightarrow> P (figures_at (step y m) p)"
    and orders: "\<And>y m. y \<in> set xs \<Longrightarrow> ordered_keys m \<Longrightarrow> ordered_keys (step y m)"
  shows "P (figures_at (fold step xs m) p)"
  using assms(1,2) makes keeps orders
proof (induction xs arbitrary: m)
  case (Cons z zs)
  show ?case
  proof (cases "x = z")
    case True
    have "P (figures_at (fold step zs (step z m)) p)"
      using Cons.prems True by (intro fold_keeps [of "step z m" P p zs step]) auto
    then show ?thesis by simp
  next
    case False
    then show ?thesis using Cons.IH [of "step z m"] Cons.prems by auto
  qed
qed simp


lemmas entry_facts = port_entry_ordered port_entry_keys port_entry_at

lemma owned_counted_facts:
  assumes "ordered_keys m"
  shows "ordered_keys (owned_counted now wall ow m)" "fst ` set m \<subseteq> fst ` set (owned_counted now wall ow m)"
    "pg_unread (figures_at (owned_counted now wall ow m) p) = pg_unread (figures_at m p)"
    "pg_unconfirmed (figures_at m p) \<le> pg_unconfirmed (figures_at (owned_counted now wall ow m) p)"
    "unanswered_since (ow_standing ow) \<noteq> None \<Longrightarrow>
       ow_port ow \<in> fst ` set (owned_counted now wall ow m) \<and> 0 < pg_unconfirmed (figures_at (owned_counted now wall ow m) (ow_port ow))"
  using assms by (auto simp: owned_counted_def Let_def entry_facts split: option.splits)

lemma failing_counted_facts:
  assumes "ordered_keys m"
  shows "ordered_keys (failing_counted ports x m)" "fst ` set (failing_counted ports x m) = insert (fst x) (fst ` set m)"
    "pg_unread (figures_at (failing_counted ports x m) p) = pg_unread (figures_at m p)"
    "pg_unconfirmed (figures_at (failing_counted ports x m) p) = pg_unconfirmed (figures_at m p)"
    "p \<noteq> fst x \<Longrightarrow> figures_at (failing_counted ports x m) p = figures_at m p"
    "pg_failing (figures_at (failing_counted ports x m) (fst x)) = fw_count (snd x)"
    "pg_blocked (figures_at (failing_counted ports x m) (fst x)) \<longleftrightarrow> 0 < fw_count (snd x) \<and> ports (fst x) = Some True"
  using assms by (cases x; simp add: failing_counted_def entry_facts)+

lemma due_counted_facts:
  assumes "ordered_keys m"
  shows "ordered_keys (due_counted d m)" "fst ` set m \<subseteq> fst ` set (due_counted d m)"
    "pg_unread (figures_at (due_counted d m) p) = pg_unread (figures_at m p)"
  using assms by (auto simp: due_counted_def entry_facts)

text \<open>The stages of the read: the counts, the Ports sent through, those due, those owned, those failing.\<close>

definition figures_due :: "port_counts ordered \<Rightarrow> (string \<times> bool) list \<Rightarrow> due list \<Rightarrow> port_figures ordered" where
  "figures_due counts ports dues =
     fold due_counted dues (fold (\<lambda>(port, _). port_entry port id) ports (map (\<lambda>(port, c). (port, counted_figures c)) counts))"

lemma figures_due_facts:
  assumes "ordered_keys counts"
  shows "ordered_keys (figures_due counts ports dues)" "fst ` set counts \<subseteq> fst ` set (figures_due counts ports dues)"
    "(p, c) \<in> set counts \<Longrightarrow> pc_unread c \<noteq> None \<Longrightarrow> pg_unread (figures_at (figures_due counts ports dues) p) \<noteq> None"
proof -
  let ?m0 = "map (\<lambda>(port, c). (port, counted_figures c)) counts"
  let ?m1 = "fold (\<lambda>(port, _). port_entry port id) ports ?m0"
  have m0: "ordered_keys ?m0" using assms by (simp add: ordered_keys_def comp_def case_prod_unfold)
  have k0: "fst ` set ?m0 = fst ` set counts" by (simp add: image_image case_prod_unfold)
  have m1: "ordered_keys ?m1 \<and> fst ` set ?m0 \<subseteq> fst ` set ?m1" by (rule fold_figures [OF m0]) (simp add: entry_facts case_prod_unfold subset_insertI)
  have m2: "ordered_keys (fold due_counted dues ?m1) \<and> fst ` set ?m1 \<subseteq> fst ` set (fold due_counted dues ?m1)"
    using m1 by (intro fold_figures) (simp_all add: due_counted_facts)
  show "ordered_keys (figures_due counts ports dues)" using m2 by (simp add: figures_due_def)
  show "fst ` set counts \<subseteq> fst ` set (figures_due counts ports dues)" using order_trans [OF conjunct2 [OF m1] conjunct2 [OF m2]] k0 by (simp only: figures_due_def)
  assume c: "(p, c) \<in> set counts" "pc_unread c \<noteq> None"
  have "distinct (map fst ?m0)" using m0 by (simp add: ordered_keys_def strict_sorted_iff)
  moreover have "(p, counted_figures c) \<in> set ?m0" using c by force
  ultimately have "map_of ?m0 p = Some (counted_figures c)" by (intro map_of_is_SomeI)
  then have "pg_unread (figures_at ?m0 p) \<noteq> None" using c(2) by (simp add: figures_at_def counted_figures_def)
  then have "pg_unread (figures_at ?m1 p) \<noteq> None"
    by (intro fold_keeps [OF m0, of "\<lambda>g. pg_unread g \<noteq> None"]) (auto simp: entry_facts split: if_splits)
  then show "pg_unread (figures_at (figures_due counts ports dues) p) \<noteq> None"
    unfolding figures_due_def using m1
    by (intro fold_keeps [of ?m1 "\<lambda>g. pg_unread g \<noteq> None"]) (simp_all add: due_counted_facts)
qed

text \<open>What is wrong at a Port in the state is in the figures read: the renewals Xmip Storage has not answered, the queue it does not
  read, the Messages that failed and whether they block.\<close>

lemma figures_say_wrong:
  assumes o: "ordered_keys counts" and d: "distinct (map fst failing)"
    and m_def: "m = figures_read now wall counts ports dues owneds failing"
  shows "ordered_keys m"
    and "(p, c) \<in> set counts \<Longrightarrow> pc_unread c \<noteq> None \<Longrightarrow> p \<in> fst ` set m \<and> pg_unread (figures_at m p) \<noteq> None"
    and "ow \<in> set owneds \<Longrightarrow> unanswered_since (ow_standing ow) \<noteq> None \<Longrightarrow> ow_port ow \<in> fst ` set m \<and> 0 < pg_unconfirmed (figures_at m (ow_port ow))"
    and "(p, window) \<in> set failing \<Longrightarrow> p \<in> fst ` set m \<and> pg_failing (figures_at m p) = fw_count window \<and>
      (pg_blocked (figures_at m p) \<longleftrightarrow> 0 < fw_count window \<and> map_of ports p = Some True)"
proof -
  let ?d = "figures_due counts ports dues"
  let ?o = "fold (owned_counted now wall) owneds ?d"
  have m: "m = fold (failing_counted (map_of ports)) failing ?o" by (simp add: m_def figures_read_def figures_due_def)
  have od: "ordered_keys ?d" using figures_due_facts(1) [OF o] .
  have oo: "ordered_keys ?o \<and> fst ` set ?d \<subseteq> fst ` set ?o" using od by (intro fold_figures) (simp_all add: owned_counted_facts)
  have om: "ordered_keys m \<and> fst ` set ?o \<subseteq> fst ` set m"
    unfolding m using oo by (intro fold_figures) (auto simp: failing_counted_facts)
  show "ordered_keys m" using om ..
  show "p \<in> fst ` set m \<and> pg_unread (figures_at m p) \<noteq> None" if c: "(p, c) \<in> set counts" "pc_unread c \<noteq> None"
  proof
    have "p \<in> fst ` set counts" using c by force
    moreover have "fst ` set counts \<subseteq> fst ` set m"
      using order_trans [OF figures_due_facts(2) [OF o] order_trans [OF conjunct2 [OF oo] conjunct2 [OF om]]] .
    ultimately show "p \<in> fst ` set m" by (rule rev_subsetD)
    have "pg_unread (figures_at ?o p) \<noteq> None"
      using figures_due_facts(3) [OF o c] od
      by (intro fold_keeps [of ?d "\<lambda>g. pg_unread g \<noteq> None"]) (simp_all add: owned_counted_facts)
    then show "pg_unread (figures_at m p) \<noteq> None"
      unfolding m using oo by (intro fold_keeps [of ?o "\<lambda>g. pg_unread g \<noteq> None"]) (simp_all add: failing_counted_facts)
  qed
  show "ow_port ow \<in> fst ` set m \<and> 0 < pg_unconfirmed (figures_at m (ow_port ow))"
    if w: "ow \<in> set owneds" "unanswered_since (ow_standing ow) \<noteq> None"
  proof
    have "0 < pg_unconfirmed (figures_at ?o (ow_port ow))"
      using od w owned_counted_facts
      by (intro fold_makes [of ?d ow owneds "\<lambda>g. 0 < pg_unconfirmed g"]) (auto intro: less_le_trans)
    then show "0 < pg_unconfirmed (figures_at m (ow_port ow))"
      unfolding m using oo by (intro fold_keeps [of ?o "\<lambda>g. 0 < pg_unconfirmed g"]) (simp_all add: failing_counted_facts)
    have "map_of ?o (ow_port ow) \<noteq> None"
      using \<open>0 < pg_unconfirmed (figures_at ?o (ow_port ow))\<close> by (auto simp: figures_at_def no_figures_def split: option.splits)
    then have "ow_port ow \<in> fst ` set ?o" by (simp add: map_of_eq_None_iff)
    then show "ow_port ow \<in> fst ` set m" by (rule rev_subsetD [OF _ conjunct2 [OF om]])
  qed
  show "p \<in> fst ` set m \<and> pg_failing (figures_at m p) = fw_count window \<and>
      (pg_blocked (figures_at m p) \<longleftrightarrow> 0 < fw_count window \<and> map_of ports p = Some True)" if f: "(p, window) \<in> set failing"
  proof -
    obtain as bs where split: "failing = as @ (p, window) # bs" using f by (meson split_list)
    have other: "fst y \<noteq> p" if "y \<in> set bs" for y using that d split by auto
    let ?a = "fold (failing_counted (map_of ports)) as ?o"
    let ?b = "failing_counted (map_of ports) (p, window) ?a"
    have oa: "ordered_keys ?a \<and> fst ` set ?o \<subseteq> fst ` set ?a" using oo by (intro fold_figures) (auto simp: failing_counted_facts)
    have ob: "ordered_keys ?b" "p \<in> fst ` set ?b" using failing_counted_facts(1,2) [OF conjunct1 [OF oa], of "map_of ports" "(p, window)"] by auto
    have mb: "m = fold (failing_counted (map_of ports)) bs ?b" by (simp add: m split)
    have "p \<in> fst ` set m"
      unfolding mb using ob fold_figures [of ?b bs "failing_counted (map_of ports)"] by (auto simp: failing_counted_facts)
    moreover have "figures_at m p = figures_at ?b p"
      unfolding mb using ob(1) failing_counted_facts(1,5) other
      by (intro fold_keeps [of ?b "\<lambda>g. g = figures_at ?b p" p bs "failing_counted (map_of ports)"]) metis+
    ultimately show ?thesis using failing_counted_facts(6,7) [OF conjunct1 [OF oa], of "map_of ports" "(p, window)"] by simp
  qed
qed

end
