(* ===== verification/Published.thy ===== *)
theory Published
  imports Node_Start Port_Figures
begin

text \<open>
  \<open>src/running/publication.rs\<close> and \<open>src/running/publication/stopped.rs\<close>: what a running node says of its Send Ports and Locations, what it counted,
  and what it leaves said once it has stopped.
\<close>

section \<open>What is said at each stage\<close>

definition health_severity :: "health \<Rightarrow> nat" where
  "health_severity h = (case h of Fine \<Rightarrow> 0 | Paused \<Rightarrow> 30 | _ \<Rightarrow> 90)"

definition blocked_severity :: nat where "blocked_severity = 95"

type_synonym stage_record = "string \<times> (health \<times> nat) \<times> string"

abbreviation fine_mood :: "health \<times> nat" where "fine_mood \<equiv> (Fine, health_severity Fine)"

abbreviation done_mood :: "health \<times> nat" where "done_mood \<equiv> (Done, health_severity Done)"

definition port_mood :: "port_figures \<Rightarrow> health \<times> nat" where
  "port_mood g =
     (if pg_failing g = 0 \<and> pg_unconfirmed g = 0 \<and> pg_unread g = None then fine_mood
      else if pg_failing g = 0 \<or> \<not> pg_blocked g then done_mood
      else (Done, blocked_severity))"

definition location_record :: "string \<Rightarrow> (string \<times> string) list \<Rightarrow> string \<times> 'g started_location \<Rightarrow> stage_record" where
  "location_record node failures = (\<lambda>(stage, l).
     let scope = node @ ''/'' @ stage @ ''/'' @ co_name l in
     case find (\<lambda>(name, _). name = co_name l) failures of
       Some (_, why) \<Rightarrow> (scope, done_mood, why)
     | None \<Rightarrow> (scope, fine_mood, ''started at '' @ sc_address l))"

text \<open>The first record at a scope, changed; none changed where none is there.\<close>

fun at_scope :: "string \<Rightarrow> (stage_record \<Rightarrow> stage_record) \<Rightarrow> stage_record list \<Rightarrow> stage_record list" where
  "at_scope scope f [] = []"
| "at_scope scope f (r # rs) = (if fst r = scope then f r # rs else r # at_scope scope f rs)"

definition port_recorded :: "(int \<Rightarrow> string) \<Rightarrow> (ident \<Rightarrow> string) \<Rightarrow> string \<Rightarrow> string \<times> port_figures \<Rightarrow> stage_record list \<Rightarrow> stage_record list" where
  "port_recorded time name node = (\<lambda>(port, g) records.
     let scope = node @ ''/send/'' @ port in
     case find (\<lambda>r. fst r = scope) records of
       None \<Rightarrow> records @ [(scope, port_mood g, ''Send Port; '' @ figures_evidence time name g)]
     | Some (_, standing, evidence) \<Rightarrow>
        if standing = fine_mood then at_scope scope (\<lambda>_. (scope, port_mood g, evidence @ ''; '' @ figures_evidence time name g)) records
        else records)"

definition stage_records ::
  "(int \<Rightarrow> string) \<Rightarrow> (ident \<Rightarrow> string) \<Rightarrow> string \<Rightarrow> (string \<times> 'g started_location) list \<Rightarrow> (string \<times> string) list \<Rightarrow> port_figures ordered \<Rightarrow> stage_record list" where
  "stage_records time name node locations failures figures =
     fold (port_recorded time name node) figures (map (location_record node failures) locations)"

definition not_started_records :: "string \<Rightarrow> string \<Rightarrow> (string \<times> string) list \<Rightarrow> stage_record list" where
  "not_started_records not_started_said node known = map (\<lambda>(stage, name). (node @ ''/'' @ stage @ ''/'' @ name, (Done, 0), not_started_said)) known"

section \<open>What is counted\<close>

datatype counted = Streams | Messages | Journeys | Failed_Count | Retrying

record node_outcomes =
  no_received :: nat
  no_routed :: nat
  no_refused :: nat
  no_failed :: nat
  no_sent :: nat
  no_not_sent :: nat

definition node_counts :: "string \<Rightarrow> node_outcomes \<Rightarrow> port_figures ordered \<Rightarrow> (string \<times> counted \<times> nat) list" where
  "node_counts node oc ports =
     [(node @ ''/receive'', Streams, no_received oc),
      (node @ ''/process'', Journeys, no_routed oc),
      (node @ ''/send'', Messages, no_sent oc - sum_list (map (pg_sent \<circ> snd) ports)),
      (node, Failed_Count, (no_refused oc + no_failed oc + no_not_sent oc) - sum_list (map (pg_failed \<circ> snd) ports))] @
     concat (map (\<lambda>(port, g). let scope = node @ ''/send/'' @ port in
       [(scope, Messages, pg_sent g), (scope, Failed_Count, pg_failed g), (scope, Retrying, pg_waiting g)]) ports)"

section \<open>What a stopped node leaves\<close>

definition stopped_record :: "string \<Rightarrow> string \<Rightarrow> string \<Rightarrow> string \<Rightarrow> nat \<Rightarrow> health_record \<Rightarrow> health_record option" where
  "stopped_record not_started_said capability at told_why now h =
     (if hr_evidence h = not_started_said \<or> starts_with capability (hr_scope h) \<or> starts_with (at @ ''/process/'') (hr_scope h) then None
      else Some \<lparr>hr_scope = hr_scope h, hr_health = Done, hr_severity = 0,
        hr_evidence = (if hr_scope h = at then told_why else ''stopped with the node''), hr_observed = now\<rparr>)"

text \<open>\<open>stopped\<close>: the records made over those of the last publication.\<close>

definition stopped_records :: "string \<Rightarrow> string \<Rightarrow> string \<Rightarrow> string \<Rightarrow> nat \<Rightarrow> snapshot \<Rightarrow> snapshot" where
  "stopped_records not_started_said capability at told_why now before =
     before @ List.map_filter (stopped_record not_started_said capability at told_why now) before"

section \<open>A Port in pain is said to be\<close>

lemma at_scope_find:
  "find (\<lambda>r. fst r = q) (at_scope scope (\<lambda>_. r') rs) =
     (if q = scope \<and> find (\<lambda>r. fst r = scope) rs \<noteq> None then Some r' else find (\<lambda>r. fst r = q) rs)" if "fst r' = scope"
  using that by (induction rs) auto

lemma at_scope_all: "list_all P rs \<Longrightarrow> P r' \<Longrightarrow> list_all P (at_scope scope (\<lambda>_. r') rs)"
  by (induction rs) auto

lemma find_append: "find P (xs @ ys) = (case find P xs of None \<Rightarrow> find P ys | Some x \<Rightarrow> Some x)"
  by (induction xs) auto

text \<open>Every mood said is Fine with no severity, or Done.\<close>

definition said_mood :: "stage_record \<Rightarrow> bool" where
  "said_mood r \<longleftrightarrow> fst (snd r) = fine_mood \<or> fst (fst (snd r)) = Done"

lemma port_mood_said: "port_mood g = fine_mood \<or> fst (port_mood g) = Done"
  by (simp add: port_mood_def)

text \<open>What is wrong at a Port: Messages that failed wait in its queue, a renewal or a read of its queue is not answered.\<close>

definition port_wrong :: "port_figures \<Rightarrow> bool" where
  "port_wrong g \<longleftrightarrow> 0 < pg_failing g \<or> 0 < pg_unconfirmed g \<or> pg_unread g \<noteq> None"

lemma port_mood_wrong: "fst (port_mood g) = Done \<longleftrightarrow> port_wrong g"
  by (simp add: port_mood_def port_wrong_def)

lemma port_recorded_facts:
  fixes node port :: string
  defines "scope \<equiv> node @ ''/send/'' @ port"
  assumes "list_all said_mood rs"
  shows "list_all said_mood (port_recorded time name node (port, g) rs)"
    "q \<noteq> scope \<Longrightarrow> find (\<lambda>r. fst r = q) (port_recorded time name node (port, g) rs) = find (\<lambda>r. fst r = q) rs"
    "\<exists>mood evidence. find (\<lambda>r. fst r = scope) (port_recorded time name node (port, g) rs) = Some (scope, mood, evidence) \<and>
      (port_wrong g \<longrightarrow> fst mood = Done)"
proof -
  consider (none) "find (\<lambda>r. fst r = scope) rs = None" | (some) standing evidence where "find (\<lambda>r. fst r = scope) rs = Some (scope, standing, evidence)"
  proof (cases "find (\<lambda>r. fst r = scope) rs")
    case (Some r)
    then have "fst r = scope" by (auto simp: find_Some_iff)
    then show ?thesis using Some that(2) [of "fst (snd r)" "snd (snd r)"] by (cases r) simp
  qed (rule that(1))
  then have "list_all said_mood (port_recorded time name node (port, g) rs) \<and>
    (q \<noteq> scope \<longrightarrow> find (\<lambda>r. fst r = q) (port_recorded time name node (port, g) rs) = find (\<lambda>r. fst r = q) rs) \<and>
    (\<exists>mood evidence. find (\<lambda>r. fst r = scope) (port_recorded time name node (port, g) rs) = Some (scope, mood, evidence) \<and>
      (port_wrong g \<longrightarrow> fst mood = Done))"
  proof cases
    case none
    then show ?thesis using assms(2) port_mood_said [of g] port_mood_wrong [of g]
      by (auto simp: port_recorded_def Let_def scope_def find_append said_mood_def split: option.splits)
  next
    case (some standing evidence)
    have "(scope, standing, evidence) \<in> set rs" using some by (metis find_Some_iff nth_mem)
    then have said: "standing = fine_mood \<or> fst standing = Done"
      using assms(2) unfolding list_all_iff said_mood_def by fastforce
    show ?thesis
    proof (cases "standing = fine_mood")
      case True
      let ?r = "(scope, port_mood g, evidence @ ''; '' @ figures_evidence time name g)"
      have rs: "port_recorded time name node (port, g) rs = at_scope scope (\<lambda>_. ?r) rs"
        using some True by (simp add: port_recorded_def Let_def scope_def)
      have "said_mood ?r" using port_mood_said [of g] by (simp add: said_mood_def)
      then show ?thesis unfolding rs using at_scope_all [OF assms(2)] at_scope_find [of ?r scope] some port_mood_wrong [of g] by auto
    next
      case False
      then have "port_recorded time name node (port, g) rs = rs" using some by (simp add: port_recorded_def Let_def scope_def)
      then show ?thesis using some said False assms(2) by auto
    qed
  qed
  then show "list_all said_mood (port_recorded time name node (port, g) rs)"
    "q \<noteq> scope \<Longrightarrow> find (\<lambda>r. fst r = q) (port_recorded time name node (port, g) rs) = find (\<lambda>r. fst r = q) rs"
    "\<exists>mood evidence. find (\<lambda>r. fst r = scope) (port_recorded time name node (port, g) rs) = Some (scope, mood, evidence) \<and>
      (port_wrong g \<longrightarrow> fst mood = Done)" by auto
qed

lemma ports_recorded:
  assumes "list_all said_mood rs" "distinct (map fst figures)" "(port, g) \<in> set figures"
  shows "\<exists>mood evidence. find (\<lambda>r. fst r = node @ ''/send/'' @ port) (fold (port_recorded time name node) figures rs) =
      Some (node @ ''/send/'' @ port, mood, evidence) \<and> (port_wrong g \<longrightarrow> fst mood = Done)"
proof -
  have kept: "find (\<lambda>r. fst r = node @ ''/send/'' @ port) (fold (port_recorded time name node) fs rs) = find (\<lambda>r. fst r = node @ ''/send/'' @ port) rs"
    if "list_all said_mood rs" "port \<notin> fst ` set fs" for fs rs
    using that
  proof (induction fs arbitrary: rs)
    case (Cons x fs)
    obtain p h where x: "x = (p, h)" by (cases x)
    have "list_all said_mood (port_recorded time name node (p, h) rs)" using port_recorded_facts(1) [OF Cons.prems(1)] .
    moreover have "find (\<lambda>r. fst r = node @ ''/send/'' @ port) (port_recorded time name node (p, h) rs) = find (\<lambda>r. fst r = node @ ''/send/'' @ port) rs"
      using Cons.prems(2) by (intro port_recorded_facts(2) [OF Cons.prems(1)]) (auto simp: x)
    ultimately show ?case using Cons.IH Cons.prems(2) by (simp add: x)
  qed simp
  show ?thesis using assms
  proof (induction figures arbitrary: rs)
    case (Cons x fs)
    obtain p h where x: "x = (p, h)" by (cases x)
    have said: "list_all said_mood (port_recorded time name node (p, h) rs)" using port_recorded_facts(1) [OF Cons.prems(1)] .
    show ?case
    proof (cases "(port, g) = x")
      case True
      then have "port \<notin> fst ` set fs" using Cons.prems(2) x by simp
      then show ?thesis using kept [OF said] port_recorded_facts(3) [OF Cons.prems(1), of node port time name g] True x by simp
    next
      case False
      then have "(port, g) \<in> set fs" using Cons.prems(3) by simp
      then show ?thesis using Cons.IH [OF said] Cons.prems(2) by (simp add: x)
    qed
  qed simp
qed

text \<open>C40: A Send Port in pain is published as Done: where Messages that failed wait in its queue, Xmip Storage has not answered the
  renewal of a claim of its Messages, or does not answer a read of its queue, as the send step's state says any of these, the first record at the
  Port's scope is Done, whatever else was recorded there; and every record said of a stage is either Fine or Done.\<close>

theorem port_in_pain_published:
  assumes "ordered_keys counts" "distinct (map fst failing)"
    and "(\<exists>c. (port, c) \<in> set counts \<and> pc_unread c \<noteq> None) \<or> (\<exists>window. (port, window) \<in> set failing \<and> 0 < fw_count window) \<or>
      (\<exists>ow. ow \<in> set owneds \<and> ow_port ow = port \<and> unanswered_since (ow_standing ow) \<noteq> None)"
  shows "\<exists>severity evidence.
    find (\<lambda>r. fst r = node @ ''/send/'' @ port) (stage_records time name node locations failures (figures_read now wall counts ports dues owneds failing)) =
      Some (node @ ''/send/'' @ port, (Done, severity), evidence)"
proof -
  define m where "m = figures_read now wall counts ports dues owneds failing"
  note say = figures_say_wrong [OF assms(1,2) m_def]
  have at: "port \<in> fst ` set m" and wrong: "port_wrong (figures_at m port)"
    using assms(3) say(2-4) unfolding port_wrong_def by (metis gr0I less_numeral_extra(3))+
  obtain g where g: "map_of m port = Some g" using at by (metis map_of_eq_None_iff not_None_eq)
  have "distinct (map fst m)" using say(1) by (simp add: ordered_keys_def strict_sorted_iff)
  moreover have "list_all said_mood (map (location_record node failures) locations)"
    by (auto simp: list_all_iff said_mood_def location_record_def Let_def split: option.splits)
  ultimately obtain mood evidence where "find (\<lambda>r. fst r = node @ ''/send/'' @ port) (stage_records time name node locations failures m) =
      Some (node @ ''/send/'' @ port, mood, evidence)" "port_wrong g \<longrightarrow> fst mood = Done"
    using ports_recorded [OF _ _ map_of_SomeD [OF g]] unfolding stage_records_def by blast
  moreover have "port_wrong g" using wrong g by (simp add: figures_at_def)
  ultimately show ?thesis unfolding m_def by (cases mood) auto
qed

definition blocked_window :: failed_window where
  "blocked_window = \<lparr>fw_count = 2, fw_read_at = None, fw_oldest = []\<rparr>"

text \<open>A Port that sends well through a Location of its own name, two Messages failed in its queue.\<close>

theorem port_in_pain_published_witness:
  "\<exists>severity evidence.
     find (\<lambda>r. fst r = ''n/send/out'') (stage_records (\<lambda>_. []) (\<lambda>_. []) ''n'' [(''send'', inbox True ''out'')] []
       (figures_read 0 0 [] [(''out'', True)] [] [] [(''out'', blocked_window)])) = Some (''n/send/out'', (Done, severity), evidence)"
  using port_in_pain_published [of "[]" "[(''out'', blocked_window)]" "''out''" "[]" "''n''" "\<lambda>_. []" "\<lambda>_. []" "[(''send'', inbox True ''out'')]" "[]" 0 0
      "[(''out'', True)]" "[]"]
  by (simp add: ordered_keys_def blocked_window_def)

section \<open>What is counted, counted once\<close>

definition counted_in :: "counted \<Rightarrow> (string \<times> counted \<times> nat) list \<Rightarrow> nat" where
  "counted_in kind counts = sum_list (map (\<lambda>(_, k, v). if k = kind then v else 0) counts)"

lemma counted_ports:
  "counted_in Messages (concat (map (\<lambda>(port, g). let scope = node @ ''/send/'' @ port in
       [(scope, Messages, pg_sent g), (scope, Failed_Count, pg_failed g), (scope, Retrying, pg_waiting g)]) ports)) = sum_list (map (pg_sent \<circ> snd) ports)"
  "counted_in Failed_Count (concat (map (\<lambda>(port, g). let scope = node @ ''/send/'' @ port in
       [(scope, Messages, pg_sent g), (scope, Failed_Count, pg_failed g), (scope, Retrying, pg_waiting g)]) ports)) = sum_list (map (pg_failed \<circ> snd) ports)"
  by (induction ports) (auto simp: counted_in_def Let_def)

text \<open>A Message sent is counted once: what the node's scopes say together is what its tally says, or its Ports where they have counted past
  it, never both.\<close>

lemma messages_counted_once:
  "counted_in Messages (node_counts node oc ports) = max (no_sent oc) (sum_list (map (pg_sent \<circ> snd) ports))"
  "counted_in Failed_Count (node_counts node oc ports) = max (no_refused oc + no_failed oc + no_not_sent oc) (sum_list (map (pg_failed \<circ> snd) ports))"
  using counted_ports [of node ports] by (auto simp: node_counts_def counted_in_def)

end
