(* ===== verification/Registration.thy ===== *)
theory Registration
  imports Text
begin

text \<open>
  \<open>src/registration.rs\<close> and \<open>src/registration/windows_scm.rs\<close>: what an operating system's service manager is told of a service, as the text of a
  systemd unit, the two property lists of launchd and the arguments of Windows' \<open>sc.exe\<close> and \<open>reg.exe\<close>. The command a manager splits into
  arguments again is the one the definition named.
\<close>

section \<open>What is told\<close>

record service_definition =
  sv_name :: string
  sv_display_name :: string
  sv_description :: string
  sv_executable :: string
  sv_arguments :: "string list"
  sv_identity :: "string option"
  sv_working_directory :: string
  sv_environment :: "(string \<times> string) list"

definition node_service_name :: "string \<Rightarrow> string" where
  "node_service_name node = ''xmip-'' @ node"

definition for_node :: "string \<Rightarrow> string \<Rightarrow> string \<Rightarrow> string \<Rightarrow> service_definition" where
  "for_node node executable configuration working_directory =
     \<lparr>sv_name = node_service_name node, sv_display_name = ''Xmip Service ('' @ node @ '')'',
      sv_description = ''Starts node '' @ node @ '' from its configuration, runs its in-process Host Service, and drains it when the service manager stops it.'',
      sv_executable = executable, sv_arguments = [''--configuration'', configuration], sv_identity = None,
      sv_working_directory = working_directory, sv_environment = []\<rparr>"

fun joined_by :: "string \<Rightarrow> string list \<Rightarrow> string" where
  "joined_by sep [] = []"
| "joined_by sep [x] = x"
| "joined_by sep (x # xs) = x @ sep @ joined_by sep xs"

definition for_host :: "string \<Rightarrow> string \<Rightarrow> string list \<Rightarrow> string \<Rightarrow> string \<Rightarrow> service_definition" where
  "for_host node host_type hosts executable working_directory =
     \<lparr>sv_name = ''xmip-'' @ node @ ''-'' @ host_type, sv_display_name = ''Xmip Host Service ('' @ node @ ''/'' @ host_type @ '')'',
      sv_description = ''Hosts '' @ (if hosts = [] then ''nothing yet'' else joined_by '', '' hosts) @ '' for node '' @ node @ ''.'',
      sv_executable = executable, sv_arguments = [''host'', ''--node='' @ node, ''--host='' @ host_type], sv_identity = None,
      sv_working_directory = working_directory, sv_environment = []\<rparr>"

definition running_as :: "string \<Rightarrow> service_definition \<Rightarrow> service_definition" where
  "running_as identity d = d\<lparr>sv_identity := Some identity\<rparr>"

definition with_variable :: "string \<Rightarrow> string \<Rightarrow> service_definition \<Rightarrow> service_definition" where
  "with_variable name v d = d\<lparr>sv_environment := sv_environment d @ [(name, v)]\<rparr>"

datatype service_manager = WindowsScm | Systemd | Launchd | NoManager

definition manager_registers :: "service_manager \<Rightarrow> bool" where
  "manager_registers mg \<longleftrightarrow> mg \<noteq> NoManager"

definition refused_exit :: nat where "refused_exit = 2"

section \<open>As each manager is told it\<close>

abbreviation quote :: char where "quote \<equiv> CHR 0x22"

abbreviation newline :: char where "newline \<equiv> CHR 0x0A"

definition quoted_argument :: "string \<Rightarrow> string" where
  "quoted_argument s = (if CHR '' '' \<in> set s then [quote] @ s @ [quote] else s)"

text \<open>A line, and an element of a property list, indented.\<close>

definition line_of :: "string \<Rightarrow> string" where
  "line_of s = s @ [newline]"

definition tabbed :: "nat \<Rightarrow> string \<Rightarrow> string" where
  "tabbed n s = replicate n (CHR 0x09) @ line_of s"

definition element :: "string \<Rightarrow> string \<Rightarrow> string" where
  "element tag s = ''<'' @ tag @ ''>'' @ s @ ''</'' @ tag @ ''>''"

definition systemd_command :: "service_definition \<Rightarrow> string" where
  "systemd_command d = quoted_argument (sv_executable d) @ '' '' @ joined_by '' '' (map quoted_argument (sv_arguments d))"

definition systemd_unit :: "service_definition \<Rightarrow> string" where
  "systemd_unit d =
     line_of ''[Unit]'' @ line_of (''Description='' @ sv_description d) @ line_of ''After=network-online.target'' @
     line_of ''Wants=network-online.target'' @ line_of [] @ line_of ''[Service]'' @ line_of ''Type=notify'' @
     line_of (''ExecStart='' @ systemd_command d) @ line_of (''WorkingDirectory='' @ sv_working_directory d) @
     (case sv_identity d of None \<Rightarrow> [] | Some user \<Rightarrow> line_of (''User='' @ user)) @
     concat (map (\<lambda>(name, v). line_of (''Environment='' @ [quote] @ name @ ''='' @ v @ [quote])) (sv_environment d)) @
     line_of ''RuntimeDirectory=xmip'' @ line_of ''RuntimeDirectoryMode=0755'' @ line_of ''RuntimeDirectoryPreserve=yes'' @
     line_of ''Restart=on-failure'' @ line_of (''RestartPreventExitStatus='' @ decimal refused_exit) @ line_of ''RestartSec=5'' @ line_of [] @
     line_of ''[Install]'' @ line_of ''WantedBy=multi-user.target''"

definition plist_head :: string where
  "plist_head = line_of (''<?xml version='' @ [quote] @ ''1.0'' @ [quote] @ '' encoding='' @ [quote] @ ''UTF-8'' @ [quote] @ ''?>'') @
     line_of (''<plist version='' @ [quote] @ ''1.0'' @ [quote] @ ''>'') @ line_of ''<dict>''"

definition launchd_run_directory :: "service_definition \<Rightarrow> string" where
  "launchd_run_directory d =
     plist_head @ tabbed 1 (element ''key'' ''Label'') @ tabbed 1 (element ''string'' (sv_name d @ ''.run'')) @
     tabbed 1 (element ''key'' ''ProgramArguments'') @ tabbed 1 ''<array>'' @ tabbed 2 (element ''string'' ''/bin/sh'') @
     tabbed 2 (element ''string'' ''-c'') @
     tabbed 2 (element ''string'' (''mkdir -p -m 0755 /var/run/xmip'' @
       (case sv_identity d of None \<Rightarrow> [] | Some user \<Rightarrow> '' &amp;&amp; chown '' @ user @ '' /var/run/xmip''))) @
     tabbed 1 ''</array>'' @ tabbed 1 (element ''key'' ''RunAtLoad'') @ tabbed 1 ''<true/>'' @ line_of ''</dict>'' @ line_of ''</plist>''"

definition launchd_plist :: "service_definition \<Rightarrow> string" where
  "launchd_plist d =
     plist_head @ tabbed 1 (element ''key'' ''Label'') @ tabbed 1 (element ''string'' (sv_name d)) @
     tabbed 1 (element ''key'' ''ProgramArguments'') @ tabbed 1 ''<array>'' @
     concat (map (\<lambda>a. tabbed 2 (element ''string'' a)) (sv_executable d # sv_arguments d)) @ tabbed 1 ''</array>'' @
     tabbed 1 (element ''key'' ''WorkingDirectory'') @ tabbed 1 (element ''string'' (sv_working_directory d)) @
     (case sv_identity d of None \<Rightarrow> [] | Some user \<Rightarrow> tabbed 1 (element ''key'' ''UserName'') @ tabbed 1 (element ''string'' user)) @
     (if sv_environment d = [] then []
      else tabbed 1 (element ''key'' ''EnvironmentVariables'') @ tabbed 1 ''<dict>'' @
        concat (map (\<lambda>(name, v). tabbed 2 (element ''key'' name) @ tabbed 2 (element ''string'' v)) (sv_environment d)) @ tabbed 1 ''</dict>'') @
     tabbed 1 (element ''key'' ''RunAtLoad'') @ tabbed 1 ''<true/>'' @ tabbed 1 (element ''key'' ''KeepAlive'') @ tabbed 1 ''<dict>'' @
     tabbed 2 (element ''key'' ''SuccessfulExit'') @ tabbed 2 ''<false/>'' @ tabbed 1 ''</dict>'' @ line_of ''</dict>'' @ line_of ''</plist>''"

definition windows_binary :: "service_definition \<Rightarrow> string" where
  "windows_binary d = quoted_argument (sv_executable d) @ concat (map (\<lambda>a. '' '' @ quoted_argument a) (sv_arguments d))"

definition windows_service_arguments :: "service_definition \<Rightarrow> string list" where
  "windows_service_arguments d =
     [''create'', sv_name d, ''binPath= '' @ windows_binary d, ''DisplayName= '' @ sv_display_name d, ''start= auto''] @
     (case sv_identity d of None \<Rightarrow> [] | Some user \<Rightarrow> [''obj= '' @ user])"

definition windows_service_settings :: "service_definition \<Rightarrow> (string \<times> string list) list" where
  "windows_service_settings d =
     (''sc.exe'', [''description'', sv_name d, sv_description d]) #
     (if sv_environment d = [] then []
      else [(''reg.exe'', [''add'', ''HKLM'' @ [CHR 0x5C] @ ''SYSTEM'' @ [CHR 0x5C] @ ''CurrentControlSet'' @ [CHR 0x5C] @ ''Services'' @ [CHR 0x5C] @ sv_name d,
        ''/v'', ''Environment'', ''/t'', ''REG_MULTI_SZ'', ''/d'',
        joined_by [CHR 0x5C, CHR ''0''] (map (\<lambda>(name, v). name @ ''='' @ v) (sv_environment d)), ''/f''])])"

section \<open>The command split again\<close>

text \<open>How a manager splits a command, as far as a definition uses it: at spaces, but not between double quotes, which are dropped. The
  arguments are whether it is between quotes, and what of the current argument was read.\<close>

fun command_split :: "bool \<Rightarrow> string option \<Rightarrow> string \<Rightarrow> string list" where
  "command_split inside read [] = (case read of None \<Rightarrow> [] | Some a \<Rightarrow> [a])"
| "command_split inside read (c # cs) =
     (if c = quote then command_split (\<not> inside) (Some (case read of None \<Rightarrow> [] | Some a \<Rightarrow> a)) cs
      else if c = CHR '' '' \<and> \<not> inside then (case read of None \<Rightarrow> [] | Some a \<Rightarrow> [a]) @ command_split False None cs
      else command_split inside (Some ((case read of None \<Rightarrow> [] | Some a \<Rightarrow> a) @ [c])) cs)"

lemma split_plain:
  "quote \<notin> set s \<Longrightarrow> CHR '' '' \<notin> set s \<Longrightarrow> command_split False (Some a) (s @ rest) = command_split False (Some (a @ s)) rest"
  by (induction s arbitrary: a) auto

lemma split_inside:
  "quote \<notin> set s \<Longrightarrow> command_split True (Some a) (s @ [quote] @ rest) = command_split False (Some (a @ s)) rest"
  by (induction s arbitrary: a) auto

lemma split_quoted:
  assumes "quote \<notin> set s" "s \<noteq> []"
  shows "command_split False None (quoted_argument s @ rest) = command_split False (Some s) rest"
proof (cases "CHR '' '' \<in> set s")
  case True
  then show ?thesis using split_inside [OF assms(1), of "[]" rest] by (simp add: quoted_argument_def)
next
  case False
  obtain c cs where s: "s = c # cs" using assms(2) by (cases s) auto
  then have "command_split False (Some [c]) (cs @ rest) = command_split False (Some s) rest"
    using split_plain [of cs "[c]" rest] assms(1) False by simp
  then show ?thesis using assms(1) False by (auto simp: quoted_argument_def s)
qed

lemma split_arguments:
  assumes "list_all (\<lambda>s. quote \<notin> set s \<and> s \<noteq> []) args"
  shows "command_split False (Some a) (concat (map (\<lambda>s. CHR '' '' # quoted_argument s) args)) = a # args"
  using assms by (induction args arbitrary: a) (simp_all add: split_quoted)

lemma joined_concat: "xs \<noteq> [] \<Longrightarrow> CHR '' '' # joined_by '' '' (map f xs) = concat (map (\<lambda>x. CHR '' '' # f x) xs)"
proof (induction xs)
  case (Cons x xs)
  then show ?case by (cases xs) auto
qed simp

text \<open>A service manager runs what the definition names: the command it is told, by a systemd unit or by Windows' service control manager,
  splits into the executable and its arguments again, spaces and all, where none of them is empty or holds a double quote.\<close>

theorem command_splits_back:
  assumes "list_all (\<lambda>s. quote \<notin> set s \<and> s \<noteq> []) (sv_executable d # sv_arguments d)" "sv_arguments d \<noteq> []"
  shows "command_split False None (systemd_command d) = sv_executable d # sv_arguments d \<and>
    command_split False None (windows_binary d) = sv_executable d # sv_arguments d"
proof -
  have "systemd_command d = windows_binary d"
    using joined_concat [OF assms(2), of quoted_argument] by (simp add: systemd_command_def windows_binary_def)
  then show ?thesis using assms split_arguments [of "sv_arguments d" "sv_executable d"] by (simp add: windows_binary_def split_quoted)
qed

end
