(* ===== verification/Remote_Nonces.thy ===== *)
theory Remote_Nonces
  imports Prelude
begin

text \<open>
  \<open>src/plane/remote/fresh.rs\<close>: a surface's nonces of its node, which a browser's handshake is bound to. The pool is kept
  under one lock by threads that take a nonce, ask the node for more, now or behind them, and keep what they are given;
  \<open>nonce_step\<close> interleaves the sections they run under the lock, the node's answers and the clock between them. A node
  gives nonces it has not given before, for the listener it was asked for (\<open>src/plane/fresh.rs\<close>), or none.
\<close>

section \<open>The pool\<close>

definition nonce_kept :: duration where "nonce_kept = 10 * 10 ^ 9"

definition at_once :: nat where "at_once = 8"

definition refused_for :: duration where "refused_for = 60 * 10 ^ 9"

record ('l, 'n) nonce_pool =
  np_nonces :: "'l \<Rightarrow> ('n \<times> instant) list"
  np_refused_until :: "'l \<Rightarrow> instant option"
  np_refilling :: bool

definition nonce_pool_new :: "('l, 'n) nonce_pool" where
  "nonce_pool_new = \<lparr>np_nonces = \<lambda>_. [], np_refused_until = \<lambda>_. None, np_refilling = False\<rparr>"

datatype 'n looked = LeftAlone | NoneKept | FoundKept 'n bool

text \<open>\<open>taken\<close>'s first section: the stale let go, one taken, and whether few are left. A node that gave none is left alone.\<close>

definition pool_look :: "instant \<Rightarrow> 'l \<Rightarrow> ('l, 'n) nonce_pool \<Rightarrow> 'n looked \<times> ('l, 'n) nonce_pool" where
  "pool_look now l p =
     (if (case np_refused_until p l of None \<Rightarrow> False | Some until \<Rightarrow> now < until) then (LeftAlone, p)
      else
        case filter (\<lambda>(_, at). now - at < nonce_kept) (np_nonces p l) of
          [] \<Rightarrow> (NoneKept, p\<lparr>np_nonces := (np_nonces p)(l := [])\<rparr>)
        | (n, _) # kept \<Rightarrow> (FoundKept n (length kept < at_once div 2), p\<lparr>np_nonces := (np_nonces p)(l := kept)\<rparr>))"

text \<open>\<open>taken\<close>'s second section, after it asked the node itself.\<close>

definition pool_pop :: "'l \<Rightarrow> ('l, 'n) nonce_pool \<Rightarrow> 'n option \<times> ('l, 'n) nonce_pool" where
  "pool_pop l p =
     (case np_nonces p l of
        [] \<Rightarrow> (None, p)
      | (n, _) # kept \<Rightarrow> (Some n, p\<lparr>np_nonces := (np_nonces p)(l := kept)\<rparr>))"

text \<open>\<open>refill_behind\<close>'s section: whether this thread is to ask.\<close>

definition pool_behind :: "('l, 'n) nonce_pool \<Rightarrow> bool \<times> ('l, 'n) nonce_pool" where
  "pool_behind p = (if np_refilling p then (False, p) else (True, p\<lparr>np_refilling := True\<rparr>))"

text \<open>\<open>refill\<close>'s section, once the node answered.\<close>

definition pool_keep :: "instant \<Rightarrow> 'l \<Rightarrow> 'n list \<Rightarrow> ('l, 'n) nonce_pool \<Rightarrow> ('l, 'n) nonce_pool" where
  "pool_keep now l given p =
     (if given = [] then p\<lparr>np_refilling := False, np_refused_until := (np_refused_until p)(l \<mapsto> now + refused_for)\<rparr>
      else p\<lparr>np_refilling := False, np_nonces := (np_nonces p)(l := np_nonces p l @ map (\<lambda>n. (n, now)) given)\<rparr>)"

section \<open>What a handshake is bound to\<close>

record ('n, 'b, 'sf) bound_handshake =
  bh_binding :: 'b
  bh_nonces :: "'n list"
  bh_surfaces :: "'sf list"

text \<open>\<open>bound\<close>, over what \<open>taken\<close> answered for each live surface that is not ending; \<open>binding\<close> is the handshake library's.\<close>

definition bound_to :: "('n list \<Rightarrow> 'b) \<Rightarrow> ('sf \<times> 'n option) list \<Rightarrow> ('n, 'b, 'sf) bound_handshake" where
  "bound_to binding answers =
     (let given = List.map_filter (\<lambda>(sf, n). map_option (Pair sf) n) answers in
      \<lparr>bh_binding = binding (map snd given), bh_nonces = map snd given, bh_surfaces = map fst given\<rparr>)"

section \<open>The threads\<close>

text \<open>Where a thread stands: one in \<open>taken\<close> (\<open>Asks\<close> to \<open>Answers\<close>), or one spawned to refill behind it. \<open>Calls\<close> and \<open>Keeps\<close>
  are \<open>refill\<close>, behind or not.\<close>

datatype ('l, 'n) nonce_thread =
    Asks 'l
  | Looks 'l instant bool
  | Behind 'l "'n option"
  | Spawns 'l "'n option"
  | Unspawned 'l "'n option"
  | Calls bool 'l
  | Keeps bool 'l "'n list" instant
  | Pops 'l
  | Answers 'l "'n option"
  | SpawnedFor 'l
  | Gone

record ('l, 'n) nonce_state =
  ns_pool :: "('l, 'n) nonce_pool"
  ns_now :: instant
  ns_reachable :: bool
  ns_live :: bool
  ns_issued :: "'n \<rightharpoonup> 'l"
  ns_threads :: "('l, 'n) nonce_thread list"

definition nonce_state_new :: "('l, 'n) nonce_state" where
  "nonce_state_new = \<lparr>ns_pool = nonce_pool_new, ns_now = 0, ns_reachable = False, ns_live = True, ns_issued = Map.empty, ns_threads = []\<rparr>"

definition after_look :: "'l \<Rightarrow> bool \<Rightarrow> 'n looked \<Rightarrow> ('l, 'n) nonce_thread" where
  "after_look l reached r =
     (case r of
        LeftAlone \<Rightarrow> Answers l None
      | NoneKept \<Rightarrow> (if reached then Calls False l else Behind l None)
      | FoundKept n low \<Rightarrow> (if low then Behind l (Some n) else Answers l (Some n)))"

text \<open>Whether a thread holds the surface: one that may not let it go until it is done.\<close>

fun holds_surface :: "('l, 'n) nonce_thread \<Rightarrow> bool" where
  "holds_surface (Answers _ _) = False"
| "holds_surface (SpawnedFor _) = False"
| "holds_surface Gone = False"
| "holds_surface _ = True"

definition at_thread :: "('l, 'n) nonce_state \<Rightarrow> nat \<Rightarrow> ('l, 'n) nonce_thread \<Rightarrow> bool" where
  "at_thread s i th \<longleftrightarrow> i < length (ns_threads s) \<and> ns_threads s ! i = th"

definition to_thread :: "nat \<Rightarrow> ('l, 'n) nonce_thread \<Rightarrow> ('l, 'n) nonce_state \<Rightarrow> ('l, 'n) nonce_state" where
  "to_thread i th s = s\<lparr>ns_threads := (ns_threads s)[i := th]\<rparr>"

definition thread_added :: "('l, 'n) nonce_thread \<Rightarrow> ('l, 'n) nonce_state \<Rightarrow> ('l, 'n) nonce_state" where
  "thread_added th s = s\<lparr>ns_threads := ns_threads s @ [th]\<rparr>"

inductive nonce_step :: "('l, 'n) nonce_state \<Rightarrow> ('l, 'n) nonce_state \<Rightarrow> bool" where
  ticks: "ns_now s \<le> t \<Longrightarrow> nonce_step s (s\<lparr>ns_now := t\<rparr>)"
| follows: "nonce_step s (s\<lparr>ns_reachable := b\<rparr>)"
| drops: "ns_live s \<Longrightarrow> \<not> list_ex holds_surface (ns_threads s) \<Longrightarrow> nonce_step s (s\<lparr>ns_live := False\<rparr>)"
| asks: "ns_live s \<Longrightarrow> nonce_step s (thread_added (Asks l) s)"
| reads: "at_thread s i (Asks l) \<Longrightarrow> nonce_step s (to_thread i (Looks l (ns_now s) (ns_reachable s)) s)"
| looks: "at_thread s i (Looks l t reached) \<Longrightarrow> pool_look t l (ns_pool s) = (r, p) \<Longrightarrow>
    nonce_step s (to_thread i (after_look l reached r) (s\<lparr>ns_pool := p\<rparr>))"
| behind: "at_thread s i (Behind l r) \<Longrightarrow> pool_behind (ns_pool s) = (mine, p) \<Longrightarrow>
    nonce_step s (to_thread i (if mine then Spawns l r else Answers l r) (s\<lparr>ns_pool := p\<rparr>))"
| spawns: "at_thread s i (Spawns l r) \<Longrightarrow> nonce_step s (to_thread i (Answers l r) (thread_added (SpawnedFor l) s))"
| unspawned: "at_thread s i (Spawns l r) \<Longrightarrow> nonce_step s (to_thread i (Unspawned l r) s)"
| clears: "at_thread s i (Unspawned l r) \<Longrightarrow>
    nonce_step s (to_thread i (Answers l r) (s\<lparr>ns_pool := (ns_pool s)\<lparr>np_refilling := False\<rparr>\<rparr>))"
| upgrades: "at_thread s i (SpawnedFor l) \<Longrightarrow> nonce_step s (to_thread i (if ns_live s then Calls True l else Gone) s)"
| calls: "at_thread s i (Calls bg l) \<Longrightarrow> distinct given \<Longrightarrow> list_all (\<lambda>n. ns_issued s n = None) given \<Longrightarrow>
    nonce_step s (to_thread i (Keeps bg l given (ns_now s)) (s\<lparr>ns_issued := (\<lambda>n. if n \<in> set given then Some l else ns_issued s n)\<rparr>))"
| keeps: "at_thread s i (Keeps bg l given t) \<Longrightarrow>
    nonce_step s (to_thread i (if bg then Gone else Pops l) (s\<lparr>ns_pool := pool_keep t l given (ns_pool s)\<rparr>))"
| pops: "at_thread s i (Pops l) \<Longrightarrow> pool_pop l (ns_pool s) = (r, p) \<Longrightarrow> nonce_step s (to_thread i (Answers l r) (s\<lparr>ns_pool := p\<rparr>))"

section \<open>Each nonce in one place\<close>

text \<open>The nonces a thread carries for a listener: one it took, or those it was given and has not kept yet.\<close>

fun one_for :: "'l \<Rightarrow> 'l \<Rightarrow> 'n option \<Rightarrow> 'n list" where
  "one_for l l' None = []"
| "one_for l l' (Some n) = (if l' = l then [n] else [])"

fun carries :: "'l \<Rightarrow> ('l, 'n) nonce_thread \<Rightarrow> 'n list" where
  "carries l (Behind l' r) = one_for l l' r"
| "carries l (Spawns l' r) = one_for l l' r"
| "carries l (Unspawned l' r) = one_for l l' r"
| "carries l (Answers l' r) = one_for l l' r"
| "carries l (Keeps _ l' given _) = (if l' = l then given else [])"
| "carries l _ = []"

definition carried_count :: "'l \<Rightarrow> 'n \<Rightarrow> ('l, 'n) nonce_thread list \<Rightarrow> nat" where
  "carried_count l n ths = sum_list (map (\<lambda>th. count_list (carries l th) n) ths)"

definition nonce_count :: "('l, 'n) nonce_state \<Rightarrow> 'l \<Rightarrow> 'n \<Rightarrow> nat" where
  "nonce_count s l n = count_list (map fst (np_nonces (ns_pool s) l)) n + carried_count l n (ns_threads s)"

text \<open>Whether a thread is to clear \<open>refilling\<close>.\<close>

fun will_clear :: "('l, 'n) nonce_thread \<Rightarrow> bool" where
  "will_clear (Spawns _ _) = True"
| "will_clear (Unspawned _ _) = True"
| "will_clear (SpawnedFor _) = True"
| "will_clear (Calls _ _) = True"
| "will_clear (Keeps _ _ _ _) = True"
| "will_clear _ = False"

definition once_inv :: "('l, 'n) nonce_state \<Rightarrow> bool" where
  "once_inv s \<longleftrightarrow> (\<forall>l n. nonce_count s l n \<le> (if ns_issued s n = Some l then 1 else 0))"

definition clears_inv :: "('l, 'n) nonce_state \<Rightarrow> bool" where
  "clears_inv s \<longleftrightarrow> (ns_live s \<and> np_refilling (ns_pool s) \<longrightarrow> list_ex will_clear (ns_threads s))"

lemma carried_update:
  assumes "i < length ths"
  shows "carried_count l n (ths[i := th]) + count_list (carries l (ths ! i)) n = carried_count l n ths + count_list (carries l th) n"
proof -
  let ?c = "\<lambda>th. count_list (carries l th) n"
  have "?c (ths ! i) \<le> carried_count l n ths" unfolding carried_count_def using assms by (intro member_le_sum_list) simp_all
  then show ?thesis using assms by (simp add: carried_count_def map_update sum_list_update)
qed

lemma carried_added [simp]: "carried_count l n (ths @ [th]) = carried_count l n ths + count_list (carries l th) n"
  by (simp add: carried_count_def)

lemma count_filter_le: "count_list (map f (filter P xs)) y \<le> count_list (map f xs) y"
  by (induction xs) auto

lemma distinct_counts: "distinct xs \<Longrightarrow> count_list xs n = (if n \<in> set xs then 1 else 0)"
  by (induction xs) auto

lemma pool_look_count:
  "count_list (map fst (np_nonces (snd (pool_look t l p)) l')) n + count_list (carries l' (after_look l reached (fst (pool_look t l p)))) n
     \<le> count_list (map fst (np_nonces p l')) n"
proof (cases "filter (\<lambda>(_, at). t - at < nonce_kept) (np_nonces p l)")
  case Nil
  then show ?thesis by (simp add: pool_look_def after_look_def)
next
  case (Cons x kept)
  obtain m a where x: "x = (m, a)" by (cases x)
  have "count_list (m # map fst kept) n \<le> count_list (map fst (np_nonces p l)) n"
    using count_filter_le [of fst "\<lambda>(_, at). t - at < nonce_kept" "np_nonces p l" n] unfolding Cons x by simp
  then show ?thesis using Cons x by (auto simp: pool_look_def after_look_def)
qed

lemma pool_pop_count:
  "count_list (map fst (np_nonces (snd (pool_pop l p)) l')) n + count_list (one_for l' l (fst (pool_pop l p))) n = count_list (map fst (np_nonces p l')) n"
  by (cases "np_nonces p l"; cases "hd (np_nonces p l)") (auto simp: pool_pop_def)

lemma pool_keep_count:
  "count_list (map fst (np_nonces (pool_keep t l given p) l')) n =
     count_list (map fst (np_nonces p l')) n + (if l' = l then count_list given n else 0)"
  by (simp add: pool_keep_def comp_def)

text \<open>A thread that moves leaves each nonce in one place where no more are kept and carried after than before.\<close>

lemma once_moves:
  assumes "once_inv s" "at_thread s i th" "ns_threads s' = ns_threads s" "ns_issued s' = ns_issued s"
    and "\<And>l n. count_list (map fst (np_nonces (ns_pool s') l)) n + count_list (carries l th') n
      \<le> count_list (map fst (np_nonces (ns_pool s) l)) n + count_list (carries l th) n"
  shows "once_inv (to_thread i th' s')"
proof -
  have "nonce_count (to_thread i th' s') l n \<le> nonce_count s l n" for l n
    using carried_update [of i "ns_threads s" l n th'] assms(2,3) assms(5) [of l n]
    by (simp add: nonce_count_def to_thread_def at_thread_def)
  moreover have "ns_issued (to_thread i th' s') = ns_issued s" using assms(4) by (simp add: to_thread_def)
  ultimately show ?thesis using assms(1) unfolding once_inv_def by (metis order_trans)
qed

lemma once_added: "once_inv (thread_added th s) = once_inv s" if "\<And>l. carries l th = []"
  using that by (simp add: once_inv_def nonce_count_def thread_added_def)

text \<open>And one that moves keeps who is to clear \<open>refilling\<close>, where it was not the one, or it cleared it, or still is.\<close>

lemma clears_moves:
  assumes "clears_inv s" "at_thread s i th" "ns_threads s' = ns_threads s" "ns_live s' \<Longrightarrow> ns_live s"
    and "ns_live s' \<Longrightarrow> np_refilling (ns_pool s') \<Longrightarrow> will_clear th' \<or> \<not> will_clear th \<and> np_refilling (ns_pool s)"
  shows "clears_inv (to_thread i th' s')"
proof -
  have "list_ex will_clear ((ns_threads s)[i := th'])" if other: "list_ex will_clear (ns_threads s)" "\<not> will_clear th"
  proof -
    obtain k where k: "k < length (ns_threads s)" "will_clear (ns_threads s ! k)" using other(1) by (auto simp: list_ex_length)
    then have "k \<noteq> i" using other(2) assms(2) by (auto simp: at_thread_def)
    with k show ?thesis by (auto simp: list_ex_length intro!: exI [of _ k])
  qed
  moreover have "list_ex will_clear ((ns_threads s)[i := th'])" if "will_clear th'"
    using assms(2) that by (auto simp: list_ex_length at_thread_def intro!: exI [of _ i])
  ultimately show ?thesis using assms unfolding clears_inv_def to_thread_def by auto
qed

lemma call_issues:
  assumes "once_inv s" "at_thread s i (Calls bg l)" "distinct given" "list_all (\<lambda>n. ns_issued s n = None) given"
  shows "once_inv (to_thread i (Keeps bg l given t) (s\<lparr>ns_issued := (\<lambda>n. if n \<in> set given then Some l else ns_issued s n)\<rparr>))" (is "once_inv ?s")
proof -
  have old: "nonce_count s l' n \<le> (if ns_issued s n = Some l' then 1 else 0)" for l' n using assms(1) by (simp add: once_inv_def)
  have new: "nonce_count ?s l' n = nonce_count s l' n + (if l' = l \<and> n \<in> set given then 1 else 0)" for l' n
    using carried_update [of i "ns_threads s" l' n "Keeps bg l given t"] assms(2) distinct_counts [OF assms(3), of n]
    by (simp add: nonce_count_def to_thread_def at_thread_def)
  have "nonce_count ?s l' n \<le> (if ns_issued ?s n = Some l' then 1 else 0)" for l' n
    using old [of l' n] new [of l' n] assms(4) by (auto simp: to_thread_def list_all_iff)
  then show ?thesis unfolding once_inv_def by blast
qed

lemma step_once: "nonce_step s s' \<Longrightarrow> once_inv s \<Longrightarrow> once_inv s'"
proof (induction rule: nonce_step.induct)
  case (looks s i l t reached r p)
  then show ?case
    using pool_look_count [of t l "ns_pool s" _ _ reached] by (intro once_moves [of s i "Looks l t reached"]) simp_all
next
  case (behind s i l r mine p)
  then show ?case by (intro once_moves [of s i "Behind l r"]) (auto simp: pool_behind_def split: if_splits)
next
  case (spawns s i l r)
  have "once_inv (thread_added (SpawnedFor l) s)" using spawns once_added [of "SpawnedFor l" s] by simp
  moreover have "at_thread (thread_added (SpawnedFor l) s) i (Spawns l r)"
    using spawns(1) by (simp add: at_thread_def thread_added_def nth_append)
  ultimately show ?case by (rule once_moves) simp_all
next
  case (calls s i bg l given)
  then show ?case by (intro call_issues)
next
  case (keeps s i bg l given t)
  then show ?case by (intro once_moves [of s i "Keeps bg l given t"]) (simp_all add: pool_keep_count)
next
  case (pops s i l r p)
  then show ?case using pool_pop_count [of l "ns_pool s"] by (intro once_moves [of s i "Pops l"]) simp_all
next
  case (ticks s t) then show ?case by (simp add: once_inv_def nonce_count_def)
next
  case (follows s b) then show ?case by (simp add: once_inv_def nonce_count_def)
next
  case (drops s) then show ?case by (simp add: once_inv_def nonce_count_def)
next
  case (asks s l) then show ?case using once_added [of "Asks l" s] by simp
next
  case (reads s i l) then show ?case by (intro once_moves [of s i "Asks l"]) simp_all
next
  case (unspawned s i l r) then show ?case by (intro once_moves [of s i "Spawns l r"]) simp_all
next
  case (clears s i l r) then show ?case by (intro once_moves [of s i "Unspawned l r"]) simp_all
next
  case (upgrades s i l) then show ?case by (intro once_moves [of s i "SpawnedFor l"]) simp_all
qed

lemma pool_look_refilling: "np_refilling (snd (pool_look t l p)) = np_refilling p"
  by (simp add: pool_look_def split: list.splits prod.splits)

lemma pool_pop_refilling: "np_refilling (snd (pool_pop l p)) = np_refilling p"
  by (simp add: pool_pop_def split: list.splits prod.splits)

lemma step_clears: "nonce_step s s' \<Longrightarrow> clears_inv s \<Longrightarrow> clears_inv s'"
proof (induction rule: nonce_step.induct)
  case (looks s i l t reached r p)
  then show ?case
    using pool_look_refilling [of t l "ns_pool s"] by (intro clears_moves [of s i "Looks l t reached"]) simp_all
next
  case (behind s i l r mine p)
  then show ?case by (intro clears_moves [of s i "Behind l r"]) (auto simp: pool_behind_def split: if_splits)
next
  case (spawns s i l r)
  have "clears_inv (thread_added (SpawnedFor l) s)" by (simp add: clears_inv_def thread_added_def)
  moreover have "length (ns_threads s) < length (ns_threads (to_thread i (Answers l r) (thread_added (SpawnedFor l) s)))"
      "ns_threads (to_thread i (Answers l r) (thread_added (SpawnedFor l) s)) ! length (ns_threads s) = SpawnedFor l"
    using spawns(1) by (auto simp: to_thread_def thread_added_def at_thread_def nth_list_update nth_append)
  then have "list_ex will_clear (ns_threads (to_thread i (Answers l r) (thread_added (SpawnedFor l) s)))"
    by (metis list_ex_length will_clear.simps(3))
  then show ?case by (simp add: clears_inv_def)
next
  case (pops s i l r p)
  then show ?case using pool_pop_refilling [of l "ns_pool s"] by (intro clears_moves [of s i "Pops l"]) simp_all
next
  case (keeps s i bg l given t)
  then show ?case by (intro clears_moves [of s i "Keeps bg l given t"]) (simp_all add: pool_keep_def split: if_splits)
next
  case (asks s l) then show ?case by (simp add: clears_inv_def thread_added_def)
next
  case (reads s i l) then show ?case by (intro clears_moves [of s i "Asks l"]) simp_all
next
  case (unspawned s i l r) then show ?case by (intro clears_moves [of s i "Spawns l r"]) simp_all
next
  case (clears s i l r) then show ?case by (intro clears_moves [of s i "Unspawned l r"]) simp_all
next
  case (upgrades s i l) then show ?case by (intro clears_moves [of s i "SpawnedFor l"]) simp_all
next
  case (calls s i bg l given) then show ?case by (intro clears_moves [of s i "Calls bg l"]) simp_all
qed (simp_all add: clears_inv_def)

interpretation surface_nonces: invariant_system "\<lambda>s. s = nonce_state_new" nonce_step "\<lambda>s. once_inv s \<and> clears_inv s"
proof
  fix s s' :: "('l, 'n) nonce_state"
  show "s = nonce_state_new \<Longrightarrow> once_inv s \<and> clears_inv s"
    by (simp add: once_inv_def nonce_count_def carried_count_def clears_inv_def nonce_state_new_def nonce_pool_new_def)
  show "once_inv s \<and> clears_inv s \<Longrightarrow> nonce_step s s' \<Longrightarrow> once_inv s' \<and> clears_inv s'"
    using step_once step_clears by blast
qed

section \<open>What a handshake may rely on\<close>

lemma carried_two:
  assumes "at_thread s i th" "at_thread s j th'" "i \<noteq> j"
  shows "count_list (carries l th) n + count_list (carries l th') n \<le> carried_count l n (ns_threads s)"
proof -
  have "th' \<in> set ((ns_threads s)[i := Gone])"
    using assms by (metis at_thread_def length_list_update nth_list_update_neq nth_mem)
  then have "count_list (carries l th') n \<le> carried_count l n ((ns_threads s)[i := Gone])"
    unfolding carried_count_def by (intro member_le_sum_list) simp_all
  then show ?thesis using carried_update [of i "ns_threads s" l n Gone] assms(1) by (simp add: at_thread_def)
qed

lemma carried_one: "at_thread s i th \<Longrightarrow> count_list (carries l th) n \<le> carried_count l n (ns_threads s)"
  using carried_update [of i "ns_threads s" l n Gone] by (simp add: at_thread_def)

text \<open>A nonce found kept was kept for the listener less than \<open>nonce_kept\<close> before it was looked for.\<close>

lemma look_finds_fresh:
  assumes "fst (pool_look t l p) = FoundKept n low"
  shows "\<exists>at. (n, at) \<in> set (np_nonces p l) \<and> t - at < nonce_kept"
proof (cases "filter (\<lambda>(_, at). t - at < nonce_kept) (np_nonces p l)")
  case Nil
  then show ?thesis using assms by (simp add: pool_look_def split: if_splits)
next
  case (Cons x kept)
  then have "x \<in> set (np_nonces p l) \<and> t - snd x < nonce_kept" by (auto simp: filter_eq_Cons_iff)
  moreover have "fst x = n" using assms Cons by (simp add: pool_look_def split: if_splits prod.splits)
  ultimately show ?thesis by (intro exI [of _ "snd x"]) (cases x, simp)
qed

text \<open>C37: On every interleaving of the threads that take and ask for a node's nonces, a nonce is bound to one handshake: no two
  threads answer the same one, each answers one the node issued for its own listener, and one answered is kept no
  more. And while the surface lives, whenever the pool says that it is being refilled some thread is still to say
  that it is not, so a refill is never waited for in vain.\<close>

theorem nonces_bound_once:
  assumes "reach (\<lambda>s. s = nonce_state_new) nonce_step s"
  shows "(\<forall>i l n. at_thread s i (Answers l (Some n)) \<longrightarrow> ns_issued s n = Some l \<and> (\<forall>l'. n \<notin> fst ` set (np_nonces (ns_pool s) l')) \<and>
      (\<forall>j l'. at_thread s j (Answers l' (Some n)) \<longrightarrow> i = j)) \<and>
    (ns_live s \<and> np_refilling (ns_pool s) \<longrightarrow> list_ex will_clear (ns_threads s))"
proof -
  have inv: "once_inv s" "clears_inv s" using surface_nonces.reach_inv [OF assms] by blast+
  have count: "nonce_count s l n \<le> (if ns_issued s n = Some l then 1 else 0)" for l n using inv(1) by (simp add: once_inv_def)
  have one: "1 \<le> carried_count l n (ns_threads s)" "ns_issued s n = Some l" if "at_thread s i (Answers l (Some n))" for i l n
    using carried_one [OF that, of l n] count [of l n] by (auto simp: nonce_count_def split: if_splits)
  have not_kept: "n \<notin> fst ` set (np_nonces (ns_pool s) l')" if "at_thread s i (Answers l (Some n))" for i l l' n
  proof
    assume "n \<in> fst ` set (np_nonces (ns_pool s) l')"
    then have "n \<in> set (map fst (np_nonces (ns_pool s) l'))" by simp
    then have "count_list (map fst (np_nonces (ns_pool s) l')) n \<noteq> 0" by (simp only: count_list_0_iff not_not)
    then show False using count [of l' n] one [OF that] by (auto simp: nonce_count_def split: if_splits)
  qed
  have same: "i = j" if a: "at_thread s i (Answers l (Some n))" "at_thread s j (Answers l' (Some n))" for i j l l' n
  proof (rule ccontr)
    assume "i \<noteq> j"
    then have "2 \<le> carried_count l n (ns_threads s)" using carried_two [OF a(1,2), of l n] one(2) [OF a(1)] one(2) [OF a(2)] by simp
    then show False using count [of l n] by (auto simp: nonce_count_def split: if_splits)
  qed
  show ?thesis using one(2) not_kept same inv(2) unfolding clears_inv_def by blast
qed

text \<open>Runs of a surface with one listener, its clock at 0 and no refusal.\<close>

definition pool_of :: "nat list \<Rightarrow> bool \<Rightarrow> (nat, nat) nonce_pool" where
  "pool_of q refilling = \<lparr>np_nonces = (\<lambda>_. [])(1 := map (\<lambda>n. (n, 0)) q), np_refused_until = \<lambda>_. None, np_refilling = refilling\<rparr>"

definition run_at :: "nat list \<Rightarrow> bool \<Rightarrow> bool \<Rightarrow> (nat \<rightharpoonup> nat) \<Rightarrow> (nat, nat) nonce_thread list \<Rightarrow> (nat, nat) nonce_state" where
  "run_at q refilling reached issued ths =
     \<lparr>ns_pool = pool_of q refilling, ns_now = 0, ns_reachable = reached, ns_live = True, ns_issued = issued, ns_threads = ths\<rparr>"

abbreviation reached_run :: "(nat, nat) nonce_state \<Rightarrow> bool" where
  "reached_run \<equiv> reach (\<lambda>s. s = nonce_state_new) nonce_step"

lemma run_new: "reached_run (run_at [] False False Map.empty [])"
proof -
  have "(run_at [] False False Map.empty [] :: (nat, nat) nonce_state) = nonce_state_new"
    by (simp add: run_at_def pool_of_def nonce_state_new_def nonce_pool_new_def fun_eq_iff)
  then show ?thesis using reach_init [of "\<lambda>s. s = nonce_state_new" nonce_state_new nonce_step] by simp
qed

lemma run_follows: "reached_run (run_at q f r iss ths) \<Longrightarrow> reached_run (run_at q f b iss ths)"
  by (erule reach_step) (use follows [of "run_at q f r iss ths" b] in \<open>simp add: run_at_def\<close>)

lemma run_asks: "reached_run (run_at q f r iss ths) \<Longrightarrow> reached_run (run_at q f r iss (ths @ [Looks 1 0 r]))"
proof -
  assume "reached_run (run_at q f r iss ths)"
  then have "reached_run (run_at q f r iss (ths @ [Asks 1]))"
    by (rule reach_step) (use asks [of "run_at q f r iss ths" 1] in \<open>simp add: run_at_def thread_added_def\<close>)
  then show ?thesis
    by (rule reach_step) (use reads [of "run_at q f r iss (ths @ [Asks 1])" "length ths" 1] in
      \<open>simp add: run_at_def to_thread_def at_thread_def\<close>)
qed

lemma run_looks_none:
  assumes "reached_run (run_at [] f r iss ths)" "i < length ths" "ths ! i = Looks 1 0 b"
  shows "reached_run (run_at [] f r iss (ths[i := if b then Calls False 1 else Behind 1 None]))"
proof -
  have "pool_look 0 1 (pool_of [] f) = (NoneKept, pool_of [] f)" by (simp add: pool_look_def pool_of_def)
  then show ?thesis using assms(2,3)
    by (intro reach_step [OF assms(1)]) (use looks [of "run_at [] f r iss ths" i 1 0 b NoneKept "pool_of [] f"] in
      \<open>cases b; simp add: run_at_def to_thread_def at_thread_def after_look_def\<close>)
qed

text \<open>A thread told to refill behind spawns one, which asks.\<close>

lemma run_behind:
  assumes "reached_run (run_at q False r iss ths)" "i < length ths" "ths ! i = Behind 1 None"
  shows "reached_run (run_at q True r iss (ths[i := Answers 1 None] @ [Calls True 1]))"
proof -
  have "reached_run (run_at q True r iss (ths[i := Spawns 1 None]))"
    using assms(2,3) by (intro reach_step [OF assms(1)])
      (use behind [of "run_at q False r iss ths" i 1 None True "pool_of q True"] in
        \<open>simp add: run_at_def pool_behind_def pool_of_def to_thread_def at_thread_def\<close>)
  then have "reached_run (run_at q True r iss (ths[i := Answers 1 None] @ [SpawnedFor 1]))"
    by (rule reach_step) (use assms(2) spawns [of "run_at q True r iss (ths[i := Spawns 1 None])" i 1 None] in
      \<open>simp add: run_at_def to_thread_def at_thread_def thread_added_def list_update_append\<close>)
  then show ?thesis
    by (rule reach_step) (use upgrades [of "run_at q True r iss (ths[i := Answers 1 None] @ [SpawnedFor 1])" "length ths" 1] in
      \<open>simp add: run_at_def to_thread_def at_thread_def list_update_append nth_append\<close>)
qed

text \<open>A thread asks itself, is given one nonce and takes it.\<close>

lemma run_calls:
  assumes "reached_run (run_at [] f r iss ths)" "i < length ths" "ths ! i = Calls False 1" "iss n = None"
  shows "reached_run (run_at [] False r (iss(n \<mapsto> 1)) (ths[i := Answers 1 (Some n)]))"
proof -
  have iss: "(\<lambda>m. if m \<in> set [n] then Some 1 else ns_issued (run_at [] f r iss ths) m) = iss(n \<mapsto> 1)"
    by (auto simp: fun_eq_iff run_at_def)
  have "reached_run (run_at [] f r (iss(n \<mapsto> 1)) (ths[i := Keeps False 1 [n] 0]))"
    using assms(2-4) by (intro reach_step [OF assms(1)])
      (use calls [of "run_at [] f r iss ths" i False 1 "[n]", unfolded iss] in \<open>simp add: run_at_def to_thread_def at_thread_def\<close>)
  then have "reached_run (run_at [n] False r (iss(n \<mapsto> 1)) (ths[i := Pops 1]))"
    by (rule reach_step) (use assms(2) keeps [of "run_at [] f r (iss(n \<mapsto> 1)) (ths[i := Keeps False 1 [n] 0])" i False 1 "[n]" 0] in
      \<open>simp add: run_at_def to_thread_def at_thread_def pool_keep_def pool_of_def\<close>)
  then show ?thesis
    by (rule reach_step) (use assms(2) pops [of "run_at [n] False r (iss(n \<mapsto> 1)) (ths[i := Pops 1])" i 1 "Some n" "pool_of [] False"] in
      \<open>simp add: run_at_def to_thread_def at_thread_def pool_pop_def pool_of_def\<close>)
qed

lemma run_one_taken: "reached_run (run_at [] False True [5 \<mapsto> 1] [Answers 1 (Some 5)])"
  using run_calls [OF run_looks_none [OF run_asks [OF run_follows [OF run_new, of True]], of 0 True], of 0 5] by simp

theorem nonces_bound_once_witness:
  "at_thread (run_at [] False True [5 \<mapsto> 1] [Answers 1 (Some 5)]) 0 (Answers 1 (Some 5)) \<and>
   ns_issued (run_at [] False True [5 \<mapsto> 1] [Answers 1 (Some 5)]) 5 = Some 1 \<and>
   5 \<notin> fst ` set (np_nonces (ns_pool (run_at [] False True [5 \<mapsto> 1] [Answers 1 (Some 5)])) 1)"
proof -
  have at: "at_thread (run_at [] False True [5 \<mapsto> 1] [Answers 1 (Some 5)]) 0 (Answers 1 (Some 5))" by (simp add: at_thread_def run_at_def)
  then show ?thesis using nonces_bound_once [OF run_one_taken] by blast
qed

text \<open>A node is not asked for nonces behind a thread one ask at a time: a thread that asks it itself says that nothing is
  refilling while an ask behind is on its way, so another ask behind is begun beside it.\<close>

theorem two_asks_behind:
  "\<exists>s. reached_run s \<and> at_thread s 1 (Calls True 1) \<and> at_thread s 4 (Calls True 1)"
proof -
  let ?b = "[Answers 1 None, Calls True 1] :: (nat, nat) nonce_thread list"
  have "reached_run (run_at [] True False Map.empty ?b)"
    using run_behind [OF run_looks_none [OF run_asks [OF run_new], of 0 False], of 0] by simp
  then have "reached_run (run_at [] False True [5 \<mapsto> 1] (?b @ [Answers 1 (Some 5)]))"
    using run_calls [OF run_looks_none [OF run_asks [OF run_follows, of "[]" True False Map.empty ?b True], of 2 True], of 2 5] by simp
  then have "reached_run (run_at [] True False [5 \<mapsto> 1] (?b @ [Answers 1 (Some 5), Answers 1 None, Calls True 1]))"
    using run_behind [OF run_looks_none [OF run_asks [OF run_follows,
      of "[]" False True "[5 \<mapsto> 1]" "?b @ [Answers 1 (Some 5)]" False], of 3 False], of 3] by simp
  then show ?thesis by (intro exI conjI) (auto simp: at_thread_def run_at_def)
qed

end
