(* ===== verification/Deadline.thy ===== *)
theory Deadline
  imports Text
begin

text \<open>
  \<open>src/plane/deadline.rs\<close>: the deadline of a surface's call to its node's local endpoint, where the line keeps no time
  itself, and the one thread of the process that keeps every surface's. The thread looks at each surface under its
  lock and then waits until the earliest deadline it saw, or to be told; a call arms its deadline under the
  surface's own lock, at any moment of a look, and tells the thread only where it would look later. The model is
  every interleaving of the two; what is shown is that the thread never sleeps past a deadline that was armed,
  and that what it cancels is only a call whose deadline has passed.
\<close>

section \<open>A surface's deadline\<close>

text \<open>\<open>Armed\<close>, with whether the surface is ending, the number of its call, and the second half of an \<open>arm\<close> that has still
  to tell the thread.\<close>

record armed =
  ar_until :: "instant option"
  ar_fired :: bool
  ar_ending :: bool
  ar_call :: nat
  ar_telling :: "instant option"

definition armed_new :: armed where
  "armed_new = \<lparr>ar_until = None, ar_fired = False, ar_ending = False, ar_call = 0, ar_telling = None\<rparr>"

definition deadline_arm :: "instant \<Rightarrow> armed \<Rightarrow> armed" where
  "deadline_arm until a = a\<lparr>ar_until := Some until, ar_fired := False, ar_call := ar_call a + 1, ar_telling := Some until\<rparr>"

definition deadline_disarm :: "armed \<Rightarrow> bool \<times> armed" where
  "deadline_disarm a = (ar_fired a, a\<lparr>ar_until := None, ar_fired := False\<rparr>)"

definition deadline_passed :: "armed \<Rightarrow> bool" where
  "deadline_passed a = ar_fired a"

text \<open>How long a cancel waits before it cancels again: a millisecond, in nanoseconds.\<close>

definition cancel_again :: duration where "cancel_again = 1000000"

text \<open>One surface looked at, at \<open>now\<close>: its deadline after, whether its read is cancelled, and when it is due.\<close>

definition looked_at :: "instant \<Rightarrow> armed \<Rightarrow> armed \<times> bool \<times> instant option" where
  "looked_at now a =
     (if ar_fired a then (a, True, Some (now + cancel_again))
      else
        case ar_until a of
          None \<Rightarrow> (a, False, None)
        | Some until \<Rightarrow>
            if until \<le> now then (a\<lparr>ar_until := None, ar_fired := True\<rparr>, True, Some (now + cancel_again))
            else (a, False, Some until))"

definition sooner_of :: "instant option \<Rightarrow> instant option \<Rightarrow> instant option" where
  "sooner_of next_look due =
     (case next_look of None \<Rightarrow> due | Some n \<Rightarrow> (case due of None \<Rightarrow> Some n | Some d \<Rightarrow> Some (min n d)))"

section \<open>The thread that keeps them\<close>

datatype watch_phase = Waiting | Woken | Looking "nat list" "instant option" instant

record watcher =
  wa_surfaces :: "nat \<rightharpoonup> armed"
  wa_kept :: "nat list"
  wa_looks :: "instant option"
  wa_phase :: watch_phase
  wa_clock :: instant
  wa_armings :: "(nat \<times> nat \<times> instant) list"
  wa_cancels :: "(nat \<times> nat \<times> instant) list"

definition watcher_new :: watcher where
  "watcher_new = \<lparr>wa_surfaces = Map.empty, wa_kept = [], wa_looks = None, wa_phase = Woken, wa_clock = 0, wa_armings = [], wa_cancels = []\<rparr>"

text \<open>The thread's own lock is free while it waits or is woken; a look holds it from end to end.\<close>

definition lock_free :: "watcher \<Rightarrow> bool" where
  "lock_free w \<longleftrightarrow> wa_phase w = Waiting \<or> wa_phase w = Woken"

definition watcher_keep :: "nat \<Rightarrow> watcher \<Rightarrow> watcher" where
  "watcher_keep i w = w\<lparr>wa_surfaces := (wa_surfaces w)(i \<mapsto> armed_new), wa_kept := wa_kept w @ [i]\<rparr>"

definition watcher_sooner :: "instant \<Rightarrow> watcher \<Rightarrow> watcher" where
  "watcher_sooner until w =
     (if wa_looks w = None \<or> until < the (wa_looks w) then w\<lparr>wa_phase := Woken\<rparr> else w)"

definition watch_one :: "nat \<Rightarrow> nat list \<Rightarrow> instant option \<Rightarrow> instant \<Rightarrow> watcher \<Rightarrow> watcher" where
  "watch_one i rest next_look now w =
     (case wa_surfaces w i of
        None \<Rightarrow> w\<lparr>wa_kept := remove1 i (wa_kept w), wa_phase := Looking rest next_look now\<rparr>
      | Some a \<Rightarrow>
          if ar_ending a then w\<lparr>wa_kept := remove1 i (wa_kept w), wa_phase := Looking rest next_look now\<rparr>
          else
            case looked_at now a of
              (a', cancelled, due) \<Rightarrow>
                w\<lparr>wa_surfaces := (wa_surfaces w)(i \<mapsto> a'), wa_phase := Looking rest (sooner_of next_look due) now,
                  wa_cancels := wa_cancels w @ (if cancelled then [(i, ar_call a, now)] else [])\<rparr>)"

text \<open>The calls of the surfaces and the thread, interleaved. The thread is woken where it was told, where its time has
  come, or for nothing, and its clock, the time of its last look, never goes back. A surface dropped is one that is no longer among \<open>wa_surfaces\<close>.\<close>

inductive watch_step :: "watcher \<Rightarrow> watcher \<Rightarrow> bool" where
  keeps: "lock_free w \<Longrightarrow> i \<notin> set (wa_kept w) \<Longrightarrow> i \<notin> dom (wa_surfaces w) \<Longrightarrow> watch_step w (watcher_keep i w)"
| arms: "wa_surfaces w i = Some a \<Longrightarrow> ar_telling a = None \<Longrightarrow>
    watch_step w (w\<lparr>wa_surfaces := (wa_surfaces w)(i \<mapsto> deadline_arm until a), wa_armings := wa_armings w @ [(i, ar_call a + 1, until)]\<rparr>)"
| tells: "wa_surfaces w i = Some a \<Longrightarrow> ar_telling a = Some until \<Longrightarrow> lock_free w \<Longrightarrow>
    watch_step w (watcher_sooner until (w\<lparr>wa_surfaces := (wa_surfaces w)(i \<mapsto> a\<lparr>ar_telling := None\<rparr>)\<rparr>))"
| disarms: "wa_surfaces w i = Some a \<Longrightarrow> ar_telling a = None \<Longrightarrow>
    watch_step w (w\<lparr>wa_surfaces := (wa_surfaces w)(i \<mapsto> snd (deadline_disarm a))\<rparr>)"
| ends: "wa_surfaces w i = Some a \<Longrightarrow> watch_step w (w\<lparr>wa_surfaces := (wa_surfaces w)(i \<mapsto> a\<lparr>ar_ending := True\<rparr>)\<rparr>)"
| drops: "watch_step w (w\<lparr>wa_surfaces := (wa_surfaces w)(i := None)\<rparr>)"
| wakes: "wa_phase w = Waiting \<Longrightarrow> watch_step w (w\<lparr>wa_phase := Woken\<rparr>)"
| begins: "wa_phase w = Woken \<Longrightarrow> wa_clock w \<le> now \<Longrightarrow>
    watch_step w (w\<lparr>wa_phase := Looking (wa_kept w) None now, wa_clock := now\<rparr>)"
| looks: "wa_phase w = Looking (i # rest) next_look now \<Longrightarrow> watch_step w (watch_one i rest next_look now w)"
| waits: "wa_phase w = Looking [] next_look now \<Longrightarrow> watch_step w (w\<lparr>wa_looks := next_look, wa_phase := Waiting\<rparr>)"

inductive_cases watch_stepE: "watch_step w w'"

section \<open>Never slept past\<close>

text \<open>What the thread will next look by, for a surface it keeps: it is about to look at it, or looks in time.\<close>

definition looks_by :: "watcher \<Rightarrow> nat \<Rightarrow> (instant \<Rightarrow> bool) \<Rightarrow> bool" where
  "looks_by w i in_time \<longleftrightarrow>
     (case wa_phase w of
        Woken \<Rightarrow> True
      | Waiting \<Rightarrow> (\<exists>l. wa_looks w = Some l \<and> in_time l)
      | Looking rest next_look _ \<Rightarrow> i \<in> set rest \<or> (\<exists>l. next_look = Some l \<and> in_time l))"

definition surface_kept :: "watcher \<Rightarrow> nat \<Rightarrow> armed \<Rightarrow> bool" where
  "surface_kept w i a \<longleftrightarrow> i \<in> set (wa_kept w) \<and>
     (if ar_fired a then looks_by w i (\<lambda>_. True)
      else case ar_until a of None \<Rightarrow> True | Some u \<Rightarrow> ar_telling a = Some u \<or> looks_by w i (\<lambda>l. l \<le> u))"

text \<open>What fired, or was cancelled, is a call whose deadline had passed.\<close>

definition passed_by :: "watcher \<Rightarrow> nat \<Rightarrow> nat \<Rightarrow> instant \<Rightarrow> bool" where
  "passed_by w i c t \<longleftrightarrow> (\<exists>u. (i, c, u) \<in> set (wa_armings w) \<and> u \<le> t)"

definition armed_ok :: "watcher \<Rightarrow> nat \<Rightarrow> armed \<Rightarrow> bool" where
  "armed_ok w i a \<longleftrightarrow>
     (\<forall>u. ar_until a = Some u \<longrightarrow> (i, ar_call a, u) \<in> set (wa_armings w)) \<and> (ar_fired a \<longrightarrow> passed_by w i (ar_call a) (wa_clock w))"

definition clock_inv :: "watcher \<Rightarrow> bool" where
  "clock_inv w \<longleftrightarrow> (\<forall>rest next_look now. wa_phase w = Looking rest next_look now \<longrightarrow> now = wa_clock w) \<and>
     (\<forall>i a. wa_surfaces w i = Some a \<longrightarrow> armed_ok w i a) \<and>
     (\<forall>i c t. (i, c, t) \<in> set (wa_cancels w) \<longrightarrow> passed_by w i c t)"

definition kept_inv :: "watcher \<Rightarrow> bool" where
  "kept_inv w \<longleftrightarrow> distinct (wa_kept w) \<and>
     (\<forall>rest next_look now. wa_phase w = Looking rest next_look now \<longrightarrow> distinct rest \<and> set rest \<subseteq> set (wa_kept w)) \<and>
     (\<forall>i a. wa_surfaces w i = Some a \<longrightarrow> \<not> ar_ending a \<longrightarrow> surface_kept w i a)"

lemma armed_new_simps [simp]:
  "ar_until armed_new = None" "ar_fired armed_new = False" "ar_ending armed_new = False" "ar_telling armed_new = None"
  by (simp_all add: armed_new_def)

lemma passed_by_later: "passed_by w i c t \<Longrightarrow> t \<le> t' \<Longrightarrow> passed_by w i c t'"
  by (auto simp: passed_by_def intro: order_trans)

lemma looked_at_ok:
  assumes "armed_ok w i a" and "looked_at (wa_clock w) a = (a', cancelled, due)"
  shows "armed_ok w i a'" and "cancelled \<Longrightarrow> passed_by w i (ar_call a) (wa_clock w)"
  using assms by (auto simp: armed_ok_def looked_at_def passed_by_def split: if_splits option.splits)

text \<open>What was armed and passed does not depend on where the thread is.\<close>

lemma passed_by_upd [simp]:
  "passed_by (w\<lparr>wa_kept := k\<rparr>) = passed_by w" "passed_by (w\<lparr>wa_phase := p\<rparr>) = passed_by w" "passed_by (w\<lparr>wa_surfaces := m\<rparr>) = passed_by w"
  "passed_by (w\<lparr>wa_cancels := c\<rparr>) = passed_by w" "passed_by (w\<lparr>wa_looks := l\<rparr>) = passed_by w" "passed_by (w\<lparr>wa_clock := t\<rparr>) = passed_by w"
  by (simp_all add: passed_by_def fun_eq_iff)

lemma armed_ok_upd [simp]:
  "armed_ok (w\<lparr>wa_kept := k\<rparr>) = armed_ok w" "armed_ok (w\<lparr>wa_phase := p\<rparr>) = armed_ok w" "armed_ok (w\<lparr>wa_surfaces := m\<rparr>) = armed_ok w"
  "armed_ok (w\<lparr>wa_cancels := c\<rparr>) = armed_ok w" "armed_ok (w\<lparr>wa_looks := l\<rparr>) = armed_ok w"
  by (simp_all add: armed_ok_def fun_eq_iff)

lemma clock_inv_step:
  assumes "clock_inv w" and "watch_step w w'"
  shows "clock_inv w'"
  using assms(2)
proof (cases rule: watch_step.cases)
  case (looks i rest next_look now)
  have now: "now = wa_clock w" using assms(1) looks(2) by (simp add: clock_inv_def)
  show ?thesis
  proof (cases "wa_surfaces w i")
    case None
    then show ?thesis using assms(1) now by (auto simp: looks(1) watch_one_def clock_inv_def)
  next
    case (Some a)
    then have ok: "armed_ok w i a" using assms(1) by (simp add: clock_inv_def)
    obtain a' cancelled due where a': "looked_at (wa_clock w) a = (a', cancelled, due)" by (metis prod.exhaust)
    then show ?thesis using assms(1) Some looked_at_ok [OF ok a'] by (auto simp: clock_inv_def looks(1) watch_one_def now)
  qed
next
  case (begins now)
  have "armed_ok w' i a" if "armed_ok w i a" for i a
    using that begins passed_by_later [of w i "ar_call a" "wa_clock w" now] by (auto simp: armed_ok_def)
  then show ?thesis using assms(1) begins by (auto simp: clock_inv_def)
next
  case (arms i a until)
  have grown: "passed_by w j c t \<Longrightarrow> passed_by w' j c t" for j c t using arms by (auto simp: passed_by_def)
  then have "armed_ok w j b \<Longrightarrow> armed_ok w' j b" for j b using arms by (auto simp: armed_ok_def)
  moreover have "armed_ok w' i (deadline_arm until a)" using arms by (auto simp: armed_ok_def deadline_arm_def)
  ultimately show ?thesis using assms(1) arms grown by (auto simp: clock_inv_def)
qed (use assms(1) in \<open>auto simp: clock_inv_def armed_ok_def passed_by_def watcher_keep_def watcher_sooner_def deadline_disarm_def split: if_splits\<close>)

lemma looks_by_simps [simp]:
  "looks_by (w\<lparr>wa_phase := Woken\<rparr>) i P"
  "looks_by (w\<lparr>wa_surfaces := m\<rparr>) = looks_by w" "looks_by (w\<lparr>wa_kept := k\<rparr>) = looks_by w"
  "looks_by (w\<lparr>wa_armings := r\<rparr>) = looks_by w" "looks_by (w\<lparr>wa_cancels := c\<rparr>) = looks_by w" "looks_by (w\<lparr>wa_clock := t\<rparr>) = looks_by w"
  by (simp_all add: looks_by_def fun_eq_iff split: watch_phase.split)

text \<open>A surface already looked at: what the look still has to come back by only grows sooner.\<close>

lemma looks_by_next:
  assumes "looks_by w i P" and "wa_phase w = Looking (j # rest) next_look now" and "i \<noteq> j"
    and "\<And>l l'. P l \<Longrightarrow> l' \<le> l \<Longrightarrow> P l'"
  shows "looks_by (w\<lparr>wa_phase := Looking rest (sooner_of next_look due) now\<rparr>) i P"
  using assms by (auto simp: looks_by_def sooner_of_def split: option.splits)

lemma looks_by_here:
  assumes "due = Some d" and "P d" and "\<And>l l'. P l \<Longrightarrow> l' \<le> l \<Longrightarrow> P l'"
  shows "looks_by (w\<lparr>wa_phase := Looking rest (sooner_of next_look due) now\<rparr>) i P"
  using assms by (auto simp: looks_by_def sooner_of_def split: option.splits)

lemma looked_at_due:
  assumes "looked_at now a = (a', cancelled, due)"
  shows "ar_ending a' = ar_ending a" and "ar_fired a' \<Longrightarrow> \<exists>d. due = Some d" and "\<not> ar_fired a' \<Longrightarrow> due = ar_until a'"
  using assms by (auto simp: looked_at_def split: if_splits option.splits)

lemma surface_kept_upd [simp]:
  "surface_kept (w\<lparr>wa_surfaces := m\<rparr>) = surface_kept w" "surface_kept (w\<lparr>wa_armings := r\<rparr>) = surface_kept w"
  "surface_kept (w\<lparr>wa_cancels := c\<rparr>) = surface_kept w"
  by (auto simp: surface_kept_def fun_eq_iff split: option.splits)

lemma watch_one_kept:
  assumes "kept_inv w" and ph: "wa_phase w = Looking (j # rest) next_look now"
  shows "kept_inv (watch_one j rest next_look now w)"
proof -
  have d: "distinct (wa_kept w)" "j \<notin> set rest" "distinct rest" "set rest \<subseteq> set (wa_kept w)" "j \<in> set (wa_kept w)"
    using assms by (auto simp: kept_inv_def)
  have others: "surface_kept w i a" if "wa_surfaces w i = Some a" "\<not> ar_ending a" for i a
    using assms(1) that by (simp add: kept_inv_def)
  have gone: "surface_kept (w\<lparr>wa_kept := remove1 j (wa_kept w), wa_phase := Looking rest next_look now\<rparr>) i a"
    if "wa_surfaces w i = Some a" "\<not> ar_ending a" "i \<noteq> j" for i a
    using others [OF that(1,2)] that(3) d ph by (auto simp: surface_kept_def looks_by_def split: option.splits)
  show ?thesis
  proof (cases "\<exists>a. wa_surfaces w j = Some a \<and> \<not> ar_ending a")
    case False
    then have "watch_one j rest next_look now w = w\<lparr>wa_kept := remove1 j (wa_kept w), wa_phase := Looking rest next_look now\<rparr>"
      by (auto simp: watch_one_def split: option.splits)
    then show ?thesis using gone d False by (auto simp: kept_inv_def set_remove1_eq)
  next
    case True
    then obtain a a' cancelled due where a: "wa_surfaces w j = Some a" "\<not> ar_ending a" "looked_at now a = (a', cancelled, due)"
      by (metis prod.exhaust)
    let ?w = "w\<lparr>wa_phase := Looking rest (sooner_of next_look due) now\<rparr>"
    have here: "surface_kept ?w j a'"
    proof (cases "ar_fired a'")
      case True
      then obtain t where "due = Some t" using looked_at_due(2) [OF a(3)] by blast
      then show ?thesis using True d(5) by (simp add: surface_kept_def looks_by_here)
    next
      case False
      then show ?thesis using looked_at_due(3) [OF a(3)] d(5) by (auto simp: surface_kept_def split: option.splits intro: looks_by_here)
    qed
    have there: "surface_kept ?w i b" if "wa_surfaces w i = Some b" "\<not> ar_ending b" "i \<noteq> j" for i b
      using others [OF that(1,2)] that(3) by (auto simp: surface_kept_def split: option.splits intro: looks_by_next [OF _ ph])
    have "watch_one j rest next_look now w = ?w\<lparr>wa_surfaces := (wa_surfaces w)(j \<mapsto> a'),
        wa_cancels := wa_cancels w @ (if cancelled then [(j, ar_call a, now)] else [])\<rparr>"
      using a by (simp add: watch_one_def)
    then show ?thesis using here there d by (simp add: kept_inv_def)
  qed
qed

text \<open>A surface stays kept where the thread will look no later than it would have.\<close>

lemma surface_kept_later:
  assumes "surface_kept w i a" and "set (wa_kept w) \<subseteq> set (wa_kept w')" and "\<And>P. i \<in> set (wa_kept w) \<Longrightarrow> looks_by w i P \<Longrightarrow> looks_by w' i P"
  shows "surface_kept w' i a"
  using assms by (auto simp: surface_kept_def split: option.splits if_splits)

text \<open>A step of a call, which leaves the thread where it is and changes one surface.\<close>

lemma kept_inv_surface:
  assumes "kept_inv w" and "\<And>b. x = Some b \<Longrightarrow> \<not> ar_ending b \<Longrightarrow> surface_kept w i b"
  shows "kept_inv (w\<lparr>wa_surfaces := (wa_surfaces w)(i := x)\<rparr>)"
  using assms by (auto simp: kept_inv_def)

lemma kept_inv_tells:
  assumes "kept_inv w" and "lock_free w" and "wa_surfaces w i = Some a" and "ar_telling a = Some until"
  shows "kept_inv (watcher_sooner until (w\<lparr>wa_surfaces := (wa_surfaces w)(i \<mapsto> a\<lparr>ar_telling := None\<rparr>)\<rparr>))"
proof (cases "wa_phase w = Waiting \<and> \<not> (wa_looks w = None \<or> until < the (wa_looks w))")
  case True
  then obtain l where l: "wa_looks w = Some l" "l \<le> until" by (auto simp: not_less)
  have "surface_kept w i (a\<lparr>ar_telling := None\<rparr>)" if "\<not> ar_ending a"
  proof -
    have "surface_kept w i a" using assms(1,3) that by (simp add: kept_inv_def)
    then show ?thesis using True l assms(4) by (simp add: surface_kept_def looks_by_def split: option.splits if_splits) auto
  qed
  then show ?thesis using True kept_inv_surface [OF assms(1), of "Some (a\<lparr>ar_telling := None\<rparr>)" i] by (auto simp: watcher_sooner_def)
next
  case False
  then have woken: "wa_phase (watcher_sooner until (w\<lparr>wa_surfaces := (wa_surfaces w)(i \<mapsto> a\<lparr>ar_telling := None\<rparr>)\<rparr>)) = Woken"
    using assms(2) by (auto simp: watcher_sooner_def lock_free_def)
  have "i \<in> set (wa_kept w)" if "\<not> ar_ending a" using assms(1,3) that by (auto simp: kept_inv_def surface_kept_def)
  then show ?thesis using assms(1) woken
    by (auto simp: kept_inv_def surface_kept_def looks_by_def watcher_sooner_def split: option.splits if_splits)
qed

lemma kept_inv_step:
  assumes "kept_inv w" and "watch_step w w'"
  shows "kept_inv w'"
  using assms(2)
proof (cases rule: watch_step.cases)
  case (looks i rest next_look now)
  then show ?thesis using watch_one_kept [OF assms(1)] by simp
next
  case (tells i a until)
  then show ?thesis using kept_inv_tells [OF assms(1)] by simp
next
  case (waits next_look now)
  have "surface_kept w i a \<Longrightarrow> surface_kept w' i a" for i a
    by (erule surface_kept_later) (use waits in \<open>auto simp: looks_by_def\<close>)
  then show ?thesis using assms(1) waits by (auto simp: kept_inv_def)
next
  case (begins now)
  have "surface_kept w i a \<Longrightarrow> surface_kept w' i a" for i a
    by (erule surface_kept_later) (use begins in \<open>auto simp: looks_by_def\<close>)
  then show ?thesis using assms(1) begins by (auto simp: kept_inv_def)
next
  case wakes
  have "surface_kept w i a \<Longrightarrow> surface_kept w' i a" for i a
    by (erule surface_kept_later) (use wakes in auto)
  then show ?thesis using assms(1) wakes by (auto simp: kept_inv_def)
next
  case (keeps i)
  have "surface_kept w j a \<Longrightarrow> surface_kept w' j a" for j a
    by (erule surface_kept_later) (use keeps in \<open>auto simp: watcher_keep_def\<close>)
  then show ?thesis using assms(1) keeps by (auto simp: kept_inv_def watcher_keep_def lock_free_def surface_kept_def)
next
  case (arms i a until)
  have "kept_inv (w\<lparr>wa_surfaces := (wa_surfaces w)(i \<mapsto> deadline_arm until a)\<rparr>)"
    by (rule kept_inv_surface [OF assms(1)]) (use assms(1) arms in \<open>auto simp: kept_inv_def surface_kept_def deadline_arm_def\<close>)
  then show ?thesis using arms by (simp add: kept_inv_def)
qed (use assms(1) in \<open>auto simp: kept_inv_def surface_kept_def deadline_disarm_def split: option.splits if_splits\<close>)

interpretation deadlines: invariant_system "\<lambda>w. w = watcher_new" watch_step "\<lambda>w. clock_inv w \<and> kept_inv w"
proof
  show "w = watcher_new \<Longrightarrow> clock_inv w \<and> kept_inv w" for w by (simp add: watcher_new_def clock_inv_def kept_inv_def)
  show "clock_inv w \<and> kept_inv w \<Longrightarrow> watch_step w w' \<Longrightarrow> clock_inv w' \<and> kept_inv w'" for w w'
    using clock_inv_step kept_inv_step by blast
qed


text \<open>A call of a surface armed while the thread waits, with nothing to look for: it is told, looks, and cancels it.\<close>

definition surface_waits :: watcher where
  "surface_waits = (watcher_keep 1 watcher_new)\<lparr>wa_phase := Waiting\<rparr>"

definition call_told :: watcher where
  "call_told = watcher_new\<lparr>wa_surfaces := [1 \<mapsto> (deadline_arm 5 armed_new)\<lparr>ar_telling := None\<rparr>], wa_kept := [1], wa_armings := [(1, 1, 5)]\<rparr>"

definition call_cancelled :: watcher where
  "call_cancelled = watch_one 1 [] None 7 (call_told\<lparr>wa_phase := Looking [1] None 7, wa_clock := 7\<rparr>)"

lemma surface_waits_reached: "reach (\<lambda>w. w = watcher_new) watch_step surface_waits"
proof -
  let ?k = "watcher_keep 1 watcher_new"
  have "reach (\<lambda>w. w = watcher_new) watch_step ?k"
    by (rule reach_step [OF reach_init [of _ watcher_new]]) (simp, rule keeps, simp_all add: watcher_new_def lock_free_def)
  then have "reach (\<lambda>w. w = watcher_new) watch_step (?k\<lparr>wa_phase := Looking [1] None 0, wa_clock := 0\<rparr>)"
    by (rule reach_step) (use begins [of ?k 0] in \<open>simp add: watcher_keep_def watcher_new_def\<close>)
  then have "reach (\<lambda>w. w = watcher_new) watch_step (?k\<lparr>wa_phase := Looking [] None 0, wa_clock := 0\<rparr>)"
    by (rule reach_step) (use looks [of "?k\<lparr>wa_phase := Looking [1] None 0, wa_clock := 0\<rparr>" 1 "[]" None 0] in
      \<open>simp add: watch_one_def looked_at_def watcher_keep_def watcher_new_def sooner_of_def armed_new_def\<close>)
  then show ?thesis
    by (rule reach_step) (use waits [of "?k\<lparr>wa_phase := Looking [] None 0, wa_clock := 0\<rparr>" None 0] in
      \<open>simp add: surface_waits_def watcher_keep_def watcher_new_def\<close>)
qed

lemma call_cancelled_reached: "reach (\<lambda>w. w = watcher_new) watch_step call_cancelled"
proof -
  let ?a = "surface_waits\<lparr>wa_surfaces := [1 \<mapsto> deadline_arm 5 armed_new], wa_armings := [(1, 1, 5)]\<rparr>"
  have "reach (\<lambda>w. w = watcher_new) watch_step ?a"
    by (rule reach_step [OF surface_waits_reached]) (use arms [of surface_waits 1 armed_new 5] in
      \<open>simp add: surface_waits_def watcher_keep_def watcher_new_def armed_new_def\<close>)
  then have "reach (\<lambda>w. w = watcher_new) watch_step call_told"
    by (rule reach_step) (use tells [of ?a 1 "deadline_arm 5 armed_new" 5] in
      \<open>simp add: call_told_def surface_waits_def watcher_keep_def watcher_new_def deadline_arm_def lock_free_def watcher_sooner_def\<close>)
  then have "reach (\<lambda>w. w = watcher_new) watch_step (call_told\<lparr>wa_phase := Looking [1] None 7, wa_clock := 7\<rparr>)"
    by (rule reach_step) (use begins [of call_told 7] in \<open>simp add: call_told_def watcher_new_def\<close>)
  then show ?thesis unfolding call_cancelled_def by (rule reach_step) (rule looks, simp)
qed


section \<open>How long a surface waits\<close>

text \<open>\<open>str::split\<close> by a separator.\<close>

function split_by :: "string \<Rightarrow> string \<Rightarrow> string list" where
  "split_by sep s =
     (if s = [] then [[]]
      else if sep \<noteq> [] \<and> starts_with sep s then [] # split_by sep (drop (length sep) s)
      else case split_by sep (tl s) of [] \<Rightarrow> [[hd s]] | p # ps \<Rightarrow> (hd s # p) # ps)"
  by pat_completeness auto
termination
proof (relation "measure (\<lambda>(sep, s). length s)")
  fix sep s :: string
  assume "s \<noteq> []" "sep \<noteq> [] \<and> starts_with sep s"
  then show "((sep, drop (length sep) s), sep, s) \<in> measure (\<lambda>(sep, s). length s)" by (cases s; cases sep) auto
qed auto

declare split_by.simps [simp del]

definition local_timeout :: duration where "local_timeout = 2 * 10 ^ 9"

definition declared_key :: string where "declared_key = ''local_timeout_ms''"

text \<open>\<open>declared\<close>: what the node at \<open>at\<close> declared beside its endpoint; a standing is what a node said of itself, by key.\<close>

definition deadline_declared :: "(string \<times> string) list list \<Rightarrow> string \<Rightarrow> duration" where
  "deadline_declared standings at =
     (let ours = filter (\<lambda>said. case map_of said ''operate'' of None \<Rightarrow> False | Some operate \<Rightarrow> at \<in> set (split_by '' and '' operate)) standings;
          millis = List.map_filter (\<lambda>said. Option.bind (map_of said declared_key) (parse_unsigned (2 ^ 64 - 1))) ours in
      case millis of
        [] \<Rightarrow> local_timeout
      | m # _ \<Rightarrow> if 0 < m then m * 10 ^ 6 else local_timeout)"

definition not_answered :: "duration \<Rightarrow> string" where
  "not_answered within =
     (let millis = within div 10 ^ 6 in
      ''the node did not answer within '' @ (if millis mod 1000 = 0 then decimal (millis div 1000) @ '' s'' else decimal millis @ '' ms''))"

text \<open>A call never waits for nothing, whatever a node declares.\<close>

lemma deadline_declared_positive: "0 < deadline_declared standings at"
  by (auto simp: deadline_declared_def Let_def local_timeout_def split: list.splits)

lemma not_answered_whole: "not_answered (n * 10 ^ 9) = ''the node did not answer within '' @ decimal n @ '' s''"
proof -
  have "n * 10 ^ 9 div 10 ^ 6 = n * (1000 :: nat)" by simp
  then show ?thesis by (simp add: not_answered_def)
qed

end
