(* ===== verification/Remote_Surface.thy ===== *)
theory Remote_Surface
  imports Deadline Plane_Call Plane_Held
begin

text \<open>
  \<open>src/plane/remote.rs\<close>, \<open>src/plane/remote/asking.rs\<close>, \<open>src/plane/remote/relayed.rs\<close>, \<open>src/plane/shared.rs\<close>,
  \<open>src/plane/follow.rs\<close> and \<open>src/plane/board.rs\<close>: a surface over a node, from the host of a browser or a program. A call is
  made on the line held, and once more on a fresh one where the line was lost; it speaks for a caller only by the handle the
  node itself issued for that caller. The follow is a thread of its own, which says whether the node is reached. The connections, the node
  behind them and the clock are a world, an argument of the operations with what a line does to it.
\<close>

section \<open>What a surface says\<close>

record surface_state =
  su_reachable :: bool
  su_reason :: string
  su_revision :: u64
  su_told :: u64

definition surface_new :: surface_state where
  "surface_new = \<lparr>su_reachable = False, su_reason = ''not connected yet'', su_revision = 0, su_told = 0\<rparr>"

definition surface_tell :: "(surface_state \<Rightarrow> surface_state) \<Rightarrow> surface_state \<Rightarrow> surface_state" where
  "surface_tell change st = (let st = change st in st\<lparr>su_told := su_told st + 1\<rparr>)"

definition lost_because :: "string \<Rightarrow> surface_state \<Rightarrow> surface_state" where
  "lost_because why st = st\<lparr>su_reachable := False, su_reason := why\<rparr>"

definition reached_at :: "u64 \<Rightarrow> surface_state \<Rightarrow> surface_state" where
  "reached_at now st = st\<lparr>su_reachable := True, su_reason := [], su_revision := now\<rparr>"

datatype act_outcome = OutcomeTaken | OutcomeDenied | OutcomeRefused | OutcomeInvalid | OutcomeFailed

definition outcome_of_word :: "string \<Rightarrow> act_outcome" where
  "outcome_of_word word =
     (if word = ''taken'' then OutcomeTaken else if word = ''denied'' then OutcomeDenied else if word = ''invalid'' then OutcomeInvalid
      else if word = ''failed'' then OutcomeFailed else OutcomeRefused)"

section \<open>One call on the asking line\<close>

record ('w, 'ln, 'j) line_env =
  li_open :: "'w \<Rightarrow> (string + 'ln) \<times> 'w"
  li_call :: "'ln \<Rightarrow> string \<Rightarrow> 'j \<Rightarrow> u64 option \<Rightarrow> 'w \<Rightarrow> (string + 'j) \<times> 'w"
  li_now :: "'w \<Rightarrow> instant"
  li_armed :: "'w \<Rightarrow> armed"
  li_arm :: "armed \<Rightarrow> 'w \<Rightarrow> 'w"
  li_patience :: duration
  li_address :: string

text \<open>A call on a fresh line: what came of it, whether the node was lost, and the line held after.\<close>

definition calling_fresh ::
  "('w, 'ln, 'j) line_env \<Rightarrow> string \<Rightarrow> 'j \<Rightarrow> u64 option \<Rightarrow> 'w \<Rightarrow> (bool \<times> string + 'j) \<times> 'ln option \<times> 'w" where
  "calling_fresh env method message caller w =
     (case li_open env w of
        (Inl why, w) \<Rightarrow> (Inl (True, why), None, w)
      | (Inr line, w) \<Rightarrow>
         (case li_call env line method message caller w of
            (Inr answer, w) \<Rightarrow> (Inr answer, Some line, w)
          | (Inl why, w) \<Rightarrow>
             (if starts_with refused_call why then (Inl (False, why), Some line, w) else (Inl (True, why), None, w))))"

definition calling ::
  "('w, 'ln, 'j) line_env \<Rightarrow> string \<Rightarrow> 'j \<Rightarrow> u64 option \<Rightarrow> instant \<Rightarrow> 'ln option \<Rightarrow> 'w \<Rightarrow> (bool \<times> string + 'j) \<times> 'ln option \<times> 'w" where
  "calling env method message caller began asking w =
     (case asking of
        None \<Rightarrow> calling_fresh env method message caller w
      | Some line \<Rightarrow>
         (case li_call env line method message caller w of
            (Inr answer, w) \<Rightarrow> (Inr answer, Some line, w)
          | (Inl why, w) \<Rightarrow>
             (if starts_with refused_call why then (Inl (False, why), Some line, w)
              else if li_patience env \<le> li_now env w - began \<or> deadline_passed (li_armed env w) then (Inl (True, why), None, w)
              else calling_fresh env method message caller w)))"

definition surface_called ::
  "('w, 'ln, 'j) line_env \<Rightarrow> string \<Rightarrow> 'j \<Rightarrow> u64 option \<Rightarrow> 'ln option \<Rightarrow> 'w \<Rightarrow> (bool \<times> string + 'j) \<times> 'ln option \<times> 'w" where
  "surface_called env method message caller asking w =
     (let began = li_now env w;
          w = li_arm env (deadline_arm (began + li_patience env) (li_armed env w)) w in
      case calling env method message caller began asking w of
        (called, asking, w) \<Rightarrow>
          (let (fired, disarmed) = deadline_disarm (li_armed env w); w = li_arm env disarmed w in
           (case called of
              Inr answer \<Rightarrow> Inr answer
            | Inl (lost, why) \<Rightarrow>
               if lost \<and> (fired \<or> li_patience env \<le> li_now env w - began) then Inl (True, not_answered (li_patience env)) else Inl (lost, why),
            asking, w)))"

section \<open>A surface asked\<close>

record ('w, 'ln) surface =
  sf_state :: surface_state
  sf_line :: "'ln option"
  sf_followed :: bool
  sf_world :: 'w

text \<open>\<open>asked_for\<close>: unreachable said at once where a follower was told so; a node lost is told, and the follow started.\<close>

definition asked_for ::
  "('w, 'ln, 'j) line_env \<Rightarrow> string \<Rightarrow> 'j \<Rightarrow> u64 option \<Rightarrow> ('w, 'ln) surface \<Rightarrow> (string + 'j) \<times> ('w, 'ln) surface" where
  "asked_for env method message caller s =
     (if \<not> su_reachable (sf_state s) \<and> 0 < su_told (sf_state s)
      then (Inl (li_address env @ '' unreachable: '' @ su_reason (sf_state s)), s)
      else
        case surface_called env method message caller (sf_line s) (sf_world s) of
          (called, asking, w) \<Rightarrow>
            (let s = s\<lparr>sf_line := asking, sf_world := w\<rparr> in
             case called of
               Inr answer \<Rightarrow> (Inr answer, s)
             | Inl (lost, why) \<Rightarrow>
                (if \<not> lost then (Inl why, s)
                 else (Inl (li_address env @ '' unreachable: '' @ why),
                   s\<lparr>sf_state := surface_tell (lost_because why) (sf_state s), sf_followed := True\<rparr>))))"

section \<open>For whom it speaks\<close>

datatype spoken_for = AsSelf | AsCaller u64 | ForNoOne string

definition no_one :: "admit \<Rightarrow> string" where
  "no_one admit = (case admitted admit None Developer m_act (''act'', ''on the node'') of Inl refused \<Rightarrow> refused | Inr _ \<Rightarrow> [])"

definition not_proven_to :: "string \<Rightarrow> string" where
  "not_proven_to address = ''REFUSED. This browser'' @ [CHR 0x27] @ ''s session was not proven to '' @ address @
     '': a session proves itself to the nodes its host follows as it connects, and does again as it reconnects (ADR-0009)''"

text \<open>Of a proof looked up: the handle its node issued, or why there is none.\<close>

definition proof_speaks :: "string \<Rightarrow> u64 \<Rightarrow> caller_proof \<Rightarrow> spoken_for" where
  "proof_speaks address at pf =
     (if pf_leaf pf = None then AsSelf
      else
        case vouched_at at pf of
          Some node \<Rightarrow> AsCaller node
        | None \<Rightarrow> ForNoOne (case proof_refusal at pf of Some why \<Rightarrow> why | None \<Rightarrow> not_proven_to address))"

definition nobody :: "((string \<times> string) list \<Rightarrow> 'j) \<Rightarrow> string \<Rightarrow> string \<Rightarrow> 'j" where
  "nobody json method refused =
     (if method = m_secrets then json [(''refused'', refused)] else json [(''outcome'', ''denied''), (''said'', refused)])"

text \<open>\<open>relayed\<close>: the proof is held meanwhile and dropped after. \<open>at\<close> is the surface's own key.\<close>

definition relayed ::
  "('w, 'ln, 'j) line_env \<Rightarrow> admit \<Rightarrow> ((string \<times> string) list \<Rightarrow> 'j) \<Rightarrow> int \<Rightarrow> u64 \<Rightarrow> u64 \<Rightarrow> string \<Rightarrow> 'j \<Rightarrow> registry \<Rightarrow> ('w, 'ln) surface \<Rightarrow>
     (string + 'j) \<times> registry \<times> ('w, 'ln) surface" where
  "relayed env admit json now at held method message rg s =
     (if held = 0 then (case asked_for env method message None s of (r, s) \<Rightarrow> (r, rg, s))
      else
        case held_proof now held rg of
          (None, rg) \<Rightarrow> (Inr (nobody json method (no_one admit)), rg, s)
        | (Some p, rg) \<Rightarrow>
           (case (case map_of (rg_proofs rg) p of
                    None \<Rightarrow> (Inr (nobody json method (no_one admit)), s)
                  | Some pf \<Rightarrow>
                     (case proof_speaks (li_address env) at pf of
                        AsSelf \<Rightarrow> asked_for env method message None s
                      | AsCaller node \<Rightarrow> asked_for env method message (Some node) s
                      | ForNoOne why \<Rightarrow> (Inr (nobody json method why), s))) of
              (r, s) \<Rightarrow> (r, proof_dropped p rg, s)))"

definition surface_act ::
  "('w, 'ln, 'j) line_env \<Rightarrow> admit \<Rightarrow> ((string \<times> string) list \<Rightarrow> 'j) \<Rightarrow> ('j \<Rightarrow> string \<Rightarrow> string option) \<Rightarrow> int \<Rightarrow> u64 \<Rightarrow> u64 \<Rightarrow>
     string \<Rightarrow> string \<times> string \<times> string \<Rightarrow> registry \<Rightarrow> ('w, 'ln) surface \<Rightarrow> (string + act_outcome \<times> string) \<times> registry \<times> ('w, 'ln) surface" where
  "surface_act env admit json field now at caller node = (\<lambda>(noun, target, act) rg s.
     case relayed env admit json now at caller m_act (json [(''node'', node), (''noun'', noun), (''target'', target), (''act'', act)]) rg s of
       (r, rg, s) \<Rightarrow>
         (case r of
            Inl why \<Rightarrow> Inl why
          | Inr answer \<Rightarrow>
             Inr (outcome_of_word (case field answer ''outcome'' of None \<Rightarrow> [] | Some word \<Rightarrow> word),
               case field answer ''said'' of None \<Rightarrow> [] | Some words \<Rightarrow> words), rg, s))"

section \<open>A call is made at most twice\<close>

text \<open>What is relied on of a line: a call on it is one call made to the node, connecting and keeping time are none. \<open>sent\<close> reads
  from the world the calls made.\<close>

definition line_laws :: "('w, 'ln, 'j) line_env \<Rightarrow> ('w \<Rightarrow> (string \<times> 'j \<times> u64 option) list) \<Rightarrow> bool" where
  "line_laws env sent \<longleftrightarrow>
     (\<forall>w. sent (snd (li_open env w)) = sent w) \<and> (\<forall>a w. sent (li_arm env a w) = sent w) \<and>
     (\<forall>line method message caller w. sent (snd (li_call env line method message caller w)) = sent w @ [(method, message, caller)])"

lemma fresh_sends:
  assumes laws: "line_laws env sent" and c: "calling_fresh env method message caller w = (r, asking, w')"
  shows "\<exists>k \<le> 1. sent w' = sent w @ replicate k (method, message, caller)"
proof (cases "li_open env w")
  case (Pair opened w1)
  have w1: "sent w1 = sent w" using laws Pair unfolding line_laws_def by (metis snd_conv)
  show ?thesis
  proof (cases opened)
    case (Inl why)
    then show ?thesis using c Pair w1 by (intro exI [of _ 0]) (auto simp: calling_fresh_def)
  next
    case (Inr line)
    obtain a w2 where call: "li_call env line method message caller w1 = (a, w2)" by (cases "li_call env line method message caller w1")
    then have "sent w2 = sent w @ [(method, message, caller)]" using laws w1 unfolding line_laws_def by (metis snd_conv)
    moreover have "w' = w2" using c Pair Inr call by (auto simp: calling_fresh_def split: sum.splits if_splits)
    ultimately show ?thesis by (intro exI [of _ 1]) simp
  qed
qed

lemma calling_sends:
  assumes laws: "line_laws env sent" and c: "calling env method message caller began asking w = (r, asking', w')"
  shows "\<exists>k \<le> if asking = None then 1 else 2. sent w' = sent w @ replicate k (method, message, caller)"
proof (cases asking)
  case None
  then show ?thesis using fresh_sends [OF laws] c by (auto simp: calling_def)
next
  case (Some line)
  obtain a w1 where call: "li_call env line method message caller w = (a, w1)" by (cases "li_call env line method message caller w")
  then have w1: "sent w1 = sent w @ [(method, message, caller)]" using laws unfolding line_laws_def by (metis snd_conv)
  consider "w' = w1" | "calling_fresh env method message caller w1 = (r, asking', w')"
    using c Some call by (auto simp: calling_def split: sum.splits if_splits)
  then show ?thesis
  proof cases
    case 1
    then show ?thesis using w1 Some by (intro exI [of _ 1]) simp
  next
    case 2
    obtain k where "k \<le> 1" "sent w' = sent w1 @ replicate k (method, message, caller)" using fresh_sends [OF laws 2] by blast
    then show ?thesis using w1 Some by (intro exI [of _ "Suc k"]) simp
  qed
qed

lemma called_sends:
  assumes laws: "line_laws env sent" and c: "surface_called env method message caller asking w = (r, asking', w')"
  shows "\<exists>k \<le> if asking = None then 1 else 2. sent w' = sent w @ replicate k (method, message, caller)"
proof -
  let ?w = "li_arm env (deadline_arm (li_now env w + li_patience env) (li_armed env w)) w"
  obtain called a w1 where call: "calling env method message caller (li_now env w) asking ?w = (called, a, w1)"
    by (cases "calling env method message caller (li_now env w) asking ?w") auto
  have "sent w' = sent w1" using c call laws by (auto simp: surface_called_def line_laws_def Let_def split: prod.splits)
  moreover have "sent ?w = sent w" using laws by (simp add: line_laws_def)
  ultimately show ?thesis using calling_sends [OF laws call] by simp
qed

lemma asked_sends:
  assumes laws: "line_laws env sent" and a: "asked_for env method message caller s = (r, s')"
  shows "\<exists>k \<le> if sf_line s = None then 1 else 2. sent (sf_world s') = sent (sf_world s) @ replicate k (method, message, caller)"
proof (cases "\<not> su_reachable (sf_state s) \<and> 0 < su_told (sf_state s)")
  case True
  then show ?thesis using a by (intro exI [of _ 0]) (auto simp: asked_for_def)
next
  case False
  obtain called asking w where call: "surface_called env method message caller (sf_line s) (sf_world s) = (called, asking, w)"
    by (cases "surface_called env method message caller (sf_line s) (sf_world s)") auto
  have "sf_world s' = w" using a False call by (auto simp: asked_for_def Let_def split: sum.splits prod.splits if_splits)
  then show ?thesis using called_sends [OF laws call] by simp
qed

section \<open>It speaks only for whom the node vouched\<close>

text \<open>The proof of the caller a handle holds now.\<close>

definition proof_now :: "int \<Rightarrow> u64 \<Rightarrow> registry \<Rightarrow> caller_proof option" where
  "proof_now now held rg =
     (case map_of (rg_callers rg) held of
        None \<Rightarrow> None
      | Some c \<Rightarrow> if held_live now c then map_of (rg_proofs rg) (hc_proof c) else None)"

text \<open>For whom a call may name a caller, or be this side's own: 0, or a caller the operating system proved.\<close>

definition may_speak :: "int \<Rightarrow> u64 \<Rightarrow> u64 \<Rightarrow> registry \<Rightarrow> u64 option \<Rightarrow> bool" where
  "may_speak now at held rg caller \<longleftrightarrow>
     (case caller of
        None \<Rightarrow> held = 0 \<or> (\<exists>pf. held \<noteq> 0 \<and> proof_now now held rg = Some pf \<and> pf_leaf pf = None)
      | Some node \<Rightarrow> \<exists>pf. held \<noteq> 0 \<and> proof_now now held rg = Some pf \<and> pf_leaf pf \<noteq> None \<and> vouched_at at pf = Some node)"

lemma relayed_cases:
  assumes "relayed env admit json now at held method message rg s = (r, rg', s')"
  obtains (asks) caller where "may_speak now at held rg caller" "asked_for env method message caller s = (r, s')"
  | (no_one) why where "\<And>caller. \<not> may_speak now at held rg caller" "r = Inr (nobody json method why)" "s' = s"
proof (cases "held = 0")
  case True
  then have "may_speak now at held rg None" "asked_for env method message None s = (r, s')"
    using assms by (auto simp: may_speak_def relayed_def split: prod.splits)
  then show ?thesis by (rule asks)
next
  case held: False
  show ?thesis
  proof (cases "proof_now now held rg")
    case None
    have "\<not> may_speak now at held rg caller" for caller using None held by (auto simp: may_speak_def split: option.splits)
    moreover have "r = Inr (nobody json method (no_one admit)) \<and> s' = s"
      using assms None held by (auto simp: relayed_def held_proof_def proof_now_def split: option.splits if_splits)
    ultimately show ?thesis using no_one by blast
  next
    case (Some pf)
    then obtain c where c: "map_of (rg_callers rg) held = Some c" "held_live now c" "map_of (rg_proofs rg) (hc_proof c) = Some pf"
      by (auto simp: proof_now_def split: option.splits if_splits)
    have "(case proof_speaks (li_address env) at pf of
        AsSelf \<Rightarrow> asked_for env method message None s
      | AsCaller node \<Rightarrow> asked_for env method message (Some node) s
      | ForNoOne why \<Rightarrow> (Inr (nobody json method why), s)) = (r, s')"
      using assms held c by (auto simp: relayed_def held_proof_def split: prod.splits)
    then consider "pf_leaf pf = None" "asked_for env method message None s = (r, s')"
      | node where "pf_leaf pf \<noteq> None" "vouched_at at pf = Some node" "asked_for env method message (Some node) s = (r, s')"
      | why where "pf_leaf pf \<noteq> None" "vouched_at at pf = None" "(Inr (nobody json method why), s) = (r, s')"
      by (cases "pf_leaf pf"; cases "vouched_at at pf") (auto simp: proof_speaks_def)
    then show ?thesis
    proof cases
      case 1
      then show ?thesis using asks [of None] Some held by (simp add: may_speak_def)
    next
      case (2 node)
      then show ?thesis using asks [of "Some node"] Some held by (simp add: may_speak_def)
    next
      case (3 why)
      then have "\<not> may_speak now at held rg caller" for caller using Some held by (cases caller) (auto simp: may_speak_def)
      then show ?thesis using no_one [of why] 3(3) by simp
    qed
  qed
qed

text \<open>C38: A surface speaks to its node only for whom the node vouched: every call made for a handle names the handle the node itself
  issued to this surface for the caller the handle holds now, or no caller, where the handle is 0 or the operating system proved the
  caller; a handle that holds no one, whose time is over, or whose caller the node was not proven makes no call at all and is
  answered a denial. And a call is made at most twice: again only on a fresh line, where one was held.\<close>

theorem relay_speaks_as_vouched:
  assumes laws: "line_laws env sent" and r: "relayed env admit json now at held method message rg s = (r, rg', s')"
  shows "(\<exists>caller k. k \<le> (if sf_line s = None then 1 else 2) \<and> (k = 0 \<or> may_speak now at held rg caller) \<and>
      sent (sf_world s') = sent (sf_world s) @ replicate k (method, message, caller)) \<and>
    ((\<forall>caller. \<not> may_speak now at held rg caller) \<longrightarrow> s' = s \<and> (\<exists>why. r = Inr (nobody json method why)))"
  using r
proof (cases rule: relayed_cases)
  case (asks caller)
  then show ?thesis using asked_sends [OF laws asks(2)] by blast
next
  case (no_one why)
  then show ?thesis by (intro conjI exI [of _ None] exI [of _ 0]) auto
qed

text \<open>A surface whose held line is lost and whose fresh line answers, over a world of the calls made.\<close>

definition toy_line :: "((string \<times> string \<times> u64 option) list, bool, string) line_env" where
  "toy_line = \<lparr>li_open = \<lambda>w. (Inr True, w), li_call = \<lambda>line method message caller w. (if line then Inr ''done'' else Inl ''reset'', w @ [(method, message, caller)]),
     li_now = \<lambda>_. 0, li_armed = \<lambda>_. armed_new, li_arm = \<lambda>_ w. w, li_patience = 5, li_address = ''node''\<rparr>"

definition toy_json :: "(string \<times> string) list \<Rightarrow> string" where
  "toy_json pairs = concat (map (\<lambda>(key, v). key @ ''='' @ v @ '';'') pairs)"

definition toy_surface :: "((string \<times> string \<times> u64 option) list, bool) surface" where
  "toy_surface = \<lparr>sf_state = surface_new, sf_line = Some False, sf_followed = False, sf_world = []\<rparr>"

definition browser_registry :: registry where
  "browser_registry = sample_registry\<lparr>rg_proofs := [(0, \<lparr>pf_identity = sample_proven, pf_leaf = Some ''leaf'', pf_vouched = [sample_vouch], pf_refusals = []\<rparr>)]\<rparr>"

lemma browser_proof: "proof_now 5 7 browser_registry = Some \<lparr>pf_identity = sample_proven, pf_leaf = Some ''leaf'', pf_vouched = [sample_vouch], pf_refusals = []\<rparr>"
  by (simp add: proof_now_def browser_registry_def sample_registry_def held_live_def)

theorem relay_speaks_as_vouched_witness:
  "sf_world (snd (snd (relayed toy_line sample_admit toy_json 5 3 7 ''Act'' ''stop'' browser_registry toy_surface))) =
     [(''Act'', ''stop'', Some 9), (''Act'', ''stop'', Some 9)] \<and>
   snd (snd (relayed toy_line sample_admit toy_json 5 4 7 ''Act'' ''stop'' browser_registry toy_surface)) = toy_surface"
proof
  have laws: "line_laws toy_line (\<lambda>w. w)" by (simp add: line_laws_def toy_line_def)
  show "sf_world (snd (snd (relayed toy_line sample_admit toy_json 5 3 7 ''Act'' ''stop'' browser_registry toy_surface))) =
      [(''Act'', ''stop'', Some 9), (''Act'', ''stop'', Some 9)]"
    by (simp add: relayed_def browser_registry_def sample_registry_def held_proof_def held_live_def proof_speaks_def vouched_at_def
        asked_for_def surface_called_def calling_def calling_fresh_def toy_line_def toy_surface_def surface_new_def starts_with_def refused_call_def
        deadline_passed_def deadline_disarm_def armed_new_def Let_def)
  have "\<not> may_speak 5 4 7 browser_registry caller" for caller
    by (cases caller) (simp_all add: may_speak_def browser_proof vouched_at_def)
  then show "snd (snd (relayed toy_line sample_admit toy_json 5 4 7 ''Act'' ''stop'' browser_registry toy_surface)) = toy_surface"
    using relay_speaks_as_vouched [OF laws, of sample_admit toy_json 5 4 7 "''Act''" "''stop''" browser_registry toy_surface] by (metis prod.collapse)
qed

section \<open>A node lost is said, and not asked again\<close>

text \<open>An answer or a refusal leaves what the surface says; a node lost is said with why, a follower told, the follow started and the
  line let go, and the next call is refused at once, the node not asked.\<close>

lemma lost_said_at_once:
  assumes "asked_for env method message caller s = (r, s')" "sf_state s' \<noteq> sf_state s" "su_told (sf_state s) + 1 \<noteq> 0"
  shows "isl r \<and> \<not> su_reachable (sf_state s') \<and> su_told (sf_state s') = su_told (sf_state s) + 1 \<and> sf_followed s' \<and>
    (\<forall>method' message' caller'. snd (asked_for env method' message' caller' s') = s' \<and> fst (asked_for env method' message' caller' s') = r)"
proof -
  obtain called asking w where c: "surface_called env method message caller (sf_line s) (sf_world s) = (called, asking, w)"
    by (cases "surface_called env method message caller (sf_line s) (sf_world s)") auto
  have go: "\<not> (\<not> su_reachable (sf_state s) \<and> 0 < su_told (sf_state s))"
    using assms(1,2) by (auto simp: asked_for_def)
  obtain why where "called = Inl (True, why)"
    using assms(1,2) go c by (auto simp: asked_for_def Let_def split: sum.splits prod.splits if_splits)
  with assms(1) go c have r: "r = Inl (li_address env @ '' unreachable: '' @ why)"
    and s': "s' = s\<lparr>sf_line := asking, sf_world := w, sf_state := surface_tell (lost_because why) (sf_state s), sf_followed := True\<rparr>"
    by (simp_all add: asked_for_def Let_def)
  have st: "su_reachable (sf_state s') = False" "su_reason (sf_state s') = why" "su_told (sf_state s') = su_told (sf_state s) + 1" "sf_followed s'"
    by (simp_all add: s' surface_tell_def lost_because_def Let_def)
  moreover have "0 < su_told (sf_state s')" using assms(3) st(3) by (simp add: word_neq_0_conv)
  ultimately show ?thesis using r by (simp add: asked_for_def)
qed

section \<open>The follow\<close>

text \<open>Where the follow stands: \<open>run\<close>'s loop asks whether the surface ends (\<open>Begins\<close>) and connects (\<open>Connects\<close>); \<open>held\<close> holds the node's
  wait (\<open>Waits\<close>) and acts on its answer (\<open>Heard\<close>, with whether the surface said it lost); a line lost or never made is judged
  (\<open>Judges\<close>), told (\<open>Tells\<close>), and tried again after a pause. The number is the attempt.\<close>

datatype follow_phase =
    NotStarted
  | Begins nat
  | Connects nat
  | Waits u64 bool
  | Heard u64 u64 bool bool
  | Judges string nat
  | Tells string nat
  | Pauses nat
  | Over

record following =
  fo_state :: surface_state
  fo_phase :: follow_phase
  fo_ending :: bool
  fo_pauses :: "duration list"

definition following_new :: following where
  "following_new = \<lparr>fo_state = surface_new, fo_phase = NotStarted, fo_ending = False, fo_pauses = []\<rparr>"

definition retry_default :: "duration list" where
  "retry_default = [0, 2 * 10 ^ 9, 10 * 10 ^ 9, 30 * 10 ^ 9]"

text \<open>\<open>reaching\<close>: a schedule of none is the default's.\<close>

definition retry_of :: "duration list \<Rightarrow> duration list" where
  "retry_of retry = (if retry = [] then retry_default else retry)"

definition retry_delay :: "duration list \<Rightarrow> nat \<Rightarrow> duration option" where
  "retry_delay retry attempt =
     (let i = min attempt (length retry - 1) in if i < length retry then Some (retry ! i) else None)"

text \<open>\<open>held\<close>, on an answer: what it tells.\<close>

definition heard_tells :: "u64 \<Rightarrow> u64 \<Rightarrow> bool \<Rightarrow> bool \<Rightarrow> surface_state \<Rightarrow> surface_state" where
  "heard_tells revision now reached said_lost st =
     (if \<not> reached \<or> now \<noteq> revision \<or> said_lost then surface_tell (reached_at now) st else st)"

definition told_anew :: "string \<Rightarrow> surface_state \<Rightarrow> bool" where
  "told_anew why st \<longleftrightarrow> su_told st = 0 \<or> su_reachable st \<or> su_reason st \<noteq> why"

inductive follow_step :: "duration list \<Rightarrow> following \<Rightarrow> following \<Rightarrow> bool" for retry where
  starts: "fo_phase f = NotStarted \<Longrightarrow> follow_step retry f (f\<lparr>fo_phase := Begins 0\<rparr>)"
| ends: "follow_step retry f (f\<lparr>fo_ending := True\<rparr>)"
| call_lost: "follow_step retry f (f\<lparr>fo_state := surface_tell (lost_because why) (fo_state f)\<rparr>)"
| begins: "fo_phase f = Begins n \<Longrightarrow> follow_step retry f (f\<lparr>fo_phase := (if fo_ending f then Over else Connects n)\<rparr>)"
| connects: "fo_phase f = Connects n \<Longrightarrow> follow_step retry f (f\<lparr>fo_phase := Waits 0 False\<rparr>)"
| connects_not: "fo_phase f = Connects n \<Longrightarrow> follow_step retry f (f\<lparr>fo_phase := Judges why n\<rparr>)"
| wait_ends: "fo_phase f = Waits revision reached \<Longrightarrow> fo_ending f \<Longrightarrow> follow_step retry f (f\<lparr>fo_phase := Judges [] 0\<rparr>)"
| wait_answered: "fo_phase f = Waits revision reached \<Longrightarrow>
    follow_step retry f (f\<lparr>fo_phase := Heard revision now reached (\<not> su_reachable (fo_state f))\<rparr>)"
| wait_lost: "fo_phase f = Waits revision reached \<Longrightarrow> follow_step retry f (f\<lparr>fo_phase := Judges (''lost: '' @ why) 0\<rparr>)"
| hears: "fo_phase f = Heard revision now reached said_lost \<Longrightarrow>
    follow_step retry f (f\<lparr>fo_state := heard_tells revision now reached said_lost (fo_state f), fo_phase := Waits now True\<rparr>)"
| judges: "fo_phase f = Judges why n \<Longrightarrow>
    follow_step retry f (f\<lparr>fo_phase := (if fo_ending f then Over else if told_anew why (fo_state f) then Tells why n else Pauses n)\<rparr>)"
| tells: "fo_phase f = Tells why n \<Longrightarrow>
    follow_step retry f (f\<lparr>fo_state := surface_tell (lost_because why) (fo_state f), fo_phase := Pauses n\<rparr>)"
| pauses: "fo_phase f = Pauses n \<Longrightarrow> retry_delay (retry_of retry) n = Some delay \<Longrightarrow>
    follow_step retry f (f\<lparr>fo_phase := Begins (n + 1), fo_pauses := fo_pauses f @ [delay]\<rparr>)"

text \<open>When the follow may have said that the node is reached.\<close>

fun may_be_reached :: "bool \<Rightarrow> follow_phase \<Rightarrow> bool" where
  "may_be_reached _ (Waits _ reached) = reached"
| "may_be_reached _ (Heard _ _ reached _) = reached"
| "may_be_reached _ (Judges _ _) = True"
| "may_be_reached _ (Tells _ _) = True"
| "may_be_reached ending Over = ending"
| "may_be_reached _ _ = False"

definition follow_inv :: "duration list \<Rightarrow> following \<Rightarrow> bool" where
  "follow_inv retry f \<longleftrightarrow>
     (su_reachable (fo_state f) \<longrightarrow> may_be_reached (fo_ending f) (fo_phase f) \<and> su_reason (fo_state f) = []) \<and>
     (fo_phase f = Over \<longrightarrow> fo_ending f) \<and> set (fo_pauses f) \<subseteq> set (retry_of retry)"

lemma state_lost [simp]: "su_reachable (surface_tell (lost_because why) st) = False" "su_reason (surface_tell (lost_because why) st) = why"
  by (simp_all add: surface_tell_def lost_because_def Let_def)

lemma state_reached [simp]:
  "su_reachable (surface_tell (reached_at now) st)" "su_reason (surface_tell (reached_at now) st) = []"
  by (simp_all add: surface_tell_def reached_at_def Let_def)

lemma retry_delay_in: "retry_delay (retry_of retry) n = Some delay \<Longrightarrow> delay \<in> set (retry_of retry)"
  by (auto simp: retry_delay_def Let_def split: if_splits)

lemma follow_keeps: "follow_step retry f f' \<Longrightarrow> follow_inv retry f \<Longrightarrow> follow_inv retry f'"
proof (induction rule: follow_step.induct)
  case (hears f revision now reached said_lost)
  then show ?case by (auto simp: follow_inv_def heard_tells_def)
next
  case (judges f why n)
  then show ?case by (auto simp: follow_inv_def told_anew_def)
next
  case (pauses f n delay)
  then show ?case using retry_delay_in by (auto simp: follow_inv_def)
next
  case (ends f)
  then show ?case by (cases "fo_phase f") (auto simp: follow_inv_def)
qed (auto simp: follow_inv_def)

interpretation surface_follow: invariant_system "\<lambda>f. f = following_new" "follow_step retry" "follow_inv retry" for retry
proof
  show "f = following_new \<Longrightarrow> follow_inv retry f" for f by (simp add: follow_inv_def following_new_def surface_new_def)
  show "follow_inv retry f \<Longrightarrow> follow_step retry f f' \<Longrightarrow> follow_inv retry f'" for f f' by (rule follow_keeps)
qed


definition node_reached :: following where
  "node_reached = \<lparr>fo_state = \<lparr>su_reachable = True, su_reason = [], su_revision = 4, su_told = 1\<rparr>, fo_phase = Waits 4 True, fo_ending = False, fo_pauses = []\<rparr>"


section \<open>What a listener answers from\<close>

record board =
  bd_text :: string
  bd_revision :: u64

definition board_new :: board where
  "board_new = \<lparr>bd_text = [], bd_revision = 0\<rparr>"

text \<open>\<open>post\<close>, under the text's lock; a revision raised counts up.\<close>

definition board_post :: "string \<Rightarrow> board \<Rightarrow> board" where
  "board_post given b =
     (if bd_revision b \<noteq> 0 \<and> bd_text b = given then b else \<lparr>bd_text = given, bd_revision = bd_revision b + 1\<rparr>)"

definition board_read :: "board \<Rightarrow> u64 \<times> string" where
  "board_read b = (bd_revision b, bd_text b)"

text \<open>A post is read from then on, and raises the revision exactly where it changes what is read, or is the first.\<close>

lemma board_posts:
  "snd (board_read (board_post given b)) = given"
  "fst (board_read (board_post given b)) \<noteq> fst (board_read b) \<longleftrightarrow> bd_revision b = 0 \<or> given \<noteq> snd (board_read b)"
  by (auto simp: board_post_def board_read_def)

end
