(* ===== verification/Stream_Share.thy ===== *)
theory Stream_Share
  imports Budget
begin

text \<open>
  \<open>src/stream_share.rs\<close> and \<open>src/stream_share/one_read.rs\<close>: the departures of one Stream on a node share
  reads of it. A read keeps a window of the last chunks it took; each departure takes the chunk at its
  place from a read that reaches it, holds the read back while it is about to lose one, is left behind
  where it took nothing for the stall, and then joins another read or opens one of its own. Each section
  under a lock is one step; the waits between them are any steps of the others. The chunks the Ledger
  holds of the Stream are \<open>cs\<close>, and Xmip Storage's chunk reader answers the next of them, the end, or a
  failure. A reader's place counts chunks, an instant nanoseconds.
\<close>

section \<open>One read\<close>

definition kept_per_reader :: nat where "kept_per_reader = unat stream_chunks - 1"

record taker =
  tk_number :: nat
  tk_next :: nat
  tk_took :: instant

record 'c source =
  so_window :: "'c list"
  so_first :: nat
  so_ended :: bool
  so_failed :: "string option"
  so_readers :: "taker list"

definition kept_chunks :: "nat \<Rightarrow> nat" where
  "kept_chunks readers = max (kept_per_reader * (readers - 1)) 1"

definition source_opened :: "nat \<Rightarrow> 'c source" where
  "source_opened place = \<lparr>so_window = [], so_first = place, so_ended = False, so_failed = None, so_readers = []\<rparr>"

definition source_reaches :: "nat \<Rightarrow> 'c source \<Rightarrow> bool" where
  "source_reaches place s \<longleftrightarrow> so_first s \<le> place \<and> so_failed s = None \<and>
     (place - so_first s \<le> length (so_window s) \<or> place - so_first s < kept_chunks (length (so_readers s) + 1))"

definition source_join :: "instant \<Rightarrow> nat \<Rightarrow> nat \<Rightarrow> 'c source \<Rightarrow> 'c source" where
  "source_join now number place s = s\<lparr>so_readers := so_readers s @ [\<lparr>tk_number = number, tk_next = place, tk_took = now\<rparr>]\<rparr>"

text \<open>\<open>waits\<close>: the shortest wait left of those about to take the first kept, where all that may be kept is.\<close>

definition source_waits :: "duration \<Rightarrow> instant \<Rightarrow> 'c source \<Rightarrow> duration option" where
  "source_waits stall now s =
     (if length (so_window s) < kept_chunks (length (so_readers s)) then None
      else let left = filter (\<lambda>d. 0 < d) (map (\<lambda>r. stall - (now - tk_took r)) (filter (\<lambda>r. tk_next r = so_first s) (so_readers s))) in
           if left = [] then None else Some (Min (set left)))"

fun taken_by :: "nat \<Rightarrow> nat \<Rightarrow> instant \<Rightarrow> taker list \<Rightarrow> taker list" where
  "taken_by number place now [] = []"
| "taken_by number place now (r # rs) =
     (if tk_number r = number then r\<lparr>tk_next := place + 1, tk_took := now\<rparr> # rs else r # taken_by number place now rs)"

fun trim :: "nat \<Rightarrow> nat \<Rightarrow> 'c list \<Rightarrow> nat \<times> 'c list" where
  "trim keep first [] = (first, [])"
| "trim keep first (c # w) = (if keep < length (c # w) then trim keep (first + 1) w else (first, c # w))"

datatype 'c next_chunk = Chunk 'c | End | Behind

datatype 'c looked = LFailed string | LGives "'c next_chunk" "'c source" | LWaits duration | LReads

text \<open>One turn of \<open>chunk\<close>'s loop under the lock: what is looked at, and what a read makes of the source.\<close>

definition chunk_look :: "duration \<Rightarrow> instant \<Rightarrow> nat \<Rightarrow> nat \<Rightarrow> 'c source \<Rightarrow> 'c looked" where
  "chunk_look stall now number place s =
     (case so_failed s of
        Some why \<Rightarrow> LFailed why
      | None \<Rightarrow>
         if place < so_first s then LGives Behind s
         else if place - so_first s < length (so_window s)
         then LGives (Chunk (so_window s ! (place - so_first s))) (s\<lparr>so_readers := taken_by number place now (so_readers s)\<rparr>)
         else if so_ended s then LGives End s
         else case source_waits stall now s of Some left \<Rightarrow> LWaits left | None \<Rightarrow> LReads)"

definition chunk_read :: "string + 'c option \<Rightarrow> 'c source \<Rightarrow> 'c source" where
  "chunk_read answer s =
     (case answer of
        Inr (Some c) \<Rightarrow>
          (case trim (kept_chunks (length (so_readers s))) (so_first s) (so_window s @ [c]) of
             (first, w) \<Rightarrow> s\<lparr>so_first := first, so_window := w\<rparr>)
      | Inr None \<Rightarrow> s\<lparr>so_ended := True\<rparr>
      | Inl why \<Rightarrow> s\<lparr>so_failed := Some why\<rparr>)"

section \<open>The reads of one Stream\<close>

text \<open>The reads in the order they were opened, each by the number it was opened under.\<close>

type_synonym 'c reads = "(nat \<times> 'c source) list"

definition on_read :: "nat \<Rightarrow> ('c source \<Rightarrow> 'c source) \<Rightarrow> 'c reads \<Rightarrow> 'c reads" where
  "on_read rid f reads = map (\<lambda>(i, s). (i, if i = rid then f s else s)) reads"

definition source_leave :: "nat \<Rightarrow> 'c source \<Rightarrow> 'c source" where
  "source_leave number s = s\<lparr>so_readers := filter (\<lambda>r. tk_number r \<noteq> number) (so_readers s)\<rparr>"

definition leave :: "nat \<Rightarrow> nat \<Rightarrow> 'c reads \<Rightarrow> 'c reads" where
  "leave rid number reads =
     filter (\<lambda>(i, s). i \<noteq> rid \<or> so_readers s \<noteq> []) (on_read rid (source_leave number) reads)"

fun best_read :: "nat \<Rightarrow> 'c reads \<Rightarrow> (nat \<times> nat) option \<Rightarrow> (nat \<times> nat) option" where
  "best_read place [] best = best"
| "best_read place ((i, s) # rs) best =
     (let readers = length (so_readers s) in
      if source_reaches place s \<and> (case best of None \<Rightarrow> True | Some (most_readers, _) \<Rightarrow> most_readers < readers)
      then best_read place rs (Some (readers, i)) else best_read place rs best)"

definition share_joined :: "instant \<Rightarrow> nat option \<Rightarrow> nat \<Rightarrow> nat \<Rightarrow> nat \<Rightarrow> 'c reads \<Rightarrow> nat \<times> 'c reads" where
  "share_joined now left number place fresh reads =
     (let reads = (case left of None \<Rightarrow> reads | Some rid \<Rightarrow> leave rid number reads) in
      case best_read place reads None of
        Some (_, rid) \<Rightarrow> (rid, on_read rid (source_join now number place) reads)
      | None \<Rightarrow> (fresh, reads @ [(fresh, source_join now number place (source_opened place))]))"

text \<open>\<open>moved\<close>: \<open>free\<close> says which reads' locks are free to try.\<close>

definition share_moved :: "instant \<Rightarrow> (nat \<Rightarrow> bool) \<Rightarrow> nat \<Rightarrow> nat \<Rightarrow> nat \<Rightarrow> 'c reads \<Rightarrow> nat option \<times> 'c reads" where
  "share_moved now free rid number place reads =
     (if length reads < 2 then (None, reads)
      else case find (\<lambda>(k, i, s). i = rid) (enumerate 0 reads) of
        None \<Rightarrow> (None, reads)
      | Some (mine, _, s0) \<Rightarrow>
         let others = length (so_readers s0) - 1 in
         case find (\<lambda>(k, i, s). k \<noteq> mine \<and> free i \<and>
                 (others < length (so_readers s) \<or> length (so_readers s) = others \<and> k < mine) \<and> source_reaches place s)
               (enumerate 0 reads) of
           None \<Rightarrow> (None, reads)
         | Some (_, i, _) \<Rightarrow> (Some i, leave rid number (on_read i (source_join now number place) reads)))"

section \<open>Departures\<close>

datatype lent_phase = Idle | Asking | Fallen

record 'c lent =
  le_read :: nat
  le_place :: nat
  le_got :: "'c list"
  le_phase :: lent_phase
  le_done :: bool

record 'c share =
  sh_reads :: "'c reads"
  sh_opened :: nat
  sh_numbered :: nat
  sh_lents :: "nat \<rightharpoonup> 'c lent"

definition share_new :: "'c share" where
  "share_new = \<lparr>sh_reads = [], sh_opened = 0, sh_numbered = 0, sh_lents = Map.empty\<rparr>"

text \<open>What Xmip Storage's chunk reader may answer of the chunk at a place.\<close>

definition answers :: "'c list \<Rightarrow> nat \<Rightarrow> (string + 'c option) \<Rightarrow> bool" where
  "answers cs place a \<longleftrightarrow> (\<exists>why. a = Inl why) \<or> a = Inr (if place < length cs then Some (cs ! place) else None)"

definition lent_set :: "nat \<Rightarrow> 'c lent \<Rightarrow> 'c share \<Rightarrow> 'c share" where
  "lent_set number l s = s\<lparr>sh_lents := (sh_lents s)(number \<mapsto> l)\<rparr>"

text \<open>\<open>reader\<close>: a departure of the Stream opened.\<close>

definition share_reader :: "instant \<Rightarrow> 'c share \<Rightarrow> 'c share" where
  "share_reader now s =
     (case share_joined now None (sh_numbered s) 0 (sh_opened s) (sh_reads s) of
        (rid, reads) \<Rightarrow>
          s\<lparr>sh_reads := reads, sh_opened := sh_opened s + 1, sh_numbered := sh_numbered s + 1,
            sh_lents := (sh_lents s)(sh_numbered s \<mapsto>
              \<lparr>le_read = rid, le_place = 0, le_got = [], le_phase = Idle, le_done = False\<rparr>)\<rparr>)"

text \<open>The steps of \<open>Lent::take\<close>: it may move to another read, then looks at its read's chunk, which gives,
  reads on or fails; one behind joins another read; and a departure is dropped.\<close>

definition take_begins :: "instant \<Rightarrow> (nat \<Rightarrow> bool) \<Rightarrow> nat \<Rightarrow> 'c lent \<Rightarrow> 'c share \<Rightarrow> 'c share" where
  "take_begins now free number l s =
     (case share_moved now free (le_read l) number (le_place l) (sh_reads s) of
        (to, reads) \<Rightarrow>
          lent_set number (l\<lparr>le_read := (case to of None \<Rightarrow> le_read l | Some rid \<Rightarrow> rid), le_phase := Asking\<rparr>) (s\<lparr>sh_reads := reads\<rparr>))"

definition take_gives :: "nat \<Rightarrow> 'c lent \<Rightarrow> 'c next_chunk \<Rightarrow> 'c source \<Rightarrow> 'c share \<Rightarrow> 'c share" where
  "take_gives number l next src s =
     (let s = s\<lparr>sh_reads := on_read (le_read l) (\<lambda>_. src) (sh_reads s)\<rparr> in
      case next of
        Chunk c \<Rightarrow> lent_set number (l\<lparr>le_got := le_got l @ [c], le_place := le_place l + 1, le_phase := Idle\<rparr>) s
      | End \<Rightarrow> lent_set number (l\<lparr>le_phase := Idle, le_done := True\<rparr>) s
      | Behind \<Rightarrow> lent_set number (l\<lparr>le_phase := Fallen\<rparr>) s)"

definition take_rejoins :: "instant \<Rightarrow> nat \<Rightarrow> 'c lent \<Rightarrow> 'c share \<Rightarrow> 'c share" where
  "take_rejoins now number l s =
     (if 2 ^ 32 \<le> le_place l then lent_set number (l\<lparr>le_phase := Idle\<rparr>) s
      else case share_joined now (Some (le_read l)) number (le_place l) (sh_opened s) (sh_reads s) of
             (rid, reads) \<Rightarrow>
               lent_set number (l\<lparr>le_read := rid, le_phase := Asking\<rparr>) (s\<lparr>sh_reads := reads, sh_opened := sh_opened s + 1\<rparr>))"

inductive share_step :: "'c list \<Rightarrow> duration \<Rightarrow> 'c share \<Rightarrow> 'c share \<Rightarrow> bool" for cs stall where
  opens: "share_step cs stall s (share_reader now s)"
| begins: "sh_lents s number = Some l \<Longrightarrow> le_phase l = Idle \<Longrightarrow> share_step cs stall s (take_begins now free number l s)"
| gives: "sh_lents s number = Some l \<Longrightarrow> le_phase l = Asking \<Longrightarrow> map_of (sh_reads s) (le_read l) = Some src \<Longrightarrow>
    chunk_look stall now number (le_place l) src = LGives next src' \<Longrightarrow> share_step cs stall s (take_gives number l next src' s)"
| rejoins: "sh_lents s number = Some l \<Longrightarrow> le_phase l = Fallen \<Longrightarrow> share_step cs stall s (take_rejoins now number l s)"
| reads: "sh_lents s number = Some l \<Longrightarrow> le_phase l = Asking \<Longrightarrow> map_of (sh_reads s) (le_read l) = Some src \<Longrightarrow>
    chunk_look stall now number (le_place l) src = LReads \<Longrightarrow> answers cs (so_first src + length (so_window src)) a \<Longrightarrow>
    share_step cs stall s (s\<lparr>sh_reads := on_read (le_read l) (chunk_read a) (sh_reads s)\<rparr>)"
| fails: "sh_lents s number = Some l \<Longrightarrow> le_phase l = Asking \<Longrightarrow> map_of (sh_reads s) (le_read l) = Some src \<Longrightarrow>
    chunk_look stall now number (le_place l) src = LFailed why \<Longrightarrow> share_step cs stall s (lent_set number (l\<lparr>le_phase := Idle\<rparr>) s)"
| drops: "sh_lents s number = Some l \<Longrightarrow>
    share_step cs stall s (s\<lparr>sh_reads := leave (le_read l) number (sh_reads s), sh_lents := (sh_lents s)(number := None)\<rparr>)"

section \<open>What a read keeps is the Stream's\<close>

definition window_ok :: "'c list \<Rightarrow> 'c source \<Rightarrow> bool" where
  "window_ok cs s \<longleftrightarrow> so_first s + length (so_window s) \<le> length cs \<and>
     so_window s = take (length (so_window s)) (drop (so_first s) cs) \<and>
     (so_ended s \<longrightarrow> so_first s + length (so_window s) = length cs)"

lemma trim_drop: "trim keep first w = (first + (length w - keep), drop (length w - keep) w)"
proof (induction w arbitrary: first)
  case (Cons c w)
  show ?case
  proof (cases "keep < length (c # w)")
    case True
    then have "length (c # w) - keep = Suc (length w - keep)" by simp
    with Cons.IH [of "first + 1"] True show ?thesis by simp
  qed simp
qed simp

lemma window_nth: "window_ok cs s \<Longrightarrow> k < length (so_window s) \<Longrightarrow> so_window s ! k = cs ! (so_first s + k)"
  unfolding window_ok_def by (metis add_leD1 nth_drop nth_take)

lemma window_ok_readers [simp]: "window_ok cs (s\<lparr>so_readers := rs\<rparr>) = window_ok cs s"
  by (simp add: window_ok_def)

lemma window_ok_opened [simp]: "place \<le> length cs \<Longrightarrow> window_ok cs (source_opened place)"
  by (simp add: window_ok_def source_opened_def)

lemma window_ok_join [simp]: "window_ok cs (source_join now number place s) = window_ok cs s"
  by (simp add: source_join_def)

lemma window_ok_leave [simp]: "window_ok cs (source_leave number s) = window_ok cs s"
  by (simp add: source_leave_def)

lemma chunk_read_ok:
  assumes "window_ok cs s" and "answers cs (so_first s + length (so_window s)) a"
  shows "window_ok cs (chunk_read a s)"
proof (cases a)
  case (Inr b)
  show ?thesis
  proof (cases "so_first s + length (so_window s) < length cs")
    case True
    define n where "n = length (so_window s)"
    define k where "k = Suc n - kept_chunks (length (so_readers s))"
    have a: "a = Inr (Some (cs ! (so_first s + n)))" using assms(2) Inr True by (simp add: answers_def n_def)
    have "so_window s @ [cs ! (so_first s + n)] = take (Suc n) (drop (so_first s) cs)"
      using assms(1) True by (simp add: window_ok_def n_def take_Suc_conv_app_nth)
    then have w: "drop k (so_window s @ [cs ! (so_first s + n)]) = take (Suc n - k) (drop (so_first s + k) cs)"
      by (simp only: drop_take drop_drop add.commute)
    have read: "chunk_read a s = s\<lparr>so_first := so_first s + k, so_window := take (Suc n - k) (drop (so_first s + k) cs)\<rparr>"
      by (simp add: chunk_read_def a trim_drop k_def [symmetric] n_def [symmetric] w del: drop_append)
    show ?thesis using assms(1) True unfolding read window_ok_def by (auto simp: n_def k_def)
  next
    case False
    with assms Inr show ?thesis by (auto simp: answers_def chunk_read_def window_ok_def)
  qed
qed (use assms(1) in \<open>simp add: chunk_read_def window_ok_def\<close>)

lemma chunk_read_kept:
  assumes "answers cs (so_first s + length (so_window s)) a" and "so_first s + length (so_window s) < length cs" and "\<not> isl a"
  shows "length (so_window (chunk_read a s)) \<le> kept_chunks (length (so_readers s))"
  using assms by (auto simp: chunk_read_def answers_def trim_drop)

text \<open>Where Storage answers, a read goes on one chunk at a time and keeps the last it read: a departure
  whose read is not past its place reads on to its chunk, and one held back goes on once those it waits
  for have taken nothing for the stall.\<close>

definition storage_answer :: "'c list \<Rightarrow> 'c source \<Rightarrow> string + 'c option" where
  "storage_answer cs s = Inr (let next = so_first s + length (so_window s) in if next < length cs then Some (cs ! next) else None)"

fun reads_on :: "'c list \<Rightarrow> nat \<Rightarrow> 'c source \<Rightarrow> 'c source" where
  "reads_on cs 0 s = s"
| "reads_on cs (Suc n) s = reads_on cs n (chunk_read (storage_answer cs s) s)"

lemma reads_one:
  assumes "so_first s + length (so_window s) < length cs"
  defines "s' \<equiv> chunk_read (storage_answer cs s) s"
  shows "so_first s' + length (so_window s') = Suc (so_first s + length (so_window s)) \<and> so_window s' \<noteq> [] \<and> so_failed s' = so_failed s"
proof -
  have "1 \<le> kept_chunks (length (so_readers s))" by (simp add: kept_chunks_def)
  then show ?thesis using assms(1) by (auto simp: s'_def storage_answer_def chunk_read_def trim_drop Let_def simp flip: length_greater_0_conv)
qed

lemma storage_answers: "answers cs (so_first s + length (so_window s)) (storage_answer cs s)"
  by (simp add: answers_def storage_answer_def Let_def)

lemma reads_on_reaches:
  assumes "window_ok cs s" and "place < length cs" and "so_first s + length (so_window s) \<le> place" and "so_failed s = None"
  shows "\<exists>s'. reads_on cs (Suc place - (so_first s + length (so_window s))) s = s' \<and> window_ok cs s' \<and> so_failed s' = None \<and>
    so_first s' \<le> place \<and> place < so_first s' + length (so_window s')"
  using assms
proof (induction "place - (so_first s + length (so_window s))" arbitrary: s)
  case 0
  let ?s = "chunk_read (storage_answer cs s) s"
  have at: "so_first s + length (so_window s) = place" using 0 by simp
  then have "so_first ?s + length (so_window ?s) = Suc place \<and> so_window ?s \<noteq> [] \<and> so_failed ?s = None"
    using reads_one [of s cs] 0 by simp
  moreover from this have "so_first ?s \<le> place" using length_greater_0_conv [of "so_window ?s"] by linarith
  moreover have "window_ok cs ?s" by (rule chunk_read_ok [OF 0(2) storage_answers])
  moreover have "Suc place - (so_first s + length (so_window s)) = Suc 0" using at by simp
  ultimately show ?case by simp
next
  case (Suc n)
  let ?s = "chunk_read (storage_answer cs s) s"
  have one: "so_first ?s + length (so_window ?s) = Suc (so_first s + length (so_window s)) \<and> so_failed ?s = None"
    using reads_one [of s cs] Suc by simp
  have "n = place - (so_first ?s + length (so_window ?s))" "so_first ?s + length (so_window ?s) \<le> place"
    "Suc place - (so_first s + length (so_window s)) = Suc (Suc place - (so_first ?s + length (so_window ?s)))"
    using one Suc(2,5) by linarith+
  with Suc(1) [of ?s] one Suc(4) chunk_read_ok [OF Suc(3) storage_answers] show ?case by simp
qed

theorem departure_reads_on_to_its_chunk:
  assumes "window_ok cs s" and "place < length cs" and "so_first s \<le> place" and "so_failed s = None"
  shows "\<exists>n src. n \<le> Suc place - so_first s \<and> chunk_look stall now number place (reads_on cs n s) = LGives (Chunk (cs ! place)) src"
proof (cases "place < so_first s + length (so_window s)")
  case True
  then have "place - so_first s < length (so_window s)" using assms(3) by simp
  with assms window_nth [OF assms(1) this] show ?thesis by (intro exI [of _ 0]) (simp add: chunk_look_def)
next
  case False
  then obtain s' where s': "reads_on cs (Suc place - (so_first s + length (so_window s))) s = s'" "window_ok cs s'" "so_failed s' = None"
    "so_first s' \<le> place" "place < so_first s' + length (so_window s')"
    using reads_on_reaches [of cs s place] assms by auto
  then have k: "place - so_first s' < length (so_window s')" by simp
  show ?thesis using s' k window_nth [OF s'(2) k]
    by (intro exI [of _ "Suc place - (so_first s + length (so_window s))"]) (simp add: chunk_look_def)
qed

lemma stalled_never_waited:
  assumes "\<And>r. r \<in> set (so_readers s) \<Longrightarrow> tk_next r = so_first s \<Longrightarrow> tk_took r + stall \<le> now"
  shows "source_waits stall now s = None"
proof -
  have "filter (\<lambda>d. 0 < d) (map (\<lambda>r. stall - (now - tk_took r)) (filter (\<lambda>r. tk_next r = so_first s) (so_readers s))) = []"
    using assms by (fastforce simp: filter_empty_conv)
  then show ?thesis by (simp add: source_waits_def)
qed

section \<open>Every departure reads its Stream\<close>

definition reads_ok :: "'c list \<Rightarrow> 'c reads \<Rightarrow> bool" where
  "reads_ok cs reads \<longleftrightarrow> (\<forall>i src. (i, src) \<in> set reads \<longrightarrow> window_ok cs src)"

definition lent_ok :: "'c list \<Rightarrow> 'c lent \<Rightarrow> bool" where
  "lent_ok cs l \<longleftrightarrow> le_place l \<le> length cs \<and> le_got l = take (le_place l) cs \<and> (le_done l \<longrightarrow> le_place l = length cs)"

definition share_inv :: "'c list \<Rightarrow> 'c share \<Rightarrow> bool" where
  "share_inv cs s \<longleftrightarrow> reads_ok cs (sh_reads s) \<and> (\<forall>number l. sh_lents s number = Some l \<longrightarrow> lent_ok cs l)"

lemma reads_ok_on: "reads_ok cs reads \<Longrightarrow> (\<And>src. (rid, src) \<in> set reads \<Longrightarrow> window_ok cs src \<Longrightarrow> window_ok cs (f src)) \<Longrightarrow> reads_ok cs (on_read rid f reads)"
  by (auto simp: reads_ok_def on_read_def)

lemma reads_ok_leave: "reads_ok cs reads \<Longrightarrow> reads_ok cs (leave rid number reads)"
  using reads_ok_on [of cs reads rid "source_leave number"] by (auto simp: reads_ok_def leave_def)

lemma reads_ok_joined:
  assumes "share_joined now left number place fresh reads = (rid, reads')" and "reads_ok cs reads" and "place \<le> length cs"
  shows "reads_ok cs reads'"
proof -
  define rs where "rs = (case left of None \<Rightarrow> reads | Some rid \<Rightarrow> leave rid number reads)"
  have "reads_ok cs rs" using assms(2) reads_ok_leave by (auto simp: rs_def split: option.split)
  then show ?thesis
    using assms(1,3) reads_ok_on [of cs rs _ "source_join now number place"]
    by (cases "best_read place rs None") (auto simp: share_joined_def Let_def rs_def [symmetric] reads_ok_def split: prod.splits)
qed

lemma reads_ok_moved:
  assumes "share_moved now free rid number place reads = (to, reads')" and "reads_ok cs reads"
  shows "reads_ok cs reads'"
  using assms reads_ok_on [OF assms(2)]
  by (auto simp: share_moved_def Let_def split: if_splits option.splits prod.splits intro!: reads_ok_leave)

lemma lent_set_inv: "share_inv cs s \<Longrightarrow> lent_ok cs l \<Longrightarrow> share_inv cs (lent_set number l s)"
  by (auto simp: share_inv_def lent_set_def)

lemma reads_set_inv: "share_inv cs s \<Longrightarrow> reads_ok cs reads \<Longrightarrow> share_inv cs (s\<lparr>sh_reads := reads\<rparr>)"
  "share_inv cs s \<Longrightarrow> reads_ok cs reads \<Longrightarrow> share_inv cs (s\<lparr>sh_reads := reads, sh_opened := n\<rparr>)"
  by (auto simp: share_inv_def)

lemma look_gives_ok:
  assumes "chunk_look stall now number place src = LGives next src'" and "window_ok cs src" and "place \<le> length cs"
  shows "window_ok cs src' \<and> (case next of Chunk c \<Rightarrow> place < length cs \<and> c = cs ! place | End \<Rightarrow> place = length cs | Behind \<Rightarrow> True)"
proof -
  have gives: "so_failed src = None" using assms(1) by (simp add: chunk_look_def split: option.splits)
  show ?thesis
  proof (cases "place - so_first src < length (so_window src)")
    case True
    have "place < length cs" using True assms(2,3) by (auto simp: window_ok_def)
    with True assms gives window_nth [OF assms(2) True] show ?thesis
      by (auto simp: chunk_look_def split: if_splits)
  next
    case False
    with assms gives show ?thesis by (auto simp: chunk_look_def window_ok_def split: if_splits option.splits)
  qed
qed

section \<open>Every departure stands on a read\<close>

text \<open>No two reads share a number, every read kept has a departure taking from it, and every departure is
  one of those its read serves.\<close>

definition stands :: "'c reads \<Rightarrow> nat \<Rightarrow> nat \<Rightarrow> bool" where
  "stands reads number rid \<longleftrightarrow> (\<exists>src. (rid, src) \<in> set reads \<and> number \<in> tk_number ` set (so_readers src))"

definition reads_wf :: "nat \<Rightarrow> 'c reads \<Rightarrow> bool" where
  "reads_wf opened reads \<longleftrightarrow> distinct (map fst reads) \<and> (\<forall>i src. (i, src) \<in> set reads \<longrightarrow> i < opened \<and> so_readers src \<noteq> [])"

definition standing_inv :: "'c share \<Rightarrow> bool" where
  "standing_inv s \<longleftrightarrow> reads_wf (sh_opened s) (sh_reads s) \<and>
     (\<forall>number l. sh_lents s number = Some l \<longrightarrow> number < sh_numbered s \<and> stands (sh_reads s) number (le_read l))"

lemma on_read_ids [simp]: "map fst (on_read rid f reads) = map fst reads"
  by (auto simp: on_read_def)

lemma reads_wf_on:
  assumes "reads_wf n reads" and "\<And>src. (rid, src) \<in> set reads \<Longrightarrow> so_readers src \<noteq> [] \<Longrightarrow> so_readers (f src) \<noteq> []"
  shows "reads_wf n (on_read rid f reads)"
proof -
  have "distinct (map fst (on_read rid f reads))" using assms(1) by (simp add: reads_wf_def)
  moreover have "i < n \<and> so_readers src \<noteq> []" if "(i, src) \<in> set (on_read rid f reads)" for i src
    using that assms by (auto simp: reads_wf_def on_read_def split: if_splits)
  ultimately show ?thesis by (simp add: reads_wf_def)
qed

lemma reads_wf_leave: "reads_wf n reads \<Longrightarrow> reads_wf n (leave rid number reads)"
proof -
  assume wf: "reads_wf n reads"
  have "distinct (map fst (on_read rid (source_leave number) reads))" using wf by (simp add: reads_wf_def)
  then have "distinct (map fst (leave rid number reads))" unfolding leave_def by (rule distinct_map_filter)
  then show ?thesis using wf by (auto simp: reads_wf_def leave_def on_read_def)
qed

lemma reads_wf_more: "reads_wf n reads \<Longrightarrow> n \<le> m \<Longrightarrow> reads_wf m reads"
  by (fastforce simp: reads_wf_def)

lemma stands_on:
  assumes "stands reads number r" and "\<And>src. number \<in> tk_number ` set (so_readers src) \<Longrightarrow> (rid, src) \<in> set reads \<Longrightarrow> number \<in> tk_number ` set (so_readers (f src))"
  shows "stands (on_read rid f reads) number r"
proof -
  obtain src where src: "(r, src) \<in> set reads" "number \<in> tk_number ` set (so_readers src)" using assms(1) by (auto simp: stands_def)
  then have "(r, if r = rid then f src else src) \<in> set (on_read rid f reads)" by (force simp: on_read_def)
  with src assms(2) show ?thesis unfolding stands_def by (intro exI [of _ "if r = rid then f src else src"]) auto
qed

lemma stands_leave:
  assumes "stands reads number r" and "number \<noteq> gone \<or> r \<noteq> rid"
  shows "stands (leave rid gone reads) number r"
proof -
  obtain src where src: "(r, src) \<in> set reads" "number \<in> tk_number ` set (so_readers src)" using assms(1) by (auto simp: stands_def)
  define src' where "src' = (if r = rid then source_leave gone src else src)"
  have "(r, src') \<in> set (on_read rid (source_leave gone) reads)" using src(1) by (force simp: on_read_def src'_def)
  moreover have n: "number \<in> tk_number ` set (so_readers src')" using src(2) assms(2) by (auto simp: src'_def source_leave_def)
  ultimately have "(r, src') \<in> set (leave rid gone reads)" by (auto simp: leave_def)
  with n show ?thesis by (auto simp: stands_def)
qed

lemma stands_join: "rid \<in> fst ` set reads \<Longrightarrow> stands (on_read rid (source_join now number place) reads) number rid"
  by (force simp: stands_def on_read_def source_join_def)

lemma stands_on_join: "stands reads n r \<Longrightarrow> stands (on_read rid (source_join now number place) reads) n r"
  by (erule stands_on) (simp add: source_join_def)

lemma best_read_in: "best_read place reads best = Some (m, rid) \<Longrightarrow> best = Some (m, rid) \<or> rid \<in> fst ` set reads"
  by (induction place reads best rule: best_read.induct) (auto simp: Let_def split: if_splits)

lemma joined_stands:
  assumes "share_joined now left number place fresh reads = (rid, reads')" and "reads_wf fresh reads"
  shows "reads_wf (Suc fresh) reads' \<and> stands reads' number rid \<and> (n \<noteq> number \<longrightarrow> stands reads n r \<longrightarrow> stands reads' n r)"
proof -
  define rs where "rs = (case left of None \<Rightarrow> reads | Some rid \<Rightarrow> leave rid number reads)"
  have wf: "reads_wf fresh rs" using assms(2) reads_wf_leave by (auto simp: rs_def split: option.split)
  have st: "stands rs n r" if "n \<noteq> number" "stands reads n r" using that by (cases left) (simp_all add: rs_def stands_leave)
  show ?thesis
  proof (cases "best_read place rs None")
    case None
    then have "rid = fresh" and reads': "reads' = rs @ [(fresh, source_join now number place (source_opened place))]"
      using assms(1) by (auto simp: share_joined_def rs_def [symmetric])
    moreover have "fresh \<notin> fst ` set rs" using wf by (fastforce simp: reads_wf_def)
    then have "reads_wf (Suc fresh) reads'" using wf by (auto simp: reads_wf_def reads' source_join_def less_Suc_eq)
    ultimately show ?thesis using st by (auto simp: stands_def source_join_def)
  next
    case (Some b)
    then obtain m where "best_read place rs None = Some (m, rid)" and reads': "reads' = on_read rid (source_join now number place) rs"
      using assms(1) by (cases b) (auto simp: share_joined_def rs_def [symmetric])
    then have "stands reads' number rid" using best_read_in stands_join by fastforce
    moreover have "reads_wf fresh reads'" unfolding reads' by (rule reads_wf_on [OF wf]) (simp add: source_join_def)
    ultimately show ?thesis using st reads_wf_more [of fresh reads' "Suc fresh"] stands_on_join unfolding reads' by fastforce
  qed
qed

lemma enumerate_at: "find P (enumerate 0 xs) = Some (k, x) \<Longrightarrow> k < length xs \<and> xs ! k = x \<and> P (k, x)"
  by (auto simp: find_Some_iff nth_enumerate_eq)

lemma moved_stands:
  assumes "share_moved now free rid number place reads = (to, reads')" and "reads_wf opened reads"
  shows "reads_wf opened reads' \<and> (n \<noteq> number \<longrightarrow> stands reads n r \<longrightarrow> stands reads' n r) \<and>
    (case to of None \<Rightarrow> reads' = reads | Some i \<Rightarrow> stands reads' number i)"
proof (cases to)
  case None
  with assms show ?thesis by (auto simp: share_moved_def Let_def split: if_splits option.splits prod.splits)
next
  case (Some i)
  then obtain mine s0 k src where "mine < length reads" "reads ! mine = (rid, s0)" "k < length reads" "reads ! k = (i, src)" "k \<noteq> mine"
    and reads': "reads' = leave rid number (on_read i (source_join now number place) reads)"
    using assms(1) by (auto simp: share_moved_def Let_def split: if_splits option.splits prod.splits dest!: enumerate_at)
  then have "i \<noteq> rid" and i: "i \<in> fst ` set reads"
    using assms(2) nth_eq_iff_index_eq [of "map fst reads" k mine] nth_mem [of k reads] by (auto simp: reads_wf_def intro: rev_image_eqI)
  then have "stands reads' number i" unfolding reads' by (intro stands_leave stands_join) auto
  moreover have "reads_wf opened reads'"
    unfolding reads' by (intro reads_wf_leave reads_wf_on [OF assms(2)]) (simp add: source_join_def)
  ultimately show ?thesis using Some unfolding reads' by (simp add: stands_leave stands_on_join)
qed

lemma taken_by_numbers [simp]: "tk_number ` set (taken_by number place now rs) = tk_number ` set rs"
  by (induction number place now rs rule: taken_by.induct) auto

lemma look_keeps_numbers: "chunk_look stall now number place src = LGives next src' \<Longrightarrow> tk_number ` set (so_readers src') = tk_number ` set (so_readers src)"
  by (clarsimp simp: chunk_look_def split: option.splits if_splits)

lemma chunk_read_readers [simp]: "so_readers (chunk_read a s) = so_readers s"
  by (auto simp: chunk_read_def split: sum.split option.split prod.split)

lemma standing_lent_set: "standing_inv s \<Longrightarrow> number < sh_numbered s \<Longrightarrow> stands (sh_reads s) number (le_read l) \<Longrightarrow> standing_inv (lent_set number l s)"
  by (auto simp: standing_inv_def lent_set_def)

lemma standing_reads:
  assumes "standing_inv s" and "\<And>src. (rid, src) \<in> set (sh_reads s) \<Longrightarrow> tk_number ` set (so_readers (f src)) = tk_number ` set (so_readers src)"
  shows "standing_inv (s\<lparr>sh_reads := on_read rid f (sh_reads s)\<rparr>)"
proof -
  have "reads_wf (sh_opened s) (on_read rid f (sh_reads s))"
  proof (rule reads_wf_on)
    show "reads_wf (sh_opened s) (sh_reads s)" using assms(1) by (simp add: standing_inv_def)
    show "so_readers (f src) \<noteq> []" if "(rid, src) \<in> set (sh_reads s)" "so_readers src \<noteq> []" for src
      using assms(2) [OF that(1)] that(2) by auto
  qed
  then show ?thesis using assms by (auto simp: standing_inv_def intro!: stands_on)
qed

lemma standing_read_at: "standing_inv s \<Longrightarrow> map_of (sh_reads s) rid = Some src \<Longrightarrow> (rid, src0) \<in> set (sh_reads s) \<Longrightarrow> src0 = src"
  by (auto simp: standing_inv_def reads_wf_def)

section \<open>The steps\<close>

lemma share_step_stands: "share_step cs stall s s' \<Longrightarrow> standing_inv s \<Longrightarrow> standing_inv s'"
proof (induction rule: share_step.induct)
  case (opens s now)
  obtain rid reads where j: "share_joined now None (sh_numbered s) 0 (sh_opened s) (sh_reads s) = (rid, reads)" by fastforce
  then have "reads_wf (Suc (sh_opened s)) reads" "stands reads (sh_numbered s) rid"
    "\<And>n r. n < sh_numbered s \<Longrightarrow> stands (sh_reads s) n r \<Longrightarrow> stands reads n r"
    using joined_stands [OF j] opens by (auto simp: standing_inv_def)
  with j opens show ?case by (auto simp: share_reader_def standing_inv_def less_Suc_eq)
next
  case (begins s number l now free)
  obtain to reads where m: "share_moved now free (le_read l) number (le_place l) (sh_reads s) = (to, reads)" by fastforce
  note st = moved_stands [OF m, of "sh_opened s"]
  have "stands reads number (case to of None \<Rightarrow> le_read l | Some rid \<Rightarrow> rid)"
    using st begins by (auto simp: standing_inv_def split: option.splits)
  then show ?case using st begins m
    by (auto simp: take_begins_def standing_inv_def lent_set_def)
next
  case (gives s number l src now "next" src')
  have "tk_number ` set (so_readers src') = tk_number ` set (so_readers src0)" if "(le_read l, src0) \<in> set (sh_reads s)" for src0
    using standing_read_at [OF gives(5,3) that] look_keeps_numbers [OF gives(4)] by simp
  then have inv: "standing_inv (s\<lparr>sh_reads := on_read (le_read l) (\<lambda>_. src') (sh_reads s)\<rparr>)" (is "standing_inv ?s")
    by (rule standing_reads [OF gives(5)])
  have "number < sh_numbered ?s" "stands (sh_reads ?s) number (le_read l)"
    using inv gives(1) by (auto simp: standing_inv_def)
  with inv show ?case by (cases "next") (simp_all add: take_gives_def Let_def standing_lent_set)
next
  case (rejoins s number l now)
  obtain rid reads where j: "share_joined now (Some (le_read l)) number (le_place l) (sh_opened s) (sh_reads s) = (rid, reads)" by fastforce
  note st = joined_stands [OF j]
  show ?case using st rejoins j
    by (auto simp: take_rejoins_def standing_inv_def lent_set_def)
next
  case (reads s number l src now a)
  then show ?case by (auto intro: standing_reads)
qed (auto simp: standing_inv_def lent_set_def reads_wf_leave stands_leave)

lemma share_step_inv: "share_step cs stall s s' \<Longrightarrow> standing_inv s \<Longrightarrow> share_inv cs s \<Longrightarrow> share_inv cs s'"
proof (induction rule: share_step.induct)
  case (opens s now)
  obtain rid reads where j: "share_joined now None (sh_numbered s) 0 (sh_opened s) (sh_reads s) = (rid, reads)" by fastforce
  with reads_ok_joined [OF j] opens show ?case by (auto simp: share_reader_def share_inv_def lent_ok_def)
next
  case (begins s number l now free)
  obtain to reads where m: "share_moved now free (le_read l) number (le_place l) (sh_reads s) = (to, reads)" by fastforce
  with reads_ok_moved [OF m] begins show ?case
    by (auto simp: take_begins_def share_inv_def lent_ok_def lent_set_def)
next
  case (gives s number l src now "next" src')
  have w: "window_ok cs src" and l: "lent_ok cs l" using gives by (auto simp: share_inv_def reads_ok_def dest: map_of_SomeD)
  have g: "window_ok cs src' \<and> (case next of Chunk c \<Rightarrow> le_place l < length cs \<and> c = cs ! le_place l | End \<Rightarrow> le_place l = length cs | Behind \<Rightarrow> True)"
    by (rule look_gives_ok [OF gives(4) w]) (use l in \<open>simp add: lent_ok_def\<close>)
  have "reads_ok cs (on_read (le_read l) (\<lambda>_. src') (sh_reads s))" using gives g by (auto simp: share_inv_def intro: reads_ok_on)
  then have inv: "share_inv cs (s\<lparr>sh_reads := on_read (le_read l) (\<lambda>_. src') (sh_reads s)\<rparr>)" using gives reads_set_inv(1) by blast
  show ?case using g l inv
    by (cases "next") (auto simp: take_gives_def Let_def lent_ok_def take_Suc_conv_app_nth intro!: lent_set_inv)
next
  case (rejoins s number l now)
  obtain rid reads where j: "share_joined now (Some (le_read l)) number (le_place l) (sh_opened s) (sh_reads s) = (rid, reads)" by fastforce
  with reads_ok_joined [OF j] rejoins show ?case
    by (auto simp: take_rejoins_def share_inv_def lent_ok_def lent_set_def)
next
  case (reads s number l src now a)
  have "reads_ok cs (on_read (le_read l) (chunk_read a) (sh_reads s))"
  proof (rule reads_ok_on)
    show "reads_ok cs (sh_reads s)" using reads by (simp add: share_inv_def)
    fix src0 assume at0: "(le_read l, src0) \<in> set (sh_reads s)" and w: "window_ok cs src0"
    have "src0 = src" by (rule standing_read_at [OF reads(6,3) at0])
    with w reads show "window_ok cs (chunk_read a src0)" by (simp add: chunk_read_ok)
  qed
  with reads show ?case using reads_set_inv(1) by blast
qed (auto simp: share_inv_def lent_ok_def lent_set_def intro: reads_ok_leave)

lemma share_new_inv: "standing_inv share_new \<and> share_inv cs share_new"
  by (simp add: share_new_def standing_inv_def share_inv_def reads_wf_def reads_ok_def)

interpretation shared_reads: invariant_system "\<lambda>s. s = share_new" "share_step cs stall" "\<lambda>s. standing_inv s \<and> share_inv cs s"
  by unfold_locales (auto simp: share_new_inv intro: share_step_stands share_step_inv)

text \<open>C26: whatever the departures of one Stream do and in whatever order they take turns - opening, moving between
  reads, falling behind and rejoining, being dropped, Storage's reads failing - what a departure has been
  lent is the Stream's chunks from its start, each once and in order; one told its end was lent all of
  them; and every departure stands on a read that is kept and that counts it among those it serves.\<close>

theorem departures_read_stream:
  assumes "(share_step cs stall)\<^sup>*\<^sup>* share_new s" and "sh_lents s number = Some l"
  shows "le_got l = take (le_place l) cs \<and> length (le_got l) = le_place l \<and> (if le_done l then le_got l = cs else True) \<and>
    (\<exists>src. map_of (sh_reads s) (le_read l) = Some src \<and> number \<in> tk_number ` set (so_readers src))"
proof -
  have inv: "standing_inv s" "share_inv cs s" using shared_reads.steps_inv [OF assms(1) share_new_inv] by blast+
  then have "lent_ok cs l" using assms(2) by (simp add: share_inv_def)
  moreover have "\<exists>src. map_of (sh_reads s) (le_read l) = Some src \<and> number \<in> tk_number ` set (so_readers src)"
    using inv(1) assms(2) by (fastforce simp: standing_inv_def reads_wf_def stands_def)
  ultimately show ?thesis by (auto simp: lent_ok_def)
qed

text \<open>Two departures of a Stream of two chunks: the first asks, Storage is read on, and it is lent the chunk.\<close>

definition two_open :: "nat share" where "two_open = share_reader 2 (share_reader 1 share_new)"

definition first_asks :: "nat share" where "first_asks = take_begins 3 (\<lambda>_. True) 0 (the (sh_lents two_open 0)) two_open"

definition first_read :: "nat share" where
  "first_read = first_asks\<lparr>sh_reads := on_read 0 (chunk_read (Inr (Some 7))) (sh_reads first_asks)\<rparr>"

definition first_lent :: "nat share" where
  "first_lent = take_gives 0 (the (sh_lents first_read 0)) (Chunk 7)
     (snd (hd (sh_reads first_read))\<lparr>so_readers := taken_by 0 0 4 (so_readers (snd (hd (sh_reads first_read))))\<rparr>) first_read"

lemmas share_eval = share_reader_def share_new_def share_joined_def source_opened_def source_join_def source_reaches_def
  kept_chunks_def kept_per_reader_def stream_chunks_def on_read_def take_begins_def share_moved_def lent_set_def
  chunk_read_def chunk_look_def source_waits_def take_gives_def

lemma two_open_eval: "sh_reads two_open = [(0, \<lparr>so_window = [], so_first = 0, so_ended = False, so_failed = None,
      so_readers = [\<lparr>tk_number = 0, tk_next = 0, tk_took = 1\<rparr>, \<lparr>tk_number = 1, tk_next = 0, tk_took = 2\<rparr>]\<rparr>)]"
  "sh_lents two_open 0 = Some \<lparr>le_read = 0, le_place = 0, le_got = [], le_phase = Idle, le_done = False\<rparr>"
  by (simp_all add: two_open_def share_eval)

lemma first_read_eval: "sh_reads first_read = [(0, \<lparr>so_window = [7], so_first = 0, so_ended = False, so_failed = None,
      so_readers = [\<lparr>tk_number = 0, tk_next = 0, tk_took = 1\<rparr>, \<lparr>tk_number = 1, tk_next = 0, tk_took = 2\<rparr>]\<rparr>)]"
  "sh_lents first_read 0 = Some \<lparr>le_read = 0, le_place = 0, le_got = [], le_phase = Asking, le_done = False\<rparr>"
  "sh_reads first_asks = sh_reads two_open"
  "sh_lents first_asks 0 = Some \<lparr>le_read = 0, le_place = 0, le_got = [], le_phase = Asking, le_done = False\<rparr>"
  by (simp_all add: first_read_def first_asks_def two_open_eval share_eval)

lemma first_lent_reached: "(share_step [7, 8] 100)\<^sup>*\<^sup>* share_new first_lent"
proof -
  have "share_step [7, 8] 100 share_new (share_reader 1 share_new)" "share_step [7, 8] 100 (share_reader 1 share_new) two_open"
    unfolding two_open_def by (rule share_step.opens)+
  moreover have "share_step [7, 8] 100 two_open first_asks"
    unfolding first_asks_def by (rule share_step.begins) (simp_all add: two_open_eval)
  moreover have "share_step [7, 8] 100 first_asks first_read"
    unfolding first_read_def
    using share_step.reads [OF first_read_eval(4), where src = "snd (hd (sh_reads first_asks))" and now = 4 and a = "Inr (Some 7)"
      and cs = "[7, 8]" and stall = 100]
    by (simp add: first_read_eval two_open_eval answers_def share_eval)
  moreover have "share_step [7, 8] 100 first_read first_lent"
    unfolding first_lent_def first_read_eval(2) option.sel
    by (rule share_step.gives [OF first_read_eval(2), where src = "snd (hd (sh_reads first_read))" and now = 4])
      (simp_all add: first_read_eval chunk_look_def)
  ultimately show ?thesis by (meson converse_rtranclp_into_rtranclp rtranclp.rtrancl_refl)
qed

theorem departures_read_stream_witness:
  "\<exists>l. sh_lents first_lent 0 = Some l \<and> le_place l = 1 \<and> le_got l = take (le_place l) [7, 8]"
proof -
  obtain l where l: "sh_lents first_lent 0 = Some l" "le_place l = 1"
    by (simp add: first_lent_def first_read_eval take_gives_def lent_set_def)
  with departures_read_stream [OF first_lent_reached l(1)] show ?thesis by blast
qed

end
