(* ===== verification/Debatch.thy ===== *)
theory Debatch
  imports Ledger_Stream
begin

text \<open>
  \<open>src/split.rs\<close>: a Message split into a Message per record by a splitting unit, all or nothing. The unit
  is handed the Message's bytes a chunk at a time and answers the records they complete; each record is
  written into the Ledger as a Stream of its own as it comes while none was refused, and made a Message
  only once every record is split. The gathered outcomes are the core library's, an argument with its
  laws (\<open>outcomes_kept\<close>); what a Message made of a part is, the message library's. The unit of
  \<open>src/fixture/lines.rs\<close>, a record a line, answers the same records however the bytes are cut.
\<close>

section \<open>Records and units\<close>

datatype split_record = Part string | RefusedRecord string

fun is_part :: "split_record \<Rightarrow> bool" where
  "is_part (Part _) = True"
| "is_part (RefusedRecord _) = False"

fun part_bytes :: "split_record \<Rightarrow> string" where
  "part_bytes (Part bytes) = bytes"
| "part_bytes (RefusedRecord _) = []"

record 'u split_unit =
  un_feed :: "'u \<Rightarrow> string \<Rightarrow> 'u \<times> split_record list"
  un_end :: "'u \<Rightarrow> split_record list"

record 'f outcomes =
  oc_new :: "string \<Rightarrow> string \<Rightarrow> 'f"
  oc_took :: "'f \<Rightarrow> nat \<times> 'f"
  oc_succeed :: "nat \<Rightarrow> 'f \<Rightarrow> 'f"
  oc_fail :: "string \<times> string \<Rightarrow> string option \<Rightarrow> nat \<Rightarrow> 'f \<Rightarrow> 'f"
  oc_empty :: "'f \<Rightarrow> bool"

datatype scalar = TextValue string | IntegerValue int

definition stage :: string where "stage = ''debatch''"
definition item :: string where "item = ''record''"
definition refused_code :: string where "refused_code = ''record-refused''"
definition batch_value :: string where "batch_value = ''debatch.message''"
definition position_value :: string where "position_value = ''debatch.position''"
definition count_value :: string where "count_value = ''debatch.count''"

section \<open>The splitting\<close>

record split_section =
  sx_id :: ident
  sx_kept :: kept

record ('d, 'u, 'f) split_env =
  db_digest :: "'d stream_digest"
  db_refuses :: "stream_write \<Rightarrow> string option"
  db_chunk :: nat
  db_ids :: "nat \<Rightarrow> ident"
  db_unit :: "'u split_unit"
  db_outcomes :: "'f outcomes"
  db_artifact :: "string option"

record ('u, 'f) splitting =
  sl_unit :: 'u
  sl_written :: "split_section list"
  sl_failures :: 'f
  sl_minted :: nat

definition splitting_new :: "('d, 'u, 'f) split_env \<Rightarrow> 'u \<Rightarrow> nat \<Rightarrow> ('u, 'f) splitting" where
  "splitting_new env u n =
     \<lparr>sl_unit = u, sl_written = [], sl_failures = oc_new (db_outcomes env) stage item, sl_minted = n\<rparr>"

definition split_section_of :: "('d, 'u, 'f) split_env \<Rightarrow> string \<Rightarrow> nat \<Rightarrow> stream_write list \<times> (stream_error + split_section \<times> nat)" where
  "split_section_of env bytes n =
     (case write_stream (db_digest env) (db_refuses env) (db_ids env n) \<lparr>rd_bytes = bytes, rd_fault = None\<rparr> (max (db_chunk env) 1) of
        (ws, Inl e) \<Rightarrow> (ws, Inl e)
      | (ws, Inr k) \<Rightarrow> (ws, Inr (\<lparr>sx_id = db_ids env (n + 1), sx_kept = k\<rparr>, n + 2)))"

fun split_write ::
  "('d, 'u, 'f) split_env \<Rightarrow> split_record list \<Rightarrow> ('u, 'f) splitting \<Rightarrow> stream_write list \<times> (stream_error + ('u, 'f) splitting)" where
  "split_write env [] s = ([], Inr s)"
| "split_write env (r # rs) s =
     (case oc_took (db_outcomes env) (sl_failures s) of
        (position, f) \<Rightarrow>
         (case r of
            Part bytes \<Rightarrow>
              if oc_empty (db_outcomes env) f
              then (case split_section_of env bytes (sl_minted s) of
                      (ws, Inl e) \<Rightarrow> (ws, Inl e)
                    | (ws, Inr (sx, n)) \<Rightarrow>
                       (case split_write env rs (s\<lparr>sl_written := sl_written s @ [sx],
                               sl_failures := oc_succeed (db_outcomes env) position f, sl_minted := n\<rparr>) of
                          (ws', out) \<Rightarrow> (ws @ ws', out)))
              else split_write env rs (s\<lparr>sl_failures := oc_succeed (db_outcomes env) position f\<rparr>)
          | RefusedRecord reason \<Rightarrow>
              split_write env rs (s\<lparr>sl_failures := oc_fail (db_outcomes env) (refused_code, reason) (db_artifact env) position f\<rparr>)))"

definition split_feed ::
  "('d, 'u, 'f) split_env \<Rightarrow> string \<Rightarrow> ('u, 'f) splitting \<Rightarrow> stream_write list \<times> (stream_error + ('u, 'f) splitting)" where
  "split_feed env chunk s =
     (case un_feed (db_unit env) (sl_unit s) chunk of (u, rs) \<Rightarrow> split_write env rs (s\<lparr>sl_unit := u\<rparr>))"

definition split_end ::
  "('d, 'u, 'f) split_env \<Rightarrow> ('u, 'f) splitting \<Rightarrow> stream_write list \<times> (stream_error + ('f + split_section list) \<times> nat)" where
  "split_end env s =
     (case split_write env (un_end (db_unit env) (sl_unit s)) s of
        (ws, Inl e) \<Rightarrow> (ws, Inl e)
      | (ws, Inr s) \<Rightarrow>
         (ws, Inr (if oc_empty (db_outcomes env) (sl_failures s) then Inr (sl_written s) else Inl (sl_failures s), sl_minted s)))"

section \<open>The parts, and a Message split whole\<close>

definition i64_max :: int where "i64_max = 2 ^ 63 - 1"

definition split_parts ::
  "(ident \<Rightarrow> split_section \<Rightarrow> (string \<times> scalar) list \<Rightarrow> 'm) \<Rightarrow> (nat \<Rightarrow> ident) \<Rightarrow> string \<Rightarrow> split_section list \<Rightarrow> nat \<Rightarrow> 'm list" where
  "split_parts debatched ids batch sections n =
     map (\<lambda>(k, sx). debatched (ids (n + k)) sx
            [(batch_value, TextValue batch), (position_value, IntegerValue (int k + 1)),
             (count_value, IntegerValue (min (int (length sections)) i64_max))])
       (enumerate 0 sections)"

text \<open>What reading a Section gives: no reader at all, or reads one after another, then its end or a fault.\<close>

type_synonym reading = "string + string list \<times> string option"

datatype split_error = SectionUnread string | RecordNotTaken stream_error

fun feed_reads ::
  "('d, 'u, 'f) split_env \<Rightarrow> string list \<Rightarrow> string option \<Rightarrow> ('u, 'f) splitting \<Rightarrow> stream_write list \<times> (split_error + ('u, 'f) splitting)" where
  "feed_reads env [] fault s = ([], case fault of None \<Rightarrow> Inr s | Some why \<Rightarrow> Inl (SectionUnread why))"
| "feed_reads env (c # cs) fault s =
     (if c = [] then ([], Inr s)
      else case split_feed env c s of
             (ws, Inl e) \<Rightarrow> (ws, Inl (RecordNotTaken e))
           | (ws, Inr s) \<Rightarrow> (case feed_reads env cs fault s of (ws', out) \<Rightarrow> (ws @ ws', out)))"

fun feed_sections ::
  "('d, 'u, 'f) split_env \<Rightarrow> reading list \<Rightarrow> ('u, 'f) splitting \<Rightarrow> stream_write list \<times> (split_error + ('u, 'f) splitting)" where
  "feed_sections env [] s = ([], Inr s)"
| "feed_sections env (Inl why # rest) s = ([], Inl (SectionUnread why))"
| "feed_sections env (Inr (reads, fault) # rest) s =
     (case feed_reads env reads fault s of
        (ws, Inl e) \<Rightarrow> (ws, Inl e)
      | (ws, Inr s) \<Rightarrow> (case feed_sections env rest s of (ws', out) \<Rightarrow> (ws @ ws', out)))"

definition split_whole ::
  "('d, 'u, 'f) split_env \<Rightarrow> (ident \<Rightarrow> split_section \<Rightarrow> (string \<times> scalar) list \<Rightarrow> 'm) \<Rightarrow> string \<Rightarrow> reading list \<Rightarrow> 'u \<Rightarrow> nat \<Rightarrow>
     stream_write list \<times> (split_error + ('f + 'm list) \<times> nat)" where
  "split_whole env debatched batch readings u n =
     (case feed_sections env readings (splitting_new env u n) of
        (ws, Inl e) \<Rightarrow> (ws, Inl e)
      | (ws, Inr s) \<Rightarrow>
         (case split_end env s of
            (ws', Inl e) \<Rightarrow> (ws @ ws', Inl (RecordNotTaken e))
          | (ws', Inr (Inl failures, n)) \<Rightarrow> (ws @ ws', Inr (Inl failures, n))
          | (ws', Inr (Inr sections, n)) \<Rightarrow>
              (ws @ ws', Inr (Inr (split_parts debatched (db_ids env) batch sections n), n + length sections))))"

section \<open>What the outcomes keep\<close>

definition outcomes_kept :: "'f outcomes \<Rightarrow> bool" where
  "outcomes_kept oc \<longleftrightarrow> (\<forall>st it. oc_empty oc (oc_new oc st it)) \<and> (\<forall>f. oc_empty oc (snd (oc_took oc f)) = oc_empty oc f) \<and>
     (\<forall>k f. oc_empty oc (oc_succeed oc k f) = oc_empty oc f) \<and> (\<forall>c a k f. \<not> oc_empty oc (oc_fail oc c a k f))"

section \<open>All or nothing\<close>

text \<open>The records the unit answers over reads, up to a read that gives nothing.\<close>

fun fed_records :: "'u split_unit \<Rightarrow> 'u \<Rightarrow> string list \<Rightarrow> 'u \<times> split_record list" where
  "fed_records un u [] = (u, [])"
| "fed_records un u (c # cs) = (case un_feed un u c of (u, rs) \<Rightarrow> case fed_records un u cs of (u, rs') \<Rightarrow> (u, rs @ rs'))"

definition chunks_read :: "reading list \<Rightarrow> string list" where
  "chunks_read readings = concat (map (\<lambda>r. case r of Inl _ \<Rightarrow> [] | Inr (reads, _) \<Rightarrow> takeWhile (\<lambda>c. c \<noteq> []) reads) readings)"

definition split_records :: "'u split_unit \<Rightarrow> 'u \<Rightarrow> string list \<Rightarrow> split_record list" where
  "split_records un u chunks = (case fed_records un u chunks of (u, rs) \<Rightarrow> rs @ un_end un u)"

text \<open>What a splitting comes to over records: the parts before the first refused kept, each as the Section
  over its own Stream.\<close>

definition section_for :: "('d, 'u, 'f) split_env \<Rightarrow> nat \<Rightarrow> split_section \<Rightarrow> split_record \<Rightarrow> bool" where
  "section_for env n sx r \<longleftrightarrow> sx_id sx = db_ids env (n + 1) \<and> kp_stream (sx_kept sx) = db_ids env n \<and>
     kp_length (sx_kept sx) = of_nat (length (part_bytes r))"

definition kept_records :: "bool \<Rightarrow> split_record list \<Rightarrow> split_record list" where
  "kept_records none_failed rs = (if none_failed then takeWhile is_part rs else [])"

definition wrote :: "('d, 'u, 'f) split_env \<Rightarrow> split_record list \<Rightarrow> ('u, 'f) splitting \<Rightarrow> stream_write list \<Rightarrow> ('u, 'f) splitting \<Rightarrow> bool" where
  "wrote env rs s ws s' \<longleftrightarrow>
     (let none = oc_empty (db_outcomes env) (sl_failures s); kept = kept_records none rs in
      (oc_empty (db_outcomes env) (sl_failures s') \<longleftrightarrow> none \<and> list_all is_part rs) \<and>
      concat (map written_bytes ws) = concat (map part_bytes kept) \<and>
      sl_minted s' = sl_minted s + 2 * length kept \<and>
      (\<exists>sections. sl_written s' = sl_written s @ sections \<and> length sections = length kept \<and>
         (\<forall>k < length kept. section_for env (sl_minted s + 2 * k) (sections ! k) (kept ! k))))"

lemma section_of_kept:
  assumes "digest_streams (db_digest env)" and "split_section_of env bytes n = (ws, Inr (sx, n'))"
  shows "n' = n + 2 \<and> section_for env n sx (Part bytes) \<and> concat (map written_bytes ws) = bytes"
proof -
  from assms(2) obtain k where
    w: "write_stream (db_digest env) (db_refuses env) (db_ids env n) \<lparr>rd_bytes = bytes, rd_fault = None\<rparr> (max (db_chunk env) 1) = (ws, Inr k)"
    and sx: "sx = \<lparr>sx_id = db_ids env (n + 1), sx_kept = k\<rparr>" "n' = n + 2"
    unfolding split_section_of_def by (auto split: prod.splits sum.splits)
  from written_whole [OF assms(1) w] sx show ?thesis by (simp add: section_for_def)
qed

lemma wrote_refl [simp]: "wrote env [] s [] s"
  by (simp add: wrote_def kept_records_def Let_def)

lemma wrote_skip:
  assumes "\<not> (oc_empty (db_outcomes env) (sl_failures s) \<and> is_part r)" and "oc_empty (db_outcomes env) f \<longleftrightarrow> False"
    and "wrote env rs (s\<lparr>sl_failures := f\<rparr>) ws s'"
  shows "wrote env (r # rs) s ws s'"
  using assms by (auto simp: wrote_def kept_records_def Let_def)

lemma wrote_Part:
  assumes "oc_empty (db_outcomes env) (sl_failures s)" and "oc_empty (db_outcomes env) f"
    and "section_for env (sl_minted s) sx (Part bytes)" and "concat (map written_bytes ws) = bytes"
    and "wrote env rs (s\<lparr>sl_written := sl_written s @ [sx], sl_failures := f, sl_minted := sl_minted s + 2\<rparr>) ws' s'"
  shows "wrote env (Part bytes # rs) s (ws @ ws') s'"
proof -
  define kept where "kept = takeWhile is_part rs"
  from assms(2,5) obtain sections where s': "oc_empty (db_outcomes env) (sl_failures s') \<longleftrightarrow> list_all is_part rs"
    "concat (map written_bytes ws') = concat (map part_bytes kept)" "sl_minted s' = sl_minted s + 2 + 2 * length kept"
    "sl_written s' = sl_written s @ sx # sections" "length sections = length kept"
    "\<forall>k < length kept. section_for env (sl_minted s + 2 + 2 * k) (sections ! k) (kept ! k)"
    by (auto simp: wrote_def kept_records_def Let_def kept_def)
  have at: "section_for env (sl_minted s + 2 * k) ((sx # sections) ! k) ((Part bytes # kept) ! k)" if "k < Suc (length kept)" for k
    using that assms(3) s'(6) by (cases k) auto
  show ?thesis
    using s' at assms(1,4) by (auto simp: wrote_def kept_records_def Let_def kept_def [symmetric] intro!: exI [of _ "sx # sections"])
qed

lemma split_write_wrote:
  assumes "outcomes_kept (db_outcomes env)" and "digest_streams (db_digest env)"
  shows "split_write env rs s = (ws, Inr s') \<Longrightarrow> wrote env rs s ws s' \<and> sl_unit s' = sl_unit s"
proof (induction rs arbitrary: s ws)
  case (Cons r rs)
  let ?oc = "db_outcomes env"
  obtain position f where took: "oc_took ?oc (sl_failures s) = (position, f)" by fastforce
  have f: "oc_empty ?oc f \<longleftrightarrow> oc_empty ?oc (sl_failures s)" using assms(1) took by (metis outcomes_kept_def snd_conv)
  have ok: "oc_empty ?oc (oc_succeed ?oc position f) \<longleftrightarrow> oc_empty ?oc (sl_failures s)"
    "\<not> oc_empty ?oc (oc_fail ?oc c a position f)" for c a using assms(1) f by (cases c; simp add: outcomes_kept_def)+
  show ?case
  proof (cases r)
    case (Part bytes)
    show ?thesis
    proof (cases "oc_empty ?oc f")
      case True
      obtain w1 o1 where sec: "split_section_of env bytes (sl_minted s) = (w1, o1)" by fastforce
      have "\<exists>b. o1 = Inr b" using Cons.prems Part True took sec by (cases o1) auto
      then obtain sx n where o1: "o1 = Inr (sx, n)" by fastforce
      note kept = section_of_kept [OF assms(2) sec [unfolded o1]]
      obtain w2 where "ws = w1 @ w2" and rest: "split_write env rs (s\<lparr>sl_written := sl_written s @ [sx],
          sl_failures := oc_succeed ?oc position f, sl_minted := sl_minted s + 2\<rparr>) = (w2, Inr s')"
        using Cons.prems Part True took sec o1 kept by (auto split: prod.splits)
      with wrote_Part [OF _ _ _ _ conjunct1 [OF Cons.IH [OF rest]]] Cons.IH [OF rest] kept True f ok Part show ?thesis by simp
    next
      case False
      with Cons.prems Part took have rest: "split_write env rs (s\<lparr>sl_failures := oc_succeed ?oc position f\<rparr>) = (ws, Inr s')" by simp
      with wrote_skip [OF _ _ conjunct1 [OF Cons.IH [OF rest]]] Cons.IH [OF rest] False f ok show ?thesis by simp
    qed
  next
    case (RefusedRecord reason)
    with Cons.prems took have rest:
      "split_write env rs (s\<lparr>sl_failures := oc_fail ?oc (refused_code, reason) (db_artifact env) position f\<rparr>) = (ws, Inr s')" by simp
    with wrote_skip [OF _ _ conjunct1 [OF Cons.IH [OF rest]]] Cons.IH [OF rest] ok RefusedRecord show ?thesis by simp
  qed
qed simp

lemma wrote_trans:
  assumes "wrote env rs s ws t" and "wrote env rs' t ws' u"
  shows "wrote env (rs @ rs') s (ws @ ws') u"
proof -
  let ?none = "\<lambda>s. oc_empty (db_outcomes env) (sl_failures s)"
  define k1 where "k1 = kept_records (?none s) rs"
  define k2 where "k2 = kept_records (?none t) rs'"
  have t: "?none t \<longleftrightarrow> ?none s \<and> list_all is_part rs" using assms(1) by (simp add: wrote_def Let_def)
  have k: "kept_records (?none s) (rs @ rs') = k1 @ k2"
  proof (cases "list_all is_part rs")
    case True
    then have all: "takeWhile is_part rs = rs" by (simp add: list_all_iff)
    show ?thesis using True t by (simp add: k1_def k2_def kept_records_def list_all_iff all del: takeWhile_eq_all_conv)
  next
    case False
    with t show ?thesis by (auto simp: k1_def k2_def kept_records_def list_all_iff takeWhile_append)
  qed
  obtain x1 where x1: "concat (map written_bytes ws) = concat (map part_bytes k1)" "sl_minted t = sl_minted s + 2 * length k1"
    "sl_written t = sl_written s @ x1" "length x1 = length k1" "\<forall>k < length k1. section_for env (sl_minted s + 2 * k) (x1 ! k) (k1 ! k)"
    using assms(1) by (auto simp: wrote_def Let_def k1_def)
  obtain x2 where x2: "?none u \<longleftrightarrow> ?none t \<and> list_all is_part rs'" "concat (map written_bytes ws') = concat (map part_bytes k2)"
    "sl_minted u = sl_minted t + 2 * length k2" "sl_written u = sl_written t @ x2" "length x2 = length k2"
    "\<forall>k < length k2. section_for env (sl_minted t + 2 * k) (x2 ! k) (k2 ! k)"
    using assms(2) by (auto simp: wrote_def Let_def k2_def)
  have at: "section_for env (sl_minted s + 2 * k) ((x1 @ x2) ! k) ((k1 @ k2) ! k)" if "k < length (k1 @ k2)" for k
  proof (cases "k < length k1")
    case False
    then obtain i where "k = length k1 + i" by (metis le_Suc_ex not_less)
    with that x2(6) x1(2,4) show ?thesis by (simp add: nth_append algebra_simps)
  qed (use x1(4,5) in \<open>simp add: nth_append\<close>)
  show ?thesis unfolding wrote_def Let_def k
    using t x1(1-4) x2(1-5) at by (intro conjI exI [of _ "x1 @ x2"] allI impI) auto
qed

lemma feed_reads_wrote:
  assumes "outcomes_kept (db_outcomes env)" and "digest_streams (db_digest env)"
  shows "feed_reads env cs fault s = (ws, Inr s') \<Longrightarrow>
    wrote env (snd (fed_records (db_unit env) (sl_unit s) (takeWhile (\<lambda>c. c \<noteq> []) cs))) s ws s' \<and>
    sl_unit s' = fst (fed_records (db_unit env) (sl_unit s) (takeWhile (\<lambda>c. c \<noteq> []) cs))"
proof (induction cs arbitrary: s ws)
  case (Cons c cs)
  show ?case
  proof (cases "c = []")
    case False
    obtain u rs where fed: "un_feed (db_unit env) (sl_unit s) c = (u, rs)" by fastforce
    obtain w1 t w2 where one: "split_write env rs (s\<lparr>sl_unit := u\<rparr>) = (w1, Inr t)" and "ws = w1 @ w2"
      and rest: "feed_reads env cs fault t = (w2, Inr s')"
      using Cons.prems False fed by (auto simp: split_feed_def split: prod.splits sum.splits)
    moreover have "wrote env rs s w1 t \<and> sl_unit t = u"
      using split_write_wrote [OF assms one] by (simp add: wrote_def)
    ultimately show ?thesis using Cons.IH [OF rest] False fed by (auto split: prod.split intro: wrote_trans)
  qed (use Cons.prems in auto)
qed (auto split: option.splits)

lemma fed_records_append:
  "fed_records un u (a @ b) = (case fed_records un u a of (u, rs) \<Rightarrow> case fed_records un u b of (u, rs') \<Rightarrow> (u, rs @ rs'))"
  by (induction a arbitrary: u) (auto split: prod.splits)

lemma feed_sections_wrote:
  assumes "outcomes_kept (db_outcomes env)" and "digest_streams (db_digest env)"
  shows "feed_sections env readings s = (ws, Inr s') \<Longrightarrow>
    wrote env (snd (fed_records (db_unit env) (sl_unit s) (chunks_read readings))) s ws s' \<and>
    sl_unit s' = fst (fed_records (db_unit env) (sl_unit s) (chunks_read readings))"
proof (induction readings arbitrary: s ws)
  case (Cons rd rest)
  then obtain cs fault where rd: "rd = Inr (cs, fault)" by (cases rd) auto
  let ?cs = "takeWhile (\<lambda>c. c \<noteq> []) cs"
  obtain w1 t w2 where one: "feed_reads env cs fault s = (w1, Inr t)" and "ws = w1 @ w2" and two: "feed_sections env rest t = (w2, Inr s')"
    using Cons.prems rd by (auto split: prod.splits sum.splits)
  moreover have "chunks_read (rd # rest) = ?cs @ chunks_read rest" by (simp add: chunks_read_def rd)
  ultimately show ?case using feed_reads_wrote [OF assms one] Cons.IH [OF two]
    by (auto simp: fed_records_append split: prod.splits intro: wrote_trans)
qed (simp add: chunks_read_def)

lemma split_whole_wrote:
  assumes "outcomes_kept (db_outcomes env)" and "digest_streams (db_digest env)"
    and "split_whole env debatched batch readings u n = (ws, Inr (out, n'))"
  shows "\<exists>s. wrote env (split_records (db_unit env) u (chunks_read readings)) (splitting_new env u n) ws s \<and>
    (if oc_empty (db_outcomes env) (sl_failures s)
     then out = Inr (split_parts debatched (db_ids env) batch (sl_written s) (sl_minted s)) \<and> n' = sl_minted s + length (sl_written s)
     else out = Inl (sl_failures s) \<and> n' = sl_minted s)"
proof -
  obtain w1 t w2 s where one: "feed_sections env readings (splitting_new env u n) = (w1, Inr t)"
    and two: "split_write env (un_end (db_unit env) (sl_unit t)) t = (w2, Inr s)" and "ws = w1 @ w2"
    and out: "if oc_empty (db_outcomes env) (sl_failures s)
     then out = Inr (split_parts debatched (db_ids env) batch (sl_written s) (sl_minted s)) \<and> n' = sl_minted s + length (sl_written s)
     else out = Inl (sl_failures s) \<and> n' = sl_minted s"
    using assms(3) by (auto simp: split_whole_def split_end_def split: prod.splits sum.splits if_splits)
  then have "wrote env (split_records (db_unit env) u (chunks_read readings)) (splitting_new env u n) ws s"
    using feed_sections_wrote [OF assms(1,2) one] split_write_wrote [OF assms(1,2) two]
    by (auto simp: split_records_def splitting_new_def split: prod.splits intro: wrote_trans)
  with out show ?thesis by blast
qed

text \<open>C27: a debatch is all or nothing, its parts in the order of the records. It makes Messages only where no
  record was refused, and then one for every record: a Section over a Stream of its own of the record's
  bytes, under an identifier of its own, its place from one and how many there are; what was
  written is the records' bytes, in order. Where any record was refused nothing is made, and what was
  written stops at the first refused.\<close>

theorem debatch_all_or_nothing:
  assumes "outcomes_kept (db_outcomes env)" and "digest_streams (db_digest env)"
    and "split_whole env debatched batch readings u n = (ws, Inr (out, n'))"
    and "split_records (db_unit env) u (chunks_read readings) = rs"
  shows "case out of
      Inl _ \<Rightarrow> \<not> list_all is_part rs \<and> concat (map written_bytes ws) = concat (map part_bytes (takeWhile is_part rs))
    | Inr ms \<Rightarrow> list_all is_part rs \<and> concat (map written_bytes ws) = concat (map part_bytes rs) \<and> length ms = length rs \<and>
        n' = n + 3 * length rs \<and>
        (\<forall>k < length rs. \<exists>sx. sx_id sx = db_ids env (n + 2 * k + 1) \<and> kp_stream (sx_kept sx) = db_ids env (n + 2 * k) \<and>
           kp_length (sx_kept sx) = of_nat (length (part_bytes (rs ! k))) \<and>
           ms ! k = debatched (db_ids env (n + 2 * length rs + k)) sx
             [(batch_value, TextValue batch), (position_value, IntegerValue (int k + 1)),
              (count_value, IntegerValue (min (int (length rs)) i64_max))])"
proof -
  let ?s0 = "splitting_new env u n"
  from split_whole_wrote [OF assms(1-3)] assms(4) obtain s where w: "wrote env rs ?s0 ws s"
    and out: "if oc_empty (db_outcomes env) (sl_failures s)
     then out = Inr (split_parts debatched (db_ids env) batch (sl_written s) (sl_minted s)) \<and> n' = sl_minted s + length (sl_written s)
     else out = Inl (sl_failures s) \<and> n' = sl_minted s" by blast
  have none: "oc_empty (db_outcomes env) (sl_failures ?s0)" using assms(1) by (simp add: splitting_new_def outcomes_kept_def)
  have e: "oc_empty (db_outcomes env) (sl_failures s) \<longleftrightarrow> list_all is_part rs" using w none by (simp add: wrote_def Let_def)
  show ?thesis
  proof (cases "list_all is_part rs")
    case True
    then have all: "takeWhile is_part rs = rs" by (simp add: list_all_iff)
    obtain x where x: "sl_written s = x" "length x = length rs" "sl_minted s = n + 2 * length rs"
      "\<forall>k < length rs. section_for env (n + 2 * k) (x ! k) (rs ! k)" "concat (map written_bytes ws) = concat (map part_bytes rs)"
      using w none by (auto simp: wrote_def Let_def kept_records_def splitting_new_def all simp del: takeWhile_eq_all_conv)
    then show ?thesis using out e True
      by (auto simp: split_parts_def section_for_def nth_enumerate_eq intro!: exI [of _ "x ! _"])
  next
    case False
    with out e w none show ?thesis by (simp add: wrote_def Let_def kept_records_def)
  qed
qed

section \<open>Units that read a Stream, not its chunks\<close>

text \<open>What \<open>Split::feed\<close> asks of a unit: the next of the bytes, in whatever pieces they come.\<close>

locale chunked_unit =
  fixes feed :: "'u \<Rightarrow> string \<Rightarrow> 'u \<times> split_record list"
  assumes feed_nothing: "feed u [] = (u, [])"
    and feed_more: "feed u (a @ b) = (case feed u a of (u, rs) \<Rightarrow> case feed u b of (u, rs') \<Rightarrow> (u, rs @ rs'))"
begin

lemma fed_concat: "un_feed un = feed \<Longrightarrow> fed_records un u cs = feed u (concat cs)"
  by (induction cs arbitrary: u) (auto simp: feed_nothing feed_more split: prod.split)

lemma records_of_bytes: "un_feed un = feed \<Longrightarrow> concat cs = concat cs' \<Longrightarrow> split_records un u cs = split_records un u cs'"
  by (simp add: split_records_def fed_concat)

end

definition lines_record :: "(string \<Rightarrow> string) \<Rightarrow> string \<Rightarrow> split_record" where
  "lines_record lossy line =
     (if CHR ''!'' \<in> set line then RefusedRecord (''the line '' @ [CHR 0x27] @ lossy line @ [CHR 0x27] @ '' is no record'') else Part line)"

definition lines_feed_byte :: "(string \<Rightarrow> string) \<Rightarrow> char \<Rightarrow> string \<times> split_record list \<Rightarrow> string \<times> split_record list" where
  "lines_feed_byte lossy byte at =
     (case at of (pending, records) \<Rightarrow>
        if byte = CHR 0x0A then ([], records @ [lines_record lossy pending]) else (pending @ [byte], records))"

definition lines_feed :: "(string \<Rightarrow> string) \<Rightarrow> string \<Rightarrow> string \<Rightarrow> string \<times> split_record list" where
  "lines_feed lossy pending chunk = fold (lines_feed_byte lossy) chunk (pending, [])"

definition lines_end :: "(string \<Rightarrow> string) \<Rightarrow> string \<Rightarrow> split_record list" where
  "lines_end lossy pending = (if pending = [] then [] else [lines_record lossy pending])"

definition lines_unit :: "(string \<Rightarrow> string) \<Rightarrow> string split_unit" where
  "lines_unit lossy = \<lparr>un_feed = lines_feed lossy, un_end = lines_end lossy\<rparr>"

lemma lines_fold:
  "fold (lines_feed_byte lossy) chunk (pending, records) =
     (case fold (lines_feed_byte lossy) chunk (pending, []) of (p, rs) \<Rightarrow> (p, records @ rs))"
proof (induction chunk arbitrary: pending records)
  case (Cons byte chunk)
  show ?case
    using Cons [of "[]" "records @ [lines_record lossy pending]"] Cons [of "[]" "[lines_record lossy pending]"]
      Cons [of "pending @ [byte]" records]
    by (simp add: lines_feed_byte_def split: prod.split)
qed simp

interpretation lines: chunked_unit "lines_feed lossy"
proof unfold_locales
  show "lines_feed lossy u [] = (u, [])" for u by (simp add: lines_feed_def)
  show "lines_feed lossy u (a @ b) = (case lines_feed lossy u a of (u, rs) \<Rightarrow> case lines_feed lossy u b of (u, rs') \<Rightarrow> (u, rs @ rs'))" for u a b
  proof -
    obtain p rs where a: "fold (lines_feed_byte lossy) a (u, []) = (p, rs)" by fastforce
    show ?thesis by (simp add: lines_feed_def a lines_fold [of lossy b p rs] split: prod.split)
  qed
qed

theorem lines_however_cut:
  assumes "concat (chunks_read readings) = concat (chunks_read readings')"
  shows "split_records (lines_unit lossy) [] (chunks_read readings) = split_records (lines_unit lossy) [] (chunks_read readings')"
  by (rule lines.records_of_bytes [OF _ assms]) (simp add: lines_unit_def)

text \<open>Two lines in chunks of three bytes, split by \<open>Lines\<close>; an outcome is a count and the failed.\<close>

definition listed_outcomes :: "(nat \<times> nat list) outcomes" where
  "listed_outcomes = \<lparr>oc_new = (\<lambda>_ _. (0, [])), oc_took = (\<lambda>(t, fs). (t + 1, (t + 1, fs))), oc_succeed = (\<lambda>_ f. f),
     oc_fail = (\<lambda>_ _ k (t, fs). (t, fs @ [k])), oc_empty = (\<lambda>(t, fs). fs = [])\<rparr>"

definition lines_env :: "(string, string, nat \<times> nat list) split_env" where
  "lines_env = \<lparr>db_digest = text_digest, db_refuses = (\<lambda>_. None), db_chunk = 3, db_ids = (\<lambda>n. n), db_unit = lines_unit id,
     db_outcomes = listed_outcomes, db_artifact = None\<rparr>"

definition two_lines :: "reading list" where
  "two_lines = [Inr ([[CHR ''o'', CHR ''n'', CHR ''e''], [CHR 0x0A, CHR ''t'', CHR ''o''], []], None)]"

definition two_split :: "stream_write list \<times> (split_error + (nat \<times> nat list + (ident \<times> nat) list) \<times> nat)" where
  "two_split = split_whole lines_env (\<lambda>i sx values. (i, length values)) ''m'' two_lines [] 0"

theorem debatch_all_or_nothing_witness:
  "\<exists>ws ms n. two_split = (ws, Inr (Inr ms, n)) \<and> length ms = 2 \<and> n = 6 \<and> concat (map written_bytes ws) = ''oneto''"
proof -
  obtain ws out where two: "two_split = (ws, out)" by fastforce
  have "snd two_split = Inr (Inr [(4, 3), (5, 3)], 6)"
    by code_simp
  with two have run: "split_whole lines_env (\<lambda>i sx values. (i, length values)) ''m'' two_lines [] 0 = (ws, Inr (Inr [(4, 3), (5, 3)], 6))"
    by (simp add: two_split_def)
  have oc: "outcomes_kept (db_outcomes lines_env)" by (auto simp: outcomes_kept_def lines_env_def listed_outcomes_def)
  have dg: "digest_streams (db_digest lines_env)" by (simp add: digest_streams_def lines_env_def text_digest_def)
  have rs: "split_records (db_unit lines_env) [] (chunks_read two_lines) = [Part ''one'', Part ''to'']" by code_simp
  from debatch_all_or_nothing [OF oc dg run rs] have "concat (map written_bytes ws) = ''oneto''" by simp
  with run show ?thesis by (intro exI [of _ ws] exI [of _ "[(4, 3), (5, 3)]"] exI [of _ 6]) (simp add: two_split_def)
qed

end
