(* ===== verification/Work_Turn.thy ===== *)
theory Work_Turn
  imports Publication Debatch
begin

text \<open>
  \<open>src/work_step/acts.rs\<close>, \<open>src/work_step/turning.rs\<close> and \<open>src/work_step/running.rs\<close>: one turn of one Instance of
  a Work Process. A Message is claimed, its Instance read, its flow advanced and every act the flow asks for
  carried out - work on a Message, Messages made one, a Message published back through routing - until it
  waits or ends, and all of it is handed on in one write. The flow is the process library's, an argument, as
  are the units, routing, the chain's limit and Xmip Storage. What a turn has made so far, the identifiers it
  minted and the Streams it wrote are its state; a failure leaves none of what it made but the Streams.
\<close>

section \<open>What a flow says\<close>

record unit_call =
  uc_module :: string
  uc_unit :: string

datatype 'a work_asked = AssignBy 'a | CallUnit unit_call | DebatchBy unit_call

record arrived =
  av_message :: ident
  av_values :: "(string \<times> string) list"
  av_keys :: "(nat \<times> string) list"

datatype event = EvDue | EvArrived arrived | EvDone nat "arrived list" | EvThrew nat string string

datatype outcome = OCompleted | OFailed string string

datatype 'a flow_act = ActWork nat "'a work_asked" ident | ActCombine nat "ident list" | ActPublish ident | ActEnded outcome

datatype flow_refused = NotWaiting | AlreadyEnded | Unfit string

record ('i, 'a) flow =
  fl_advance :: "'i \<Rightarrow> event \<Rightarrow> int \<Rightarrow> 'i \<times> (flow_refused + 'a flow_act list)"
  fl_reads :: "string list"
  fl_sets :: "string list"
  fl_new :: 'i
  fl_read :: "string \<Rightarrow> string + 'i"
  fl_form :: "'i \<Rightarrow> string"
  fl_next_due :: "'i \<Rightarrow> int option"
  fl_keys :: "'i \<Rightarrow> (nat \<times> string) list"
  fl_turns :: "'i \<Rightarrow> nat"

record thrown =
  th_code :: string
  th_reason :: string

section \<open>A Work Process this node runs\<close>

record ('i, 'a, 'u) running =
  rn_name :: string
  rn_flow :: "('i, 'a) flow"
  rn_sets :: "resolved_set list"
  rn_promote :: "message \<Rightarrow> string + promoted"
  rn_queue :: ident
  rn_call :: "unit_call \<Rightarrow> message \<Rightarrow> nat \<Rightarrow> (thrown + message list) \<times> nat"
  rn_splitter :: "unit_call \<Rightarrow> thrown + 'u"

definition no_unit :: string where "no_unit = ''no-unit''"

definition no_units_none :: "unit_call \<Rightarrow> thrown" where
  "no_units_none call = \<lparr>th_code = no_unit,
     th_reason = ''this node carries no unit '' @ quoted (uc_unit call) @ '' of '' @ quoted (uc_module call)\<rparr>"

definition no_units_call :: "unit_call \<Rightarrow> message \<Rightarrow> nat \<Rightarrow> (thrown + message list) \<times> nat" where
  "no_units_call call m n = (Inl (no_units_none call), n)"

definition no_units_splitter :: "unit_call \<Rightarrow> thrown + 'u" where
  "no_units_splitter call = Inl (no_units_none call)"

text \<open>\<open>Running::new\<close>: the sets its program follows, each among the cluster's; what reads its names is the
  routing library's gathering, which may refuse one.\<close>

fun followed_sets :: "string \<Rightarrow> resolved_set list \<Rightarrow> string list \<Rightarrow> string + resolved_set list" where
  "followed_sets name sets [] = Inr []"
| "followed_sets name sets (w # ws) =
     (case find (\<lambda>known. set_name known = w) sets of
        None \<Rightarrow> Inl (''the Work Process '' @ quoted name @ '' follows the Correlation '' @ quoted w @ '', which the cluster does not declare'')
      | Some known \<Rightarrow> (case followed_sets name sets ws of Inl e \<Rightarrow> Inl e | Inr found \<Rightarrow> Inr (known # found)))"

definition running_new ::
  "(subscriber \<Rightarrow> ident) \<Rightarrow> (resolved_set \<Rightarrow> string list) \<Rightarrow> (string list \<Rightarrow> string list \<times> (message \<Rightarrow> string + promoted)) \<Rightarrow> string \<Rightarrow>
     ('i, 'a) flow \<Rightarrow> resolved_set list \<Rightarrow> (unit_call \<Rightarrow> message \<Rightarrow> nat \<Rightarrow> (thrown + message list) \<times> nat) \<Rightarrow>
     (unit_call \<Rightarrow> thrown + 'u) \<Rightarrow> string + ('i, 'a, 'u) running" where
  "running_new queue set_reads gathering name fl sets call splitter =
     (case followed_sets name sets (fl_sets fl) of
        Inl e \<Rightarrow> Inl e
      | Inr followed \<Rightarrow>
         (case gathering (fl_reads fl @ concat (map set_reads followed)) of
            (refused # _, _) \<Rightarrow> Inl (''the Work Process '' @ quoted name @ '': '' @ refused)
          | ([], promote) \<Rightarrow>
              Inr \<lparr>rn_name = name, rn_flow = fl, rn_sets = followed, rn_promote = promote, rn_queue = queue (ToWorkProcess name),
                rn_call = call, rn_splitter = splitter\<rparr>))"

section \<open>What a turn asks of its node\<close>

record instance_record =
  ir_instance :: ident
  ir_process :: string
  ir_turns :: nat
  ir_ended :: bool
  ir_body :: string

record turn_hand_on = hand_on +
  ho_messages :: "message list"
  ho_next :: "journey list"

record turn_write =
  tw_hand_on :: turn_hand_on
  tw_instances :: "(instance_record \<times> nat) list"
  tw_keys :: "(ident \<times> ident) list"
  tw_unkeyed :: "(ident \<times> ident) list"

record ('a, 'd, 'u, 'f) work_env =
  we_cluster :: string
  we_named :: "string \<Rightarrow> ident"
  we_sends :: sends
  we_config :: send_config
  we_lease :: duration
  we_ids :: "nat \<Rightarrow> ident"
  we_now :: int
  we_promote :: "message \<Rightarrow> string + promoted"
  we_route :: "promoted \<Rightarrow> evaluation list"
  we_following :: "journey \<Rightarrow> ident \<Rightarrow> chain_cause \<Rightarrow> message_ref \<Rightarrow> string + journey"
  we_assigned :: "message \<Rightarrow> 'a \<Rightarrow> ident \<Rightarrow> message"
  we_batched :: "message \<Rightarrow> ident \<Rightarrow> (ident \<times> nat) list \<Rightarrow> message"
  we_split :: "('d, 'u, 'f) split_env"
  we_debatched :: "message \<Rightarrow> ident \<Rightarrow> split_section \<Rightarrow> (string \<times> scalar) list \<Rightarrow> message"
  we_readings :: "message \<Rightarrow> reading list"
  we_failures :: "'f \<Rightarrow> string"
  we_shown :: "ident \<Rightarrow> string"
  we_key_words :: "key_error \<Rightarrow> string"
  we_seq_words :: "seq_error \<Rightarrow> string"
  we_split_words :: "split_error \<Rightarrow> string"
  we_read_message :: "ident \<Rightarrow> string + message option"
  we_kept :: "ident \<Rightarrow> message"
  we_store :: store
  we_ledger :: ledger
  we_read_held :: "ident \<Rightarrow> string + page"
  we_read_key :: "ident \<Rightarrow> string + ident option"
  we_read_instance :: "ident \<Rightarrow> string + instance_record option"
  we_turn :: "turn_write \<Rightarrow> string + bool"
  we_hand_on :: "turn_hand_on \<Rightarrow> string + bool"

section \<open>What a turn's acts make\<close>

record made =
  md_messages :: "ident \<rightharpoonup> message"
  md_new :: "ident list"
  md_opened :: "journey list"
  md_holds :: "hold list"
  md_minted :: nat
  md_streams :: "stream_write list"

definition made_none :: "nat \<Rightarrow> stream_write list \<Rightarrow> made" where
  "made_none n streams = \<lparr>md_messages = Map.empty, md_new = [], md_opened = [], md_holds = [], md_minted = n, md_streams = streams\<rparr>"

definition made_add :: "message \<Rightarrow> made \<Rightarrow> made" where
  "made_add m md = md\<lparr>md_new := md_new md @ [mg_id m], md_messages := (md_messages md)(mg_id m \<mapsto> m)\<rparr>"

definition made_message :: "('a, 'd, 'u, 'f) work_env \<Rightarrow> ident \<Rightarrow> made \<Rightarrow> (string + message) \<times> made" where
  "made_message env i md =
     (case md_messages md i of
        Some m \<Rightarrow> (Inr m, md)
      | None \<Rightarrow>
         (case we_read_message env i of
            Inl why \<Rightarrow> (Inl why, md)
          | Inr None \<Rightarrow> (Inl (''the Ledger holds no Message '' @ decimal i), md)
          | Inr (Some m) \<Rightarrow> (Inr m, md\<lparr>md_messages := (md_messages md)(i \<mapsto> m)\<rparr>)))"

definition work_arrival :: "('i, 'a, 'u) running \<Rightarrow> ident \<Rightarrow> made \<Rightarrow> string + arrived" where
  "work_arrival rn i md =
     (case md_messages md i of
        None \<Rightarrow> Inl ''a Message the turn did not make''
      | Some m \<Rightarrow>
         (case rn_promote rn m of
            Inl why \<Rightarrow> Inl why
          | Inr promoted \<Rightarrow>
              Inr \<lparr>av_message = i, av_values = List.map_filter (\<lambda>name. map_option (Pair name) (promoted name)) (fl_reads (rn_flow rn)),
                av_keys = []\<rparr>))"

fun add_each :: "('i, 'a, 'u) running \<Rightarrow> message list \<Rightarrow> made \<Rightarrow> (string + arrived list) \<times> made" where
  "add_each rn [] md = (Inr [], md)"
| "add_each rn (m # ms) md =
     (let md = made_add m md in
      case work_arrival rn (mg_id m) md of
        Inl why \<Rightarrow> (Inl why, md)
      | Inr a \<Rightarrow> (case add_each rn ms md of (Inl why, md) \<Rightarrow> (Inl why, md) | (Inr as, md) \<Rightarrow> (Inr (a # as), md)))"

text \<open>\<open>debatch\<close>: the unit the call names, through the one splitting.\<close>

definition work_debatch ::
  "('a, 'd, 'u, 'f) work_env \<Rightarrow> ('i, 'a, 'u) running \<Rightarrow> unit_call \<Rightarrow> message \<Rightarrow> made \<Rightarrow> (string + thrown + message list) \<times> made" where
  "work_debatch env rn call m md =
     (case rn_splitter rn call of
        Inl t \<Rightarrow> (Inr (Inl t), md)
      | Inr u \<Rightarrow>
         let senv = (we_split env)\<lparr>db_ids := we_ids env,
               db_artifact := Some (''unit '' @ quoted (uc_unit call) @ '' of '' @ quoted (uc_module call))\<rparr> in
         case split_whole senv (we_debatched env m) (we_shown env (mg_id m)) (we_readings env m) u (md_minted md) of
           (ws, Inl e) \<Rightarrow> (Inl (we_split_words env e), md\<lparr>md_streams := md_streams md @ ws\<rparr>)
         | (ws, Inr (Inl failures, n)) \<Rightarrow>
             (Inr (Inl \<lparr>th_code = refused_code, th_reason = we_failures env failures\<rparr>), md\<lparr>md_streams := md_streams md @ ws, md_minted := n\<rparr>)
         | (ws, Inr (Inr parts, n)) \<Rightarrow> (Inr (Inr parts), md\<lparr>md_streams := md_streams md @ ws, md_minted := n\<rparr>))"

definition work_outcome ::
  "('a, 'd, 'u, 'f) work_env \<Rightarrow> ('i, 'a, 'u) running \<Rightarrow> 'a work_asked \<Rightarrow> message \<Rightarrow> made \<Rightarrow> (string + thrown + message list) \<times> made" where
  "work_outcome env rn asked m md =
     (case asked of
        AssignBy a \<Rightarrow> (Inr (Inr [we_assigned env m a (we_ids env (md_minted md))]), md\<lparr>md_minted := md_minted md + 1\<rparr>)
      | CallUnit call \<Rightarrow> (case rn_call rn call m (md_minted md) of (r, n) \<Rightarrow> (Inr r, md\<lparr>md_minted := n\<rparr>))
      | DebatchBy call \<Rightarrow> work_debatch env rn call m md)"

definition act_work ::
  "('a, 'd, 'u, 'f) work_env \<Rightarrow> ('i, 'a, 'u) running \<Rightarrow> nat \<Rightarrow> 'a work_asked \<Rightarrow> ident \<Rightarrow> made \<Rightarrow> (string + event) \<times> made" where
  "act_work env rn node asked on md =
     (case made_message env on md of
        (Inl why, md) \<Rightarrow> (Inl why, md)
      | (Inr m, md) \<Rightarrow>
         (case work_outcome env rn asked m md of
            (Inl why, md) \<Rightarrow> (Inl why, md)
          | (Inr (Inl t), md) \<Rightarrow> (Inr (EvThrew node (th_code t) (th_reason t)), md)
          | (Inr (Inr ms), md) \<Rightarrow>
             (case add_each rn ms md of
                (Inl why, md) \<Rightarrow> (Inl why, md)
              | (Inr as, md) \<Rightarrow> (Inr (EvDone node as), md))))"

fun made_members :: "('a, 'd, 'u, 'f) work_env \<Rightarrow> ident list \<Rightarrow> made \<Rightarrow> (string + message list) \<times> made" where
  "made_members env [] md = (Inr [], md)"
| "made_members env (i # is) md =
     (case made_message env i md of
        (Inl why, md) \<Rightarrow> (Inl why, md)
      | (Inr m, md) \<Rightarrow> (case made_members env is md of (Inl why, md) \<Rightarrow> (Inl why, md) | (Inr ms, md) \<Rightarrow> (Inr (m # ms), md)))"

definition act_combine ::
  "('a, 'd, 'u, 'f) work_env \<Rightarrow> ('i, 'a, 'u) running \<Rightarrow> nat \<Rightarrow> ident list \<Rightarrow> made \<Rightarrow> (string + event) \<times> made" where
  "act_combine env rn node is md =
     (case made_members env is md of
        (Inl why, md) \<Rightarrow> (Inl why, md)
      | (Inr [], md) \<Rightarrow> (Inr (EvDone node []), md)
      | (Inr (first # rest), md) \<Rightarrow>
         let sections = concat (map (\<lambda>m. mg_first m # mg_rest m) (first # rest));
             batch = we_batched env first (we_ids env (md_minted md)) sections;
             md = made_add batch (md\<lparr>md_minted := md_minted md + 1\<rparr>) in
         case work_arrival rn (mg_id batch) md of
           Inl why \<Rightarrow> (Inl why, md)
         | Inr a \<Rightarrow> (Inr (EvDone node [a]), md))"

text \<open>\<open>publish\<close>: a Journey for every way the Message goes, each following the turn's in its chain, held in its
  destination's queue or in its Subscription's.\<close>

fun follow_each ::
  "(ident \<Rightarrow> chain_cause \<Rightarrow> message_ref \<Rightarrow> string + journey) \<Rightarrow> (nat \<Rightarrow> ident) \<Rightarrow> message_ref \<Rightarrow> nat \<Rightarrow> (evaluation \<times> subscriber) list \<Rightarrow>
     string + opened list" where
  "follow_each following ids held n [] = Inr []"
| "follow_each following ids held n ((ev, to) # rest) =
     (case following (ids n) (cause_of (ev_subscription ev) (ev_destination ev)) held of
        Inl why \<Rightarrow> Inl why
      | Inr j \<Rightarrow>
         (case follow_each following ids held (n + 1) rest of
            Inl why \<Rightarrow> Inl why
          | Inr os \<Rightarrow> Inr (opened_one (\<lambda>_ _ _. j) held (ids n) (ev, to) # os)))"

definition published_holds :: "('a, 'd, 'u, 'f) work_env \<Rightarrow> pickup \<Rightarrow> string \<Rightarrow> opened list \<Rightarrow> hold list" where
  "published_holds env pk body os =
     (let hg = held_of pk body False os in
      hg_holds hg @ map (\<lambda>(j, to). \<lparr>h_queue = sc_queue (we_config env) to, h_journey = journey_id j, h_body = body\<rparr>) (departing hg os))"

definition act_publish ::
  "('a, 'd, 'u, 'f) work_env \<Rightarrow> pickup \<Rightarrow> journey \<Rightarrow> string \<Rightarrow> ident \<Rightarrow> made \<Rightarrow> (string + unit) \<times> made" where
  "act_publish env pk origin body i md =
     (case made_message env i md of
        (Inl why, md) \<Rightarrow> (Inl why, md)
      | (Inr m, md) \<Rightarrow>
         (case we_promote env m of
            Inl why \<Rightarrow> (Inl why, md)
          | Inr promoted \<Rightarrow>
             let ws = ways pk (we_route env promoted) in
             (case follow_each (we_following env origin) (we_ids env) (mg_id m, fst (mg_first m)) (md_minted md) ws of
                Inl why \<Rightarrow> (Inl why, md)
              | Inr os \<Rightarrow>
                 if os = [] then (Inl (''the Message '' @ we_shown env (mg_id m) @ '' it published matched no Subscription''), md)
                 else
                   let md = md\<lparr>md_minted := md_minted md + length ws, md_new := (if i \<in> set (md_new md) then md_new md else md_new md @ [i])\<rparr> in
                   case delivered (we_sends env) (we_ids env) (md_minted md) os of
                     (os, n) \<Rightarrow>
                      (case places_of (we_named env) (we_cluster env) (we_sends env) promoted os of
                         Inl e \<Rightarrow> (Inl (we_key_words env e), md)
                       | Inr (os, at_places) \<Rightarrow>
                           (Inr (), md\<lparr>md_minted := n, md_holds := md_holds md @ at_places @ published_holds env pk body os,
                                     md_opened := md_opened md @ map op_journey os\<rparr>)))))"

section \<open>The Instance advanced\<close>

definition most_acts :: nat where "most_acts = 10000"

record making =
  mk_events :: "event list"
  mk_ended :: "outcome option"
  mk_carried :: nat
  mk_made :: made

definition act_once ::
  "('a, 'd, 'u, 'f) work_env \<Rightarrow> ('i, 'a, 'u) running \<Rightarrow> pickup \<Rightarrow> journey \<Rightarrow> string \<Rightarrow> 'a flow_act \<Rightarrow> making \<Rightarrow> (string + unit) \<times> making" where
  "act_once env rn pk j body a mk =
     (let follows = (\<lambda>r. case r of
            (Inl why, md) \<Rightarrow> (Inl why, mk\<lparr>mk_made := md\<rparr>)
          | (Inr ev, md) \<Rightarrow> (Inr (), mk\<lparr>mk_made := md, mk_events := ev # mk_events mk\<rparr>)) in
      case a of
        ActWork node asked on \<Rightarrow> follows (act_work env rn node asked on (mk_made mk))
      | ActCombine node is \<Rightarrow> follows (act_combine env rn node is (mk_made mk))
      | ActPublish i \<Rightarrow> (case act_publish env pk j body i (mk_made mk) of (r, md) \<Rightarrow> (r, mk\<lparr>mk_made := md\<rparr>))
      | ActEnded outcome \<Rightarrow> (Inr (), mk\<lparr>mk_ended := Some outcome\<rparr>))"

fun carry_out ::
  "('a, 'd, 'u, 'f) work_env \<Rightarrow> ('i, 'a, 'u) running \<Rightarrow> pickup \<Rightarrow> journey \<Rightarrow> string \<Rightarrow> 'a flow_act list \<Rightarrow> making \<Rightarrow> (string + unit) \<times> making" where
  "carry_out env rn pk j body [] mk = (Inr (), mk)"
| "carry_out env rn pk j body (a # as) mk =
     (let mk = mk\<lparr>mk_carried := mk_carried mk + 1\<rparr> in
      if most_acts < mk_carried mk then (Inl (''it asked for more than '' @ decimal most_acts @ '' acts''), mk)
      else case act_once env rn pk j body a mk of
             (Inl why, mk) \<Rightarrow> (Inl why, mk)
           | (Inr _, mk) \<Rightarrow> carry_out env rn pk j body as mk)"

text \<open>Every act carried out counts, and asks for at most one event.\<close>

lemma act_once_counts:
  "act_once env rn pk j body a mk = (r, mk') \<Longrightarrow> mk_carried mk' = mk_carried mk \<and> length (mk_events mk') \<le> Suc (length (mk_events mk))"
  by (cases a) (auto simp: act_once_def Let_def split: sum.splits prod.splits)

lemma carry_out_counts:
  "carry_out env rn pk j body as mk = (Inr x, mk') \<Longrightarrow> mk_carried mk' = mk_carried mk + length as \<and>
   (as \<noteq> [] \<longrightarrow> mk_carried mk' \<le> most_acts) \<and> length (mk_events mk') \<le> length (mk_events mk) + length as"
proof (induction as arbitrary: mk)
  case (Cons a as)
  let ?mk = "mk\<lparr>mk_carried := mk_carried mk + 1\<rparr>"
  obtain r mk1 where one: "act_once env rn pk j body a ?mk = (r, mk1)" by fastforce
  have rest: "carry_out env rn pk j body as mk1 = (Inr x, mk')" and "mk_carried mk + 1 \<le> most_acts"
    using Cons.prems one by (cases r; auto simp: Let_def split: if_splits)+
  with Cons.IH [OF rest] act_once_counts [OF one] show ?case by (cases "as = []") auto
qed simp

lemma carry_out_fewer:
  assumes "carry_out env rn pk j body as (mk\<lparr>mk_events := butlast (mk_events mk)\<rparr>) = (Inr x, mk')" and "mk_events mk \<noteq> []"
  shows "(most_acts - mk_carried mk') + length (mk_events mk') < (most_acts - mk_carried mk) + length (mk_events mk)"
proof -
  obtain n where "length (mk_events mk) = Suc n" using assms(2) by (cases "mk_events mk") auto
  with carry_out_counts [OF assms(1)] show ?thesis by (cases "as = []") auto
qed

text \<open>\<open>advance\<close>'s loop: the acts that may yet be carried out and the events waiting grow fewer.\<close>

function advance_loop ::
  "('a, 'd, 'u, 'f) work_env \<Rightarrow> ('i, 'a, 'u) running \<Rightarrow> pickup \<Rightarrow> journey \<Rightarrow> string \<Rightarrow> 'i \<Rightarrow> making \<Rightarrow>
     (flow_refused + outcome option) \<times> 'i \<times> making" where
  "advance_loop env rn pk j body inst mk =
     (if mk_events mk = [] then (Inr (mk_ended mk), inst, mk)
      else case fl_advance (rn_flow rn) inst (last (mk_events mk)) (we_now env) of
             (inst, Inl refused) \<Rightarrow> (Inl refused, inst, mk)
           | (inst, Inr acts) \<Rightarrow>
              (case carry_out env rn pk j body acts (mk\<lparr>mk_events := butlast (mk_events mk)\<rparr>) of
                 (Inl why, mk) \<Rightarrow> (Inl (Unfit why), inst, mk)
               | (Inr _, mk) \<Rightarrow> advance_loop env rn pk j body inst mk))"
  by pat_completeness auto

termination
  by (relation "measure (\<lambda>(env, rn, pk, j, body, inst, mk). (most_acts - mk_carried mk) + length (mk_events mk))")
    (auto dest: carry_out_fewer [OF sym])

declare advance_loop.simps [simp del]

definition work_advance ::
  "('a, 'd, 'u, 'f) work_env \<Rightarrow> ('i, 'a, 'u) running \<Rightarrow> pickup \<Rightarrow> journey \<Rightarrow> string \<Rightarrow> 'i \<Rightarrow> event \<Rightarrow> made \<Rightarrow>
     (flow_refused + outcome option) \<times> 'i \<times> made" where
  "work_advance env rn pk j body inst ev md =
     (case advance_loop env rn pk j body inst \<lparr>mk_events = [ev], mk_ended = None, mk_carried = 0, mk_made = md\<rparr> of
        (r, inst, mk) \<Rightarrow> (r, inst, mk_made mk))"

section \<open>One turn\<close>

definition claim_anothers :: string where "claim_anothers = ''its claim was another'' @ [CHR 0x27] @ ''s''"

datatype turned = TDone | TWaits string | TFailed string | TUnwritten string

text \<open>A turn under way: the claim, what its holder keeps beside the Message, and its place in its Work Process's
  sequence with whether a failure lets it go.\<close>

record taking =
  tg_claim :: claim
  tg_body :: string
  tg_point :: "(ident \<times> bool) option"

definition work_correlation :: "('a, 'd, 'u, 'f) work_env \<Rightarrow> ('i, 'a, 'u) running \<Rightarrow> nat \<times> string \<Rightarrow> ident" where
  "work_correlation env rn key =
     (let name = (if fst key < length (rn_sets rn) then set_name (rn_sets rn ! fst key) else []) in
      we_named env (we_cluster env @ ''/work-process/'' @ rn_name rn @ ''/correlation/'' @ name @ ''/'' @ snd key))"

definition work_keys :: "('i, 'a, 'u) running \<Rightarrow> journey \<Rightarrow> message \<Rightarrow> string + (nat \<times> string) list" where
  "work_keys rn j m =
     (case rn_promote rn m of
        Inl why \<Rightarrow> Inl why
      | Inr promoted \<Rightarrow>
          Inr (List.map_filter (\<lambda>(k, st). case set_text st j promoted (rn_name rn) of Inl _ \<Rightarrow> None | Inr key \<Rightarrow> Some (min k u32_max, key))
                 (enumerate 0 (rn_sets rn))))"

fun work_instance ::
  "('a, 'd, 'u, 'f) work_env \<Rightarrow> ('i, 'a, 'u) running \<Rightarrow> journey \<Rightarrow> (nat \<times> string) list \<Rightarrow> string + ident \<times> instance_record option" where
  "work_instance env rn j [] =
     (case we_read_instance env (journey_id j) of Inl why \<Rightarrow> Inl why | Inr record \<Rightarrow> Inr (journey_id j, record))"
| "work_instance env rn j (key # keys) =
     (case we_read_key env (work_correlation env rn key) of
        Inl why \<Rightarrow> Inl why
      | Inr (Some i) \<Rightarrow> (case we_read_instance env i of Inl why \<Rightarrow> Inl why | Inr record \<Rightarrow> Inr (i, record))
      | Inr None \<Rightarrow> work_instance env rn j keys)"

definition work_hand_on :: "taking \<Rightarrow> journey \<Rightarrow> made \<Rightarrow> turn_hand_on" where
  "work_hand_on tg j md =
     \<lparr>ho_claim = tg_claim tg, ho_result = j, ho_leaves = [], ho_queued = md_holds md, ho_requeued = [], ho_failed = None,
      ho_cleared = [], ho_waits = None, ho_kept_for = None,
      ho_messages = List.map_filter (md_messages md) (md_new md), ho_next = md_opened md\<rparr>"

text \<open>\<open>written\<close>: where the Journey is left, and the Instance and its keys.\<close>

definition waits_after :: "int \<Rightarrow> int \<Rightarrow> duration" where
  "waits_after due now = (if 0 \<le> due - now \<and> due - now < 2 ^ 64 then nat (due - now) else 0)"

definition left_at :: "('i, 'a, 'u) running \<Rightarrow> outcome option \<Rightarrow> int option \<Rightarrow> int \<Rightarrow> turn_hand_on \<Rightarrow> journey_state \<times> turn_hand_on" where
  "left_at rn ended due now ho =
     (case (ended, due) of
        (Some (OFailed code reason), _) \<Rightarrow>
          (Failed, ho\<lparr>ho_failed := Some (rn_queue rn, rn_name rn @ '' threw '' @ code @ '': '' @ reason)\<rparr>)
      | (_, Some at) \<Rightarrow> (JWaiting, ho\<lparr>ho_waits := Some (rn_queue rn, waits_after at now)\<rparr>)
      | _ \<Rightarrow> (Completed, ho\<lparr>ho_leaves := ho_leaves ho @ [rn_queue rn]\<rparr>))"

definition leaves_point :: "taking \<Rightarrow> journey_state \<Rightarrow> ident list" where
  "leaves_point tg state =
     (case tg_point tg of
        None \<Rightarrow> []
      | Some (point, skips) \<Rightarrow> if state = Completed \<or> (state = Failed \<and> skips) then [point] else [])"

definition work_written ::
  "('a, 'd, 'u, 'f) work_env \<Rightarrow> ('i, 'a, 'u) running \<Rightarrow> taking \<Rightarrow> journey \<Rightarrow> ident \<times> nat \<Rightarrow> 'i \<Rightarrow> outcome option \<Rightarrow> made \<Rightarrow> turn_write" where
  "work_written env rn tg j at inst ended md =
     (let j = j\<lparr>j_work_process := Some (rn_name rn)\<rparr>;
          due = (if ended = None then fl_next_due (rn_flow rn) inst else None);
          (state, ho) = left_at rn ended due (we_now env) (work_hand_on tg j md);
          owned = map (\<lambda>key. (work_correlation env rn key, fst at)) (fl_keys (rn_flow rn) inst) in
      \<lparr>tw_hand_on = ho\<lparr>ho_leaves := ho_leaves ho @ leaves_point tg state, ho_result := j\<lparr>j_state := state\<rparr>\<rparr>,
       tw_instances = [(\<lparr>ir_instance = fst at, ir_process = rn_name rn, ir_turns = max (fl_turns (rn_flow rn) inst) (snd at + 1),
          ir_ended = (ended \<noteq> None), ir_body = fl_form (rn_flow rn) inst\<rparr>, snd at)],
       tw_keys = (if ended = None then owned else []),
       tw_unkeyed = (if ended = None then [] else owned)\<rparr>)"

text \<open>\<open>take\<close>: the turn ready to write, nothing where its Instance does not take it now, or why it fails; the
  Streams written beside each.\<close>

definition instance_of :: "('i, 'a, 'u) running \<Rightarrow> instance_record option \<Rightarrow> string + 'i" where
  "instance_of rn record =
     (case record of
        Some r \<Rightarrow> if ir_ended r then Inr (fl_new (rn_flow rn)) else fl_read (rn_flow rn) (ir_body r)
      | None \<Rightarrow> Inr (fl_new (rn_flow rn)))"

definition event_of :: "('i, 'a, 'u) running \<Rightarrow> journey \<Rightarrow> ident \<Rightarrow> (nat \<times> string) list \<Rightarrow> made \<Rightarrow> string + event" where
  "event_of rn j m keys md =
     (if j_state j = JWaiting then Inr EvDue
      else case work_arrival rn m md of Inl why \<Rightarrow> Inl why | Inr a \<Rightarrow> Inr (EvArrived (a\<lparr>av_keys := keys\<rparr>)))"

definition work_take ::
  "('a, 'd, 'u, 'f) work_env \<Rightarrow> ('i, 'a, 'u) running \<Rightarrow> pickup \<Rightarrow> taking \<Rightarrow> journey \<Rightarrow> message \<Rightarrow> nat \<Rightarrow> (string + turn_write option) \<times> stream_write list" where
  "work_take env rn pk tg j m n =
     (case work_keys rn j m of
        Inl why \<Rightarrow> (Inl why, [])
      | Inr keys \<Rightarrow>
     (case work_instance env rn j keys of
        Inl why \<Rightarrow> (Inl why, [])
      | Inr (i, record) \<Rightarrow>
     (case instance_of rn record of
        Inl why \<Rightarrow> (Inl why, [])
      | Inr inst \<Rightarrow>
      let over = (case record of None \<Rightarrow> 0 | Some r \<Rightarrow> ir_turns r);
          md = (made_none n [])\<lparr>md_messages := [mg_id m \<mapsto> m]\<rparr> in
     (case event_of rn j (mg_id m) keys md of
        Inl why \<Rightarrow> (Inl why, [])
      | Inr ev \<Rightarrow>
     (case work_advance env rn pk j (tg_body tg) inst ev md of
        (Inl NotWaiting, inst, md) \<Rightarrow> (Inr None, md_streams md)
      | (Inl (Unfit why), inst, md) \<Rightarrow> (Inl why, md_streams md)
      | (Inl AlreadyEnded, inst, md) \<Rightarrow> (Inr (Some (work_written env rn tg j (i, over) inst (Some OCompleted) md)), md_streams md)
      | (Inr ended, inst, md) \<Rightarrow> (Inr (Some (work_written env rn tg j (i, over) inst ended md)), md_streams md))))))"

definition failed_hand_on :: "('i, 'a, 'u) running \<Rightarrow> taking \<Rightarrow> journey \<Rightarrow> string \<Rightarrow> turn_hand_on" where
  "failed_hand_on rn tg j why =
     (work_hand_on tg (j\<lparr>j_state := Failed, j_work_process := Some (rn_name rn)\<rparr>) (made_none 0 []))\<lparr>ho_failed := Some (rn_queue rn, why)\<rparr>"

text \<open>What a turn did: how it ended, the write it asked for or the failure it asked to be kept, whether it gave its
  claim back, the Streams its splitting wrote, and what is remembered of the sequences headed.\<close>

record turn_run =
  tn_turned :: turned
  tn_write :: "turn_write option"
  tn_failed :: "turn_hand_on option"
  tn_released :: bool
  tn_streams :: "stream_write list"
  tn_known :: headed

definition turn_released :: "string \<Rightarrow> headed \<Rightarrow> turn_run" where
  "turn_released why known =
     \<lparr>tn_turned = TWaits why, tn_write = None, tn_failed = None, tn_released = True, tn_streams = [], tn_known = known\<rparr>"

definition turn_ends :: "turned \<Rightarrow> headed \<Rightarrow> turn_run" where
  "turn_ends t known = \<lparr>tn_turned = t, tn_write = None, tn_failed = None, tn_released = False, tn_streams = [], tn_known = known\<rparr>"

text \<open>The end of \<open>turn\<close>: what was taken written, or the failure.\<close>

definition turn_writes ::
  "('a, 'd, 'u, 'f) work_env \<Rightarrow> ('i, 'a, 'u) running \<Rightarrow> taking \<Rightarrow> journey \<Rightarrow> headed \<Rightarrow> (string + turn_write option) \<times> stream_write list \<Rightarrow> turn_run" where
  "turn_writes env rn tg j known took =
     (case took of
        (Inr (Some w), streams) \<Rightarrow>
          (case we_turn env w of
             Inr True \<Rightarrow> (turn_ends TDone known)\<lparr>tn_write := Some w, tn_streams := streams\<rparr>
           | Inr False \<Rightarrow> (turn_released ''its Instance moved on since it was read, or another took its key'' known)
               \<lparr>tn_write := Some w, tn_streams := streams\<rparr>
           | Inl why \<Rightarrow> (turn_ends (TUnwritten why) known)\<lparr>tn_write := Some w, tn_streams := streams\<rparr>)
      | (Inr None, streams) \<Rightarrow> (turn_released ''no step of its Instance waits for it'' known)\<lparr>tn_streams := streams\<rparr>
      | (Inl why, streams) \<Rightarrow>
          let ho = failed_hand_on rn tg j why in
          (turn_ends (case we_hand_on env ho of
             Inr True \<Rightarrow> TFailed why
           | Inr False \<Rightarrow> TWaits claim_anothers
           | Inl failed \<Rightarrow> TUnwritten failed) known)\<lparr>tn_failed := Some ho, tn_streams := streams\<rparr>)"

definition turn_placed ::
  "('a, 'd, 'u, 'f) work_env \<Rightarrow> ('i, 'a, 'u) running \<Rightarrow> pickup \<Rightarrow> claim \<Rightarrow> hold \<Rightarrow> journey \<Rightarrow> message \<Rightarrow> headed \<Rightarrow> turn_run" where
  "turn_placed env rn pk c h j m known =
     (let point = (case j_sequences j of [] \<Rightarrow> None | sq # _ \<Rightarrow> Some (seq_queue sq, seq_skips sq));
          tg = \<lparr>tg_claim = c, tg_body = h_body h, tg_point = point\<rparr>;
          (ahead, known) = (case point of
             None \<Rightarrow> (Inr True, known)
           | Some (queue, _) \<Rightarrow> heads (we_read_held env) known queue (h_journey h)) in
      case ahead of
        Inl why \<Rightarrow> turn_released why known
      | Inr False \<Rightarrow> turn_released ''it waits behind another at its Work Process'' known
      | Inr True \<Rightarrow> turn_writes env rn tg j known (work_take env rn pk tg j m 1))"

definition turn ::
  "('a, 'd, 'u, 'f) work_env \<Rightarrow> ('i, 'a, 'u) running \<Rightarrow> pickup \<Rightarrow> hold \<Rightarrow> headed \<Rightarrow> turn_run" where
  "turn env rn pk h known =
     (case sr_claim (we_store env) (h_journey h) of
        Inr None \<Rightarrow> turn_ends (TWaits ''another holds it'') known
      | Inl why \<Rightarrow> turn_ends (TUnwritten why) known
      | Inr (Some c) \<Rightarrow>
         (case pass_read (we_store env) (h_journey h) (h_body h) of
            Inl why \<Rightarrow> turn_released why known
          | Inr (Waiting j m facts) \<Rightarrow>
             (case heading (we_named env) (we_cluster env) (we_sends env) (we_promote env (we_kept env m)) (we_ledger env) c (we_lease env)
                     (ToWorkProcess (rn_name rn)) j known of
                (Inl e, j, known) \<Rightarrow> turn_released (we_seq_words env e) known
              | (Inr Behind, j, known) \<Rightarrow> turn_released ''its Stream waits behind another'' known
              | (Inr Lost, j, known) \<Rightarrow> turn_ends (TWaits claim_anothers) known
              | (Inr Placed, j, known) \<Rightarrow> turn_placed env rn pk c h j (we_kept env m) known)
          | Inr _ \<Rightarrow> turn_released ''it is not one to take a turn of'' known))"

section \<open>What a turn opened is kept\<close>

text \<open>Every Journey a turn opened is kept in a queue: its destination's, or its Subscription's where it holds it.\<close>

definition made_kept :: "('a, 'd, 'u, 'f) work_env \<Rightarrow> pickup \<Rightarrow> string \<Rightarrow> made \<Rightarrow> bool" where
  "made_kept env pk body md \<longleftrightarrow>
     (\<exists>os. md_opened md = map op_journey os \<and> (\<forall>one \<in> set os. kept_hold (we_config env) pk body one \<in> set (md_holds md)))"

definition same_opened :: "made \<Rightarrow> made \<Rightarrow> bool" where
  "same_opened md md' \<longleftrightarrow> md_opened md' = md_opened md \<and> md_holds md' = md_holds md"

lemma same_opened_refl [simp]: "same_opened md md" by (simp add: same_opened_def)

lemma same_opened_trans: "same_opened a b \<Longrightarrow> same_opened b c \<Longrightarrow> same_opened a c" by (simp add: same_opened_def)

lemma made_kept_same: "same_opened md md' \<Longrightarrow> made_kept env pk body md \<Longrightarrow> made_kept env pk body md'"
  by (simp add: made_kept_def same_opened_def)

lemma made_message_same: "made_message env i md = (r, md') \<Longrightarrow> same_opened md md'"
  by (auto simp: made_message_def same_opened_def split: option.splits sum.splits)

lemma made_add_same [simp]: "same_opened md (made_add m md)"
  by (simp add: made_add_def same_opened_def)

lemma add_each_same: "add_each rn ms md = (r, md') \<Longrightarrow> same_opened md md'"
proof (induction ms arbitrary: md r md')
  case (Cons m ms)
  obtain r1 md1 where rest: "add_each rn ms (made_add m md) = (r1, md1)" by fastforce
  have "same_opened md md1" by (rule same_opened_trans [OF made_add_same Cons.IH [OF rest]])
  with Cons.prems rest show ?case by (auto simp: Let_def split: sum.splits)
qed simp

lemma work_outcome_same: "work_outcome env rn asked m md = (r, md') \<Longrightarrow> same_opened md md'"
  by (cases asked) (auto simp: work_outcome_def work_debatch_def same_opened_def Let_def split: sum.splits prod.splits)

lemma act_work_same:
  assumes "act_work env rn node asked on md = (r, md')" shows "same_opened md md'"
proof -
  obtain r1 md1 where one: "made_message env on md = (r1, md1)" by fastforce
  show ?thesis
  proof (cases r1)
    case (Inr m)
    obtain r2 md2 where two: "work_outcome env rn asked m md1 = (r2, md2)" by fastforce
    have s2: "same_opened md md2" by (rule same_opened_trans [OF made_message_same [OF one] work_outcome_same [OF two]])
    show ?thesis
    proof (cases "\<exists>ms. r2 = Inr (Inr ms)")
      case True
      then obtain ms where r2: "r2 = Inr (Inr ms)" by blast
      obtain r3 md3 where three: "add_each rn ms md2 = (r3, md3)" by fastforce
      have "md' = md3" using assms one Inr two r2 three by (cases r3) (simp_all add: act_work_def)
      with same_opened_trans [OF s2 add_each_same [OF three]] show ?thesis by simp
    next
      case False
      then have "md' = md2" using assms one Inr two by (cases r2) (auto simp: act_work_def split: sum.splits)
      with s2 show ?thesis by simp
    qed
  qed (use assms one made_message_same [OF one] in \<open>simp add: act_work_def\<close>)
qed

lemma made_members_same: "made_members env is md = (r, md') \<Longrightarrow> same_opened md md'"
proof (induction "is" arbitrary: md r md')
  case (Cons i "is")
  obtain r1 md1 where one: "made_message env i md = (r1, md1)" by fastforce
  obtain r2 md2 where two: "made_members env is md1 = (r2, md2)" by fastforce
  have "same_opened md md1" "same_opened md md2"
    using made_message_same [OF one] same_opened_trans [OF made_message_same [OF one] Cons.IH [OF two]] by simp_all
  with Cons.prems one two show ?case by (auto split: sum.splits)
qed simp

lemma act_combine_same:
  assumes "act_combine env rn node is md = (r, md')" shows "same_opened md md'"
proof -
  obtain r1 md1 where one: "made_members env is md = (r1, md1)" by fastforce
  have "same_opened md1 md'"
    using assms one by (auto simp: act_combine_def Let_def same_opened_def made_add_def split: sum.splits list.splits)
  with made_members_same [OF one] show ?thesis by (rule same_opened_trans)
qed

lemma published_holds_kept: "one \<in> set os \<Longrightarrow> kept_hold (we_config env) pk body one \<in> set (published_holds env pk body os)"
  using held_of_holds [of pk body os "we_config env"] departing_rest [of pk body os]
  by (auto simp: published_holds_def Let_def kept_hold_def kept_in_def)

lemma act_publish_kept:
  assumes "act_publish env pk origin body i md = (Inr x, md')" and "made_kept env pk body md"
  shows "made_kept env pk body md'"
proof -
  obtain r1 md1 where one: "made_message env i md = (r1, md1)" by fastforce
  have k: "made_kept env pk body md1" by (rule made_kept_same [OF made_message_same [OF one] assms(2)])
  obtain os hs where "md_opened md' = md_opened md1 @ map op_journey os" "md_holds md' = md_holds md1 @ hs @ published_holds env pk body os"
    using assms(1) one by (auto simp: act_publish_def Let_def split: sum.splits prod.splits if_splits)
  moreover from k obtain os0 where "md_opened md1 = map op_journey os0" "\<forall>one \<in> set os0. kept_hold (we_config env) pk body one \<in> set (md_holds md1)"
    by (auto simp: made_kept_def)
  ultimately show ?thesis using published_holds_kept [of _ os env pk body]
    unfolding made_kept_def by (intro exI [of _ "os0 @ os"]) auto
qed

lemma act_once_kept:
  assumes "act_once env rn pk j body a mk = (Inr x, mk')" and "made_kept env pk body (mk_made mk)"
  shows "made_kept env pk body (mk_made mk')"
proof (cases a)
  case (ActWork node asked on)
  with assms made_kept_same act_work_same show ?thesis
    by (fastforce simp: act_once_def Let_def split: prod.splits sum.splits)
next
  case (ActCombine node ms)
  with assms made_kept_same act_combine_same show ?thesis
    by (fastforce simp: act_once_def Let_def split: prod.splits sum.splits)
next
  case (ActPublish i)
  with assms act_publish_kept [of env pk j body i "mk_made mk"] show ?thesis by (auto simp: act_once_def Let_def split: prod.splits)
next
  case (ActEnded outcome)
  with assms show ?thesis by (auto simp: act_once_def Let_def)
qed

lemma carry_out_kept:
  "carry_out env rn pk j body as mk = (Inr x, mk') \<Longrightarrow> made_kept env pk body (mk_made mk) \<Longrightarrow> made_kept env pk body (mk_made mk')"
proof (induction as arbitrary: mk)
  case (Cons a as)
  let ?mk = "mk\<lparr>mk_carried := mk_carried mk + 1\<rparr>"
  obtain r mk1 where one: "act_once env rn pk j body a ?mk = (r, mk1)" by fastforce
  then obtain u where r: "r = Inr u" and rest: "carry_out env rn pk j body as mk1 = (Inr x, mk')"
    using Cons.prems one by (cases r) (auto simp: Let_def split: if_splits)
  have "made_kept env pk body (mk_made mk1)" by (rule act_once_kept [OF one [unfolded r]]) (use Cons.prems in simp)
  with Cons.IH [OF rest] show ?case by simp
qed simp

lemma advance_loop_kept:
  "advance_loop env rn pk j body inst mk = (r, inst', mk') \<Longrightarrow> (\<forall>why. r \<noteq> Inl (Unfit why)) \<Longrightarrow> made_kept env pk body (mk_made mk) \<Longrightarrow>
   made_kept env pk body (mk_made mk')"
proof (induction env rn pk j body inst mk rule: advance_loop.induct)
  case (1 env rn pk j body inst mk)
  show ?case
  proof (cases "mk_events mk = []")
    case False
    obtain i1 r1 where adv: "fl_advance (rn_flow rn) inst (last (mk_events mk)) (we_now env) = (i1, r1)" by fastforce
    show ?thesis
    proof (cases r1)
      case (Inr acts)
      obtain r2 mk2 where out: "carry_out env rn pk j body acts (mk\<lparr>mk_events := butlast (mk_events mk)\<rparr>) = (r2, mk2)" by fastforce
      show ?thesis
      proof (cases r2)
        case (Inr u)
        have "advance_loop env rn pk j body i1 mk2 = (r, inst', mk')"
          using "1.prems"(1) False adv \<open>r1 = Inr acts\<close> out Inr by (subst (asm) advance_loop.simps) simp
        moreover have "made_kept env pk body (mk_made mk2)" by (rule carry_out_kept [OF out [unfolded Inr]]) (use "1.prems"(3) in simp)
        ultimately show ?thesis using "1.IH" [OF False adv [symmetric] _ out [symmetric]] "1.prems"(2) \<open>r1 = Inr acts\<close> Inr by simp
      next
        case (Inl why)
        then show ?thesis using "1.prems" False adv \<open>r1 = Inr acts\<close> out by (subst (asm) advance_loop.simps) auto
      qed
    qed (use "1.prems" False adv in \<open>subst (asm) advance_loop.simps, auto\<close>)
  qed (use "1.prems" in \<open>subst (asm) advance_loop.simps, auto\<close>)
qed

section \<open>One write of everything a turn made\<close>

text \<open>Where a Journey is left by a hand-on: out of the queue and done, waiting in it for its time, or failed in it.\<close>

definition left_once :: "ident \<Rightarrow> turn_hand_on \<Rightarrow> bool" where
  "left_once q ho =
     (case j_state (ho_result ho) of
        Completed \<Rightarrow> q \<in> set (ho_leaves ho) \<and> ho_failed ho = None \<and> ho_waits ho = None
      | JWaiting \<Rightarrow> ho_leaves ho = [] \<and> ho_failed ho = None \<and> map_option fst (ho_waits ho) = Some q
      | Failed \<Rightarrow> map_option fst (ho_failed ho) = Some q \<and> ho_waits ho = None
      | _ \<Rightarrow> False)"

text \<open>An Instance written over what was read of it.\<close>

definition written_over :: "('a, 'd, 'u, 'f) work_env \<Rightarrow> turn_write \<Rightarrow> bool" where
  "written_over env w \<longleftrightarrow>
     (\<exists>r over. tw_instances w = [(r, over)] \<and> over < ir_turns r \<and>
        (we_read_instance env (ir_instance r) = Inr None \<and> over = 0 \<or>
         (\<exists>was. we_read_instance env (ir_instance r) = Inr (Some was) \<and> over = ir_turns was)) \<and>
        (if ir_ended r then tw_keys w = [] else tw_unkeyed w = []) \<and>
        snd ` set (tw_keys w) \<subseteq> {ir_instance r} \<and> snd ` set (tw_unkeyed w) \<subseteq> {ir_instance r})"

lemma work_instance_read:
  "work_instance env rn j keys = Inr (i, record) \<Longrightarrow> we_read_instance env i = Inr record"
  by (induction keys) (auto split: sum.splits option.splits)

lemma left_at_once:
  assumes "left_at rn ended due now (work_hand_on tg j md) = (state, ho)"
  shows "left_once (rn_queue rn) (ho\<lparr>ho_leaves := ho_leaves ho @ leaves_point tg state, ho_result := j\<lparr>j_state := state\<rparr>\<rparr>)"
  using assms
  by (auto simp: left_at_def left_once_def work_hand_on_def leaves_point_def split: option.splits outcome.splits)

lemma left_at_kept:
  "left_at rn ended due now ho = (state, ho') \<Longrightarrow> ho_claim ho' = ho_claim ho \<and> ho_next ho' = ho_next ho \<and> ho_queued ho' = ho_queued ho"
  by (auto simp: left_at_def split: option.splits outcome.splits)

lemma work_written_facts:
  assumes "w = work_written env rn tg j (i, over) inst ended md" and "we_read_instance env i = Inr record"
    and "over = (case record of None \<Rightarrow> 0 | Some r \<Rightarrow> ir_turns r)" and "made_kept env pk (tg_body tg) md"
  shows "ho_claim (tw_hand_on w) = tg_claim tg" and "left_once (rn_queue rn) (tw_hand_on w)" and "written_over env w"
    and "\<exists>os. ho_next (tw_hand_on w) = map op_journey os \<and>
      (\<forall>one \<in> set os. kept_hold (we_config env) pk (tg_body tg) one \<in> set (ho_queued (tw_hand_on w)))"
proof -
  let ?j = "j\<lparr>j_work_process := Some (rn_name rn)\<rparr>" and ?due = "if ended = None then fl_next_due (rn_flow rn) inst else None"
  obtain state ho where l: "left_at rn ended ?due (we_now env) (work_hand_on tg ?j md) = (state, ho)" by fastforce
  have w: "tw_hand_on w = ho\<lparr>ho_leaves := ho_leaves ho @ leaves_point tg state, ho_result := ?j\<lparr>j_state := state\<rparr>\<rparr>"
    unfolding assms(1) work_written_def Let_def l by simp
  show "ho_claim (tw_hand_on w) = tg_claim tg" unfolding w using left_at_kept [OF l] by (simp add: work_hand_on_def)
  show "left_once (rn_queue rn) (tw_hand_on w)" unfolding w by (rule left_at_once [OF l])
  show "\<exists>os. ho_next (tw_hand_on w) = map op_journey os \<and>
      (\<forall>one \<in> set os. kept_hold (we_config env) pk (tg_body tg) one \<in> set (ho_queued (tw_hand_on w)))"
    unfolding w using left_at_kept [OF l] assms(4) by (simp add: work_hand_on_def made_kept_def)
  show "written_over env w" using assms(2,3)
    unfolding assms(1) work_written_def Let_def l written_over_def by (auto split: option.splits)
qed

lemma work_advance_kept:
  assumes "work_advance env rn pk j body inst ev md = (r, inst', md')" and "\<And>why. r \<noteq> Inl (Unfit why)" and "made_kept env pk body md"
  shows "made_kept env pk body md'"
proof -
  obtain mk where "advance_loop env rn pk j body inst \<lparr>mk_events = [ev], mk_ended = None, mk_carried = 0, mk_made = md\<rparr> = (r, inst', mk)"
    and "md' = mk_made mk" using assms(1) by (auto simp: work_advance_def split: prod.splits)
  from advance_loop_kept [OF this(1)] this(2) assms(2,3) show ?thesis by simp
qed

lemma work_take_written:
  assumes "work_take env rn pk tg j m n = (Inr (Some w), streams)"
  shows "ho_claim (tw_hand_on w) = tg_claim tg" and "left_once (rn_queue rn) (tw_hand_on w)" and "written_over env w"
    and "\<exists>os. ho_next (tw_hand_on w) = map op_journey os \<and>
      (\<forall>one \<in> set os. kept_hold (we_config env) pk (tg_body tg) one \<in> set (ho_queued (tw_hand_on w)))"
proof -
  let ?md = "(made_none n [])\<lparr>md_messages := [mg_id m \<mapsto> m]\<rparr>"
  from assms obtain keys i was inst ev r inst' md' ended where
    inst: "work_instance env rn j keys = Inr (i, was)"
    and adv: "work_advance env rn pk j (tg_body tg) inst ev ?md = (r, inst', md')" and r: "\<And>why. r \<noteq> Inl (Unfit why)"
    and w: "w = work_written env rn tg j (i, case was of None \<Rightarrow> 0 | Some r \<Rightarrow> ir_turns r) inst' ended md'"
    unfolding work_take_def Let_def
    by (auto split: sum.splits prod.splits flow_refused.splits)
  have "made_kept env pk (tg_body tg) ?md" by (simp add: made_kept_def made_none_def)
  note facts = work_written_facts [OF w work_instance_read [OF inst] refl work_advance_kept [OF adv r this]]
  show "ho_claim (tw_hand_on w) = tg_claim tg" "left_once (rn_queue rn) (tw_hand_on w)" "written_over env w"
    "\<exists>os. ho_next (tw_hand_on w) = map op_journey os \<and>
      (\<forall>one \<in> set os. kept_hold (we_config env) pk (tg_body tg) one \<in> set (ho_queued (tw_hand_on w)))"
    by (fact facts)+
qed

text \<open>What a turn under the claim \<open>c\<close> did, on whichever branch it ended.\<close>

definition handed_once ::
  "('a, 'd, 'u, 'f) work_env \<Rightarrow> ('i, 'a, 'u) running \<Rightarrow> pickup \<Rightarrow> string \<Rightarrow> claim \<Rightarrow> turn_run \<Rightarrow> bool" where
  "handed_once env rn pk body c run \<longleftrightarrow>
     (tn_write run = None \<or> tn_failed run = None) \<and>
     (tn_turned run = TDone \<longrightarrow> (\<exists>w. tn_write run = Some w \<and> we_turn env w = Inr True)) \<and>
     (case tn_write run of
        None \<Rightarrow> True
      | Some w \<Rightarrow> ho_claim (tw_hand_on w) = c \<and> left_once (rn_queue rn) (tw_hand_on w) \<and> written_over env w \<and>
          (\<exists>os. ho_next (tw_hand_on w) = map op_journey os \<and>
             (\<forall>one \<in> set os. kept_hold (we_config env) pk body one \<in> set (ho_queued (tw_hand_on w))))) \<and>
     (case tn_failed run of
        None \<Rightarrow> True
      | Some ho \<Rightarrow> ho_claim ho = c \<and> left_once (rn_queue rn) ho \<and> j_state (ho_result ho) = Failed \<and>
          ho_leaves ho = [] \<and> ho_messages ho = [] \<and> ho_next ho = [] \<and> ho_queued ho = []) \<and>
     (tn_released run \<longrightarrow> (\<exists>why. tn_turned run = TWaits why) \<and> tn_failed run = None \<and>
        (\<forall>w. tn_write run = Some w \<longrightarrow> we_turn env w = Inr False))"

lemma handed_released [simp]: "handed_once env rn pk body c (turn_released why known)"
  by (simp add: handed_once_def turn_released_def)

lemma handed_ends [simp]: "t \<noteq> TDone \<Longrightarrow> handed_once env rn pk body c (turn_ends t known)"
  by (simp add: handed_once_def turn_ends_def)

lemma failed_hand_on_left [simp]: "left_once (rn_queue rn) (failed_hand_on rn tg j why)" "ho_claim (failed_hand_on rn tg j why) = tg_claim tg"
  by (simp_all add: failed_hand_on_def left_once_def work_hand_on_def)

lemma turn_writes_handed:
  assumes "work_take env rn pk tg j m n = took"
  shows "handed_once env rn pk (tg_body tg) (tg_claim tg) (turn_writes env rn tg j known took)"
proof -
  obtain r streams where took: "took = (r, streams)" by fastforce
  show ?thesis
  proof (cases r)
    case (Inl why)
    show ?thesis unfolding took Inl turn_writes_def
      by (auto simp: handed_once_def turn_ends_def failed_hand_on_def work_hand_on_def left_once_def made_none_def Let_def
          split: sum.split bool.split)
  next
    case (Inr wo)
    show ?thesis
    proof (cases wo)
      case None
      then show ?thesis unfolding took Inr turn_writes_def by (simp add: handed_once_def turn_released_def)
    next
      case (Some w)
      note facts = work_take_written [OF assms [unfolded took Inr Some]]
      show ?thesis unfolding took Inr Some turn_writes_def handed_once_def turn_ends_def turn_released_def
        using facts by (auto split: sum.split bool.split)
    qed
  qed
qed

lemma turn_placed_handed: "handed_once env rn pk (h_body h) c (turn_placed env rn pk c h j m known)"
proof -
  define point where "point = (case j_sequences j of [] \<Rightarrow> None | sq # _ \<Rightarrow> Some (seq_queue sq, seq_skips sq))"
  define tg where "tg = \<lparr>tg_claim = c, tg_body = h_body h, tg_point = point\<rparr>"
  have "handed_once env rn pk (h_body h) c (turn_writes env rn tg j known' (work_take env rn pk tg j m 1))" for known'
    using turn_writes_handed [of env rn pk tg j m 1, OF refl] by (simp add: tg_def)
  then show ?thesis unfolding turn_placed_def Let_def point_def [symmetric] tg_def [symmetric]
    by (auto split: prod.split sum.split bool.split)
qed

text \<open>C6: a turn of a Work Process is one write. It asks for at most one of the two writes there are, and is done
  only where Xmip Storage took it. The write is under the Message's own claim; it leaves the Message in
  exactly one way - out of its queue and completed, in it with its time, or in it failed; it writes one
  Instance, over exactly the turns that were read of it, and its keys name no other; and every Journey
  the turn opened is kept in its destination's queue or its Subscription's. A turn that fails writes the
  failure and nothing of what it made, and a claim is given back only where nothing was written.\<close>

theorem turn_hands_on_once:
  assumes "turn env rn pk h known = run"
  shows "(tn_turned run = TDone \<longrightarrow> (\<exists>c. sr_claim (we_store env) (h_journey h) = Inr (Some c))) \<and>
    (case sr_claim (we_store env) (h_journey h) of
       Inr (Some c) \<Rightarrow>
         (tn_write run = None \<or> tn_failed run = None) \<and>
         (tn_turned run = TDone \<longrightarrow> (\<exists>w. tn_write run = Some w \<and> we_turn env w = Inr True)) \<and>
         (case tn_write run of
            None \<Rightarrow> True
          | Some w \<Rightarrow> ho_claim (tw_hand_on w) = c \<and> left_once (rn_queue rn) (tw_hand_on w) \<and> written_over env w \<and>
              (\<exists>os. ho_next (tw_hand_on w) = map op_journey os \<and>
                 (\<forall>one \<in> set os. kept_hold (we_config env) pk (h_body h) one \<in> set (ho_queued (tw_hand_on w))))) \<and>
         (case tn_failed run of
            None \<Rightarrow> True
          | Some ho \<Rightarrow> ho_claim ho = c \<and> left_once (rn_queue rn) ho \<and> j_state (ho_result ho) = Failed \<and>
              ho_leaves ho = [] \<and> ho_messages ho = [] \<and> ho_next ho = [] \<and> ho_queued ho = []) \<and>
         (tn_released run \<longrightarrow> (\<exists>why. tn_turned run = TWaits why) \<and> tn_failed run = None \<and>
            (\<forall>w. tn_write run = Some w \<longrightarrow> we_turn env w = Inr False))
     | _ \<Rightarrow> tn_write run = None \<and> tn_failed run = None \<and> \<not> tn_released run)"
proof (cases "\<exists>c. sr_claim (we_store env) (h_journey h) = Inr (Some c)")
  case True
  then obtain c where c: "sr_claim (we_store env) (h_journey h) = Inr (Some c)" by blast
  have "handed_once env rn pk (h_body h) c run"
    unfolding assms [symmetric] turn_def c
    by (auto split: sum.split option.split found.split prod.split placing.split simp: turn_placed_handed)
  then show ?thesis unfolding c handed_once_def by simp
next
  case False
  then show ?thesis using assms [symmetric]
    by (auto simp: turn_def turn_ends_def split: sum.splits option.splits)
qed

text \<open>A Work Process that publishes its Message and ends, with the Subscription \<open>s\<close> holding one Message it has
  read, and another Subscription that holds nothing.\<close>

definition publishes_and_ends :: "(nat, unit) flow" where
  "publishes_and_ends = \<lparr>fl_advance = (\<lambda>i ev now. (i + 1, Inr [ActPublish 2, ActEnded OCompleted])), fl_reads = [], fl_sets = [], fl_new = 0,
     fl_read = (\<lambda>_. Inr 0), fl_form = (\<lambda>_. []), fl_next_due = (\<lambda>_. None), fl_keys = (\<lambda>_. []), fl_turns = (\<lambda>i. i)\<rparr>"

definition sample_running :: "(nat, unit, string) running" where
  "sample_running = \<lparr>rn_name = ''w'', rn_flow = publishes_and_ends, rn_sets = [], rn_promote = (\<lambda>_. Inr Map.empty), rn_queue = 9,
     rn_call = no_units_call, rn_splitter = no_units_splitter\<rparr>"

definition kept_message :: message where
  "kept_message = \<lparr>mg_id = 2, mg_first = (3, 10), mg_rest = []\<rparr>"

definition sample_store :: store where
  "sample_store = \<lparr>sr_read_journey = (\<lambda>_. Inr (Some [])), sr_read_message = (\<lambda>_. Inr (Some [])),
     sr_journey_of = (\<lambda>_. Inr (bare_journey\<lparr>j_messages := [2]\<rparr>)), sr_message_of = (\<lambda>_. Inr 2), sr_facts_of = (\<lambda>_. Inr []),
     sr_claim = (\<lambda>i. Inr (Some \<lparr>cl_journey = i, cl_holder = ''n'', cl_token = 0, cl_fence = 0\<rparr>)),
     sr_read_place = (\<lambda>_ _. Inr []), sr_hand_on = (\<lambda>_. Inr True)\<rparr>"

definition sample_work :: "(unit, string, string, nat \<times> nat list) work_env" where
  "sample_work = \<lparr>we_cluster = ''c'', we_named = length, we_sends = sample_sends, we_config = two_threads, we_lease = 30, we_ids = (\<lambda>n. n),
     we_now = 0, we_promote = (\<lambda>_. Inr Map.empty), we_route = (\<lambda>_. sample_routing),
     we_following = (\<lambda>j i c held. Inr (bare_journey\<lparr>journey_id := i\<rparr>)), we_assigned = (\<lambda>m a i. m\<lparr>mg_id := i\<rparr>),
     we_batched = (\<lambda>m i sections. m\<lparr>mg_id := i\<rparr>), we_split = lines_env, we_debatched = (\<lambda>m i sx values. m\<lparr>mg_id := i\<rparr>),
     we_readings = (\<lambda>_. []), we_failures = (\<lambda>_. []), we_shown = (\<lambda>_. ''i''), we_key_words = (\<lambda>_. []), we_seq_words = (\<lambda>_. []),
     we_split_words = (\<lambda>_. []), we_read_message = (\<lambda>_. Inr (Some kept_message)), we_kept = (\<lambda>_. kept_message), we_store = sample_store,
     we_ledger = open_ledger, we_read_held = (\<lambda>_. Inr \<lparr>pg_held = [], pg_count = 0\<rparr>), we_read_key = (\<lambda>_. Inr None),
     we_read_instance = (\<lambda>_. Inr None), we_turn = (\<lambda>_. Inr True), we_hand_on = (\<lambda>_. Inr True)\<rparr>"

definition drained_pickup :: pickup where
  "drained_pickup = \<lparr>pk_node = ''n'', pk_entries = [resumed_entry\<lparr>pe_queue := 6, pe_pending := False, pe_cursor := 1, pe_taken := {0}\<rparr>]\<rparr>"

definition sample_turn :: turn_run where
  "sample_turn = turn sample_work sample_running drained_pickup \<lparr>h_queue = 9, h_journey = 1, h_body = []\<rparr> {}"

lemma sample_turn_done:
  "(tn_turned sample_turn, map_option (\<lambda>w. map (\<lambda>h. (h_queue h, h_journey h)) (ho_queued (tw_hand_on w))) (tn_write sample_turn)) =
     (TDone, Some [(6, 1), (5, 2)])"
  by code_simp

theorem turn_hands_on_once_witness:
  "\<exists>w. tn_write sample_turn = Some w \<and> left_once 9 (tw_hand_on w) \<and> written_over sample_work w \<and> tn_failed sample_turn = None"
proof -
  have ends: "tn_turned sample_turn = TDone" using sample_turn_done by simp
  obtain c where c: "sr_claim (we_store sample_work) 1 = Inr (Some c)" by (simp add: sample_work_def sample_store_def)
  from turn_hands_on_once [OF sample_turn_def [symmetric]] c ends
  obtain w where "tn_write sample_turn = Some w" "tn_write sample_turn = None \<or> tn_failed sample_turn = None"
    "left_once (rn_queue sample_running) (tw_hand_on w)" "written_over sample_work w"
    by (auto split: option.splits)
  then show ?thesis by (auto simp: sample_running_def)
qed

text \<open>What a Work Process publishes is not announced. The turn's write keeps a Message in the queue of a
  Subscription that has read all it held; nothing is counted for it and the Subscription stays with
  nothing to read, while the Publication of a received Message would have woken it
  (\<open>pickup_published\<close>).\<close>

theorem work_publish_unannounced:
  "\<exists>w h. tn_turned sample_turn = TDone \<and> tn_write sample_turn = Some w \<and> h \<in> set (ho_queued (tw_hand_on w)) \<and>
     h_queue h = pe_queue (hd (pk_entries drained_pickup)) \<and> \<not> pickup_ready now drained_pickup \<and>
     pickup_ready now (pickup_published (held_of drained_pickup [] False [opened_one (\<lambda>i c m. bare_journey) (2, 3) 1 (hd sample_routing, ToSendPort ''p'')])
       drained_pickup)"
proof -
  obtain w where w: "tn_turned sample_turn = TDone" "tn_write sample_turn = Some w"
    "map (\<lambda>h. (h_queue h, h_journey h)) (ho_queued (tw_hand_on w)) = [(6, 1), (5, 2)]" using sample_turn_done by auto
  then obtain h hs where hs: "ho_queued (tw_hand_on w) = h # hs" "h_queue h = 6" by (auto simp: map_eq_Cons_conv)
  then have h: "h \<in> set (ho_queued (tw_hand_on w))" "h_queue h = 6" by simp_all
  have "\<not> pickup_ready now drained_pickup"
    by (simp add: pickup_ready_def drained_pickup_def entry_ready_def)
  moreover have "pickup_ready now (pickup_published (held_of drained_pickup [] False
      [opened_one (\<lambda>i c m. bare_journey) (2, 3) 1 (hd sample_routing, ToSendPort ''p'')]) drained_pickup)"
    by (simp add: pickup_ready_def drained_pickup_def entry_ready_def held_of_def holding_one_def holding_none_def pickup_published_def
        entry_published_def entry_at_def sample_routing_def opened_one_def pickup_index_def pe_name_def cs_name_def resumed_entry_def
        unfiled_def Let_def)
  ultimately show ?thesis using w h by (intro exI [of _ w] exI [of _ h]) (simp add: drained_pickup_def)
qed

end
