(* ===== verification/Work_Step.thy ===== *)
theory Work_Step
  imports Work_Turn
begin

text \<open>
  \<open>src/work_step.rs\<close>, \<open>src/work_step/dispatch.rs\<close> and \<open>src/work_step/opened.rs\<close>: what the Work Process step keeps behind its lock - the
  Messages in a turn, the queues to read now, the timers - and its dispatching. Each section under the lock is
  one step, the turns run between them. A queue is read a page at a time to its end; the loop is partial, and
  ends with everything due where Xmip Storage answers pages of a queue.
\<close>

section \<open>The state behind the lock\<close>

record work_state =
  wo_owned :: "ident set"
  wo_asked :: "ident list"
  wo_due :: "(ident \<times> instant) list"
  wo_closed :: bool

definition work_new :: work_state where
  "work_new = \<lparr>wo_owned = {}, wo_asked = [], wo_due = [], wo_closed = False\<rparr>"

definition work_lease :: duration where "work_lease = 30 * 10 ^ 9"

definition work_scan :: duration where "work_scan = 10 ^ 9"

definition work_runs :: "('i, 'a, 'u) running list \<Rightarrow> string \<Rightarrow> bool" where
  "work_runs rns name \<longleftrightarrow> list_ex (\<lambda>rn. rn_name rn = name) rns"

definition work_ask :: "('i, 'a, 'u) running list \<Rightarrow> ident \<Rightarrow> work_state \<Rightarrow> work_state" where
  "work_ask rns q st = (if list_ex (\<lambda>rn. rn_queue rn = q) rns then st\<lparr>wo_asked := push_new q (wo_asked st)\<rparr> else st)"

definition work_ask_every :: "('i, 'a, 'u) running list \<Rightarrow> work_state \<Rightarrow> work_state" where
  "work_ask_every rns st = st\<lparr>wo_asked := fold push_new (map rn_queue rns) (wo_asked st)\<rparr>"

definition work_close :: "work_state \<Rightarrow> work_state" where
  "work_close st = st\<lparr>wo_closed := True\<rparr>"

definition work_own :: "ident \<Rightarrow> work_state \<Rightarrow> bool \<times> work_state" where
  "work_own j st = (j \<notin> wo_owned st, st\<lparr>wo_owned := insert j (wo_owned st)\<rparr>)"

definition work_disown :: "ident \<Rightarrow> ident \<Rightarrow> bool \<Rightarrow> work_state \<Rightarrow> work_state" where
  "work_disown j q readable st =
     (let st = st\<lparr>wo_owned := wo_owned st - {j}\<rparr> in
      if readable then st\<lparr>wo_asked := push_new q (wo_asked st)\<rparr> else st)"

section \<open>Timers\<close>

fun noted_in :: "ident \<Rightarrow> instant \<Rightarrow> (ident \<times> instant) list \<Rightarrow> (ident \<times> instant) list" where
  "noted_in q at [] = [(q, at)]"
| "noted_in q at ((k, t) # due) = (if k = q then (k, min t at) # due else (k, t) # noted_in q at due)"

definition work_noted :: "ident \<Rightarrow> duration \<Rightarrow> instant \<Rightarrow> work_state \<Rightarrow> work_state" where
  "work_noted q after now st = st\<lparr>wo_due := noted_in q (now + after) (wo_due st)\<rparr>"

text \<open>\<open>next\<close>: when it wakes by itself, whether it goes on now, and what it takes.\<close>

definition work_wakes :: "instant \<Rightarrow> work_state \<Rightarrow> instant" where
  "work_wakes until st = Min (set (map snd (wo_due st) @ [until]))"

definition next_goes_on :: "instant \<Rightarrow> instant \<Rightarrow> work_state \<Rightarrow> bool" where
  "next_goes_on until now st \<longleftrightarrow> wo_closed st \<or> wo_asked st \<noteq> [] \<or> work_wakes until st \<le> now"

definition next_taken :: "instant \<Rightarrow> work_state \<Rightarrow> (bool \<times> ident list) \<times> work_state" where
  "next_taken now st =
     ((wo_closed st, fold (\<lambda>(q, t) asked. if t \<le> now then push_new q asked else asked) (wo_due st) (wo_asked st)),
      st\<lparr>wo_asked := [], wo_due := filter (\<lambda>(q, t). \<not> t \<le> now) (wo_due st)\<rparr>)"

section \<open>A queue read to its end\<close>

record work_held =
  wh_hold :: hold
  wh_failed :: bool

record due_page =
  dp_held :: "work_held list"
  dp_next_due_in :: "duration option"

definition due_page_size :: nat where "due_page_size = 64"

text \<open>Beside what was read, the waits noted for the queue, each as it was read.\<close>

partial_function (option) due_loop ::
  "('k \<Rightarrow> string + due_page) \<Rightarrow> (work_held \<Rightarrow> 'k) \<Rightarrow> 'k \<Rightarrow> work_held list \<Rightarrow> duration list \<Rightarrow> (work_held list \<times> duration list) option" where
  "due_loop read_due after at got waits =
     (case read_due at of
        Inl _ \<Rightarrow> Some (got, waits)
      | Inr page \<Rightarrow>
         let waits = (case dp_next_due_in page of None \<Rightarrow> waits | Some left \<Rightarrow> waits @ [left]) in
         if dp_held page \<noteq> [] \<and> length (dp_held page) = due_page_size
         then due_loop read_due after (after (last (dp_held page))) (got @ dp_held page) waits
         else Some (got @ dp_held page, waits))"

definition work_due :: "('k \<Rightarrow> string + due_page) \<Rightarrow> (work_held \<Rightarrow> 'k) \<Rightarrow> 'k \<Rightarrow> (work_held list \<times> duration list) option" where
  "work_due read_due after start = due_loop read_due after start [] []"

text \<open>What a storage answers of a queue: up to a page of it, from its start or from after an entry.\<close>

definition pages_of :: "('k \<Rightarrow> string + due_page) \<Rightarrow> (work_held \<Rightarrow> 'k) \<Rightarrow> 'k \<Rightarrow> work_held list \<Rightarrow> bool" where
  "pages_of read_due after start q \<longleftrightarrow>
     (\<exists>left. read_due start = Inr \<lparr>dp_held = take due_page_size q, dp_next_due_in = left\<rparr>) \<and>
     (\<forall>a e b. q = a @ e # b \<longrightarrow> (\<exists>left. read_due (after e) = Inr \<lparr>dp_held = take due_page_size b, dp_next_due_in = left\<rparr>))"

lemma due_loop_reads:
  assumes "pages_of read_due after start q" and "q = a @ b"
    and "\<exists>left. read_due at = Inr \<lparr>dp_held = take due_page_size b, dp_next_due_in = left\<rparr>"
  shows "\<exists>waits'. due_loop read_due after at got waits = Some (got @ b, waits')"
  using assms(2,3)
proof (induction "length b" arbitrary: a b at got waits rule: less_induct)
  case less
  then obtain left where page: "read_due at = Inr \<lparr>dp_held = take due_page_size b, dp_next_due_in = left\<rparr>" by blast
  let ?p = "take due_page_size b"
  show ?case
  proof (cases "length ?p = due_page_size")
    case True
    then have p: "?p \<noteq> []" by (auto simp: due_page_size_def)
    have "b = ?p @ drop due_page_size b" by simp
    then have "b = butlast ?p @ last ?p # drop due_page_size b"
      using append_butlast_last_id [OF p] by (metis append.assoc append_Cons append_Nil)
    then have q: "q = (a @ butlast ?p) @ last ?p # drop due_page_size b" "q = (a @ ?p) @ drop due_page_size b" using less.prems(1) by simp_all
    have more: "\<exists>left. read_due (after (last ?p)) = Inr \<lparr>dp_held = take due_page_size (drop due_page_size b), dp_next_due_in = left\<rparr>"
      using assms(1) q(1) unfolding pages_of_def by blast
    have "length (drop due_page_size b) < length b" using p by (cases b) (auto simp: due_page_size_def)
    from less.hyps [OF this q(2) more] obtain waits' where
      "due_loop read_due after (after (last ?p)) (got @ ?p) (case left of None \<Rightarrow> waits | Some l \<Rightarrow> waits @ [l]) =
         Some ((got @ ?p) @ drop due_page_size b, waits')" by blast
    then show ?thesis using p True by (subst due_loop.simps) (simp add: page Let_def)
  next
    case False
    then have "?p = b" by (simp add: due_page_size_def)
    then show ?thesis using False by (subst due_loop.simps) (simp add: page Let_def)
  qed
qed

theorem due_reads_every:
  assumes "pages_of read_due after start q"
  shows "\<exists>waits. work_due read_due after start = Some (q, waits)"
  using due_loop_reads [OF assms, of "[]" q start "[]" "[]"] assms by (simp add: work_due_def pages_of_def)

section \<open>The scan and the turns\<close>

text \<open>\<open>scan\<close>: of what was read, what is taken a turn of - not failed, not seen in this read, not in a turn here.\<close>

fun scan_owns :: "work_held list \<Rightarrow> ident set \<Rightarrow> work_state \<Rightarrow> work_held list \<times> work_state" where
  "scan_owns [] seen st = ([], st)"
| "scan_owns (h # hs) seen st =
     (let j = h_journey (wh_hold h) in
      if wh_failed h then scan_owns hs seen st
      else if j \<in> seen then scan_owns hs seen st
      else case work_own j st of
             (False, st) \<Rightarrow> scan_owns hs (insert j seen) st
           | (True, st) \<Rightarrow> (case scan_owns hs (insert j seen) st of (taken, st) \<Rightarrow> (h # taken, st)))"

definition scan_sequenced :: "sends \<Rightarrow> ('i, 'a, 'u) running \<Rightarrow> bool" where
  "scan_sequenced s rn \<longleftrightarrow> points_of s (ToWorkProcess (rn_name rn)) \<noteq> []"

text \<open>\<open>settled\<close>: a turn over, what is told of it, and the state it leaves.\<close>

definition settled_says :: "('i, 'a, 'u) running \<Rightarrow> turned \<Rightarrow> string option" where
  "settled_says rn t =
     (case t of TFailed why \<Rightarrow> Some (rn_name rn @ '': '' @ why) | TUnwritten why \<Rightarrow> Some why | _ \<Rightarrow> None)"

definition work_settled :: "('i, 'a, 'u) running list \<Rightarrow> ('i, 'a, 'u) running \<Rightarrow> ident \<Rightarrow> turned \<Rightarrow> work_state \<Rightarrow> work_state" where
  "work_settled rns rn j t st =
     (let st = work_disown j (rn_queue rn) (t = TDone) st in
      if t = TDone then work_ask_every rns st else st)"

text \<open>\<open>turn_due\<close>: every Message due taken a turn of in order, on this thread; what a turn remembers of the sequences
  headed is there for the next.\<close>

fun turn_each :: "('a, 'd, 'u, 'f) work_env \<Rightarrow> ('i, 'a, 'u) running \<Rightarrow> pickup \<Rightarrow> work_held list \<Rightarrow> headed \<Rightarrow> turned list \<times> headed" where
  "turn_each env rn pk [] known = ([], known)"
| "turn_each env rn pk (h # hs) known =
     (if wh_failed h then turn_each env rn pk hs known
      else let run = turn env rn pk (wh_hold h) known in
           case turn_each env rn pk hs (tn_known run) of (ts, known) \<Rightarrow> (tn_turned run # ts, known))"

fun turn_due :: "('a, 'd, 'u, 'f) work_env \<Rightarrow> pickup \<Rightarrow> (ident \<Rightarrow> work_held list) \<Rightarrow> ('i, 'a, 'u) running list \<Rightarrow> headed \<Rightarrow> turned list \<times> headed" where
  "turn_due env pk due [] known = ([], known)"
| "turn_due env pk due (rn # rns) known =
     (case turn_each env rn pk (due (rn_queue rn)) known of
        (ts, known) \<Rightarrow> (case turn_due env pk due rns known of (ts', known) \<Rightarrow> (ts @ ts', known)))"

text \<open>A round of \<open>dispatch\<close>: which queues are read, and when the next scan of all is.\<close>

definition round_reads :: "('i, 'a, 'u) running list \<Rightarrow> instant \<Rightarrow> instant \<Rightarrow> ident list \<Rightarrow> ('i, 'a, 'u) running list \<times> instant" where
  "round_reads rns next_scan now asked =
     (let every = next_scan \<le> now in
      (filter (\<lambda>rn. every \<or> rn_queue rn \<in> set asked) rns, if every then now + work_scan else next_scan))"

section \<open>The step as its threads run it\<close>

text \<open>A turn under way on this node: its Message's Journey and its Work Process.\<close>

record ('i, 'a, 'u) work_system =
  wy_state :: work_state
  wy_turns :: "(ident \<times> ('i, 'a, 'u) running) list"
  wy_reading :: "ident list"

inductive work_step :: "('i, 'a, 'u) running list \<Rightarrow> ('i, 'a, 'u) work_system \<Rightarrow> ('i, 'a, 'u) work_system \<Rightarrow> bool" for rns where
  asks: "work_step rns s (s\<lparr>wy_state := work_ask rns q (wy_state s)\<rparr>)"
| asks_every: "work_step rns s (s\<lparr>wy_state := work_ask_every rns (wy_state s)\<rparr>)"
| closes: "work_step rns s (s\<lparr>wy_state := work_close (wy_state s)\<rparr>)"
| nexts: "next_goes_on until now (wy_state s) \<Longrightarrow> next_taken now (wy_state s) = ((False, asked), st) \<Longrightarrow>
    work_step rns s (s\<lparr>wy_state := st, wy_reading := asked\<rparr>)"
| times: "work_step rns s (s\<lparr>wy_state := work_noted q after now (wy_state s)\<rparr>)"
| scans: "rn \<in> set rns \<Longrightarrow> scan_owns hs {} (wy_state s) = (taken, st) \<Longrightarrow>
    work_step rns s (s\<lparr>wy_state := st, wy_turns := wy_turns s @ map (\<lambda>h. (h_journey (wh_hold h), rn)) taken\<rparr>)"
| settles: "wy_turns s = before @ (j, rn) # rest \<Longrightarrow>
    work_step rns s (s\<lparr>wy_state := work_settled rns rn j t (wy_state s), wy_turns := before @ rest\<rparr>)"

definition work_start :: "('i, 'a, 'u) work_system \<Rightarrow> bool" where
  "work_start s \<longleftrightarrow> s = \<lparr>wy_state = work_new, wy_turns = [], wy_reading = []\<rparr>"

definition turns_inv :: "('i, 'a, 'u) running list \<Rightarrow> ('i, 'a, 'u) work_system \<Rightarrow> bool" where
  "turns_inv rns s \<longleftrightarrow> distinct (map fst (wy_turns s)) \<and> wo_owned (wy_state s) = fst ` set (wy_turns s) \<and>
     snd ` set (wy_turns s) \<subseteq> set rns"

lemma scan_owns_facts:
  "scan_owns hs seen st = (taken, st') \<Longrightarrow>
   wo_owned st' = wo_owned st \<union> (\<lambda>h. h_journey (wh_hold h)) ` set taken \<and>
   distinct (map (\<lambda>h. h_journey (wh_hold h)) taken) \<and> (\<lambda>h. h_journey (wh_hold h)) ` set taken \<inter> wo_owned st = {} \<and>
   list_all (\<lambda>h. \<not> wh_failed h) taken"
proof (induction hs arbitrary: seen st taken st')
  case (Cons h hs)
  let ?j = "h_journey (wh_hold h)"
  show ?case
  proof (cases "wh_failed h \<or> ?j \<in> seen")
    case True
    then have "scan_owns hs seen st = (taken, st')" using Cons.prems by (auto simp: Let_def split: if_splits)
    then show ?thesis by (rule Cons.IH)
  next
    case fresh: False
    let ?st = "st\<lparr>wo_owned := insert ?j (wo_owned st)\<rparr>"
    obtain more st1 where rest: "scan_owns hs (insert ?j seen) ?st = (more, st1)" by fastforce
    note ih = Cons.IH [OF rest]
    have "taken = (if ?j \<in> wo_owned st then more else h # more)" "st' = st1"
      using Cons.prems fresh rest by (auto simp: Let_def work_own_def split: if_splits bool.splits)
    with ih fresh show ?thesis by (auto simp: insert_absorb split: if_splits)
  qed
qed simp

lemma owned_kept [simp]:
  "wo_owned (work_ask rns q st) = wo_owned st" "wo_owned (work_ask_every rns st) = wo_owned st"
  "wo_owned (work_close st) = wo_owned st" "wo_owned (work_noted q after now st) = wo_owned st"
  "wo_owned (work_disown j q readable st) = wo_owned st - {j}" "wo_owned (work_settled rns rn j t st) = wo_owned st - {j}"
  by (simp_all add: work_ask_def work_ask_every_def work_close_def work_noted_def work_disown_def work_settled_def Let_def)

lemma turns_step: "work_step rns s t \<Longrightarrow> turns_inv rns s \<Longrightarrow> turns_inv rns t"
proof (induction rule: work_step.induct)
  case (nexts until now s asked st)
  then have "wo_owned st = wo_owned (wy_state s)" by (auto simp: next_taken_def)
  with nexts(3) show ?case by (simp add: turns_inv_def)
next
  case (scans rn hs s taken st)
  from scan_owns_facts [OF scans(2)] scans(1,3) show ?case
    by (auto simp: turns_inv_def comp_def image_Un image_image)
next
  case (settles s before j rn rest t)
  then show ?case by (auto simp: turns_inv_def)
qed (simp_all add: turns_inv_def)

interpretation work_turns: invariant_system work_start "work_step rns" "turns_inv rns"
  by unfold_locales (simp add: work_start_def turns_inv_def work_new_def, blast intro: turns_step)

lemma fold_push_new: "set (fold push_new qs asked) = set qs \<union> set asked"
  by (induction qs arbitrary: asked) auto

lemma settled_asks: "set (map rn_queue rns) \<subseteq> set (wo_asked (work_settled rns rn j TDone st))"
  "rn_queue rn \<in> set (wo_asked (work_settled rns rn j TDone st))"
  by (auto simp: work_settled_def work_disown_def work_ask_every_def fold_push_new Let_def)

text \<open>C28: on every interleaving of its dispatching and its turns a Message is in at most one turn on this node.
  Those in a turn are exactly those it counts its own; a scan, whatever it reads, takes up each Message once,
  none that failed and none in a turn; and a turn that was written gives its Message up and leaves its
  queue, and every other the node runs, to be read again.\<close>

theorem turns_exclusive:
  assumes "reach work_start (work_step rns) s"
  shows "distinct (map fst (wy_turns s)) \<and> wo_owned (wy_state s) = fst ` set (wy_turns s) \<and>
    (\<forall>hs taken st. scan_owns hs {} (wy_state s) = (taken, st) \<longrightarrow>
       distinct (map (\<lambda>h. h_journey (wh_hold h)) taken @ map fst (wy_turns s)) \<and> list_all (\<lambda>h. \<not> wh_failed h) taken) \<and>
    (\<forall>j rn. (j, rn) \<in> set (wy_turns s) \<longrightarrow>
       (let st = work_settled rns rn j TDone (wy_state s) in j \<notin> wo_owned st \<and> set (map rn_queue rns) \<subseteq> set (wo_asked st)))"
proof -
  have inv: "turns_inv rns s" by (rule work_turns.reach_inv [OF assms])
  have "distinct (map (\<lambda>h. h_journey (wh_hold h)) taken @ map fst (wy_turns s)) \<and> list_all (\<lambda>h. \<not> wh_failed h) taken"
    if "scan_owns hs {} (wy_state s) = (taken, st)" for hs taken st
    using scan_owns_facts [OF that] inv by (auto simp: turns_inv_def)
  moreover have "set (map rn_queue rns) \<subseteq> set (wo_asked (work_settled rns rn j TDone (wy_state s)))" for rn j
    by (rule settled_asks(1))
  ultimately show ?thesis using inv unfolding turns_inv_def Let_def by simp
qed

text \<open>A node that runs one Work Process, one of its Messages in a turn.\<close>

definition one_turning :: "(nat, unit, string) work_system" where
  "one_turning = \<lparr>wy_state = work_new\<lparr>wo_owned := {7}\<rparr>, wy_turns = [(7, sample_running)], wy_reading = []\<rparr>"

lemma one_turning_reached: "reach work_start (work_step [sample_running]) one_turning"
proof -
  let ?h = "\<lparr>wh_hold = \<lparr>h_queue = 9, h_journey = 7, h_body = []\<rparr>, wh_failed = False\<rparr>"
  let ?s = "\<lparr>wy_state = work_new, wy_turns = [], wy_reading = []\<rparr>"
  have "scan_owns [?h] {} (wy_state ?s) = ([?h], work_new\<lparr>wo_owned := {7}\<rparr>)" by (simp add: work_own_def work_new_def)
  from work_step.scans [OF _ this, of sample_running] have "work_step [sample_running] ?s one_turning" by (simp add: one_turning_def)
  moreover have "reach work_start (work_step [sample_running]) ?s" by (rule reach_init) (simp add: work_start_def)
  ultimately show ?thesis by (rule reach_step [rotated])
qed

theorem turns_exclusive_witness:
  "distinct (map fst (wy_turns one_turning)) \<and> wo_owned (wy_state one_turning) = {7} \<and> fst ` set (wy_turns one_turning) = {7}"
proof -
  have "wo_owned (wy_state one_turning) = fst ` set (wy_turns one_turning)" "distinct (map fst (wy_turns one_turning))"
    using turns_exclusive [OF one_turning_reached] by blast+
  then show ?thesis by (simp add: one_turning_def)
qed

text \<open>A timer noted for a queue is there until the queue is read for it: the dispatching goes on by then, and what
  it takes then has the queue.\<close>

definition timed :: "ident \<Rightarrow> instant \<Rightarrow> work_state \<Rightarrow> bool" where
  "timed q at st \<longleftrightarrow> (\<exists>t \<le> at. (q, t) \<in> set (wo_due st))"

lemma noted_in_timed: "\<exists>t \<le> at. (q, t) \<in> set (noted_in q at due)"
proof (induction q at due rule: noted_in.induct)
  case (2 q at k t due)
  then show ?case by (cases "k = q") (auto intro: exI [of _ "min t at"])
qed simp

lemma noted_in_kept: "(k, t) \<in> set due \<Longrightarrow> \<exists>t' \<le> t. (k, t') \<in> set (noted_in q at due)"
  by (induction q at due rule: noted_in.induct) (auto intro: min.cobounded1)

lemma fold_due: "set (fold (\<lambda>(q, t) asked. if t \<le> now then push_new q asked else asked) due asked) =
  set asked \<union> fst ` set (filter (\<lambda>(q, t). t \<le> now) due)"
  by (induction due arbitrary: asked) auto

lemma scan_owns_due: "scan_owns hs seen st = (taken, st') \<Longrightarrow> wo_due st' = wo_due st"
  by (induction hs seen st arbitrary: taken rule: scan_owns.induct)
    (auto simp: Let_def work_own_def split: if_splits prod.splits bool.splits)

lemma due_kept [simp]:
  "wo_due (work_ask rns q st) = wo_due st" "wo_due (work_ask_every rns st) = wo_due st"
  "wo_due (work_close st) = wo_due st" "wo_due (work_settled rns rn j t st) = wo_due st"
  by (simp_all add: work_ask_def work_ask_every_def work_close_def work_disown_def work_settled_def Let_def)

theorem timer_never_dropped:
  assumes "work_step rns s s'" and "timed q at (wy_state s)"
  shows "(timed q at (wy_state s') \<or> q \<in> set (wy_reading s')) \<and> (at \<le> now \<longrightarrow> next_goes_on until now (wy_state s))"
proof
  show "timed q at (wy_state s') \<or> q \<in> set (wy_reading s')"
    using assms
  proof (induction rule: work_step.induct)
    case (nexts until now s asked st)
    then obtain t where t: "t \<le> at" "(q, t) \<in> set (wo_due (wy_state s))" by (auto simp: timed_def)
    show ?case
    proof (cases "t \<le> now")
      case True
      with t nexts(2) show ?thesis by (force simp: next_taken_def fold_due)
    next
      case False
      with t nexts(2) show ?thesis by (auto simp: next_taken_def timed_def)
    qed
  next
    case (times s q' after now)
    then show ?case by (auto simp: timed_def work_noted_def) (meson noted_in_kept order_trans)
  next
    case (scans rn hs s taken st)
    then show ?case using scan_owns_due [OF scans(2)] by (simp add: timed_def)
  qed (auto simp: timed_def)
  show "at \<le> now \<longrightarrow> next_goes_on until now (wy_state s)"
  proof
    assume "at \<le> now"
    moreover obtain t where "t \<le> at" "(q, t) \<in> set (wo_due (wy_state s))" using assms(2) by (auto simp: timed_def)
    ultimately show "next_goes_on until now (wy_state s)"
      unfolding next_goes_on_def work_wakes_def by (intro disjI2 order_trans [OF Min_le [of _ t]]) (auto intro: rev_image_eqI)
  qed
qed

section \<open>The Work Processes opened\<close>

record work_process =
  wp_name :: string
  wp_module :: "string option"
  wp_unit :: "string option"

text \<open>\<open>opened\<close>: every Work Process that names its unit, or every problem there was; \<open>libraries_flow\<close> opens a unit and
  \<open>new\<close> is \<open>Running::new\<close> over the cluster's sets and the linked sources.\<close>

fun sets_read :: "(string \<Rightarrow> string + key_word) \<Rightarrow> (key_error \<Rightarrow> string) \<Rightarrow> (string \<times> string list) list \<Rightarrow> string list \<times> resolved_set list" where
  "sets_read read_word words [] = ([], [])"
| "sets_read read_word words ((name, keys) # rest) =
     (case sets_read read_word words rest of
        (problems, sets) \<Rightarrow>
         (case read_set read_word name keys of
            Inl e \<Rightarrow> (words e # problems, sets)
          | Inr st \<Rightarrow> (problems, st # sets)))"

fun opened_each ::
  "(string \<Rightarrow> string \<Rightarrow> string + ('i, 'a) flow) \<Rightarrow> (string \<Rightarrow> ('i, 'a) flow \<Rightarrow> string + ('i, 'a, 'u) running) \<Rightarrow> work_process list \<Rightarrow>
     string list \<times> ('i, 'a, 'u) running list" where
  "opened_each libraries_flow new [] = ([], [])"
| "opened_each libraries_flow new (p # ps) =
     (case opened_each libraries_flow new ps of
        (problems, rns) \<Rightarrow>
         (case (wp_module p, wp_unit p) of
            (Some md, Some un) \<Rightarrow>
              (case (case libraries_flow md un of Inl why \<Rightarrow> Inl why | Inr fl \<Rightarrow> new (wp_name p) fl) of
                 Inl why \<Rightarrow> ((''the Work Process '' @ quoted (wp_name p) @ '': '' @ why) # problems, rns)
               | Inr rn \<Rightarrow> (problems, rn # rns))
          | (None, None) \<Rightarrow> (problems, rns)
          | _ \<Rightarrow> ((''the Work Process '' @ quoted (wp_name p) @ '' names its unit by module and unit, both'') # problems, rns)))"

definition work_opened ::
  "(string \<Rightarrow> string + key_word) \<Rightarrow> (key_error \<Rightarrow> string) \<Rightarrow> (string \<Rightarrow> string \<Rightarrow> string + ('i, 'a) flow) \<Rightarrow>
     (subscriber \<Rightarrow> ident) \<Rightarrow> (resolved_set \<Rightarrow> string list) \<Rightarrow> (string list \<Rightarrow> string list \<times> (message \<Rightarrow> string + promoted)) \<Rightarrow>
     (string \<times> string list) list \<Rightarrow> work_process list \<Rightarrow> string list + ('i, 'a, 'u) running list" where
  "work_opened read_word words libraries_flow queue set_reads gathering correlations processes =
     (let (unread, sets) = sets_read read_word words correlations;
          (unopened, rns) = opened_each libraries_flow
            (\<lambda>name fl. running_new queue set_reads gathering name fl sets no_units_call no_units_splitter) processes in
      if unread @ unopened = [] then Inr rns else Inl (unread @ unopened))"

lemma running_new_named: "running_new queue set_reads gathering name fl sets call splitter = Inr rn \<Longrightarrow> rn_name rn = name \<and> rn_queue rn = queue (ToWorkProcess name)"
  by (auto simp: running_new_def split: sum.splits prod.splits list.splits)

lemma opened_each_named:
  assumes "\<And>name fl rn. new name fl = Inr rn \<Longrightarrow> rn_name rn = name"
  shows "opened_each libraries_flow new ps = ([], rns) \<Longrightarrow>
    map rn_name rns = map wp_name (filter (\<lambda>p. wp_module p \<noteq> None) ps) \<and> list_all (\<lambda>p. (wp_module p = None) = (wp_unit p = None)) ps"
proof (induction ps arbitrary: rns)
  case (Cons p ps)
  then show ?case using assms
    by (auto split: prod.splits option.splits sum.splits)
qed simp

text \<open>What is opened is every Work Process that names its unit, in order, each with its own queue, and none names its
  unit by half.\<close>

theorem opened_every_process:
  assumes "work_opened read_word words libraries_flow queue set_reads gathering correlations processes = Inr rns"
  shows "map rn_name rns = map wp_name (filter (\<lambda>p. wp_module p \<noteq> None) processes) \<and>
    list_all (\<lambda>p. (wp_module p = None) = (wp_unit p = None)) processes"
proof -
  from assms obtain sets where
    "opened_each libraries_flow (\<lambda>name fl. running_new queue set_reads gathering name fl sets no_units_call no_units_splitter) processes = ([], rns)"
    by (auto simp: work_opened_def Let_def split: prod.splits if_splits)
  then show ?thesis by (rule opened_each_named [rotated]) (use running_new_named in blast)
qed

end
