(* ===== verification/Workers.thy ===== *)
theory Workers
  imports Prelude
begin

text \<open>
  \<open>src/plane/workers.rs\<close>: the threads a listener answers its connections on. A connection is handed to a waiting thread,
  else to a new one; a thread that has answered waits for the next where few wait, and ends otherwise. The
  listener's runs, its threads and its stop are one interleaving here, a step for each section under a lock and each
  look at the flag; a thread's channel is named by the thread, since it waits on one at a time.
\<close>

section \<open>The threads\<close>

definition idle_most :: nat where "idle_most = 8"

datatype worker = Answering nat | Asking | Awaiting | Over

datatype run_phase = Checked | Holds nat | Runs | Refused

datatype stop_phase = Serves | Stopping | Cleared

record workers =
  wr_idle :: "nat list"
  wr_threads :: "nat \<rightharpoonup> worker"
  wr_runs :: "nat \<rightharpoonup> run_phase"
  wr_ran :: "nat list"
  wr_next :: nat
  wr_stop :: stop_phase

definition workers_new :: workers where
  "workers_new = \<lparr>wr_idle = [], wr_threads = Map.empty, wr_runs = Map.empty, wr_ran = [], wr_next = 0, wr_stop = Serves\<rparr>"

text \<open>The first half of \<open>run\<close>: stopped or not, and a waiting thread's channel taken where there is one.\<close>

definition run_checks :: "nat \<Rightarrow> workers \<Rightarrow> workers" where
  "run_checks work s = s\<lparr>wr_runs := (wr_runs s)(work \<mapsto> if wr_stop s = Serves then Checked else Refused)\<rparr>"

text \<open>A thread started on \<open>work\<close>, or none where the platform starts none.\<close>

definition run_spawns :: "bool \<Rightarrow> nat \<Rightarrow> workers \<Rightarrow> workers" where
  "run_spawns started work s =
     (if started
      then s\<lparr>wr_next := wr_next s + 1, wr_threads := (wr_threads s)(wr_next s \<mapsto> Answering work), wr_runs := (wr_runs s)(work \<mapsto> Runs)\<rparr>
      else s\<lparr>wr_runs := (wr_runs s)(work \<mapsto> Refused)\<rparr>)"

definition run_pops :: "bool \<Rightarrow> nat \<Rightarrow> workers \<Rightarrow> workers" where
  "run_pops started work s =
     (if wr_idle s = [] then run_spawns started work s
      else s\<lparr>wr_idle := butlast (wr_idle s), wr_runs := (wr_runs s)(work \<mapsto> Holds (last (wr_idle s)))\<rparr>)"

text \<open>Its work sent to the thread that waits; where that thread ended meanwhile the work comes back, and is spawned.\<close>

definition run_sends :: "bool \<Rightarrow> nat \<Rightarrow> nat \<Rightarrow> workers \<Rightarrow> workers" where
  "run_sends started work t s =
     (if wr_threads s t = Some Awaiting
      then s\<lparr>wr_threads := (wr_threads s)(t \<mapsto> Answering work), wr_runs := (wr_runs s)(work \<mapsto> Runs)\<rparr>
      else run_spawns started work s)"

text \<open>\<open>answering\<close>: what a thread does once its work is over, under the lock.\<close>

definition worker_asks :: "nat \<Rightarrow> workers \<Rightarrow> workers" where
  "worker_asks t s =
     (if wr_stop s \<noteq> Serves \<or> idle_most \<le> length (wr_idle s) then s\<lparr>wr_threads := (wr_threads s)(t \<mapsto> Over)\<rparr>
      else s\<lparr>wr_idle := wr_idle s @ [t], wr_threads := (wr_threads s)(t \<mapsto> Awaiting)\<rparr>)"

text \<open>A sender of the thread's channel is still held: it is among the waiting, or a run holds it.\<close>

definition sender_held :: "nat \<Rightarrow> workers \<Rightarrow> bool" where
  "sender_held t s \<longleftrightarrow> t \<in> set (wr_idle s) \<or> (\<exists>work. wr_runs s work = Some (Holds t))"

inductive workers_step :: "workers \<Rightarrow> workers \<Rightarrow> bool" where
  checks: "wr_runs s work = None \<Longrightarrow> workers_step s (run_checks work s)"
| pops: "wr_runs s work = Some Checked \<Longrightarrow> workers_step s (run_pops started work s)"
| sends: "wr_runs s work = Some (Holds t) \<Longrightarrow> workers_step s (run_sends started work t s)"
| answers: "wr_threads s t = Some (Answering work) \<Longrightarrow>
    workers_step s (s\<lparr>wr_threads := (wr_threads s)(t \<mapsto> Asking), wr_ran := wr_ran s @ [work]\<rparr>)"
| panics: "wr_threads s t = Some (Answering work) \<Longrightarrow>
    workers_step s (s\<lparr>wr_threads := (wr_threads s)(t \<mapsto> Over), wr_ran := wr_ran s @ [work]\<rparr>)"
| asks: "wr_threads s t = Some Asking \<Longrightarrow> workers_step s (worker_asks t s)"
| let_off: "wr_threads s t = Some Awaiting \<Longrightarrow> \<not> sender_held t s \<Longrightarrow> workers_step s (s\<lparr>wr_threads := (wr_threads s)(t \<mapsto> Over)\<rparr>)"
| stops: "wr_stop s = Serves \<Longrightarrow> workers_step s (s\<lparr>wr_stop := Stopping\<rparr>)"
| clears: "wr_stop s = Stopping \<Longrightarrow> workers_step s (s\<lparr>wr_stop := Cleared, wr_idle := []\<rparr>)"

section \<open>Each connection answered once\<close>

text \<open>Who waits, who holds a waiting thread, and what is under way.\<close>

definition waits_inv :: "workers \<Rightarrow> bool" where
  "waits_inv s \<longleftrightarrow> distinct (wr_idle s) \<and> length (wr_idle s) \<le> idle_most \<and>
     (\<forall>t. t \<in> set (wr_idle s) \<longrightarrow> wr_threads s t = Some Awaiting \<and> (\<forall>work. wr_runs s work \<noteq> Some (Holds t))) \<and>
     (\<forall>work t. wr_runs s work = Some (Holds t) \<longrightarrow> wr_threads s t = Some Awaiting) \<and>
     (\<forall>v w t. wr_runs s v = Some (Holds t) \<longrightarrow> wr_runs s w = Some (Holds t) \<longrightarrow> v = w) \<and>
     (\<forall>t. wr_threads s t \<noteq> None \<longrightarrow> t < wr_next s) \<and>
     (wr_stop s = Cleared \<longrightarrow> wr_idle s = [])"

definition works_inv :: "workers \<Rightarrow> bool" where
  "works_inv s \<longleftrightarrow> distinct (wr_ran s) \<and>
     (\<forall>work. (wr_runs s work = Some Runs) = (work \<in> set (wr_ran s) \<or> (\<exists>t. wr_threads s t = Some (Answering work)))) \<and>
     (\<forall>t work. wr_threads s t = Some (Answering work) \<longrightarrow> work \<notin> set (wr_ran s)) \<and>
     (\<forall>t t' work. wr_threads s t = Some (Answering work) \<longrightarrow> wr_threads s t' = Some (Answering work) \<longrightarrow> t = t')"

lemma last_not_butlast: "distinct xs \<Longrightarrow> xs \<noteq> [] \<Longrightarrow> last xs \<notin> set (butlast xs)"
  by (metis append_butlast_last_id distinct_butlast not_distinct_conv_prefix)

lemma waits_inv_spawns:
  assumes "waits_inv s" and "wr_runs s work = Some Checked \<or> wr_runs s work = Some (Holds t)"
  shows "waits_inv (run_spawns started work s)"
proof -
  have "wr_threads s (wr_next s) = None" using assms(1) unfolding waits_inv_def by (metis less_irrefl)
  then show ?thesis using assms by (auto simp: waits_inv_def run_spawns_def less_Suc_eq)
qed

lemma waits_inv_step:
  assumes "waits_inv s" and "workers_step s s'"
  shows "waits_inv s'"
  using assms(2)
proof (cases rule: workers_step.cases)
  case (pops work started)
  show ?thesis
  proof (cases "wr_idle s = []")
    case True
    then show ?thesis using waits_inv_spawns assms(1) pops by (simp add: run_pops_def)
  next
    case False
    then have "last (wr_idle s) \<in> set (wr_idle s)" "last (wr_idle s) \<notin> set (butlast (wr_idle s))"
      using assms(1) last_not_butlast by (auto simp: waits_inv_def)
    then show ?thesis using assms(1) pops False
      by (auto simp: waits_inv_def run_pops_def distinct_butlast dest: in_set_butlastD)
  qed
next
  case (sends work t started)
  then show ?thesis using assms(1) by (fastforce simp: waits_inv_def run_sends_def)
qed (use assms(1) in \<open>fastforce simp: waits_inv_def run_checks_def worker_asks_def sender_held_def\<close>)+

text \<open>What is not yet running is neither among what ran nor on a thread.\<close>

lemma not_running:
  assumes "works_inv s" and "wr_runs s work \<noteq> Some Runs"
  shows "work \<notin> set (wr_ran s)" and "wr_threads s t \<noteq> Some (Answering work)"
  using assms by (auto simp: works_inv_def)

lemma works_inv_begins:
  assumes "works_inv s" and "wr_runs s work \<noteq> Some Runs" and "wr_threads s t = None \<or> wr_threads s t = Some Awaiting"
  shows "works_inv (s\<lparr>wr_threads := (wr_threads s)(t \<mapsto> Answering work), wr_runs := (wr_runs s)(work \<mapsto> Runs)\<rparr>)"
proof -
  have "((wr_threads s)(t \<mapsto> Answering work)) t' = Some (Answering w) \<longleftrightarrow> t' = t \<and> w = work \<or> wr_threads s t' = Some (Answering w)" for t' w
    using assms(3) by auto
  moreover have "((wr_runs s)(work \<mapsto> Runs)) w = Some Runs \<longleftrightarrow> w = work \<or> wr_runs s w = Some Runs" for w by simp
  ultimately show ?thesis using assms(1) not_running [OF assms(1,2)] by (auto simp: works_inv_def simp del: fun_upd_apply)
qed

lemma works_inv_runs:
  assumes "works_inv s" and "wr_runs s work \<noteq> Some Runs" and "phase \<noteq> Runs"
  shows "works_inv (s\<lparr>wr_runs := (wr_runs s)(work \<mapsto> phase)\<rparr>)"
  using assms not_running [OF assms(1,2)] by (auto simp: works_inv_def)

lemma works_inv_upd [simp]:
  "works_inv (s\<lparr>wr_idle := i\<rparr>) = works_inv s" "works_inv (s\<lparr>wr_stop := p\<rparr>) = works_inv s" "works_inv (s\<lparr>wr_next := n\<rparr>) = works_inv s"
  by (simp_all add: works_inv_def)

lemma works_inv_rests:
  assumes "works_inv s" and "wr_threads s t = Some Asking \<or> wr_threads s t = Some Awaiting" and "ph \<in> {Awaiting, Over}"
  shows "works_inv (s\<lparr>wr_threads := (wr_threads s)(t \<mapsto> ph)\<rparr>)"
proof -
  have "((wr_threads s)(t \<mapsto> ph)) t' = Some (Answering w) \<longleftrightarrow> wr_threads s t' = Some (Answering w)" for t' w using assms(2,3) by auto
  then show ?thesis using assms(1) by (simp add: works_inv_def del: fun_upd_apply)
qed

lemma works_inv_over:
  assumes "works_inv s" and "wr_threads s t = Some (Answering work)" and "ph \<in> {Asking, Over}"
  shows "works_inv (s\<lparr>wr_threads := (wr_threads s)(t \<mapsto> ph), wr_ran := wr_ran s @ [work]\<rparr>)"
proof -
  have "((wr_threads s)(t \<mapsto> ph)) t' = Some (Answering w) \<longleftrightarrow> w \<noteq> work \<and> wr_threads s t' = Some (Answering w)" for t' w
    using assms unfolding works_inv_def by auto
  then show ?thesis using assms(1,2) by (auto simp: works_inv_def simp del: fun_upd_apply)
qed

lemma works_inv_spawns:
  assumes "works_inv s" and "waits_inv s" and "wr_runs s work \<noteq> Some Runs"
  shows "works_inv (run_spawns started work s)"
proof -
  have fresh: "wr_threads s (wr_next s) = None" using assms(2) unfolding waits_inv_def by (metis less_irrefl)
  then show ?thesis using works_inv_runs [OF assms(1,3), of Refused] works_inv_begins [of "s\<lparr>wr_next := wr_next s + 1\<rparr>" work "wr_next s"] assms
    by (simp add: run_spawns_def)
qed

lemma works_inv_step:
  assumes "works_inv s" and "waits_inv s" and "workers_step s s'"
  shows "works_inv s'"
  using assms(3)
proof (cases rule: workers_step.cases)
  case (checks work)
  then show ?thesis using works_inv_runs [OF assms(1), of work] by (simp add: run_checks_def)
next
  case (pops work started)
  then show ?thesis using works_inv_spawns [OF assms(1,2)] assms(1)
      works_inv_runs [of "s\<lparr>wr_idle := butlast (wr_idle s)\<rparr>" work "Holds (last (wr_idle s))"]
    by (simp add: run_pops_def)
next
  case (sends work t started)
  then show ?thesis using works_inv_spawns [OF assms(1,2)] works_inv_begins [OF assms(1)] by (simp add: run_sends_def)
next
  case (asks t)
  then show ?thesis using assms(1) works_inv_rests [of s t Over] works_inv_rests [of "s\<lparr>wr_idle := wr_idle s @ [t]\<rparr>" t Awaiting]
    by (simp add: worker_asks_def)
next
  case (let_off t)
  then show ?thesis using works_inv_rests [OF assms(1), of t] by simp
qed (use assms(1) works_inv_over in simp_all)

interpretation listener: invariant_system "\<lambda>s. s = workers_new" workers_step "\<lambda>s. waits_inv s \<and> works_inv s"
proof
  show "s = workers_new \<Longrightarrow> waits_inv s \<and> works_inv s" for s by (simp add: workers_new_def waits_inv_def works_inv_def)
  show "waits_inv s \<and> works_inv s \<Longrightarrow> workers_step s s' \<Longrightarrow> waits_inv s' \<and> works_inv s'" for s s'
    using waits_inv_step works_inv_step by blast
qed

text \<open>C33: On every interleaving of a listener's runs, its threads and its stop, a connection that was taken runs, and is answered
  once; one that was refused never runs; a connection sent to a waiting thread always finds it waiting, so the
  branch where the work comes back is never taken; at most eight threads wait; and once the stop has let them go
  none waits for good: a thread that still waits is one a run is handing its connection, or its receive has ended.\<close>

theorem connections_answered_once:
  assumes "reach (\<lambda>s. s = workers_new) workers_step s"
  shows "distinct (wr_ran s) \<and> length (wr_idle s) \<le> 8 \<and>
    (\<forall>work. (wr_runs s work = Some Runs) = (work \<in> set (wr_ran s) \<or> (\<exists>t. wr_threads s t = Some (Answering work)))) \<and>
    (\<forall>work t. wr_runs s work = Some (Holds t) \<longrightarrow> wr_threads s t = Some Awaiting) \<and>
    (\<forall>t. wr_stop s = Cleared \<and> wr_threads s t = Some Awaiting \<longrightarrow>
        (\<exists>work. wr_runs s work = Some (Holds t)) \<or> workers_step s (s\<lparr>wr_threads := (wr_threads s)(t \<mapsto> Over)\<rparr>))"
proof -
  have inv: "waits_inv s" "works_inv s" using listener.reach_inv [OF assms] by blast+
  have last: "(\<exists>work. wr_runs s work = Some (Holds t)) \<or> workers_step s (s\<lparr>wr_threads := (wr_threads s)(t \<mapsto> Over)\<rparr>)"
    if "wr_stop s = Cleared" "wr_threads s t = Some Awaiting" for t
    using inv(1) that let_off [of s t] by (auto simp: waits_inv_def sender_held_def)
  show ?thesis using inv last unfolding waits_inv_def works_inv_def idle_most_def by blast
qed

text \<open>One connection answered, and its thread waiting when a stop lets it go.\<close>

definition one_answered :: workers where
  "one_answered = \<lparr>wr_idle = [], wr_threads = [0 \<mapsto> Awaiting], wr_runs = [5 \<mapsto> Runs], wr_ran = [5], wr_next = 1, wr_stop = Cleared\<rparr>"

lemma one_answered_reached: "reach (\<lambda>s. s = workers_new) workers_step one_answered"
proof -
  let ?r = "reach (\<lambda>s. s = workers_new) workers_step"
  have "?r workers_new" by (rule reach_init) simp
  then have "?r (workers_new\<lparr>wr_runs := [5 \<mapsto> Checked]\<rparr>)"
    by (rule reach_step) (use checks [of workers_new 5] in \<open>simp add: workers_new_def run_checks_def\<close>)
  then have "?r (workers_new\<lparr>wr_runs := [5 \<mapsto> Runs], wr_threads := [0 \<mapsto> Answering 5], wr_next := 1\<rparr>)"
    by (rule reach_step) (use pops [of "workers_new\<lparr>wr_runs := [5 \<mapsto> Checked]\<rparr>" 5 True] in \<open>simp add: workers_new_def run_pops_def run_spawns_def\<close>)
  then have "?r (workers_new\<lparr>wr_runs := [5 \<mapsto> Runs], wr_threads := [0 \<mapsto> Asking], wr_next := 1, wr_ran := [5]\<rparr>)"
    by (rule reach_step) (use answers [of "workers_new\<lparr>wr_runs := [5 \<mapsto> Runs], wr_threads := [0 \<mapsto> Answering 5], wr_next := 1\<rparr>" 0 5] in
      \<open>simp add: workers_new_def\<close>)
  then have "?r (workers_new\<lparr>wr_runs := [5 \<mapsto> Runs], wr_threads := [0 \<mapsto> Awaiting], wr_next := 1, wr_ran := [5], wr_idle := [0]\<rparr>)"
    by (rule reach_step) (use asks [of "workers_new\<lparr>wr_runs := [5 \<mapsto> Runs], wr_threads := [0 \<mapsto> Asking], wr_next := 1, wr_ran := [5]\<rparr>" 0] in
      \<open>simp add: workers_new_def worker_asks_def idle_most_def\<close>)
  then have "?r (one_answered\<lparr>wr_idle := [0], wr_stop := Stopping\<rparr>)"
    by (rule reach_step) (use stops [of "workers_new\<lparr>wr_runs := [5 \<mapsto> Runs], wr_threads := [0 \<mapsto> Awaiting], wr_next := 1, wr_ran := [5], wr_idle := [0]\<rparr>"] in
      \<open>simp add: workers_new_def one_answered_def\<close>)
  then show ?thesis
    by (rule reach_step) (use clears [of "one_answered\<lparr>wr_idle := [0], wr_stop := Stopping\<rparr>"] in \<open>simp add: one_answered_def\<close>)
qed

theorem connections_answered_once_witness:
  "wr_ran one_answered = [5] \<and> wr_threads one_answered 0 = Some Awaiting \<and>
   workers_step one_answered (one_answered\<lparr>wr_threads := [0 \<mapsto> Over]\<rparr>)"
proof -
  have s: "wr_stop one_answered = Cleared" "wr_threads one_answered 0 = Some Awaiting" by (simp_all add: one_answered_def)
  have "\<nexists>work. wr_runs one_answered work = Some (Holds 0)" by (simp add: one_answered_def)
  then have "workers_step one_answered (one_answered\<lparr>wr_threads := (wr_threads one_answered)(0 \<mapsto> Over)\<rparr>)"
    using connections_answered_once [OF one_answered_reached] s by blast
  moreover have "(wr_threads one_answered)(0 \<mapsto> Over) = [0 \<mapsto> Over]" by (simp add: one_answered_def)
  ultimately show ?thesis by (simp add: one_answered_def)
qed

end
