(* ===== verification/Spec2Isabelle.thy ===== *)
theory Spec2Isabelle
  imports Audit_Chain Pool Published Registration Remote_Nonces Remote_Surface Stream_Share Work_Step Workers
begin

text \<open>
  \<^bold>\<open>A verification development of the Xmip runtime\<close> (the crate under \<open>src/\<close>, its sources in \<open>src/src/\<close>).

  The runtime is a node of a message broker. A node reads a configuration its cluster's authority signed, plans what it starts, and
  opens its Receive Locations, Send Locations, Work Processes and its Xmip Storage. A Stream that arrives at a Receive Location passes the
  gates (who presents it, whether it may be posted), is routed to the Subscriptions that match it, is written into the Ledger with its Message and one
  Journey for each destination in one write, and only then is its sender told. From there its Journeys are queued: the send step claims them, reads
  their Stream once for all of them, sends each to its Port's Locations by the Port's policy, in the order of the sequences it is in, and
  writes what came of it; the work step turns the Instances of Work Processes, which hand on or publish further Messages; the pickup keeps what a paused
  Subscription holds. An operator reads and acts on a node over the operate plane: a listener that admits each call by the role of who proved
  to ask, a surface that follows the node, and relays that speak for browsers by handles the node itself issued.

  \<^bold>\<open>How the code is modelled.\<close> A struct is a record with the same parts, an enum a datatype, an operation one definition with every early
  return, and a section of code under a lock is one step: concurrent components are inductive step relations over those sections, and their
  properties hold of every state reached. What is asked of another crate, Xmip Storage or the operating system (an answer read, an
  identifier minted, a random draw, the clock) is an argument of the definition that asks it, and what a property relies on of it is a
  named hypothesis that a witness shows to hold at a concrete input. \<open>u64\<close> sums that may wrap are 64-bit words; instants and durations are
  nanoseconds; texts are lists of bytes. Loops are structural or terminating recursions. Two are bounded otherwise: a turn of
  a Work Process advances at most \<open>MOST_ACTS\<close> times, the source's own bound, and the reading of a queue's pages by the scan is a partial
  function, shown to end where the storage's pages do.

  \<^bold>\<open>The theories\<close>, from the shared to the composed:

  \<^item> \<open>Prelude\<close> (reachability and the locale \<open>invariant_system\<close>, which every concurrent component interprets at its own step relation; the locales
    \<open>places\<close>, of bounded places taken and given back, which the budget and the send step's admission provide, and \<open>wire_code\<close>, of values
    written as words and numbers) and \<open>Text\<close> (what is used of Rust's strings).

  \<^item> \<open>Budget\<close> (\<open>budget.rs\<close>), \<open>Pool\<close> (\<open>pool.rs\<close>), \<open>Workers\<close> (\<open>plane/workers.rs\<close>), \<open>Deadline\<close> (\<open>plane/deadline.rs\<close>): what a node
    holds at once never exceeds its budget; each piece of work runs once; each connection is answered once; a call is never waited for past its
    deadline.

  \<^item> \<open>Node_Start\<close> (\<open>signed.rs\<close>, \<open>start.rs\<close>, \<open>catalogue.rs\<close>, \<open>service.rs\<close>), \<open>Tuning\<close> (\<open>tuning.rs\<close>), \<open>Execution_Tree\<close> (\<open>execution_tree.rs\<close>,
    \<open>sequence/configured.rs\<close>), \<open>Startup\<close> (\<open>startup.rs\<close>, \<open>linked.rs\<close>, \<open>parties.rs\<close>, \<open>host.rs\<close>, \<open>capability_registry.rs\<close>), \<open>Storage_Plan\<close>
    (\<open>storage.rs\<close>, \<open>storage/opened.rs\<close>, \<open>presented.rs\<close>), \<open>Registration\<close> (\<open>registration.rs\<close>): a node runs only a slice its authority signed; a
    document becomes a tree of all it declares or reasons why not; no Location is dropped on the way to being opened; the budgets a node is
    tuned to fit; the commands a service manager is told are those defined.

  \<^item> \<open>Arrival\<close> (\<open>arrival.rs\<close>, \<open>receiving/gate.rs\<close>, \<open>message_path.rs\<close>, \<open>outcome.rs\<close>), \<open>Receiving\<close> (\<open>receiving.rs\<close> and the files under it,
    \<open>stopping.rs\<close>), \<open>Ledger_Stream\<close> and \<open>Publication\<close> (\<open>ledger.rs\<close>, \<open>ledger/\<close>, \<open>dead_message.rs\<close>, \<open>pickup/replay.rs\<close>), \<open>Audit_Chain\<close>
    (\<open>ledger/audit_chain.rs\<close>), \<open>Debatch\<close> (\<open>split.rs\<close>): nothing is kept that was not permitted and no sender is told before what it sent is durable;
    each arrival is told once, in order where the Location orders; a Publication keeps each Journey once, queued or held; a Stream is
    written as its chunks, whatever the reads; a Message is split into all its records or none.

  \<^item> \<open>Pickup\<close> (\<open>pickup.rs\<close> and the files under it, \<open>configured_subscription.rs\<close>), \<open>Held_Work\<close> (\<open>held_work.rs\<close>, \<open>send_step/scan.rs\<close>): what a Subscription
    holds is let go once and not left behind.

  \<^item> \<open>Sending\<close>, \<open>Departure\<close>, \<open>Correlation\<close>, \<open>Sequence\<close>, \<open>Renewal\<close>, \<open>Send_State\<close>, \<open>Send_Pass\<close>, \<open>Stream_Share\<close>, \<open>Port_Figures\<close> (\<open>sending.rs\<close>,
    \<open>departure.rs\<close>, \<open>work_step/keys.rs\<close>, \<open>sequence.rs\<close> and the files under it, \<open>send_step/\<close>, \<open>stream_share.rs\<close>): a departure is tried as often as its Port
    says, settles, and is called sent only while its claim surely holds; no two claims on a Message are surely held at once; exactly the
    first of a sequence is let through; the pool of claims is bounded; a pass writes what happened in one write.

  \<^item> \<open>Work_Turn\<close>, \<open>Work_Step\<close> (\<open>work_step/\<close>): a turn hands on what it made once, or nothing of it; an Instance is turned by one thread at a time.

  \<^item> \<open>Plane_Role\<close>, \<open>Plane_Held\<close>, \<open>Plane_Vouched\<close>, \<open>Plane_Call\<close>, \<open>Plane_Served\<close> (\<open>plane/role.rs\<close>, \<open>held.rs\<close>, \<open>handle.rs\<close>, \<open>fresh.rs\<close>,
    \<open>vouched.rs\<close>, \<open>possessed.rs\<close>, \<open>caller.rs\<close>, \<open>call.rs\<close>, \<open>served.rs\<close>; \<open>applied.rs\<close>, \<open>secret.rs\<close>): a call crosses the wire unchanged, an act
    is applied only where the role of who proved to ask admits it, a relay is vouched for only a caller that proved its key, and the registry of callers
    refines an abstract table of sessions.

  \<^item> \<open>Remote_Nonces\<close>, \<open>Remote_Surface\<close> (\<open>plane/remote/\<close>, \<open>remote.rs\<close>, \<open>follow.rs\<close>, \<open>shared.rs\<close>, \<open>board.rs\<close>), \<open>Published\<close> (\<open>running/publication.rs\<close>): a
    nonce is bound to one handshake; a surface speaks only for whom its node vouched, calls at most twice and says its node reached only while it is;
    a Send Port in pain is published as such.

  This theory composes the first of them: a slice delivered to a node is what the node reads, plans and is told to validate.

  \<^bold>\<open>What the model showed of the code.\<close> A Message picked up while its Journey is being taken is admitted under another place than it is owned under
  (\<open>hand_while_taking_leaks\<close>); a Message published while a paused Subscription's queue is read stays behind, or leaves the count of the held
  one too high (\<open>pickup_strands_held\<close>, \<open>held_count_drifts\<close>); a Message published by a turn is not announced to the pickup
  (\<open>work_publish_unannounced\<close>); a retried Message asks of a place it let go (\<open>retried_skip_holds_no_place\<close>); a count of nonces near \<open>u64\<close>'s most wraps
  (\<open>issue_count_wraps\<close>); a refused relay's act is not audited (\<open>refused_relay_unrecorded\<close>); a valid node with a Location that does not start is
  told not to validate (\<open>start_says_valid_when_all_start\<close>); an edit refused may hide the accepted slice (\<open>refused_edit_hides_accepted\<close>);
  two asks for nonces may run behind at once (\<open>two_asks_behind\<close>).

  \<^bold>\<open>Not modelled\<close>: the C header's exports (\<open>ffi/\<close>), conversions between raw pointers and the operations modelled here; connections, TLS, named pipes and the
  accept loops (\<open>plane/line.rs\<close>, \<open>listener.rs\<close>, \<open>local/\<close>, \<open>secure_listener.rs\<close>); the threads \<open>running.rs\<close> starts over the parts and joins;
  the loading of native libraries; service managers and watched directories, which are calls of the operating system; certificates read and signed,
  and the designer's edits, which hand what they are given to other crates; the numbers of the header's enums; and the tests' fixtures.
\<close>

section \<open>From a slice delivered to a node planned\<close>

text \<open>A slice delivered and kept where its node keeps it is what the node reads.\<close>

lemma delivered_read:
  assumes "signature_laws env key certificate" "sd_split env given = Inr (contents, s)"
    and "slice_delivered env name key certificate cluster given fs path = (None, fs')" "path \<noteq> anchor_at env name path"
    and "\<And>written. unkept env path written = None"
    and "st_parse_toml se contents = Inr d" "bound_applications se (sd_display env path) contents d = Inr (apps, af)"
  shows "fst (read_accepted env se name fs' path) = Inr ((d, apps, af), None)"
proof -
  obtain written where "fs' path = Some written" and accepted: "unkept env path written = None \<longrightarrow>
      slice_accepted env name fs' path written = (Inr (contents, None), fs'(kept_at env path written \<mapsto> written))"
    using delivered_slice_runs [OF assms(1-4)] by (elim exE conjE)
  then show ?thesis using mp [OF accepted assms(5)] assms(6,7) by (simp add: read_accepted_def read_node_def)
qed


definition one_inbox :: "(unit, unit) document" where
  "one_inbox = two_inboxes\<lparr>dc_receive_locations := [inbox True ''orders'']\<rparr>"

definition one_tree :: "(unit, unit) execution_tree" where
  "one_tree = tree_of one_inbox [] nothing_bound (tuning_of (default_integer some_defaults) (default_duration some_defaults))"

lemma one_inbox_built:
  "build_execution_tree plain_env one_inbox [] [] = Inr (one_tree, validate_startup_configuration plain_env one_inbox [])" "not_started one_tree = []"
proof -
  have tn: "tuning_read (read_of_nothing some_defaults) = Inr (tuning_of (default_integer some_defaults) (default_duration some_defaults))"
    using default_not_refused [OF some_defaults_declared] by (simp add: tuning_default_def split: sum.splits)
  have names: "\<not> blank ''orders''" "\<not> blank ''file:///in''" by (simp_all add: blank_def trim_plain plain_char_def)
  have "sr_errors (validate_startup_configuration plain_env one_inbox []) = []"
    using tn names
    by (simp add: validate_startup_configuration_def one_inbox_def two_inboxes_def plain_env_def own_location_problems_def
        validate_location_def inbox_def tuning_problems_def)
  then show "build_execution_tree plain_env one_inbox [] [] = Inr (one_tree, validate_startup_configuration plain_env one_inbox [])"
    using tn by (simp add: build_execution_tree_def report_is_valid_def Let_def one_tree_def plain_env_def)
  show "not_started one_tree = []"
    by (simp add: one_tree_def tree_of_def nothing_bound_def one_inbox_def two_inboxes_def starting_def inbox_def not_started_def)
qed

definition one_start :: "(unit, unit, unit) start_env" where
  "one_start = toy_start\<lparr>st_parse_toml := (\<lambda>_. Inr one_inbox)\<rparr>"


end
